(* ===== verification/Cdv_Prelude.thy ===== *)
theory Cdv_Prelude
  imports Main "HOL-Library.Word" "HOL-Library.Sublist"
begin

text \<open>
  The prelude of the development. It fixes how the C++ standard library is read in HOL:
  a \<^verbatim>\<open>std::string\<close> or \<^verbatim>\<open>std::string_view\<close> is a list of bytes (\<open>string\<close>), \<^verbatim>\<open>npos\<close> is \<open>None\<close>,
  \<^verbatim>\<open>size_t\<close> and \<^verbatim>\<open>uint64_t\<close> are 64-bit words where their width matters and \<open>nat\<close> for the
  length of a string that is in memory, \<^verbatim>\<open>std::tolower\<close> is the one of the "C" locale (nothing
  in the program calls \<^verbatim>\<open>setlocale\<close>), and \<^verbatim>\<open>std::to_string\<close> is decimal printing.
  Every theory of the development builds on the search, trimming, splitting and
  number lemmas collected here.
\<close>

section \<open>Collections\<close>

named_theorems find_laws \<open>laws of the search functions of std::string_view\<close>
named_theorems dec_laws \<open>laws of decimal printing and reading\<close>
named_theorems word_laws \<open>machine words read as natural numbers\<close>

type_synonym u64 = "64 word"
type_synonym u32 = "32 word"

section \<open>Bytes\<close>

abbreviation CR :: char where "CR \<equiv> CHR 0x0D"
abbreviation LF :: char where "LF \<equiv> CHR 0x0A"
abbreviation HTAB :: char where "HTAB \<equiv> CHR 0x09"
abbreviation CRLF :: string where "CRLF \<equiv> [CR, LF]"

text \<open>The numeric value of a byte read as \<^verbatim>\<open>unsigned char\<close>.\<close>

definition byte :: "char \<Rightarrow> nat" where
  "byte c = of_char c"

lemma byte_less_256 [simp]: "byte c < 256"
  by (simp add: byte_def)

lemma byte_inj [simp]: "byte c = byte d \<longleftrightarrow> c = d"
  by (simp add: byte_def)

definition tolower :: "char \<Rightarrow> char" where
  "tolower c = (if 65 \<le> byte c \<and> byte c \<le> 90 then char_of (byte c + 32) else c)"

lemma byte_char_of [simp]: "n < 256 \<Longrightarrow> byte (char_of n) = n"
  by (simp add: byte_def)

lemma byte_tolower: "byte (tolower c) = (if 65 \<le> byte c \<and> byte c \<le> 90 then byte c + 32 else byte c)"
  by (simp add: tolower_def)

lemma tolower_idem [simp]: "tolower (tolower c) = tolower c"
  by (simp add: tolower_def)

definition lowercase :: "string \<Rightarrow> string" where
  "lowercase s = map tolower s"

lemma lowercase_idem [simp]: "lowercase (lowercase s) = lowercase s"
  by (simp add: lowercase_def)

lemma length_lowercase [simp]: "length (lowercase s) = length s"
  by (simp add: lowercase_def)

definition is_digit :: "char \<Rightarrow> bool" where
  "is_digit c \<longleftrightarrow> 48 \<le> byte c \<and> byte c \<le> 57"

definition digit_value :: "char \<Rightarrow> nat" where
  "digit_value c = byte c - 48"

lemma digit_value_le [simp]: "is_digit c \<Longrightarrow> digit_value c \<le> 9"
  by (auto simp: is_digit_def digit_value_def)

section \<open>Searching: find, find_first_not_of, find_last_not_of\<close>

fun find_if :: "(char \<Rightarrow> bool) \<Rightarrow> string \<Rightarrow> nat option" where
  "find_if P [] = None"
| "find_if P (x # xs) = (if P x then Some 0 else map_option Suc (find_if P xs))"

definition find_char :: "char \<Rightarrow> string \<Rightarrow> nat option" where
  "find_char c = find_if (\<lambda>x. x = c)"

definition find_last :: "(char \<Rightarrow> bool) \<Rightarrow> string \<Rightarrow> nat option" where
  "find_last P s = map_option (\<lambda>i. length s - 1 - i) (find_if P (rev s))"

fun find_str :: "string \<Rightarrow> string \<Rightarrow> nat option" where
  "find_str pat [] = (if pat = [] then Some 0 else None)"
| "find_str pat (x # xs) =
     (if prefix pat (x # xs) then Some 0 else map_option Suc (find_str pat xs))"

lemma find_if_None [find_laws]: "find_if P s = None \<longleftrightarrow> (\<forall>x \<in> set s. \<not> P x)"
  by (induction s) auto

lemma find_if_Some [find_laws]:
  "find_if P s = Some i \<longleftrightarrow> i < length s \<and> P (s ! i) \<and> (\<forall>x \<in> set (take i s). \<not> P x)"
proof (induction s arbitrary: i)
  case Nil
  then show ?case by simp
next
  case (Cons x xs)
  then show ?case by (cases i) auto
qed

lemma find_if_less: "find_if P s = Some i \<Longrightarrow> i < length s"
  by (simp add: find_if_Some)

lemma find_if_append:
  "find_if P (s @ t) =
     (case find_if P s of Some i \<Rightarrow> Some i | None \<Rightarrow> map_option (\<lambda>i. length s + i) (find_if P t))"
  by (induction s) (auto simp: option.map_comp comp_def map_option_case split: option.split)

lemma find_char_append:
  "find_char c (s @ t) =
     (case find_char c s of Some i \<Rightarrow> Some i | None \<Rightarrow> map_option (\<lambda>i. length s + i) (find_char c t))"
  unfolding find_char_def by (rule find_if_append)

lemma find_char_None [find_laws]: "find_char c s = None \<longleftrightarrow> c \<notin> set s"
  by (auto simp: find_char_def find_if_None)

lemma find_char_Some [find_laws]:
  "find_char c s = Some i \<longleftrightarrow> i < length s \<and> s ! i = c \<and> c \<notin> set (take i s)"
  by (auto simp: find_char_def find_if_Some)

lemma find_char_first [simp]: "c \<notin> set s \<Longrightarrow> find_char c (s @ c # t) = Some (length s)"
  by (simp add: find_char_Some)

lemma find_char_split:
  assumes "find_char c s = Some i"
  shows "s = take i s @ c # drop (Suc i) s"
  using assms id_take_nth_drop[of i s] by (simp add: find_char_Some)

lemma find_last_None: "find_last P s = None \<longleftrightarrow> (\<forall>x \<in> set s. \<not> P x)"
  by (simp add: find_last_def find_if_None)

text \<open>The first occurrence of a pattern, as \<^verbatim>\<open>string_view::find\<close> returns it.\<close>

lemma find_str_Some [find_laws]:
  "find_str pat s = Some i \<longleftrightarrow>
     i \<le> length s \<and> prefix pat (drop i s) \<and> (\<forall>j < i. \<not> prefix pat (drop j s))"
proof (induction s arbitrary: i)
  case Nil
  then show ?case by auto
next
  case (Cons x xs)
  then show ?case by (cases i) (auto simp: All_less_Suc2)
qed

lemma find_str_None [find_laws]:
  "pat \<noteq> [] \<Longrightarrow> find_str pat s = None \<longleftrightarrow> (\<forall>j. \<not> prefix pat (drop j s))"
proof (induction s)
  case Nil
  then show ?case by simp
next
  case (Cons x xs)
  have "(\<forall>j. \<not> prefix pat (drop j (x # xs))) \<longleftrightarrow>
        \<not> prefix pat (x # xs) \<and> (\<forall>j. \<not> prefix pat (drop j xs))"
    by (metis drop0 drop_Suc_Cons not0_implies_Suc)
  with Cons show ?case by simp
qed

lemma find_str_Some_bound: "find_str pat s = Some i \<Longrightarrow> i + length pat \<le> length s"
  by (auto simp: find_str_Some dest: prefix_length_le)

lemma prefix_append_short: "length p \<le> length s \<Longrightarrow> prefix p (s @ t) = prefix p s"
  by (auto intro: prefix_length_prefix[of p "s @ t" s])

lemma find_str_append:
  assumes "find_str pat s = Some i"
  shows "find_str pat (s @ t) = Some i"
proof -
  note b = find_str_Some_bound[OF assms]
  have "prefix pat (drop j (s @ t)) = prefix pat (drop j s)" if "j \<le> i" for j
    using that b by (simp add: prefix_append_short)
  with assms b show ?thesis by (auto simp: find_str_Some)
qed

lemma find_str_take:
  assumes "find_str pat s = Some i" and "i + length pat \<le> n"
  shows "find_str pat (take n s) = Some i"
proof -
  note b = find_str_Some_bound[OF assms(1)]
  have "prefix pat (drop j s) = prefix pat (drop j (take n s))" if "j \<le> i" for j
  proof -
    have "drop j (take n s @ drop n s) = drop j (take n s) @ drop n s"
      using that b assms(2) by (subst drop_append) simp
    moreover have "length pat \<le> length (drop j (take n s))"
      using that b assms(2) by simp
    ultimately show ?thesis by (simp add: prefix_append_short)
  qed
  with assms b show ?thesis by (auto simp: find_str_Some)
qed

lemma find_str_prefix_cong:
  assumes "find_str pat s = Some i" and "take (i + length pat) s = take (i + length pat) s'"
  shows "find_str pat s' = Some i"
proof -
  have "find_str pat (take (i + length pat) s') = Some i"
    using find_str_take[OF assms(1), of "i + length pat"] assms(2) by simp
  from find_str_append[OF this, of "drop (i + length pat) s'"] show ?thesis by simp
qed

text \<open>A line that holds no CR is ended by the first CRLF.\<close>

lemma find_CRLF_line [find_laws]: "CR \<notin> set l \<Longrightarrow> find_str CRLF (l @ CR # LF # t) = Some (length l)"
  by (induction l) auto

text \<open>
  A block of non-empty lines without CR, each ended by CRLF, then an empty line: the empty line
  is found where it stands, and nowhere earlier.
\<close>

abbreviation CRLF2 :: string where "CRLF2 \<equiv> [CR, LF, CR, LF]"

definition lines_of :: "string list \<Rightarrow> string" where
  "lines_of ls = concat (map (\<lambda>l. l @ CRLF) ls)"

lemma lines_of_simps [simp]: "lines_of [] = []" "lines_of (l # ls) = l @ CR # LF # lines_of ls"
  by (simp_all add: lines_of_def)

lemma lines_of_append [simp]: "lines_of (ls @ ms) = lines_of ls @ lines_of ms"
  by (simp add: lines_of_def)

lemma find_CRLF2_skip:
  "CR \<notin> set l \<Longrightarrow> \<not> prefix CRLF t \<Longrightarrow>
   find_str CRLF2 (l @ CR # LF # t) = map_option (\<lambda>i. length l + 2 + i) (find_str CRLF2 t)"
proof (induction l)
  case Nil
  then show ?case
    by (cases t) (auto simp: option.map_comp comp_def)
next
  case (Cons x xs)
  then show ?case by (auto simp: option.map_comp comp_def)
qed

lemma find_CRLF2_here: "CR \<notin> set l \<Longrightarrow> find_str CRLF2 (l @ CR # LF # CR # LF # t) = Some (length l)"
  by (induction l) auto

lemma find_blank_line:
  assumes "\<forall>l \<in> set (l0 # ls). l \<noteq> [] \<and> CR \<notin> set l"
  shows "find_str CRLF2 (lines_of (l0 # ls) @ CR # LF # t) = Some (length (lines_of (l0 # ls)) - 2)"
  using assms
proof (induction ls arbitrary: l0)
  case Nil
  then show ?case using find_CRLF2_here[of l0 t] by simp
next
  case (Cons l ls)
  have "\<not> prefix CRLF (lines_of (l # ls) @ CR # LF # t)"
    using Cons.prems by (cases l) auto
  moreover have "find_str CRLF2 (lines_of (l # ls) @ CR # LF # t) = Some (length (lines_of (l # ls)) - 2)"
    using Cons.prems by (intro Cons.IH) auto
  ultimately show ?case
    using find_CRLF2_skip[of l0 "lines_of (l # ls) @ CR # LF # t"] Cons.prems by simp
qed

section \<open>Trimming blanks\<close>

definition is_blank :: "char \<Rightarrow> bool" where
  "is_blank c \<longleftrightarrow> c = CHR '' '' \<or> c = HTAB"

text \<open>
  The source trims optional whitespace with one idiom: the position of the first and the last
  byte that is neither SP nor HTAB, then the substring between them.
\<close>

definition trim_blanks :: "string \<Rightarrow> string" where
  "trim_blanks s =
     (case find_if (\<lambda>c. \<not> is_blank c) s of
        None \<Rightarrow> []
      | Some lo \<Rightarrow>
          (case find_last (\<lambda>c. \<not> is_blank c) s of
             None \<Rightarrow> []
           | Some hi \<Rightarrow> take (hi - lo + 1) (drop lo s)))"

lemma find_if_dropWhile: "find_if P s = Some i \<Longrightarrow> dropWhile (\<lambda>c. \<not> P c) s = drop i s"
  by (induction s arbitrary: i) (auto split: if_splits)

lemma find_if_eq_length: "find_if P s = Some i \<Longrightarrow> i = length (takeWhile (\<lambda>c. \<not> P c) s)"
  by (induction s arbitrary: i) (auto split: if_splits)

lemma trim_blanks_none: "(\<forall>c \<in> set s. is_blank c) \<Longrightarrow> trim_blanks s = []"
  using find_if_None[of "\<lambda>c. \<not> is_blank c" s] by (simp add: trim_blanks_def)

lemma trim_blanks_wrap:
  assumes "\<forall>c \<in> set a. is_blank c" "\<forall>c \<in> set b. is_blank c"
    and "m \<noteq> []" "\<not> is_blank (hd m)" "\<not> is_blank (last m)"
  shows "trim_blanks (a @ m @ b) = m"
proof -
  have *: "find_if (\<lambda>c. \<not> is_blank c) (u @ v) = Some (length u)"
    if "\<forall>c \<in> set u. is_blank c" "v \<noteq> []" "\<not> is_blank (hd v)" for u v
    using that by (auto simp: find_if_Some nth_append hd_conv_nth)
  have f: "find_if (\<lambda>c. \<not> is_blank c) (a @ m @ b) = Some (length a)"
    using assms *[of a "m @ b"] by simp
  have "find_if (\<lambda>c. \<not> is_blank c) (rev b @ rev m @ rev a) = Some (length b)"
    using assms *[of "rev b" "rev m @ rev a"] by (simp add: hd_append hd_rev)
  then have "find_last (\<lambda>c. \<not> is_blank c) (a @ m @ b) = Some (length a + length m - 1)"
    by (simp add: find_last_def)
  moreover have "length a + length m - 1 - length a + 1 = length m"
    using assms(3) by (cases m) simp_all
  ultimately show ?thesis using f by (simp add: trim_blanks_def)
qed

lemma trim_decompose:
  obtains "\<forall>c \<in> set s. is_blank c"
  | a m b where "s = a @ m @ b" "\<forall>c \<in> set a. is_blank c" "\<forall>c \<in> set b. is_blank c"
      "m \<noteq> []" "\<not> is_blank (hd m)" "\<not> is_blank (last m)"
proof (cases "\<forall>c \<in> set s. is_blank c")
  case True
  then show ?thesis by (rule that(1))
next
  case False
  define a where "a = takeWhile is_blank s"
  define r where "r = dropWhile is_blank s"
  define b where "b = rev (takeWhile is_blank (rev r))"
  define m where "m = rev (dropWhile is_blank (rev r))"
  have r: "r \<noteq> []" "\<not> is_blank (hd r)"
    using False by (auto simp: r_def dropWhile_eq_Nil_conv hd_dropWhile)
  have mb: "r = m @ b"
    unfolding m_def b_def by (metis rev_append rev_rev_ident takeWhile_dropWhile_id)
  have nb: "\<exists>c \<in> set r. \<not> is_blank c" using r by (metis hd_in_set)
  have m: "m \<noteq> []" using nb by (auto simp: m_def dropWhile_eq_Nil_conv)
  show ?thesis
  proof (rule that(2))
    show "s = a @ m @ b" unfolding a_def mb[symmetric] r_def by simp
    show "\<forall>c \<in> set a. is_blank c" by (auto simp: a_def dest: set_takeWhileD)
    show "\<forall>c \<in> set b. is_blank c" by (auto simp: b_def dest: set_takeWhileD)
    show "m \<noteq> []" by (rule m)
    show "\<not> is_blank (hd m)" using r m mb by simp
    show "\<not> is_blank (last m)"
      using m unfolding m_def by (simp add: last_rev hd_dropWhile)
  qed
qed

lemma set_trim_blanks: "set (trim_blanks s) \<subseteq> set s"
  by (rule trim_decompose[of s]) (auto simp: trim_blanks_none trim_blanks_wrap)

lemma trim_blanks_ends:
  "trim_blanks s \<noteq> [] \<Longrightarrow> \<not> is_blank (hd (trim_blanks s)) \<and> \<not> is_blank (last (trim_blanks s))"
  by (rule trim_decompose[of s]) (auto simp: trim_blanks_none trim_blanks_wrap)

lemma trim_blanks_id:
  assumes "s = [] \<or> (\<not> is_blank (hd s) \<and> \<not> is_blank (last s))"
  shows "trim_blanks s = s"
proof (cases "s = []")
  case True
  then show ?thesis by (simp add: trim_blanks_none)
next
  case False
  with assms show ?thesis using trim_blanks_wrap[of "[]" "[]" s] by simp
qed

lemma trim_blanks_idem [simp]: "trim_blanks (trim_blanks s) = trim_blanks s"
  using trim_blanks_ends[of s] by (intro trim_blanks_id) blast

section \<open>Splitting on a separator\<close>

text \<open>The reference meaning of the segment and list loops: split at every separator.\<close>

fun split_on :: "char \<Rightarrow> string \<Rightarrow> string list" where
  "split_on d [] = [[]]"
| "split_on d (x # xs) =
     (if x = d then [] # split_on d xs
      else (case split_on d xs of [] \<Rightarrow> [[x]] | seg # segs \<Rightarrow> (x # seg) # segs))"

fun join_on :: "char \<Rightarrow> string list \<Rightarrow> string" where
  "join_on d [] = []"
| "join_on d [s] = s"
| "join_on d (s # t # ts) = s @ d # join_on d (t # ts)"

lemma split_on_nonempty [simp]: "split_on d s \<noteq> []"
  by (induction s) (auto split: list.split)

lemma split_on_no_sep: "d \<notin> set s \<Longrightarrow> split_on d s = [s]"
  by (induction s) auto

lemma split_on_append_sep:
  "d \<notin> set s \<Longrightarrow> split_on d (s @ d # t) = s # split_on d t"
  by (induction s) auto

lemma split_on_step:
  "split_on d s =
     (case find_char d s of None \<Rightarrow> [s] | Some i \<Rightarrow> take i s # split_on d (drop (Suc i) s))"
proof (cases "find_char d s")
  case None
  then have "d \<notin> set s" by (simp add: find_char_None)
  with None show ?thesis by (simp add: split_on_no_sep)
next
  case (Some i)
  then have "s = take i s @ d # drop (Suc i) s" "d \<notin> set (take i s)"
    by (auto simp: find_char_split find_char_Some)
  then have "split_on d s = take i s # split_on d (drop (Suc i) s)"
    using split_on_append_sep by metis
  with Some show ?thesis by simp
qed

lemma split_on_segment: "seg \<in> set (split_on d s) \<Longrightarrow> d \<notin> set seg"
proof (induction s arbitrary: seg)
  case Nil
  then show ?case by simp
next
  case (Cons x xs)
  obtain u us where u: "split_on d xs = u # us" by (cases "split_on d xs") auto
  with Cons show ?case by (auto split: if_splits)
qed

lemma join_split [simp]: "join_on d (split_on d s) = s"
proof (induction s)
  case Nil
  then show ?case by simp
next
  case (Cons x xs)
  obtain u us where u: "split_on d xs = u # us" by (cases "split_on d xs") auto
  with Cons show ?case by (cases us) auto
qed

lemma split_join:
  "segs \<noteq> [] \<Longrightarrow> \<forall>s \<in> set segs. d \<notin> set s \<Longrightarrow> split_on d (join_on d segs) = segs"
  by (induction d segs rule: join_on.induct) (auto simp: split_on_no_sep split_on_append_sep)

section \<open>Decimal numbers\<close>

definition digit_char :: "nat \<Rightarrow> char" where
  "digit_char d = char_of (48 + d)"

fun nat_to_string :: "nat \<Rightarrow> string" where
  "nat_to_string n =
     (if n < 10 then [digit_char n] else nat_to_string (n div 10) @ [digit_char (n mod 10)])"

declare nat_to_string.simps [simp del]

definition to_string :: "int \<Rightarrow> string" where
  "to_string i = (if i < 0 then CHR ''-'' # nat_to_string (nat (- i)) else nat_to_string (nat i))"

definition dec_value :: "string \<Rightarrow> nat" where
  "dec_value s = foldl (\<lambda>v c. v * 10 + digit_value c) 0 s"

lemma digit_char_digit [simp]: "d < 10 \<Longrightarrow> is_digit (digit_char d)"
  by (simp add: is_digit_def digit_char_def)

lemma digit_value_char [simp]: "d < 10 \<Longrightarrow> digit_value (digit_char d) = d"
  by (simp add: digit_value_def digit_char_def)

lemma dec_value_Nil [simp]: "dec_value [] = 0"
  by (simp add: dec_value_def)

lemma dec_value_snoc [simp]: "dec_value (s @ [c]) = dec_value s * 10 + digit_value c"
  by (simp add: dec_value_def)

lemma nat_to_string_nonempty [simp]: "nat_to_string n \<noteq> []"
  by (subst nat_to_string.simps) simp

lemma nat_to_string_digits [dec_laws]: "c \<in> set (nat_to_string n) \<Longrightarrow> is_digit c"
proof (induction n rule: nat_to_string.induct)
  case (1 n)
  then show ?case by (cases "n < 10") (auto simp: nat_to_string.simps[of n])
qed

lemma dec_value_to_string [simp]: "dec_value (nat_to_string n) = n"
proof (induction n rule: nat_to_string.induct)
  case (1 n)
  show ?case
  proof (cases "n < 10")
    case True
    then show ?thesis
      using dec_value_snoc[of "[]" "digit_char n"] by (simp add: nat_to_string.simps[of n])
  next
    case False
    with 1 show ?thesis by (simp add: nat_to_string.simps[of n])
  qed
qed

text \<open>
  Reading digits into a bounded accumulator. The source refuses a digit when
  \<^verbatim>\<open>value > (max - digit) / 10\<close>, before it multiplies; on words of any width that is enough
  to keep the arithmetic exact.
\<close>

fun read_digits :: "u64 \<Rightarrow> u64 \<Rightarrow> string \<Rightarrow> u64 option" where
  "read_digits mx v [] = Some v"
| "read_digits mx v (c # cs) =
     (if \<not> is_digit c then None
      else let digit = of_nat (digit_value c) in
           if v > (mx - digit) div 10 then None else read_digits mx (v * 10 + digit) cs)"

lemma word_guard_iff:
  fixes v mx d :: u64
  assumes "unat d \<le> 9" "9 \<le> unat mx"
  shows "v > (mx - d) div 10 \<longleftrightarrow> unat v * 10 + unat d > unat mx"
proof -
  have "d \<le> mx" using assms by (simp add: word_le_nat_alt)
  then have "unat ((mx - d) div 10) = (unat mx - unat d) div 10"
    by (simp add: unat_div_distrib unat_sub)
  then have "v > (mx - d) div 10 \<longleftrightarrow> (unat mx - unat d) div 10 < unat v"
    by (simp add: word_less_nat_alt)
  also have "\<dots> \<longleftrightarrow> unat v * 10 + unat d > unat mx"
    using assms by (simp add: div_less_iff_less_mult) linarith
  finally show ?thesis .
qed

lemma word_accumulate:
  fixes v mx d :: u64
  assumes "unat v * 10 + unat d \<le> unat mx"
  shows "unat (v * 10 + d) = unat v * 10 + unat d"
proof -
  have mx: "unat mx < 2 ^ 64" using unsigned_less[where w=mx] by simp
  have "unat (v * 10) = unat v * 10"
    using assms mx by (simp add: unat_word_ariths)
  then show ?thesis using assms mx by (simp add: unat_word_ariths)
qed

lemma read_digits_iff [dec_laws]:
  assumes "9 \<le> unat mx" "unat v \<le> unat mx"
  shows "read_digits mx v s = Some r \<longleftrightarrow>
     (\<forall>c \<in> set s. is_digit c) \<and> foldl (\<lambda>a c. a * 10 + digit_value c) (unat v) s = unat r \<and>
     foldl (\<lambda>a c. a * 10 + digit_value c) (unat v) s \<le> unat mx"
  using assms(2)
proof (induction s arbitrary: v)
  case Nil
  then show ?case by (auto simp: word_unat_eq_iff)
next
  case (Cons c cs)
  have grow: "a \<le> foldl (\<lambda>a c. a * 10 + digit_value c) a xs" for a xs
    by (induction xs rule: rev_induct) auto
  show ?case
  proof (cases "is_digit c")
    case False
    then show ?thesis by simp
  next
    case True
    define d :: u64 where "d = of_nat (digit_value c)"
    have d: "unat d = digit_value c"
      using digit_value_le[OF True] by (simp add: d_def unat_of_nat)
    have d9: "unat d \<le> 9" using True d by simp
    show ?thesis
    proof (cases "unat v * 10 + unat d \<le> unat mx")
      case le: True
      have step: "unat (v * 10 + d) = unat v * 10 + digit_value c"
        using word_accumulate[OF le] d by simp
      have "read_digits mx v (c # cs) = read_digits mx (v * 10 + d) cs"
        using True le word_guard_iff[OF d9 assms(1), of v] by (simp add: Let_def d_def)
      with Cons.IH[of "v * 10 + d"] le step d True show ?thesis by simp
    next
      case False
      then have "read_digits mx v (c # cs) = None"
        using True word_guard_iff[OF d9 assms(1), of v] by (simp add: Let_def d_def)
      moreover have "unat mx < foldl (\<lambda>a c. a * 10 + digit_value c) (unat v) (c # cs)"
        using False d grow[of "unat v * 10 + digit_value c" cs] by simp
      ultimately show ?thesis by simp
    qed
  qed
qed

end
