(* ===== verification/Ring_Server.thy ===== *)
theory Ring_Server
  imports Cdv_Prelude "HOL-Library.Multiset"
begin

text \<open>
  The event loop of one ring: \<^verbatim>\<open>src/Server.cpp\<close>, \<^verbatim>\<open>include/caduvelox/Server.hpp\<close>, \<^verbatim>\<open>ServerState.hpp\<close> and the
  part of \<^verbatim>\<open>EventFd.hpp\<close> it uses. The record \<open>ring\<close> is what the ring thread can see and change: the
  submission queue, the count of operations in flight, the lifecycle state, the stop eventfd, the
  descriptors it has closed and the objects it has returned to its pools.

  What the kernel and the pools answer is not the program's: \<open>ora\<close> is the sequence of those
  answers and \<open>tick\<close> the next one to be read, so a statement for all \<open>ora\<close> is a statement for every
  behaviour of the environment. A negative answer is a failure (a null SQE, an exhausted pool, a
  negative errno). An object that is allocated gets a fresh identity; Thread\_Local\_Pool shows that
  a slot together with its generation is such an identity.
\<close>

section \<open>The environment\<close>

datatype ServerState = Running | Stopping | Aborting | Stopped

text \<open>What a submission queue entry asks the kernel to do.\<close>

datatype sqe_op =
    OpWrite int string
  | OpRecvMultishot int
  | OpTimeout nat
  | OpCancel nat
  | OpSplice int int int nat
  | OpAccept int
  | OpPollAdd int int
  | OpLinkTimeout nat
  | OpNop

record ring =
  ora :: "nat \<Rightarrow> int"
  tick :: nat
  in_flight :: int
  sq :: "(nat \<times> sqe_op) list"
  srv_state :: ServerState
  next_id :: nat
  freed :: "nat list"
  opened :: "int list"
  closed :: "int list"

definition ask :: "ring \<Rightarrow> int \<times> ring" where
  "ask w = (ora w (tick w), w\<lparr>tick := tick w + 1\<rparr>)"

text \<open>\<^verbatim>\<open>PoolManager::allocate\<close> and \<^verbatim>\<open>deallocate\<close>, seen from a job.\<close>

definition pool_alloc :: "ring \<Rightarrow> nat option \<times> ring" where
  "pool_alloc w =
     (let (a, w1) = ask w in
      if a < 0 then (None, w1) else (Some (next_id w1), w1\<lparr>next_id := next_id w1 + 1\<rparr>))"

definition pool_free :: "nat \<Rightarrow> ring \<Rightarrow> ring" where
  "pool_free job w = w\<lparr>freed := freed w @ [job]\<rparr>"

text \<open>
  Descriptors: \<open>opened\<close> is a log of those the environment handed out, \<open>closed\<close> of those that were
  given to \<^verbatim>\<open>close(2)\<close>. A negative number is not a descriptor.
\<close>

definition open_fd :: "int \<Rightarrow> ring \<Rightarrow> ring" where
  "open_fd fd w = (if fd \<ge> 0 then w\<lparr>opened := opened w @ [fd]\<rparr> else w)"

definition close_fd :: "int \<Rightarrow> ring \<Rightarrow> ring" where
  "close_fd fd w = w\<lparr>closed := closed w @ [fd]\<rparr>"

text \<open>
  \<^verbatim>\<open>Server::registerJob\<close> followed by the job's \<^verbatim>\<open>prepareSqe\<close>, which fills in the entry: on success the
  entry is in the queue and counted.
\<close>

definition registerJob :: "nat \<Rightarrow> sqe_op \<Rightarrow> ring \<Rightarrow> bool \<times> ring" where
  "registerJob job op w =
     (let (a, w1) = ask w in
      if a < 0 then (False, w1)
      else (True, w1\<lparr>in_flight := in_flight w1 + 1, sq := sq w1 @ [(job, op)]\<rparr>))"

definition submit :: "ring \<Rightarrow> int \<times> ring" where
  "submit w = ask w"

definition isStopping :: "ring \<Rightarrow> bool" where "isStopping w \<longleftrightarrow> srv_state w = Stopping"
definition isAborting :: "ring \<Rightarrow> bool" where "isAborting w \<longleftrightarrow> srv_state w = Aborting"

section \<open>Laws of the environment\<close>

named_theorems ring_simps \<open>effects of the environment calls on the fields of the ring\<close>

lemma ask_simps [ring_simps]:
  "in_flight (snd (ask w)) = in_flight w" "sq (snd (ask w)) = sq w" "freed (snd (ask w)) = freed w"
  "closed (snd (ask w)) = closed w" "opened (snd (ask w)) = opened w" "next_id (snd (ask w)) = next_id w" "srv_state (snd (ask w)) = srv_state w"
  "ora (snd (ask w)) = ora w"
  by (simp_all add: ask_def)

lemma submit_simps [ring_simps]:
  "in_flight (snd (submit w)) = in_flight w" "sq (snd (submit w)) = sq w" "freed (snd (submit w)) = freed w"
  "closed (snd (submit w)) = closed w" "opened (snd (submit w)) = opened w" "next_id (snd (submit w)) = next_id w"
  "srv_state (snd (submit w)) = srv_state w" "ora (snd (submit w)) = ora w"
  by (simp_all add: submit_def ring_simps)

lemma pool_alloc_simps [ring_simps]:
  "in_flight (snd (pool_alloc w)) = in_flight w" "sq (snd (pool_alloc w)) = sq w"
  "freed (snd (pool_alloc w)) = freed w" "closed (snd (pool_alloc w)) = closed w" "opened (snd (pool_alloc w)) = opened w"
  "srv_state (snd (pool_alloc w)) = srv_state w" "ora (snd (pool_alloc w)) = ora w"
  by (simp_all add: pool_alloc_def ask_def Let_def)

lemma pool_free_simps [ring_simps]:
  "in_flight (pool_free j w) = in_flight w" "sq (pool_free j w) = sq w"
  "freed (pool_free j w) = freed w @ [j]" "closed (pool_free j w) = closed w" "opened (pool_free j w) = opened w"
  "srv_state (pool_free j w) = srv_state w" "ora (pool_free j w) = ora w" "next_id (pool_free j w) = next_id w"
  by (simp_all add: pool_free_def)

lemma close_fd_simps [ring_simps]:
  "in_flight (close_fd f w) = in_flight w" "sq (close_fd f w) = sq w" "freed (close_fd f w) = freed w"
  "closed (close_fd f w) = closed w @ [f]" "opened (close_fd f w) = opened w" "srv_state (close_fd f w) = srv_state w"
  "ora (close_fd f w) = ora w" "next_id (close_fd f w) = next_id w"
  by (simp_all add: close_fd_def)

lemma open_fd_simps [ring_simps]:
  "in_flight (open_fd f w) = in_flight w" "sq (open_fd f w) = sq w" "freed (open_fd f w) = freed w"
  "closed (open_fd f w) = closed w" "opened (open_fd f w) = opened w @ (if f \<ge> 0 then [f] else [])" "srv_state (open_fd f w) = srv_state w"
  "ora (open_fd f w) = ora w" "next_id (open_fd f w) = next_id w"
  by (simp_all add: open_fd_def)

lemma registerJob_cases:
  obtains (ok) w1 where "registerJob j op w = (True, w1)" "in_flight w1 = in_flight w + 1"
      "sq w1 = sq w @ [(j, op)]" "freed w1 = freed w" "closed w1 = closed w" "opened w1 = opened w" "next_id w1 = next_id w"
      "srv_state w1 = srv_state w" "ora w1 = ora w"
  | (no) w1 where "registerJob j op w = (False, w1)" "in_flight w1 = in_flight w" "sq w1 = sq w"
      "freed w1 = freed w" "closed w1 = closed w" "opened w1 = opened w" "next_id w1 = next_id w"
      "srv_state w1 = srv_state w" "ora w1 = ora w"
proof (cases "ora w (tick w) < 0")
  case True
  then show ?thesis by (intro no[of "snd (ask w)"]) (auto simp: registerJob_def ask_def Let_def)
next
  case False
  then show ?thesis
    by (intro ok[of "snd (registerJob j op w)"]) (auto simp: registerJob_def ask_def Let_def)
qed

section \<open>The completion loop\<close>

text \<open>
  A completion: the user data it carries (None marks the stop-signal poll), its result, and whether
  \<^verbatim>\<open>IORING_CQE_F_MORE\<close> is set.
\<close>

record cqe =
  cqe_job :: "nat option"
  cqe_res :: int
  cqe_more :: bool
  cqe_buf :: nat

text \<open>
  The server: the ring, the stop eventfd (its counter, once created), whether the poll on it is
  armed, and whether the loop runs. \<open>jobs_of\<close> is the state of everything the completions are delivered to. The
  virtual calls of the jobs and the two hooks are arguments: \<open>handle\<close> is \<^verbatim>\<open>job->handleCompletion\<close> with its
  returned cleanup flag, \<open>cleanup\<close> runs that callback, and \<open>sweep\<close> is the shutdown sweep.
\<close>

record 's server =
  ring_of :: ring
  jobs_of :: 's
  stop_signal :: "nat option"
  poll_armed :: bool
  loop_running :: bool
  initialized :: bool

type_synonym 's handler_fn = "nat \<Rightarrow> cqe \<Rightarrow> 's \<Rightarrow> ring \<Rightarrow> bool \<times> 's \<times> ring"
type_synonym 's cleanup_fn = "nat \<Rightarrow> 's \<Rightarrow> ring \<Rightarrow> 's \<times> ring"
type_synonym 's hook_fn = "'s \<Rightarrow> ring \<Rightarrow> 's \<times> ring"

definition armStopSignal :: "'s server \<Rightarrow> 's server" where
  "armStopSignal s =
     (if stop_signal s = None \<or> \<not> initialized s then s
      else let (a, w1) = ask (ring_of s);
               (a2, w2) = (if a < 0 then let (_, u) = submit w1 in ask u else (a, w1)) in
           if a2 < 0 then s\<lparr>ring_of := w2\<rparr>
           else s\<lparr>ring_of := snd (submit w2), poll_armed := True\<rparr>)"

definition server_handleCompletion ::
  "'s handler_fn \<Rightarrow> 's cleanup_fn \<Rightarrow> 's hook_fn \<Rightarrow> cqe \<Rightarrow> 's server \<Rightarrow> 's server" where
  "server_handleCompletion handle cleanup sweep c s =
     (case cqe_job c of
        None \<Rightarrow>
          let (j1, w1) = sweep (jobs_of s) (ring_of s) in
          s\<lparr>stop_signal := (case stop_signal s of None \<Rightarrow> None | Some _ \<Rightarrow> Some 0), jobs_of := j1, ring_of := w1\<rparr>
      | Some job \<Rightarrow>
          let (wants_cleanup, j1, w1) = handle job c (jobs_of s) (ring_of s);
              w2 = (if \<not> cqe_more c then w1\<lparr>in_flight := in_flight w1 - 1\<rparr> else w1);
              (j3, w3) = (if wants_cleanup then cleanup job j1 w2 else (j1, w2)) in
          s\<lparr>jobs_of := j3, ring_of := w3\<rparr>)"

fun processAvailableCompletions ::
  "'s handler_fn \<Rightarrow> 's cleanup_fn \<Rightarrow> 's hook_fn \<Rightarrow> cqe list \<Rightarrow> 's server \<Rightarrow> 's server" where
  "processAvailableCompletions handle cleanup sweep [] s = s"
| "processAvailableCompletions handle cleanup sweep (c # cs) s =
     processAvailableCompletions handle cleanup sweep cs (server_handleCompletion handle cleanup sweep c s)"

text \<open>
  One return of \<^verbatim>\<open>io_uring_wait_cqe\<close>: an error code, or the completions that are then available.
\<close>

datatype wakeup = WaitError int | Completions "cqe list"

definition EINTR :: int where "EINTR = 4"

definition processCompletions ::
  "'s handler_fn \<Rightarrow> 's cleanup_fn \<Rightarrow> 's hook_fn \<Rightarrow> wakeup \<Rightarrow> 's server \<Rightarrow> 's server" where
  "processCompletions handle cleanup sweep wk s =
     (case wk of WaitError _ \<Rightarrow> s | Completions cs \<Rightarrow> processAvailableCompletions handle cleanup sweep cs s)"

text \<open>
  The two loops. Each consumes one wakeup per iteration; None means that the loop is still waiting
  when the given wakeups are used up. The drain loop stops on an error other than EINTR.
\<close>

fun drainCompletions ::
  "'s handler_fn \<Rightarrow> 's cleanup_fn \<Rightarrow> 's hook_fn \<Rightarrow> wakeup list \<Rightarrow> 's server \<Rightarrow> 's server option" where
  "drainCompletions handle cleanup sweep wks s =
     (if in_flight (ring_of s) > 0 then
        (case wks of
           [] \<Rightarrow> None
         | WaitError e # wks' \<Rightarrow>
             if e = - EINTR then drainCompletions handle cleanup sweep wks' s else Some s
         | Completions cs # wks' \<Rightarrow>
             drainCompletions handle cleanup sweep wks' (processAvailableCompletions handle cleanup sweep cs s))
      else Some s)"

declare drainCompletions.simps [simp del]

fun run_loop ::
  "'s handler_fn \<Rightarrow> 's cleanup_fn \<Rightarrow> 's hook_fn \<Rightarrow> wakeup list \<Rightarrow> 's server \<Rightarrow> ('s server \<times> wakeup list) option" where
  "run_loop handle cleanup sweep wks s =
     (if srv_state (ring_of s) = Running then
        (case wks of
           [] \<Rightarrow> None
         | wk # wks' \<Rightarrow> run_loop handle cleanup sweep wks' (processCompletions handle cleanup sweep wk s))
      else Some (s, wks))"

declare run_loop.simps [simp del]

definition server_run ::
  "'s handler_fn \<Rightarrow> 's cleanup_fn \<Rightarrow> 's hook_fn \<Rightarrow> 's hook_fn \<Rightarrow> wakeup list \<Rightarrow> 's server \<Rightarrow> 's server option" where
  "server_run handle cleanup sweep startup wks s =
     (let s1 = armStopSignal s;
          s2 = s1\<lparr>loop_running := True\<rparr>;
          (j3, w3) = startup (jobs_of s2) (ring_of s2);
          s3 = s2\<lparr>jobs_of := j3, ring_of := w3\<rparr> in
      (case run_loop handle cleanup sweep wks s3 of
         None \<Rightarrow> None
       | Some (s4, wks') \<Rightarrow> drainCompletions handle cleanup sweep wks' (s4\<lparr>loop_running := False\<rparr>)))"

definition server_stop :: "'s server \<Rightarrow> 's server" where
  "server_stop s =
     (let s1 = (if srv_state (ring_of s) = Running then s\<lparr>ring_of := (ring_of s)\<lparr>srv_state := Stopping\<rparr>\<rparr> else s) in
      case stop_signal s1 of None \<Rightarrow> s1 | Some n \<Rightarrow> s1\<lparr>stop_signal := Some (n + 1)\<rparr>)"

section \<open>Accounting of the operations in flight\<close>

text \<open>
  \<open>balanced w w'\<close>: between the two states every increment of the in-flight count is an entry that
  was put on the submission queue, and entries are only added.
\<close>

definition balanced :: "ring \<Rightarrow> ring \<Rightarrow> bool" where
  "balanced w w' \<longleftrightarrow> (\<exists>new. sq w' = sq w @ new \<and> in_flight w' = in_flight w + int (length new))"

lemma balanced_refl [simp, intro]: "balanced w w"
  by (auto simp: balanced_def)

lemma balanced_trans [trans]: "balanced u v \<Longrightarrow> balanced v w \<Longrightarrow> balanced u w"
  by (auto simp: balanced_def)

lemma balanced_same: "sq w' = sq w \<Longrightarrow> in_flight w' = in_flight w \<Longrightarrow> balanced w w'"
  by (auto simp: balanced_def)

lemma balanced_register: "balanced w (snd (registerJob j op w))"
  by (rule registerJob_cases[of j op w]) (auto simp: balanced_def)

lemma balanced_env [intro]:
  "balanced w (snd (ask w))" "balanced w (snd (submit w))" "balanced w (snd (pool_alloc w))"
  "balanced w (pool_free j w)" "balanced w (close_fd f w)" "balanced w (open_fd f w)"
  by (auto intro!: balanced_same simp: ring_simps)

section \<open>Ownership\<close>

text \<open>The identities handed out so far.\<close>

fun issued :: "nat \<Rightarrow> nat multiset" where
  "issued 0 = {#}"
| "issued (Suc n) = add_mset n (issued n)"

text \<open>
  \<open>keeps F J n w F' J' n' w'\<close>: a computation that begins in \<open>w\<close> owning the descriptors \<open>F\<close>, the pool
  objects \<open>J\<close> and \<open>n\<close> operations in the kernel ends in \<open>w'\<close> owning \<open>F'\<close>, \<open>J'\<close> and \<open>n'\<close>, and everything else
  that was opened, allocated or submitted on the way was closed, freed or accounted for: nothing
  leaks and nothing is released twice.
\<close>

definition keeps ::
  "int multiset \<Rightarrow> nat multiset \<Rightarrow> nat \<Rightarrow> ring \<Rightarrow> int multiset \<Rightarrow> nat multiset \<Rightarrow> nat \<Rightarrow> ring \<Rightarrow> bool" where
  "keeps F J n w F' J' n' w' \<longleftrightarrow>
     mset (closed w') + F' + mset (opened w) = mset (closed w) + F + mset (opened w') \<and>
     mset (freed w') + J' + issued (next_id w) = mset (freed w) + J + issued (next_id w') \<and>
     in_flight w' + int n = in_flight w + int n' \<and> srv_state w' = srv_state w"

lemma ledger_trans:
  fixes a :: "'a multiset"
  assumes "a' + f' + x = a + f + x'" "a'' + f'' + x' = a' + f' + x''"
  shows "a'' + f'' + x = a + f + x''"
proof -
  have "(a'' + f'' + x) + (x' + a' + f') = (a'' + f'' + x') + (a' + f' + x)" by simp
  also have "\<dots> = (a' + f' + x'') + (a + f + x')" using assms by simp
  also have "\<dots> = (a + f + x'') + (x' + a' + f')" by simp
  finally show ?thesis using add_right_imp_eq by blast
qed

lemma keeps_trans:
  assumes "keeps F J n w F' J' n' w'" "keeps F' J' n' w' F'' J'' n'' w''"
  shows "keeps F J n w F'' J'' n'' w''"
proof -
  note k1 = assms(1)[unfolded keeps_def] and k2 = assms(2)[unfolded keeps_def]
  have "mset (closed w'') + F'' + mset (opened w) = mset (closed w) + F + mset (opened w'')"
    by (rule ledger_trans[OF conjunct1[OF k1] conjunct1[OF k2]])
  moreover have "mset (freed w'') + J'' + issued (next_id w) = mset (freed w) + J + issued (next_id w'')"
    by (rule ledger_trans[OF conjunct1[OF conjunct2[OF k1]] conjunct1[OF conjunct2[OF k2]]])
  ultimately show ?thesis using k1 k2 unfolding keeps_def by (intro conjI) (assumption | linarith | simp)+
qed

lemma keeps_refl [simp]: "keeps F J n w F J n w"
  by (simp add: keeps_def)

lemma ledger_frame:
  fixes a :: "'a multiset"
  assumes "a' + f' + x = a + f + x'"
  shows "a' + (f' + g) + x = a + (f + g) + x'"
proof -
  have "a' + (f' + g) + x = (a' + f' + x) + g" by (simp only: ac_simps)
  also have "\<dots> = a + (f + g) + x'" unfolding assms by (simp only: ac_simps)
  finally show ?thesis .
qed

lemma keeps_frame:
  assumes "keeps F J n w F' J' n' w'"
  shows "keeps (F + G) (J + K) (n + m) w (F' + G) (J' + K) (n' + m) w'"
proof -
  note k = assms[unfolded keeps_def]
  show ?thesis unfolding keeps_def
    using ledger_frame[OF conjunct1[OF k]] ledger_frame[OF conjunct1[OF conjunct2[OF k]]] k
    by (intro conjI) (assumption | linarith | simp)+
qed

lemma keeps_env:
  "keeps F J n w F J n (snd (ask w))" "keeps F J n w F J n (snd (submit w))"
  "keeps F (add_mset i J) n w F J n (pool_free i w)" "keeps (add_mset f F) J n w F J n (close_fd f w)"
  "keeps F J n w (if f \<ge> 0 then add_mset f F else F) J n (open_fd f w)"
  by (simp_all add: keeps_def ring_simps)

lemma keeps_alloc:
  "keeps F J n w F (case fst (pool_alloc w) of None \<Rightarrow> J | Some i \<Rightarrow> add_mset i J) n (snd (pool_alloc w))"
  by (simp add: keeps_def ring_simps) (simp add: pool_alloc_def ask_def Let_def)

lemma keeps_register:
  "keeps F J n w F J (if fst (registerJob j op w) then n + 1 else n) (snd (registerJob j op w))"
  by (rule registerJob_cases[of j op w]) (simp_all add: keeps_def)

text \<open>The contract between the event loop and the jobs it serves.\<close>

locale ring_jobs =
  fixes handle :: "'s handler_fn" and cleanup :: "'s cleanup_fn" and sweep :: "'s hook_fn"
  assumes handle_balanced: "balanced w (snd (snd (handle job c s w)))"
    and cleanup_balanced: "balanced w (snd (cleanup job s w))"
    and sweep_balanced: "balanced w (snd (sweep s w))"
begin

definition finals :: "cqe list \<Rightarrow> nat" where
  "finals cs = length (filter (\<lambda>c. cqe_job c \<noteq> None \<and> \<not> cqe_more c) cs)"

lemma handle_one:
  "\<exists>new. sq (ring_of (server_handleCompletion handle cleanup sweep c s)) = sq (ring_of s) @ new \<and>
     in_flight (ring_of (server_handleCompletion handle cleanup sweep c s)) =
       in_flight (ring_of s) + int (length new) - int (finals [c])"
proof (cases "cqe_job c")
  case None
  then show ?thesis
    using sweep_balanced[of "ring_of s" "jobs_of s"]
    by (simp add: server_handleCompletion_def finals_def balanced_def split_beta Let_def)
next
  case (Some job)
  obtain b j1 w1 where h: "handle job c (jobs_of s) (ring_of s) = (b, j1, w1)" by (metis prod.collapse)
  define w2 where "w2 = (if \<not> cqe_more c then w1\<lparr>in_flight := in_flight w1 - 1\<rparr> else w1)"
  define w3 where "w3 = (if b then snd (cleanup job j1 w2) else w2)"
  have "ring_of (server_handleCompletion handle cleanup sweep c s) = w3"
    using Some h by (simp add: server_handleCompletion_def w2_def w3_def split_beta Let_def)
  moreover obtain n1 where n1: "sq w1 = sq (ring_of s) @ n1" "in_flight w1 = in_flight (ring_of s) + int (length n1)"
    using handle_balanced[of "ring_of s" job c "jobs_of s"] h by (auto simp: balanced_def)
  moreover obtain n2 where "sq w3 = sq w2 @ n2" "in_flight w3 = in_flight w2 + int (length n2)"
    using cleanup_balanced[of w2 job j1] by (cases b) (auto simp: w3_def balanced_def)
  ultimately show ?thesis using Some by (auto simp: finals_def w2_def)
qed

lemma process_accounting:
  "\<exists>new. sq (ring_of (processAvailableCompletions handle cleanup sweep cs s)) = sq (ring_of s) @ new \<and>
     in_flight (ring_of (processAvailableCompletions handle cleanup sweep cs s)) =
       in_flight (ring_of s) + int (length new) - int (finals cs)"
proof (induction cs arbitrary: s)
  case Nil
  then show ?case by (simp add: finals_def)
next
  case (Cons c cs)
  let ?s1 = "server_handleCompletion handle cleanup sweep c s"
  obtain n1 where n1: "sq (ring_of ?s1) = sq (ring_of s) @ n1"
    "in_flight (ring_of ?s1) = in_flight (ring_of s) + int (length n1) - int (finals [c])"
    using handle_one by blast
  obtain n2 where n2: "sq (ring_of (processAvailableCompletions handle cleanup sweep cs ?s1)) = sq (ring_of ?s1) @ n2"
    "in_flight (ring_of (processAvailableCompletions handle cleanup sweep cs ?s1)) =
       in_flight (ring_of ?s1) + int (length n2) - int (finals cs)"
    using Cons.IH by blast
  have "finals (c # cs) = finals [c] + finals cs" by (simp add: finals_def)
  with n1 n2 show ?case by (intro exI[of _ "n1 @ n2"]) simp
qed

text \<open>The drain ends only with nothing in flight, or because waiting itself failed.\<close>

lemma drain_result:
  "drainCompletions handle cleanup sweep wks s = Some s' \<Longrightarrow>
   in_flight (ring_of s') \<le> 0 \<or> (\<exists>e. WaitError e \<in> set wks \<and> e \<noteq> - EINTR)"
proof (induction wks arbitrary: s)
  case Nil
  then show ?case by (auto simp: drainCompletions.simps[of _ _ _ "[]"] split: if_splits)
next
  case (Cons wk wks)
  show ?case
  proof (cases "in_flight (ring_of s) > 0")
    case False
    with Cons.prems show ?thesis by (auto simp: drainCompletions.simps[of _ _ _ "wk # wks"])
  next
    case True
    show ?thesis
    proof (cases wk)
      case (WaitError e)
      with True Cons.prems have "e \<noteq> - EINTR \<or> drainCompletions handle cleanup sweep wks s = Some s'"
        by (auto simp: drainCompletions.simps[of _ _ _ "WaitError e # wks"] split: if_splits)
      with Cons.IH[of s] WaitError show ?thesis by auto
    next
      case (Completions cs)
      with True Cons.prems
      have "drainCompletions handle cleanup sweep wks (processAvailableCompletions handle cleanup sweep cs s) = Some s'"
        by (simp add: drainCompletions.simps[of _ _ _ "Completions cs # wks"])
      from Cons.IH[OF this] show ?thesis by auto
    qed
  qed
qed

end

text \<open>A stop is not lost, whether it comes before or after the poll is armed.\<close>

definition stop_delivered :: "'s server \<Rightarrow> bool" where
  "stop_delivered s \<longleftrightarrow> poll_armed s \<and> (\<exists>n. stop_signal s = Some n \<and> 0 < n)"

lemma stop_after_arm:
  "poll_armed s \<Longrightarrow> stop_signal s \<noteq> None \<Longrightarrow> stop_delivered (server_stop s)"
  by (auto simp: stop_delivered_def server_stop_def Let_def)

lemma stop_before_arm:
  assumes "stop_signal s \<noteq> None" "poll_armed (armStopSignal (server_stop s))"
  shows "stop_delivered (armStopSignal (server_stop s))"
proof -
  from assms(1) obtain n where n: "stop_signal (server_stop s) = Some (Suc n)"
    by (auto simp: server_stop_def Let_def)
  have "stop_signal (armStopSignal (server_stop s)) = stop_signal (server_stop s)"
    by (auto simp: armStopSignal_def Let_def split_beta)
  with assms(2) n show ?thesis by (simp add: stop_delivered_def)
qed

end
