(* ===== verification/Io_Job.thy ===== *)
theory Io_Job
  imports Ring_Server
begin

text \<open>
  The job interface, \<^verbatim>\<open>include/caduvelox/jobs/IoJob.hpp\<close>, and the small jobs that need nothing else:
  \<^verbatim>\<open>CancelJob.hpp\<close>. A completion handler either keeps the job (\<open>Pending\<close>), asks the server to free it after
  the handler has returned (\<open>Cleanup\<close>, the returned cleanup callback), or has freed it already
  (\<open>Abandoned\<close>). The callback of the job's owner is a value of the result: with \<open>Cleanup\<close> it runs before
  the job is freed, with \<open>Abandoned\<close> after.

  The locale \<open>io_job\<close> is the lifetime contract of a job: it is never freed while the kernel still
  holds one of its operations, and it is freed, once, when the last of them completes. Each job of
  the development interprets it.
\<close>

datatype job_cb = NoCallback | OnComplete int nat | OnError int int

datatype 'j job_result = Pending 'j | Cleanup job_cb | Abandoned job_cb

text \<open>The entries a job put on the submission queue between two states.\<close>

definition ops_since :: "nat \<Rightarrow> ring \<Rightarrow> ring \<Rightarrow> nat" where
  "ops_since job w w' = length (filter (\<lambda>e. fst e = job) (drop (length (sq w)) (sq w')))"

lemma ops_since_same: "sq w' = sq w \<Longrightarrow> ops_since j w w' = 0"
  by (simp add: ops_since_def)

lemma ops_since_snoc: "sq w' = sq w @ [(j, op)] \<Longrightarrow> ops_since j w w' = 1"
  by (simp add: ops_since_def)

lemma ops_since_snoc2: "sq w' = sq w @ [(j, op), (j, op')] \<Longrightarrow> ops_since j w w' = 2"
  by (simp add: ops_since_def)

locale io_job =
  fixes handle :: "'j \<Rightarrow> cqe \<Rightarrow> ring \<Rightarrow> 'j job_result \<times> ring"
    and jid :: "'j \<Rightarrow> nat"
    and pending :: "'j \<Rightarrow> nat"
    and inv :: "'j \<Rightarrow> bool"
    and kernel_ok :: "'j \<Rightarrow> cqe \<Rightarrow> bool"
  assumes keep: "inv j \<Longrightarrow> kernel_ok j c \<Longrightarrow> handle j c w = (Pending j', w') \<Longrightarrow>
        inv j' \<and> jid j' = jid j \<and> 0 < pending j' \<and> freed w' = freed w \<and>
        pending j' + (if cqe_more c then 0 else 1) = pending j + ops_since (jid j) w w'"
    and cleanup: "inv j \<Longrightarrow> kernel_ok j c \<Longrightarrow> handle j c w = (Cleanup cb, w') \<Longrightarrow>
        freed w' = freed w \<and> pending j = 1 \<and> \<not> cqe_more c \<and> ops_since (jid j) w w' = 0"
    and abandon: "inv j \<Longrightarrow> kernel_ok j c \<Longrightarrow> handle j c w = (Abandoned cb, w') \<Longrightarrow>
        freed w' = freed w @ [jid j] \<and> pending j = 1 \<and> \<not> cqe_more c \<and> ops_since (jid j) w w' = 0"
    and balance: "inv j \<Longrightarrow> kernel_ok j c \<Longrightarrow> balanced w (snd (handle j c w))"
begin

text \<open>
  What the server does with one completion of the job: the handler, then the cleanup callback. The
  result is the job that is left, if any, and the owner's callback.
\<close>

definition serve :: "'j \<Rightarrow> cqe \<Rightarrow> ring \<Rightarrow> ('j option \<times> job_cb) \<times> ring" where
  "serve j c w =
     (case handle j c w of
        (Pending j', w') \<Rightarrow> ((Some j', NoCallback), w')
      | (Cleanup cb, w') \<Rightarrow> ((None, cb), pool_free (jid j) w')
      | (Abandoned cb, w') \<Rightarrow> ((None, cb), w'))"

lemma serve_kept:
  assumes "inv j" "kernel_ok j c" "serve j c w = ((Some j', cb), w')"
  shows "inv j' \<and> jid j' = jid j \<and> 0 < pending j' \<and> freed w' = freed w \<and> cb = NoCallback \<and>
    pending j' + (if cqe_more c then 0 else 1) = pending j + ops_since (jid j) w w'"
proof -
  from assms(3) have "handle j c w = (Pending j', w')" "cb = NoCallback"
    by (auto simp: serve_def split: prod.splits job_result.splits)
  with keep[OF assms(1,2)] show ?thesis by blast
qed

lemma serve_freed:
  assumes "inv j" "kernel_ok j c" "serve j c w = ((None, cb), w')"
  shows "freed w' = freed w @ [jid j] \<and> pending j = 1 \<and> \<not> cqe_more c \<and> ops_since (jid j) w w' = 0"
proof (cases "handle j c w")
  case (Pair r u)
  show ?thesis
  proof (cases r)
    case (Pending j')
    with Pair assms(3) show ?thesis by (simp add: serve_def)
  next
    case (Cleanup cb')
    with Pair assms(3) have "w' = pool_free (jid j) u" by (simp add: serve_def)
    with cleanup[OF assms(1,2), of w cb' u] Pair Cleanup show ?thesis
      by (simp add: ring_simps ops_since_def)
  next
    case (Abandoned cb')
    with Pair assms(3) abandon[OF assms(1,2), of w cb' u] show ?thesis by (simp add: serve_def)
  qed
qed

text \<open>
  A life of the job: its completions in order, until it is gone. The number of its operations
  the kernel holds is \<open>pending\<close> at every point of the life.
\<close>

fun life :: "'j \<Rightarrow> cqe list \<Rightarrow> ring \<Rightarrow> ('j option \<times> cqe list) \<times> ring" where
  "life j [] w = ((Some j, []), w)"
| "life j (c # cs) w =
     (case serve j c w of
        ((Some j', _), w') \<Rightarrow> life j' cs w'
      | ((None, _), w') \<Rightarrow> ((None, cs), w'))"

fun kernel_run :: "'j \<Rightarrow> cqe list \<Rightarrow> ring \<Rightarrow> bool" where
  "kernel_run j [] w \<longleftrightarrow> True"
| "kernel_run j (c # cs) w \<longleftrightarrow> kernel_ok j c \<and>
     (case serve j c w of ((Some j', _), w') \<Rightarrow> kernel_run j' cs w' | ((None, _), _) \<Rightarrow> True)"

lemma life_frees_once:
  "inv j \<Longrightarrow> kernel_run j cs w \<Longrightarrow> life j cs w = ((r, rest), w') \<Longrightarrow>
   (case r of None \<Rightarrow> freed w' = freed w @ [jid j]
    | Some j' \<Rightarrow> freed w' = freed w \<and> inv j' \<and> jid j' = jid j \<and> rest = [] \<and> (cs \<noteq> [] \<longrightarrow> 0 < pending j'))"
proof (induction cs arbitrary: j w)
  case Nil
  then show ?case by auto
next
  case (Cons c cs)
  have ko: "kernel_ok j c" using Cons.prems(2) by simp
  obtain r1 cb w1 where s: "serve j c w = ((r1, cb), w1)" by (metis prod.collapse)
  show ?case
  proof (cases r1)
    case None
    with s Cons.prems serve_freed[OF Cons.prems(1) ko, of w cb w1] show ?thesis by auto
  next
    case (Some j1)
    note k = serve_kept[OF Cons.prems(1) ko s[unfolded Some]]
    have l: "life j1 cs w1 = ((r, rest), w')" "kernel_run j1 cs w1"
      using s Some Cons.prems by simp_all
    with Cons.IH[of j1 w1] k have ih: "case r of None \<Rightarrow> freed w' = freed w1 @ [jid j1]
      | Some j' \<Rightarrow> freed w' = freed w1 \<and> inv j' \<and> jid j' = jid j1 \<and> rest = [] \<and> (cs \<noteq> [] \<longrightarrow> 0 < pending j')"
      by blast
    have "cs = [] \<Longrightarrow> r = Some j1" using l(1) by simp
    with ih k show ?thesis by (cases "cs = []") (auto split: option.splits)
  qed
qed

end

section \<open>Cancellation requests\<close>

record CancelJob =
  cj_id :: nat
  cj_target :: nat

definition cancel_prepareSqe :: "CancelJob \<Rightarrow> sqe_op" where
  "cancel_prepareSqe j = OpCancel (cj_target j)"

definition cancel_handleCompletion :: "CancelJob \<Rightarrow> cqe \<Rightarrow> ring \<Rightarrow> CancelJob job_result \<times> ring" where
  "cancel_handleCompletion j c w = (Cleanup NoCallback, w)"

interpretation cancel_job: io_job cancel_handleCompletion cj_id "\<lambda>_. 1" "\<lambda>_. True" "\<lambda>_ c. \<not> cqe_more c"
  by unfold_locales (auto simp: cancel_handleCompletion_def ops_since_def)

text \<open>
  The pattern every owner uses to cancel an operation: allocate a cancel job, take an entry, submit,
  and give the job back when there is no entry. The result says whether the cancel is on its way.
\<close>

definition submit_cancel :: "nat \<Rightarrow> ring \<Rightarrow> bool \<times> ring" where
  "submit_cancel target w =
     (case pool_alloc w of
        (None, w1) \<Rightarrow> (False, w1)
      | (Some job, w1) \<Rightarrow>
          let (ok, w2) = registerJob job (cancel_prepareSqe \<lparr>cj_id = job, cj_target = target\<rparr>) w1 in
          if ok then (True, snd (submit w2)) else (False, pool_free job w2))"

lemma balanced_submit_cancel: "balanced w (snd (submit_cancel t w))"
proof -
  obtain a w1 where a: "pool_alloc w = (a, w1)" by fastforce
  then have b: "balanced w w1" by (metis balanced_env(3) snd_conv)
  show ?thesis
  proof (cases a)
    case None
    with a b show ?thesis by (simp add: submit_cancel_def)
  next
    case (Some job)
    obtain ok w2 where r: "registerJob job (cancel_prepareSqe \<lparr>cj_id = job, cj_target = t\<rparr>) w1 = (ok, w2)" by fastforce
    with b have "balanced w w2" by (metis balanced_register balanced_trans snd_conv)
    with a Some r show ?thesis by (auto simp: submit_cancel_def intro: balanced_trans)
  qed
qed

lemma submit_cancel_closed [simp]: "closed (snd (submit_cancel t w)) = closed w"
  by (auto simp: submit_cancel_def pool_alloc_def registerJob_def ask_def submit_def pool_free_def Let_def)

lemma submit_cancel_opened [simp]: "opened (snd (submit_cancel t w)) = opened w"
  by (auto simp: submit_cancel_def pool_alloc_def registerJob_def ask_def submit_def pool_free_def Let_def)

lemma submit_cancel_state [simp]: "srv_state (snd (submit_cancel t w)) = srv_state w"
  by (auto simp: submit_cancel_def pool_alloc_def registerJob_def ask_def submit_def pool_free_def Let_def)

end
