(* ===== verification/Write_Job.thy ===== *)
theory Write_Job
  imports Io_Job
begin

text \<open>
  Writing a buffer to a descriptor, \<^verbatim>\<open>src/jobs/WriteJob.cpp\<close>: creation from the pool, submission with
  one flush of a full submission queue, continuation after a partial write, and the two ways a
  job ends. The callbacks \<^verbatim>\<open>on_complete_\<close> and \<^verbatim>\<open>on_error_\<close> are the owner's; the job records whether they
  are set and the result says which one runs. The lemmas show that the job keeps the lifetime
  contract, and that what reaches the descriptor is the buffer, in order and once.
\<close>

section \<open>Definitions\<close>

record WriteJob =
  wj_id :: nat
  wj_fd :: int
  wj_owns_data :: bool
  wj_data :: string
  wj_total_length :: nat
  wj_bytes_written :: nat
  wj_on_complete :: bool
  wj_on_error :: bool

definition EAGAIN :: int where "EAGAIN = 11"

definition WriteJob_init :: "nat \<Rightarrow> int \<Rightarrow> bool \<Rightarrow> WriteJob" where
  "WriteJob_init i fd owns = \<lparr>wj_id = i, wj_fd = fd, wj_owns_data = owns, wj_data = [],
     wj_total_length = 0, wj_bytes_written = 0, wj_on_complete = False, wj_on_error = False\<rparr>"

definition createFromPoolWithOwnedData ::
  "int \<Rightarrow> string \<Rightarrow> nat \<Rightarrow> bool \<Rightarrow> bool \<Rightarrow> ring \<Rightarrow> WriteJob option \<times> ring" where
  "createFromPoolWithOwnedData fd data len has_complete has_error w =
     (case pool_alloc w of
        (None, w1) \<Rightarrow> (None, w1)
      | (Some i, w1) \<Rightarrow>
          (Some ((WriteJob_init i fd True)\<lparr>wj_data := data, wj_total_length := len, wj_bytes_written := 0,
             wj_on_complete := has_complete, wj_on_error := has_error\<rparr>), w1))"

definition createFromPoolWithBorrowedData ::
  "int \<Rightarrow> string \<Rightarrow> nat \<Rightarrow> bool \<Rightarrow> bool \<Rightarrow> ring \<Rightarrow> WriteJob option \<times> ring" where
  "createFromPoolWithBorrowedData fd data len has_complete has_error w =
     (case pool_alloc w of
        (None, w1) \<Rightarrow> (None, w1)
      | (Some i, w1) \<Rightarrow>
          (Some ((WriteJob_init i fd False)\<lparr>wj_data := data, wj_total_length := len, wj_bytes_written := 0,
             wj_on_complete := has_complete, wj_on_error := has_error\<rparr>), w1))"

definition createFromPoolFromString ::
  "int \<Rightarrow> string \<Rightarrow> bool \<Rightarrow> bool \<Rightarrow> ring \<Rightarrow> WriteJob option \<times> ring" where
  "createFromPoolFromString fd data has_complete has_error w =
     createFromPoolWithOwnedData fd data (length data) has_complete has_error w"

definition freePoolAllocated :: "WriteJob option \<Rightarrow> ring \<Rightarrow> ring" where
  "freePoolAllocated job w = (case job of None \<Rightarrow> w | Some j \<Rightarrow> pool_free (wj_id j) w)"

definition wj_prepareSqe :: "WriteJob \<Rightarrow> sqe_op" where
  "wj_prepareSqe j =
     (let remaining_data = drop (wj_bytes_written j) (wj_data j);
          remaining_length = wj_total_length j - wj_bytes_written j in
      OpWrite (wj_fd j) (take remaining_length remaining_data))"

definition wj_abandon :: "WriteJob \<Rightarrow> int \<Rightarrow> ring \<Rightarrow> WriteJob job_result \<times> ring" where
  "wj_abandon j err w =
     (let w1 = pool_free (wj_id j) w in
      (Abandoned (if wj_on_error j then OnError (wj_fd j) err else NoCallback), w1))"

definition submitWrite :: "WriteJob \<Rightarrow> ring \<Rightarrow> WriteJob job_result \<times> ring" where
  "submitWrite j w =
     (let (sqe, w1) = registerJob (wj_id j) (wj_prepareSqe j) w in
      if sqe then (Pending j, snd (submit w1))
      else let (flush_ret, w2) = submit w1 in
           if flush_ret < 0 then wj_abandon j (- flush_ret) w2
           else let (sqe2, w3) = registerJob (wj_id j) (wj_prepareSqe j) w2 in
                if sqe2 then (Pending j, snd (submit w3)) else wj_abandon j EAGAIN w3)"

definition wj_handleCompletion :: "WriteJob \<Rightarrow> cqe \<Rightarrow> ring \<Rightarrow> WriteJob job_result \<times> ring" where
  "wj_handleCompletion j c w =
     (let res = cqe_res c in
      if res < 0 then
        (Cleanup (if wj_on_error j then OnError (wj_fd j) (- res) else NoCallback), w)
      else let j1 = j\<lparr>wj_bytes_written := wj_bytes_written j + nat res\<rparr> in
        if wj_bytes_written j1 \<ge> wj_total_length j1 then
          (Cleanup (if wj_on_complete j1 then OnComplete (wj_fd j1) (wj_bytes_written j1) else NoCallback), w)
        else submitWrite j1 w)"

definition wj_start :: "WriteJob \<Rightarrow> ring \<Rightarrow> WriteJob job_result \<times> ring" where
  "wj_start j w = submitWrite j w"

section \<open>Submission\<close>

lemma submitWrite_cases:
  obtains (queued) w' where "submitWrite j w = (Pending j, w')" "sq w' = sq w @ [(wj_id j, wj_prepareSqe j)]"
      "in_flight w' = in_flight w + 1" "freed w' = freed w" "closed w' = closed w" "opened w' = opened w" "next_id w' = next_id w" "srv_state w' = srv_state w"
  | (gone) w' err where
      "submitWrite j w = (Abandoned (if wj_on_error j then OnError (wj_fd j) err else NoCallback), w')"
      "sq w' = sq w" "in_flight w' = in_flight w" "freed w' = freed w @ [wj_id j]" "closed w' = closed w" "opened w' = opened w" "next_id w' = next_id w"
      "srv_state w' = srv_state w"
proof (cases rule: registerJob_cases[of "wj_id j" "wj_prepareSqe j" w])
  case (ok w1)
  then show ?thesis
    by (intro queued[of "snd (submit w1)"]) (simp_all add: submitWrite_def ring_simps)
next
  case (no w1)
  obtain fl w2 where f: "submit w1 = (fl, w2)" by fastforce
  have w2: "sq w2 = sq w" "in_flight w2 = in_flight w" "freed w2 = freed w" "closed w2 = closed w" "opened w2 = opened w" "next_id w2 = next_id w"
    "srv_state w2 = srv_state w"
    using no submit_simps[of w1] f by simp_all
  show ?thesis
  proof (cases "fl < 0")
    case True
    with no f w2 show ?thesis
      by (intro gone[of "- fl" "pool_free (wj_id j) w2"])
         (simp_all add: submitWrite_def wj_abandon_def ring_simps)
  next
    case False
    show ?thesis
    proof (cases rule: registerJob_cases[of "wj_id j" "wj_prepareSqe j" w2])
      case (ok w3)
      with no f False w2 show ?thesis
        by (intro queued[of "snd (submit w3)"]) (simp_all add: submitWrite_def ring_simps)
    next
      case (no w3)
      with \<open>registerJob (wj_id j) (wj_prepareSqe j) w = (False, w1)\<close> f False w2 show ?thesis
        by (intro gone[of EAGAIN "pool_free (wj_id j) w3"])
           (simp_all add: submitWrite_def wj_abandon_def ring_simps)
    qed
  qed
qed

lemma balanced_submitWrite: "balanced w (snd (submitWrite j w))"
  by (rule submitWrite_cases[of j w]) (auto simp: balanced_def)

section \<open>The lifetime contract\<close>

definition wj_kernel_ok :: "WriteJob \<Rightarrow> cqe \<Rightarrow> bool" where
  "wj_kernel_ok j c \<longleftrightarrow> \<not> cqe_more c"

interpretation write_job: io_job wj_handleCompletion wj_id "\<lambda>_. 1" "\<lambda>_. True" wj_kernel_ok
proof
  fix j c w j' w' cb
  assume k: "wj_kernel_ok j c"
  let ?j1 = "j\<lparr>wj_bytes_written := wj_bytes_written j + nat (cqe_res c)\<rparr>"
  show "wj_handleCompletion j c w = (Pending j', w') \<Longrightarrow>
      True \<and> wj_id j' = wj_id j \<and> 0 < (1 :: nat) \<and> freed w' = freed w \<and>
      1 + (if cqe_more c then 0 else 1) = 1 + ops_since (wj_id j) w w'"
    using k by (cases rule: submitWrite_cases[of ?j1 w])
      (auto simp: wj_handleCompletion_def Let_def wj_kernel_ok_def ops_since_def split: if_splits)
  show "wj_handleCompletion j c w = (Cleanup cb, w') \<Longrightarrow>
      freed w' = freed w \<and> (1 :: nat) = 1 \<and> \<not> cqe_more c \<and> ops_since (wj_id j) w w' = 0"
    using k by (cases rule: submitWrite_cases[of ?j1 w])
      (auto simp: wj_handleCompletion_def Let_def wj_kernel_ok_def ops_since_def split: if_splits)
  show "wj_handleCompletion j c w = (Abandoned cb, w') \<Longrightarrow>
      freed w' = freed w @ [wj_id j] \<and> (1 :: nat) = 1 \<and> \<not> cqe_more c \<and> ops_since (wj_id j) w w' = 0"
    using k by (cases rule: submitWrite_cases[of ?j1 w])
      (auto simp: wj_handleCompletion_def Let_def wj_kernel_ok_def ops_since_def split: if_splits)
  show "balanced w (snd (wj_handleCompletion j c w))"
    using balanced_submitWrite by (auto simp: wj_handleCompletion_def Let_def)
qed

section \<open>Ownership\<close>

lemma owned_write_created:
  "createFromPoolWithOwnedData fd data len hc he w = (r, w1) \<Longrightarrow>
   keeps F J n w F (case r of None \<Rightarrow> J | Some j \<Rightarrow> add_mset (wj_id j) J) n w1"
  using keeps_alloc[of F J n w]
  by (auto simp: createFromPoolWithOwnedData_def WriteJob_init_def split: prod.splits option.splits)

text \<open>What submitting, and handling a completion, owns afterwards.\<close>

definition write_jobs :: "nat \<Rightarrow> WriteJob job_result \<Rightarrow> nat multiset" where
  "write_jobs i r = (case r of Abandoned _ \<Rightarrow> {#} | _ \<Rightarrow> {# i #})"

definition write_ops :: "WriteJob job_result \<Rightarrow> nat" where
  "write_ops r = (case r of Pending _ \<Rightarrow> 1 | _ \<Rightarrow> 0)"

lemma keeps_submitWrite:
  "submitWrite j w = (r, w') \<Longrightarrow> keeps F (add_mset (wj_id j) J) n w F (write_jobs (wj_id j) r + J) (n + write_ops r) w'"
  by (cases rule: submitWrite_cases[of j w]) (auto simp: keeps_def write_jobs_def write_ops_def)

lemma keeps_write_completion:
  "wj_handleCompletion j c w = (r, w') \<Longrightarrow>
   keeps F (add_mset (wj_id j) J) n w F (write_jobs (wj_id j) r + J) (n + write_ops r) w'"
  using keeps_submitWrite[of "j\<lparr>wj_bytes_written := wj_bytes_written j + nat (cqe_res c)\<rparr>" w r w' F J n]
  by (auto simp: wj_handleCompletion_def write_jobs_def write_ops_def Let_def split: if_splits)

section \<open>What reaches the descriptor\<close>

text \<open>
  A run of the job: the results of its write operations in order, and the bytes the kernel took,
  the first \<open>r\<close> of each write that returned \<open>r\<close>.
\<close>

definition write_cqe :: "WriteJob \<Rightarrow> int \<Rightarrow> cqe" where
  "write_cqe j r = \<lparr>cqe_job = Some (wj_id j), cqe_res = r, cqe_more = False, cqe_buf = 0\<rparr>"

fun op_data :: "sqe_op \<Rightarrow> string" where
  "op_data (OpWrite fd d) = d"
| "op_data _ = []"

fun wj_run :: "WriteJob \<Rightarrow> int list \<Rightarrow> ring \<Rightarrow> string \<Rightarrow> WriteJob job_result \<times> string" where
  "wj_run j [] w wire = (Pending j, wire)"
| "wj_run j (r # rs) w wire =
     (let wire' = wire @ take (nat r) (op_data (wj_prepareSqe j)) in
      case wj_handleCompletion j (write_cqe j r) w of
        (Pending j', w') \<Rightarrow> wj_run j' rs w' wire'
      | (res, w') \<Rightarrow> (res, wire'))"

text \<open>A write never returns more than it was asked to write.\<close>

fun wj_results_ok :: "nat \<Rightarrow> int list \<Rightarrow> bool" where
  "wj_results_ok remaining [] \<longleftrightarrow> True"
| "wj_results_ok remaining (r # rs) \<longleftrightarrow> r \<le> int remaining \<and> wj_results_ok (remaining - nat r) rs"

definition wj_ready :: "WriteJob \<Rightarrow> bool" where
  "wj_ready j \<longleftrightarrow> wj_total_length j = length (wj_data j) \<and> wj_bytes_written j \<le> wj_total_length j"

lemma op_data_prepare: "wj_ready j \<Longrightarrow> op_data (wj_prepareSqe j) = drop (wj_bytes_written j) (wj_data j)"
  by (simp add: wj_prepareSqe_def wj_ready_def)

lemma take_take_drop: "m + n \<le> length s \<Longrightarrow> take m s @ take n (drop m s) = take (m + n) s"
  by (simp add: take_add)

definition write_outcome_ok :: "int \<Rightarrow> string \<Rightarrow> WriteJob job_result \<Rightarrow> string \<Rightarrow> bool" where
  "write_outcome_ok out_fd data res wire \<longleftrightarrow>
     (case res of
        Pending j' \<Rightarrow> wire = take (wj_bytes_written j') data
      | Cleanup (OnComplete fd n) \<Rightarrow> fd = out_fd \<and> wire = data \<and> n = length data
      | Cleanup (OnError fd e) \<Rightarrow> fd = out_fd \<and> 0 < e \<and> prefix wire data
      | Abandoned (OnError fd e) \<Rightarrow> fd = out_fd \<and> prefix wire data
      | _ \<Rightarrow> False)"

lemma wj_run_delivers:
  assumes "wj_ready j" "wj_on_complete j" "wj_on_error j" "wire = take (wj_bytes_written j) (wj_data j)"
    and "wj_results_ok (wj_total_length j - wj_bytes_written j) rs" "wj_run j rs w wire = (res, wire')"
  shows "write_outcome_ok (wj_fd j) (wj_data j) res wire'"
  using assms
proof (induction rs arbitrary: j w wire)
  case Nil
  then show ?case by (auto simp: write_outcome_ok_def)
next
  case (Cons r rs)
  show ?case
  proof (cases "r < 0")
    case True
    with Cons.prems show ?thesis
      by (auto simp: wj_handleCompletion_def write_cqe_def write_outcome_ok_def take_is_prefix)
  next
    case False
    let ?j1 = "j\<lparr>wj_bytes_written := wj_bytes_written j + nat r\<rparr>"
    have bound: "wj_bytes_written j + nat r \<le> length (wj_data j)"
      using Cons.prems(1,5) False by (simp add: wj_ready_def) linarith
    have wire1: "wire @ take (nat r) (op_data (wj_prepareSqe j)) = take (wj_bytes_written ?j1) (wj_data j)"
      using Cons.prems(4) bound by (simp add: op_data_prepare[OF Cons.prems(1)] take_take_drop)
    show ?thesis
    proof (cases "wj_bytes_written ?j1 \<ge> wj_total_length j")
      case True
      with Cons.prems False bound wire1 show ?thesis
        by (auto simp: wj_handleCompletion_def write_cqe_def write_outcome_ok_def wj_ready_def)
    next
      case part: False
      have h: "wj_handleCompletion j (write_cqe j r) w = submitWrite ?j1 w"
        using False part by (simp add: wj_handleCompletion_def write_cqe_def)
      show ?thesis
      proof (cases rule: submitWrite_cases[of ?j1 w])
        case (queued w1)
        have "wj_run ?j1 rs w1 (take (wj_bytes_written ?j1) (wj_data j)) = (res, wire')"
          using Cons.prems(6) h queued(1) wire1 by simp
        moreover have "wj_ready ?j1" using Cons.prems(1) bound by (simp add: wj_ready_def)
        moreover have "wj_results_ok (wj_total_length ?j1 - wj_bytes_written ?j1) rs"
          using Cons.prems(5) by (simp add: diff_diff_left)
        ultimately show ?thesis
          using Cons.IH[of ?j1 _ w1] Cons.prems(2,3) by simp
      next
        case (gone w1 err)
        with Cons.prems h wire1 show ?thesis
          by (auto simp: write_outcome_ok_def take_is_prefix)
      qed
    qed
  qed
qed

lemma created_ready:
  assumes "createFromPoolFromString fd data True True w = (Some j, w1)"
  shows "wj_ready j \<and> wj_on_complete j \<and> wj_on_error j \<and> wj_bytes_written j = 0 \<and> wj_data j = data \<and>
    wj_fd j = fd \<and> wj_total_length j = length data"
  using assms
  by (auto simp: createFromPoolFromString_def createFromPoolWithOwnedData_def WriteJob_init_def wj_ready_def
      split: prod.splits option.splits)

section \<open>Properties\<close>

text \<open>
  C23. A write delivers its buffer in order and once. Whatever partial results the kernel returns and
  whatever the ring answers, the bytes that reached the descriptor are a prefix of the buffer; the
  completion callback runs exactly when they are the whole buffer, and an error is reported with
  a prefix on the wire.
\<close>

theorem write_delivers_buffer:
  assumes "createFromPoolFromString fd data True True w = (Some j, w1)" "wj_start j w1 = (Pending j', w2)"
    and "wj_results_ok (length data) rs" "wj_run j' rs w2 [] = (res, wire)"
  shows "write_outcome_ok fd data res wire"
proof -
  have "j' = j" using assms(2) by (cases rule: submitWrite_cases[of j w1]) (auto simp: wj_start_def)
  with created_ready[OF assms(1)] assms(3,4) wj_run_delivers[of j "[]" rs w2 res wire] show ?thesis by simp
qed

definition kind_ring :: ring where
  "kind_ring = \<lparr>ora = (\<lambda>_. 0), tick = 0, in_flight = 0, sq = [], srv_state = Running, next_id = 1,
     freed = [], opened = [], closed = []\<rparr>"

theorem write_delivers_buffer_witness:
  "\<exists>j w1 w2. createFromPoolFromString 5 ''hello'' True True kind_ring = (Some j, w1) \<and>
     wj_start j w1 = (Pending j, w2) \<and> wj_run j [2, 3] w2 [] = (Cleanup (OnComplete 5 5), ''hello'') \<and>
     write_outcome_ok 5 ''hello'' (Cleanup (OnComplete 5 5)) ''hello''"
proof -
  define j where "j = (WriteJob_init 1 5 True)\<lparr>wj_data := ''hello'', wj_total_length := 5,
    wj_on_complete := True, wj_on_error := True\<rparr>"
  define w1 where "w1 = kind_ring\<lparr>tick := 1, next_id := 2\<rparr>"
  define w2 where "w2 = w1\<lparr>tick := 3, in_flight := 1, sq := [(1, OpWrite 5 ''hello'')]\<rparr>"
  have 1: "createFromPoolFromString 5 ''hello'' True True kind_ring = (Some j, w1)"
    by (simp add: createFromPoolFromString_def createFromPoolWithOwnedData_def pool_alloc_def ask_def
        kind_ring_def j_def w1_def WriteJob_init_def)
  have 2: "wj_start j w1 = (Pending j, w2)"
    by (simp add: wj_start_def submitWrite_def registerJob_def ask_def submit_def w1_def w2_def kind_ring_def
        wj_prepareSqe_def j_def WriteJob_init_def)
  have 3: "wj_run j [2, 3] w2 [] = (Cleanup (OnComplete 5 5), ''hello'')"
    by (simp add: wj_handleCompletion_def write_cqe_def wj_prepareSqe_def j_def WriteJob_init_def w2_def w1_def
        kind_ring_def submitWrite_def registerJob_def ask_def submit_def Let_def)
  have "wj_results_ok (length ''hello'') [2, 3]" by simp
  from write_delivers_buffer[OF 1 2 this 3] 1 2 3 show ?thesis by blast
qed

text \<open>
  A write job is freed exactly once. Starting it either queues one operation and frees nothing,
  or queues nothing and frees it; from then on, along any sequence of completions, it is returned to
  the pool once, when its operation has completed for good, and never while the kernel still holds it.
\<close>

lemma write_job_freed_once:
  assumes "wj_start j w = (start, w1)"
  shows "(case start of
       Pending j' \<Rightarrow> freed w1 = freed w \<and> ops_since (wj_id j) w w1 = 1 \<and>
         (\<forall>cs r rest w2. write_job.kernel_run j' cs w1 \<longrightarrow> write_job.life j' cs w1 = ((r, rest), w2) \<longrightarrow>
            freed w2 = freed w @ (if r = None then [wj_id j] else []))
     | Abandoned cb \<Rightarrow> freed w1 = freed w @ [wj_id j] \<and> ops_since (wj_id j) w w1 = 0
     | Cleanup cb \<Rightarrow> False)"
proof (cases rule: submitWrite_cases[of j w])
  case (queued w')
  with assms have s: "start = Pending j" "w1 = w'" by (simp_all add: wj_start_def)
  have "freed w2 = freed w' @ (if r = None then [wj_id j] else [])"
    if "write_job.kernel_run j cs w'" "write_job.life j cs w' = ((r, rest), w2)" for cs r rest w2
    using write_job.life_frees_once[OF _ that] by (auto split: option.splits)
  with queued s show ?thesis by (auto simp: ops_since_def)
next
  case (gone w' err)
  with assms show ?thesis by (auto simp: wj_start_def ops_since_def)
qed

end
