(* ===== verification/Accept_Job.thy ===== *)
theory Accept_Job
  imports Write_Job
begin

text \<open>
  The multishot accept, \<^verbatim>\<open>src/jobs/AcceptJob.cpp\<close>. Its two callbacks belong to the owner and change the owner's
  state, so the operations take them as arguments, over any state \<open>'s\<close>; \<open>upd\<close> changes the owner's pointer to the job
  it tracks. \<^verbatim>\<open>getpeername\<close> is left out: the address it finds goes to the log only.
\<close>

record AcceptJob =
  aj_id :: nat
  aj_server_fd :: int
  aj_owner_bound :: bool
  aj_on_connection :: bool
  aj_on_error :: bool

type_synonym 's accept_cb = "int \<Rightarrow> 's \<Rightarrow> ring \<Rightarrow> 's \<times> ring"

definition AcceptJob_init :: "nat \<Rightarrow> int \<Rightarrow> AcceptJob" where
  "AcceptJob_init i server_fd =
     \<lparr>aj_id = i, aj_server_fd = server_fd, aj_owner_bound = False, aj_on_connection = False, aj_on_error = False\<rparr>"

definition aj_create :: "int \<Rightarrow> bool \<Rightarrow> bool \<Rightarrow> ring \<Rightarrow> AcceptJob option \<times> ring" where
  "aj_create server_fd on_connection on_error w =
     (case pool_alloc w of
        (None, w1) \<Rightarrow> (None, w1)
      | (Some i, w1) \<Rightarrow>
          (Some ((AcceptJob_init i server_fd)\<lparr>aj_on_connection := on_connection, aj_on_error := on_error\<rparr>), w1))"

definition aj_freePoolAllocated :: "AcceptJob option \<Rightarrow> ring \<Rightarrow> ring" where
  "aj_freePoolAllocated job w = (case job of None \<Rightarrow> w | Some j \<Rightarrow> pool_free (aj_id j) w)"

definition EMFILE :: int where "EMFILE = 24"
definition ENFILE :: int where "ENFILE = 23"
definition ENOBUFS :: int where "ENOBUFS = 105"

definition aj_prepareSqe :: "AcceptJob \<Rightarrow> sqe_op" where
  "aj_prepareSqe j = OpAccept (aj_server_fd j)"

definition bindOwnerSlot :: "AcceptJob \<Rightarrow> AcceptJob" where
  "bindOwnerSlot j = j\<lparr>aj_owner_bound := True\<rparr>"

text \<open>What becomes of the owner's pointer.\<close>

definition clearOwnerSlot :: "AcceptJob \<Rightarrow> nat option \<Rightarrow> nat option" where
  "clearOwnerSlot j slot = (if aj_owner_bound j \<and> slot = Some (aj_id j) then None else slot)"

definition submitAccept :: "'s accept_cb \<Rightarrow> AcceptJob \<Rightarrow> 's \<Rightarrow> ring \<Rightarrow> 's \<times> ring" where
  "submitAccept on_error j s w =
     (let (sqe, w1) = registerJob (aj_id j) (aj_prepareSqe j) w in
      if sqe then (s, snd (submit w1))
      else if aj_on_error j then on_error EAGAIN s w1 else (s, w1))"

definition aj_start :: "'s accept_cb \<Rightarrow> AcceptJob \<Rightarrow> 's \<Rightarrow> ring \<Rightarrow> 's \<times> ring" where
  "aj_start on_error j s w = submitAccept on_error j s w"

definition aj_requestShutdownCancel :: "nat \<Rightarrow> ring \<Rightarrow> ring" where
  "aj_requestShutdownCancel i w = snd (submit_cancel i w)"

definition resubmitAccept :: "'s accept_cb \<Rightarrow> AcceptJob \<Rightarrow> 's \<Rightarrow> ring \<Rightarrow> 's \<times> ring" where
  "resubmitAccept on_error j s w =
     (if isStopping w \<or> isAborting w then (s, w)
      else let (sqe, w1) = registerJob (aj_id j) (aj_prepareSqe j) w in
        if sqe then (s, snd (submit w1))
        else if aj_on_error j then on_error EAGAIN s w1 else (s, w1))"

definition aj_handleCompletion ::
  "'s accept_cb \<Rightarrow> 's accept_cb \<Rightarrow> ((nat option \<Rightarrow> nat option) \<Rightarrow> 's \<Rightarrow> 's) \<Rightarrow> AcceptJob \<Rightarrow> cqe \<Rightarrow> 's \<Rightarrow> ring \<Rightarrow>
   bool \<times> 's \<times> ring" where
  "aj_handleCompletion on_connection on_error upd j c s w =
     (let result = cqe_res c;
          shutting_down = isStopping w \<or> isAborting w in
      if result < 0 then
        let (s1, w1) = (if \<not> shutting_down \<and> aj_on_error j then on_error (- result) s w else (s, w)) in
        if \<not> shutting_down \<and> (- result = EMFILE \<or> - result = ENFILE \<or> - result = ENOBUFS) then
          let (s2, w2) = resubmitAccept on_error j s1 w1 in (False, s2, w2)
        else (True, upd (clearOwnerSlot j) s1, w1)
      else
        let (s1, w1) = (if result \<noteq> 0 \<and> aj_on_connection j then on_connection result s w else (s, w)) in
        if \<not> cqe_more c then
          if shutting_down then (True, upd (clearOwnerSlot j) s1, w1)
          else let (s2, w2) = resubmitAccept on_error j s1 w1 in (False, s2, w2)
        else (False, s1, w1))"

section \<open>Accounting\<close>

text \<open>A callback that counts what it queues.\<close>

definition balanced_cb :: "'s accept_cb \<Rightarrow> bool" where
  "balanced_cb f \<longleftrightarrow> (\<forall>e s u. balanced u (snd (f e s u)))"

lemma resubmit_balanced:
  assumes "balanced_cb on_error"
  shows "balanced w (snd (resubmitAccept on_error j s w))"
proof (cases "isStopping w \<or> isAborting w")
  case True
  then show ?thesis by (simp add: resubmitAccept_def)
next
  case False
  obtain ok w1 where r: "registerJob (aj_id j) (aj_prepareSqe j) w = (ok, w1)" by fastforce
  then have "balanced w w1" by (metis balanced_register snd_conv)
  moreover have "balanced w1 (snd (on_error EAGAIN s w1))" using assms by (simp add: balanced_cb_def)
  ultimately show ?thesis using False r by (auto simp: resubmitAccept_def intro: balanced_trans)
qed

text \<open>The branches of the completion handler: a callback, and then the job is dropped, kept or armed again.\<close>

lemma accept_cases:
  assumes h: "aj_handleCompletion on_connection on_error upd j c s w = (clean, s', w')"
  obtains (error) s1 w1 where "cqe_res c < 0"
      "(s1, w1) = (if \<not> (isStopping w \<or> isAborting w) \<and> aj_on_error j then on_error (- cqe_res c) s w else (s, w))"
      "(clean \<and> s' = upd (clearOwnerSlot j) s1 \<and> w' = w1) \<or> (\<not> clean \<and> resubmitAccept on_error j s1 w1 = (s', w'))"
  | (event) s1 w1 where "0 \<le> cqe_res c"
      "(s1, w1) = (if cqe_res c \<noteq> 0 \<and> aj_on_connection j then on_connection (cqe_res c) s w else (s, w))"
      "(clean \<and> s' = upd (clearOwnerSlot j) s1 \<and> w' = w1) \<or> (\<not> clean \<and> s' = s1 \<and> w' = w1) \<or>
       (\<not> clean \<and> resubmitAccept on_error j s1 w1 = (s', w'))"
proof (cases "cqe_res c < 0")
  case True
  let ?x = "if \<not> (isStopping w \<or> isAborting w) \<and> aj_on_error j then on_error (- cqe_res c) s w else (s, w)"
  obtain s1 w1 where 1: "?x = (s1, w1)" by fastforce
  let ?retry = "\<not> (isStopping w \<or> isAborting w) \<and> (- cqe_res c = EMFILE \<or> - cqe_res c = ENFILE \<or> - cqe_res c = ENOBUFS)"
  have "(clean, s', w') = (if ?retry then (let (s2, w2) = resubmitAccept on_error j s1 w1 in (False, s2, w2)) else (True, upd (clearOwnerSlot j) s1, w1))"
    using h True unfolding aj_handleCompletion_def Let_def 1 by simp
  then show ?thesis using error[OF True 1[symmetric]] by (cases ?retry) (auto split: prod.splits)
next
  case False
  let ?x = "if cqe_res c \<noteq> 0 \<and> aj_on_connection j then on_connection (cqe_res c) s w else (s, w)"
  obtain s1 w1 where 1: "?x = (s1, w1)" by fastforce
  have "(clean, s', w') = (if \<not> cqe_more c then
       if isStopping w \<or> isAborting w then (True, upd (clearOwnerSlot j) s1, w1)
       else let (s2, w2) = resubmitAccept on_error j s1 w1 in (False, s2, w2)
     else (False, s1, w1))"
    using h False unfolding aj_handleCompletion_def Let_def 1 by simp
  then show ?thesis using event[OF _ 1[symmetric]] False by (cases "cqe_more c"; cases "isStopping w \<or> isAborting w") (auto split: prod.splits)
qed

lemma accept_balanced:
  assumes cb: "balanced_cb on_error" "balanced_cb on_connection"
    and h: "aj_handleCompletion on_connection on_error upd j c s w = (clean, s', w')"
  shows "balanced w w'"
proof (cases rule: accept_cases[OF h, case_names error event])
  case (error s1 w1)
  have "balanced w w1" using error(2) cb(1)[unfolded balanced_cb_def] by (metis balanced_refl snd_conv)
  with error(3) resubmit_balanced[OF cb(1), where w = w1 and j = j and s = s1] show ?thesis by (auto intro: balanced_trans)
next
  case (event s1 w1)
  have "balanced w w1" using event(2) cb(2)[unfolded balanced_cb_def] by (metis balanced_refl snd_conv)
  with event(3) resubmit_balanced[OF cb(1), where w = w1 and j = j and s = s1] show ?thesis by (auto intro: balanced_trans)
qed

end
