(* ===== verification/Splice_File_Job.thy ===== *)
theory Splice_File_Job
  imports Write_Job
begin

text \<open>
  The zero-copy file transfer, \<^verbatim>\<open>src/jobs/SpliceFileJob.cpp\<close>: a pipe, a linked pair of splices (file to
  pipe, pipe to socket) per chunk of at most 64 KiB, a drain when the socket took less than the pipe
  holds, retries, and the truncated file. Sizes and offsets are natural numbers with the
  64-bit wrap-around of the code written out (\<open>add64\<close>, \<open>sub64\<close>); the invariant shows that it does not
  occur. The logging is left out.

  The lemmas show the lifetime contract (the job outlives both legs of a pair), that the pipe is
  closed exactly once, and that what reaches the socket is the requested part of the file.
\<close>

section \<open>Definitions\<close>

datatype splice_state = CreatingPipe | SplicingFileToPipe | SplicingPipeToSocket

record SpliceFileJob =
  sj_id :: nat
  sj_state :: splice_state
  sj_client_fd :: int
  sj_file_fd :: int
  sj_offset :: nat
  sj_remaining :: nat
  sj_total_transferred :: nat
  sj_pipe0 :: int
  sj_pipe1 :: int
  sj_bytes_in_pipe :: nat
  sj_pending_operations :: nat
  sj_current_chunk_size :: nat
  sj_error_pending :: bool
  sj_retry_pending :: bool
  sj_deferred_error :: int
  sj_eof_reached :: bool
  sj_on_complete :: bool
  sj_on_error :: bool

definition SPLICE_CHUNK_SIZE :: nat where "SPLICE_CHUNK_SIZE = 64 * 1024"

definition ECANCELED :: int where "ECANCELED = 125"
definition ENOMEM :: int where "ENOMEM = 12"
definition EIO :: int where "EIO = 5"

definition add64 :: "nat \<Rightarrow> nat \<Rightarrow> nat" where "add64 a b = (a + b) mod 2 ^ 64"
definition sub64 :: "nat \<Rightarrow> nat \<Rightarrow> nat" where "sub64 a b = (a + 2 ^ 64 - b) mod 2 ^ 64"

definition SpliceFileJob_init :: "nat \<Rightarrow> int \<Rightarrow> int \<Rightarrow> nat \<Rightarrow> nat \<Rightarrow> SpliceFileJob" where
  "SpliceFileJob_init i client_fd file_fd offset len =
     \<lparr>sj_id = i, sj_state = CreatingPipe, sj_client_fd = client_fd, sj_file_fd = file_fd, sj_offset = offset,
      sj_remaining = len, sj_total_transferred = 0, sj_pipe0 = - 1, sj_pipe1 = - 1, sj_bytes_in_pipe = 0,
      sj_pending_operations = 0, sj_current_chunk_size = 0, sj_error_pending = False, sj_retry_pending = False,
      sj_deferred_error = 0, sj_eof_reached = False, sj_on_complete = False, sj_on_error = False\<rparr>"

definition sj_createFromPool ::
  "int \<Rightarrow> int \<Rightarrow> nat \<Rightarrow> nat \<Rightarrow> bool \<Rightarrow> bool \<Rightarrow> ring \<Rightarrow> SpliceFileJob option \<times> ring" where
  "sj_createFromPool client_fd file_fd offset len has_complete has_error w =
     (case pool_alloc w of
        (None, w1) \<Rightarrow> (None, w1)
      | (Some i, w1) \<Rightarrow> (Some ((SpliceFileJob_init i client_fd file_fd offset len)
           \<lparr>sj_on_complete := has_complete, sj_on_error := has_error\<rparr>), w1))"

definition sj_error_cb :: "SpliceFileJob \<Rightarrow> int \<Rightarrow> job_cb" where
  "sj_error_cb j err = (if sj_on_error j then OnError (sj_client_fd j) err else NoCallback)"

definition sj_complete_cb :: "SpliceFileJob \<Rightarrow> job_cb" where
  "sj_complete_cb j = (if sj_on_complete j then OnComplete (sj_client_fd j) (sj_total_transferred j) else NoCallback)"

definition sj_chunk_size :: "SpliceFileJob \<Rightarrow> nat" where
  "sj_chunk_size j = min SPLICE_CHUNK_SIZE (sj_remaining j)"

definition file_to_pipe_op :: "SpliceFileJob \<Rightarrow> sqe_op" where
  "file_to_pipe_op j = OpSplice (sj_file_fd j) (int (sj_offset j)) (sj_pipe1 j) (sj_chunk_size j)"

definition pipe_to_socket_op :: "SpliceFileJob \<Rightarrow> nat \<Rightarrow> sqe_op" where
  "pipe_to_socket_op j n = OpSplice (sj_pipe0 j) (- 1) (sj_client_fd j) n"

definition sj_prepareSqe :: "SpliceFileJob \<Rightarrow> sqe_op option" where
  "sj_prepareSqe j =
     (case sj_state j of
        SplicingFileToPipe \<Rightarrow> Some (file_to_pipe_op j)
      | SplicingPipeToSocket \<Rightarrow> Some (pipe_to_socket_op j (sj_bytes_in_pipe j))
      | CreatingPipe \<Rightarrow> None)"

definition createPipe :: "SpliceFileJob \<Rightarrow> ring \<Rightarrow> SpliceFileJob \<times> ring" where
  "createPipe j w =
     (let (a, w1) = ask w in
      if a < 0 then (j\<lparr>sj_pipe0 := - 1, sj_pipe1 := - 1\<rparr>, w1)
      else let (p0, w2) = ask w1; (p1, w3) = ask w2 in (j\<lparr>sj_pipe0 := p0, sj_pipe1 := p1\<rparr>, open_fd p1 (open_fd p0 w3)))"

text \<open>
  The three submission helpers. Where the source returns true the job stays (\<open>Pending\<close>); where it
  returns false a callback has run and the caller frees the job (\<open>Cleanup\<close>).
\<close>

definition startLinkedSplice :: "SpliceFileJob \<Rightarrow> ring \<Rightarrow> SpliceFileJob job_result \<times> ring" where
  "startLinkedSplice j w =
     (let chunk_size = sj_chunk_size j in
      if chunk_size = 0 then (Cleanup (sj_complete_cb j), w)
      else let (sqe1, w1) = registerJob (sj_id j) (file_to_pipe_op j) w in
        if \<not> sqe1 then (Cleanup (sj_error_cb j (- ENOMEM)), w1)
        else let (sqe2, w2) = registerJob (sj_id j) (pipe_to_socket_op j chunk_size) w1 in
          if \<not> sqe2 then
            (Pending (j\<lparr>sj_error_pending := True, sj_pending_operations := 1\<rparr>), snd (submit w2))
          else
            (Pending (j\<lparr>sj_state := SplicingFileToPipe, sj_pending_operations := 2,
                        sj_current_chunk_size := chunk_size\<rparr>), snd (submit w2)))"

definition drainPipeToSocket :: "SpliceFileJob \<Rightarrow> ring \<Rightarrow> SpliceFileJob job_result \<times> ring" where
  "drainPipeToSocket j w =
     (let (sqe, w1) = registerJob (sj_id j) (pipe_to_socket_op j (sj_bytes_in_pipe j)) w in
      if \<not> sqe then (Cleanup (sj_error_cb j (- ENOMEM)), w1)
      else (Pending (j\<lparr>sj_state := SplicingPipeToSocket, sj_pending_operations := 1\<rparr>), snd (submit w1)))"

text \<open>
  \<^verbatim>\<open>prepareSqe\<close> writes nothing in the state CreatingPipe; the entry then is a no-op, here a splice of no bytes.
\<close>

definition sj_resubmit :: "SpliceFileJob \<Rightarrow> ring \<Rightarrow> SpliceFileJob job_result \<times> ring" where
  "sj_resubmit j w =
     (let op = (case sj_prepareSqe j of Some o' \<Rightarrow> o' | None \<Rightarrow> OpSplice (- 1) (- 1) (- 1) 0);
          (sqe, w1) = registerJob (sj_id j) op w in
      if sqe then (Pending j, snd (submit w1)) else (Cleanup (sj_error_cb j (- ENOMEM)), w1))"

definition closePipeWriteEnd :: "SpliceFileJob \<Rightarrow> ring \<Rightarrow> SpliceFileJob \<times> ring" where
  "closePipeWriteEnd j w =
     (if sj_pipe1 j \<ge> 0 then (j\<lparr>sj_pipe1 := - 1\<rparr>, close_fd (sj_pipe1 j) w) else (j, w))"

text \<open>The destructor, then the return to the pool: what the cleanup callback and \<^verbatim>\<open>start\<close> do.\<close>

definition sj_cleanup :: "SpliceFileJob \<Rightarrow> ring \<Rightarrow> ring" where
  "sj_cleanup j w =
     (let w1 = (if sj_pipe0 j \<ge> 0 then close_fd (sj_pipe0 j) w else w);
          w2 = (if sj_pipe1 j \<ge> 0 then close_fd (sj_pipe1 j) w1 else w1) in
      pool_free (sj_id j) w2)"

text \<open>A negative result of one leg; \<open>j\<close> has the operation already taken off the pending count.\<close>

definition sj_failed_leg :: "SpliceFileJob \<Rightarrow> int \<Rightarrow> ring \<Rightarrow> SpliceFileJob job_result \<times> ring" where
  "sj_failed_leg j res w =
     (if - res = ECANCELED then
        if sj_pending_operations j > 0 then (Pending j, w)
        else if sj_retry_pending j then startLinkedSplice (j\<lparr>sj_retry_pending := False\<rparr>) w
        else let err = (if sj_deferred_error j \<noteq> 0 then sj_deferred_error j else ECANCELED) in
             (Cleanup (sj_error_cb j err), w)
      else if - res = EAGAIN then
        if sj_pending_operations j > 0 then (Pending (j\<lparr>sj_retry_pending := True\<rparr>), w)
        else if sj_error_pending j then (Cleanup (sj_error_cb j ENOMEM), w)
        else sj_resubmit (j\<lparr>sj_pending_operations := sj_pending_operations j + 1\<rparr>) w
      else if sj_pending_operations j > 0 then (Pending (j\<lparr>sj_deferred_error := - res\<rparr>), w)
      else (Cleanup (sj_error_cb j (- res)), w))"

definition sj_file_to_pipe_done :: "SpliceFileJob \<Rightarrow> nat \<Rightarrow> ring \<Rightarrow> SpliceFileJob job_result \<times> ring" where
  "sj_file_to_pipe_done j n w =
     (if n = 0 then
        let (j1, w1) = closePipeWriteEnd (j\<lparr>sj_eof_reached := True, sj_deferred_error := EIO\<rparr>) w in
        (Pending (j1\<lparr>sj_state := SplicingPipeToSocket\<rparr>), w1)
      else
        (Pending (j\<lparr>sj_offset := add64 (sj_offset j) n, sj_bytes_in_pipe := add64 (sj_bytes_in_pipe j) n,
                    sj_current_chunk_size := n,
                    sj_remaining := (if sj_remaining j > 0 then sj_remaining j - min (sj_remaining j) n
                                     else sj_remaining j),
                    sj_state := SplicingPipeToSocket\<rparr>), w))"

definition sj_pipe_to_socket_done :: "SpliceFileJob \<Rightarrow> nat \<Rightarrow> ring \<Rightarrow> SpliceFileJob job_result \<times> ring" where
  "sj_pipe_to_socket_done j n w =
     (let j1 = j\<lparr>sj_total_transferred := add64 (sj_total_transferred j) n,
                sj_bytes_in_pipe := sub64 (sj_bytes_in_pipe j) n\<rparr> in
      if sj_bytes_in_pipe j1 > 0 then drainPipeToSocket j1 w
      else if sj_eof_reached j1 \<and> sj_remaining j1 > 0 then
        (Cleanup (sj_error_cb j1 (if sj_deferred_error j1 \<noteq> 0 then sj_deferred_error j1 else EIO)), w)
      else if sj_remaining j1 > 0 then startLinkedSplice j1 w
      else (Cleanup (sj_complete_cb j1), w))"

definition sj_handleCompletion :: "SpliceFileJob \<Rightarrow> cqe \<Rightarrow> ring \<Rightarrow> SpliceFileJob job_result \<times> ring" where
  "sj_handleCompletion j c w =
     (let res = cqe_res c in
      if sj_pending_operations j > 0 then
        let j1 = j\<lparr>sj_pending_operations := sj_pending_operations j - 1\<rparr> in
        if res < 0 then sj_failed_leg j1 res w
        else if sj_error_pending j1 \<and> sj_pending_operations j1 = 0 then (Cleanup (sj_error_cb j1 ENOMEM), w)
        else (case sj_state j1 of
                SplicingFileToPipe \<Rightarrow> sj_file_to_pipe_done j1 (nat res) w
              | SplicingPipeToSocket \<Rightarrow> sj_pipe_to_socket_done j1 (nat res) w
              | CreatingPipe \<Rightarrow> (Pending j1, w))
      else (Pending j, w))"

text \<open>
  \<^verbatim>\<open>start\<close> frees the job itself when nothing was submitted, after the callback has run; the callback
  does not look at the splice job.
\<close>

definition sj_start :: "SpliceFileJob \<Rightarrow> ring \<Rightarrow> SpliceFileJob job_result \<times> ring" where
  "sj_start j w =
     (let (j1, w1) = createPipe j w in
      if sj_pipe0 j1 < 0 \<or> sj_pipe1 j1 < 0 then
        (Abandoned (sj_error_cb j1 ENOMEM), sj_cleanup j1 w1)
      else (case startLinkedSplice j1 w1 of
              (Pending j2, w2) \<Rightarrow> (Pending j2, w2)
            | (Cleanup cb, w2) \<Rightarrow> (Abandoned cb, sj_cleanup j1 w2)
            | (Abandoned cb, w2) \<Rightarrow> (Abandoned cb, w2)))"

section \<open>The lifetime contract\<close>

definition sj_inv :: "SpliceFileJob \<Rightarrow> bool" where
  "sj_inv j \<longleftrightarrow> 1 \<le> sj_pending_operations j \<and> sj_pending_operations j \<le> 2 \<and>
     (sj_pending_operations j = 2 \<longrightarrow> sj_state j = SplicingFileToPipe \<and> \<not> sj_error_pending j \<and> sj_remaining j > 0) \<and>
     (sj_state j = SplicingPipeToSocket \<longrightarrow> sj_pending_operations j = 1) \<and>
     (sj_state j = CreatingPipe \<longrightarrow> sj_error_pending j) \<and>
     (sj_retry_pending j \<longrightarrow> sj_state j = SplicingFileToPipe \<and> sj_pending_operations j = 1 \<and> \<not> sj_error_pending j \<and>
        sj_remaining j > 0)"

text \<open>
  What the kernel promises: a splice has one completion, and the second leg of a linked pair whose
  first leg failed completes with ECANCELED.
\<close>

definition sj_kernel_ok :: "SpliceFileJob \<Rightarrow> cqe \<Rightarrow> bool" where
  "sj_kernel_ok j c \<longleftrightarrow> \<not> cqe_more c \<and>
     (sj_pending_operations j = 1 \<and> sj_state j = SplicingFileToPipe \<and> \<not> sj_error_pending j \<longrightarrow>
        cqe_res c = - ECANCELED)"

lemma startLinkedSplice_cases:
  obtains (nothing) "startLinkedSplice j w = (Cleanup (sj_complete_cb j), w)" "sj_remaining j = 0"
  | (failed) w' where "startLinkedSplice j w = (Cleanup (sj_error_cb j (- ENOMEM)), w')" "sq w' = sq w"
      "in_flight w' = in_flight w" "freed w' = freed w" "closed w' = closed w" "opened w' = opened w" "next_id w' = next_id w" "srv_state w' = srv_state w"
      "sj_remaining j > 0"
  | (half) w' where "startLinkedSplice j w = (Pending (j\<lparr>sj_error_pending := True, sj_pending_operations := 1\<rparr>), w')"
      "sq w' = sq w @ [(sj_id j, file_to_pipe_op j)]" "in_flight w' = in_flight w + 1" "freed w' = freed w"
      "closed w' = closed w" "opened w' = opened w" "next_id w' = next_id w" "srv_state w' = srv_state w" "sj_remaining j > 0"
  | (pair) w' where "startLinkedSplice j w = (Pending (j\<lparr>sj_state := SplicingFileToPipe, sj_pending_operations := 2,
        sj_current_chunk_size := sj_chunk_size j\<rparr>), w')"
      "sq w' = sq w @ [(sj_id j, file_to_pipe_op j), (sj_id j, pipe_to_socket_op j (sj_chunk_size j))]"
      "in_flight w' = in_flight w + 2" "freed w' = freed w" "closed w' = closed w" "opened w' = opened w" "next_id w' = next_id w"
      "srv_state w' = srv_state w" "sj_remaining j > 0"
proof (cases "sj_chunk_size j = 0")
  case True
  then have z: "sj_remaining j = 0"
    by (simp add: sj_chunk_size_def SPLICE_CHUNK_SIZE_def min_def split: if_splits)
  have "startLinkedSplice j w = (Cleanup (sj_complete_cb j), w)" using True by (simp add: startLinkedSplice_def)
  then show ?thesis using z by (rule nothing)
next
  case False
  then have rem: "sj_remaining j > 0" by (simp add: sj_chunk_size_def)
  show ?thesis
  proof (cases rule: registerJob_cases[of "sj_id j" "file_to_pipe_op j" w])
    case (no w1)
    with False rem show ?thesis by (intro failed[of w1]) (simp_all add: startLinkedSplice_def)
  next
    case (ok w1)
    note w1 = this
    show ?thesis
    proof (cases rule: registerJob_cases[of "sj_id j" "pipe_to_socket_op j (sj_chunk_size j)" w1])
      case (no w2)
      with w1 False rem show ?thesis
        by (intro half[of "snd (submit w2)"]) (simp_all add: startLinkedSplice_def ring_simps)
    next
      case (ok w2)
      with w1 False rem show ?thesis
        by (intro pair[of "snd (submit w2)"]) (simp_all add: startLinkedSplice_def ring_simps)
    qed
  qed
qed

lemma drainPipeToSocket_cases:
  obtains (failed) w' where "drainPipeToSocket j w = (Cleanup (sj_error_cb j (- ENOMEM)), w')" "sq w' = sq w"
      "in_flight w' = in_flight w" "freed w' = freed w" "closed w' = closed w" "opened w' = opened w" "next_id w' = next_id w" "srv_state w' = srv_state w"
  | (queued) w' where "drainPipeToSocket j w =
        (Pending (j\<lparr>sj_state := SplicingPipeToSocket, sj_pending_operations := 1\<rparr>), w')"
      "sq w' = sq w @ [(sj_id j, pipe_to_socket_op j (sj_bytes_in_pipe j))]"
      "in_flight w' = in_flight w + 1" "freed w' = freed w" "closed w' = closed w" "opened w' = opened w" "next_id w' = next_id w" "srv_state w' = srv_state w"
proof (cases rule: registerJob_cases[of "sj_id j" "pipe_to_socket_op j (sj_bytes_in_pipe j)" w])
  case (ok w1)
  then show ?thesis by (intro queued[of "snd (submit w1)"]) (simp_all add: drainPipeToSocket_def ring_simps)
next
  case (no w1)
  then show ?thesis by (intro failed[of w1]) (simp_all add: drainPipeToSocket_def)
qed

lemma sj_resubmit_cases:
  obtains (failed) w' where "sj_resubmit j w = (Cleanup (sj_error_cb j (- ENOMEM)), w')" "sq w' = sq w"
      "in_flight w' = in_flight w" "freed w' = freed w" "closed w' = closed w" "opened w' = opened w" "next_id w' = next_id w" "srv_state w' = srv_state w"
  | (queued) w' op where "sj_resubmit j w = (Pending j, w')" "sq w' = sq w @ [(sj_id j, op)]"
      "in_flight w' = in_flight w + 1" "freed w' = freed w" "closed w' = closed w" "opened w' = opened w" "next_id w' = next_id w" "srv_state w' = srv_state w"
proof -
  let ?op = "case sj_prepareSqe j of Some o' \<Rightarrow> o' | None \<Rightarrow> OpSplice (- 1) (- 1) (- 1) 0"
  show ?thesis
  proof (cases rule: registerJob_cases[of "sj_id j" ?op w])
    case (ok w1)
    then show ?thesis
      by (intro queued[of "snd (submit w1)" ?op]) (simp_all add: sj_resubmit_def ring_simps Let_def)
  next
    case (no w1)
    then show ?thesis by (intro failed[of w1]) (simp_all add: sj_resubmit_def Let_def)
  qed
qed

text \<open>
  \<open>step_ok n j w r w'\<close>: the effect of the rest of a handler, \<open>n\<close> operations of the job still out after
  the one that completed.
\<close>

definition step_ok :: "nat \<Rightarrow> SpliceFileJob \<Rightarrow> ring \<Rightarrow> SpliceFileJob job_result \<Rightarrow> ring \<Rightarrow> bool" where
  "step_ok n j w r w' \<longleftrightarrow> freed w' = freed w \<and> balanced w w' \<and>
     (case r of
        Pending j' \<Rightarrow> sj_inv j' \<and> sj_id j' = sj_id j \<and> sj_pending_operations j' = n + ops_since (sj_id j) w w'
      | Cleanup cb \<Rightarrow> n = 0 \<and> ops_since (sj_id j) w w' = 0
      | Abandoned cb \<Rightarrow> False)"

lemma step_startLinkedSplice:
  "\<not> sj_error_pending j \<Longrightarrow> \<not> sj_retry_pending j \<Longrightarrow> startLinkedSplice j w = (r, w') \<Longrightarrow> step_ok 0 j w r w'"
  by (cases rule: startLinkedSplice_cases[of j w])
     (auto simp: step_ok_def ops_since_def balanced_def sj_inv_def)

lemma step_drain:
  "\<not> sj_error_pending j \<Longrightarrow> \<not> sj_retry_pending j \<Longrightarrow> drainPipeToSocket j w = (r, w') \<Longrightarrow> step_ok 0 j w r w'"
  by (cases rule: drainPipeToSocket_cases[of j w])
     (auto simp: step_ok_def ops_since_def balanced_def sj_inv_def)

lemma step_resubmit:
  "sj_inv j \<Longrightarrow> sj_pending_operations j = 1 \<Longrightarrow> sj_resubmit j w = (r, w') \<Longrightarrow> step_ok 0 j w r w'"
  by (cases rule: sj_resubmit_cases[of j w]) (auto simp: step_ok_def ops_since_def balanced_def)

lemma step_ok_cong:
  "step_ok n j w r w' \<Longrightarrow> sj_id j = sj_id j0 \<Longrightarrow> step_ok n j0 w r w'"
  by (auto simp: step_ok_def split: job_result.splits)

lemma closePipeWriteEnd_simps:
  "sj_id (fst (closePipeWriteEnd j w)) = sj_id j"
  "sj_pending_operations (fst (closePipeWriteEnd j w)) = sj_pending_operations j"
  "sj_error_pending (fst (closePipeWriteEnd j w)) = sj_error_pending j"
  "sj_retry_pending (fst (closePipeWriteEnd j w)) = sj_retry_pending j"
  "sq (snd (closePipeWriteEnd j w)) = sq w" "freed (snd (closePipeWriteEnd j w)) = freed w"
  "in_flight (snd (closePipeWriteEnd j w)) = in_flight w"
  by (auto simp: closePipeWriteEnd_def ring_simps)

lemma step_failed_leg:
  assumes inv: "sj_inv j" and r: "sj_failed_leg (j\<lparr>sj_pending_operations := sj_pending_operations j - 1\<rparr>) res w = (r, w')"
    and k: "sj_pending_operations j = 1 \<and> sj_state j = SplicingFileToPipe \<and> \<not> sj_error_pending j \<longrightarrow> res = - ECANCELED"
  shows "step_ok (sj_pending_operations j - 1) j w r w'"
proof (cases "sj_pending_operations j = 2")
  case True
  then show ?thesis
    using inv r by (auto simp: sj_failed_leg_def step_ok_def sj_inv_def ops_since_same split: if_splits)
next
  case False
  with inv have one: "sj_pending_operations j = 1" by (auto simp: sj_inv_def)
  let ?j = "j\<lparr>sj_pending_operations := 0\<rparr>"
  have ne: "sj_error_pending j \<Longrightarrow> \<not> sj_retry_pending j" using inv by (auto simp: sj_inv_def)
  consider (retry) "- res = ECANCELED" "sj_retry_pending j"
    | (again) "- res = EAGAIN" "- res \<noteq> ECANCELED" "\<not> sj_error_pending j"
    | (over) cb where "r = Cleanup cb" "w' = w"
    using r one by (auto simp: sj_failed_leg_def split: if_splits)
  then show ?thesis
  proof cases
    case retry
    then have e: "startLinkedSplice (?j\<lparr>sj_retry_pending := False\<rparr>) w = (r, w')"
      using r one by (simp add: sj_failed_leg_def)
    from ne retry(2) have "\<not> sj_error_pending (?j\<lparr>sj_retry_pending := False\<rparr>)" by auto
    from step_startLinkedSplice[OF this _ e] step_ok_cong[of 0 "?j\<lparr>sj_retry_pending := False\<rparr>" w r w' j] one
    show ?thesis by simp
  next
    case again
    then have e: "sj_resubmit (?j\<lparr>sj_pending_operations := 1\<rparr>) w = (r, w')"
      using r one by (simp add: sj_failed_leg_def)
    have "?j\<lparr>sj_pending_operations := 1\<rparr> = j" using one by (cases j) simp
    with e have "sj_resubmit j w = (r, w')" by metis
    from step_resubmit[OF inv one this] one show ?thesis by simp
  next
    case over
    with one show ?thesis by (simp add: step_ok_def ops_since_same)
  qed
qed

lemma step_file_to_pipe:
  assumes inv: "sj_inv j" and two: "sj_pending_operations j = 2"
    and r: "sj_file_to_pipe_done (j\<lparr>sj_pending_operations := 1\<rparr>) n w = (r, w')"
  shows "step_ok 1 j w r w'"
proof (cases "n = 0")
  case True
  let ?j = "j\<lparr>sj_pending_operations := 1, sj_eof_reached := True, sj_deferred_error := EIO\<rparr>"
  obtain j1 w1 where c: "closePipeWriteEnd ?j w = (j1, w1)" by fastforce
  have "r = Pending (j1\<lparr>sj_state := SplicingPipeToSocket\<rparr>)" "w' = w1"
    using r True c by (simp_all add: sj_file_to_pipe_done_def)
  with closePipeWriteEnd_simps[of ?j w] c inv two show ?thesis
    by (auto simp: step_ok_def sj_inv_def ops_since_same intro: balanced_same)
next
  case False
  with inv two r show ?thesis
    by (auto simp: sj_file_to_pipe_done_def step_ok_def sj_inv_def ops_since_same)
qed

lemma step_pipe_to_socket:
  assumes inv: "sj_inv j" and st: "sj_state j = SplicingPipeToSocket" and ne: "\<not> sj_error_pending j"
    and r: "sj_pipe_to_socket_done (j\<lparr>sj_pending_operations := 0\<rparr>) n w = (r, w')"
  shows "step_ok 0 j w r w'"
proof -
  let ?j = "j\<lparr>sj_pending_operations := 0, sj_total_transferred := add64 (sj_total_transferred j) n,
     sj_bytes_in_pipe := sub64 (sj_bytes_in_pipe j) n\<rparr>"
  have nr: "\<not> sj_retry_pending j" using inv st by (auto simp: sj_inv_def)
  consider (drain) "drainPipeToSocket ?j w = (r, w')" | (next_pair) "startLinkedSplice ?j w = (r, w')"
    | (over) cb where "r = Cleanup cb" "w' = w"
    using r by (auto simp: sj_pipe_to_socket_done_def Let_def split: if_splits)
  then show ?thesis
  proof cases
    case drain
    with step_drain[of ?j w r w'] step_ok_cong[of 0 ?j w r w' j] ne nr show ?thesis by simp
  next
    case next_pair
    with step_startLinkedSplice[of ?j w r w'] step_ok_cong[of 0 ?j w r w' j] ne nr show ?thesis by simp
  next
    case over
    then show ?thesis by (simp add: step_ok_def ops_since_same)
  qed
qed

lemma sj_handle_ok:
  assumes inv: "sj_inv j" and k: "sj_kernel_ok j c" and r: "sj_handleCompletion j c w = (r, w')"
  shows "step_ok (sj_pending_operations j - 1) j w r w'"
proof -
  have pos: "sj_pending_operations j > 0" using inv by (simp add: sj_inv_def)
  let ?j = "j\<lparr>sj_pending_operations := sj_pending_operations j - 1\<rparr>"
  show ?thesis
  proof (cases "cqe_res c < 0")
    case True
    with pos r have "sj_failed_leg ?j (cqe_res c) w = (r, w')" by (simp add: sj_handleCompletion_def)
    with step_failed_leg[OF inv] k show ?thesis by (simp add: sj_kernel_ok_def)
  next
    case nn: False
    show ?thesis
    proof (cases "sj_error_pending j \<and> sj_pending_operations j = 1")
      case True
      with pos r nn show ?thesis by (auto simp: sj_handleCompletion_def step_ok_def ops_since_same)
    next
      case False
      show ?thesis
      proof (cases "sj_state j")
        case CreatingPipe
        with inv False show ?thesis by (auto simp: sj_inv_def)
      next
        case SplicingFileToPipe
        have "sj_pending_operations j = 2"
        proof (rule ccontr)
          assume "sj_pending_operations j \<noteq> 2"
          with inv have one: "sj_pending_operations j = 1" by (auto simp: sj_inv_def)
          with False k SplicingFileToPipe have "cqe_res c = - ECANCELED" by (simp add: sj_kernel_ok_def)
          with nn show False by (simp add: ECANCELED_def)
        qed
        moreover from this have "sj_file_to_pipe_done (j\<lparr>sj_pending_operations := 1\<rparr>) (nat (cqe_res c)) w = (r, w')"
          using r nn False SplicingFileToPipe by (simp add: sj_handleCompletion_def)
        ultimately show ?thesis using step_file_to_pipe[OF inv] by simp
      next
        case SplicingPipeToSocket
        then have one: "sj_pending_operations j = 1" using inv by (simp add: sj_inv_def)
        then have "sj_pipe_to_socket_done (j\<lparr>sj_pending_operations := 0\<rparr>) (nat (cqe_res c)) w = (r, w')"
          using r nn False SplicingPipeToSocket by (simp add: sj_handleCompletion_def)
        with step_pipe_to_socket[OF inv SplicingPipeToSocket] False one show ?thesis by simp
      qed
    qed
  qed
qed

interpretation splice_job: io_job sj_handleCompletion sj_id sj_pending_operations sj_inv sj_kernel_ok
proof
  fix j c w j' w' cb
  assume a: "sj_inv j" "sj_kernel_ok j c"
  have more: "\<not> cqe_more c" and pos: "sj_pending_operations j > 0"
    using a by (simp_all add: sj_kernel_ok_def sj_inv_def)
  show "sj_handleCompletion j c w = (Pending j', w') \<Longrightarrow>
      sj_inv j' \<and> sj_id j' = sj_id j \<and> 0 < sj_pending_operations j' \<and> freed w' = freed w \<and>
      sj_pending_operations j' + (if cqe_more c then 0 else 1) = sj_pending_operations j + ops_since (sj_id j) w w'"
    using sj_handle_ok[OF a] more pos by (fastforce simp: step_ok_def sj_inv_def)
  have z: "sj_pending_operations j - 1 = 0 \<Longrightarrow> sj_pending_operations j = 1" using pos by simp
  show "sj_handleCompletion j c w = (Cleanup cb, w') \<Longrightarrow>
      freed w' = freed w \<and> sj_pending_operations j = 1 \<and> \<not> cqe_more c \<and> ops_since (sj_id j) w w' = 0"
    using sj_handle_ok[OF a] more z by (fastforce simp: step_ok_def)
  show "sj_handleCompletion j c w = (Abandoned cb, w') \<Longrightarrow>
      freed w' = freed w @ [sj_id j] \<and> sj_pending_operations j = 1 \<and> \<not> cqe_more c \<and> ops_since (sj_id j) w w' = 0"
    using sj_handle_ok[OF a] by (fastforce simp: step_ok_def)
  show "balanced w (snd (sj_handleCompletion j c w))"
    using sj_handle_ok[OF a] by (metis prod.collapse step_ok_def)
qed

section \<open>What reaches the socket\<close>

text \<open>
  The data the kernel moves: \<open>file\<close> is the content of the file, \<open>pipe\<close> what the pipe holds, \<open>out\<close> what the
  socket has taken. The first leg of a pair reads from the job's offset; every other splice of the
  job moves bytes from the pipe to the socket.
\<close>

definition file_leg :: "SpliceFileJob \<Rightarrow> bool" where
  "file_leg j \<longleftrightarrow> sj_error_pending j \<or> sj_state j \<noteq> SplicingPipeToSocket"

definition splice_effect :: "string \<Rightarrow> SpliceFileJob \<Rightarrow> nat \<Rightarrow> string \<times> string \<Rightarrow> string \<times> string" where
  "splice_effect file j n po =
     (if file_leg j then (fst po @ take n (drop (sj_offset j) file), snd po)
      else (drop n (fst po), snd po @ take n (fst po)))"

definition splice_cqe :: "SpliceFileJob \<Rightarrow> int \<Rightarrow> cqe" where
  "splice_cqe j r = \<lparr>cqe_job = Some (sj_id j), cqe_res = r, cqe_more = False, cqe_buf = 0\<rparr>"

text \<open>A splice moves no more than it was asked for and no more than there is.\<close>

definition splice_result_ok :: "string \<Rightarrow> SpliceFileJob \<Rightarrow> int \<Rightarrow> string \<Rightarrow> bool" where
  "splice_result_ok file j r pipe \<longleftrightarrow> sj_kernel_ok j (splice_cqe j r) \<and>
     (if file_leg j then r \<le> int (sj_chunk_size j) \<and> r \<le> int (length file - sj_offset j) else r \<le> int (length pipe))"

fun sj_run ::
  "string \<Rightarrow> SpliceFileJob \<Rightarrow> int list \<Rightarrow> ring \<Rightarrow> string \<times> string \<Rightarrow> SpliceFileJob job_result \<times> string" where
  "sj_run file j [] w po = (Pending j, snd po)"
| "sj_run file j (r # rs) w po =
     (case sj_handleCompletion j (splice_cqe j r) w of
        (Pending j', w') \<Rightarrow> sj_run file j' rs w' (splice_effect file j (nat r) po)
      | (res, w') \<Rightarrow> (res, snd (splice_effect file j (nat r) po)))"

fun sj_results_ok :: "string \<Rightarrow> SpliceFileJob \<Rightarrow> int list \<Rightarrow> ring \<Rightarrow> string \<times> string \<Rightarrow> bool" where
  "sj_results_ok file j [] w po \<longleftrightarrow> True"
| "sj_results_ok file j (r # rs) w po \<longleftrightarrow> splice_result_ok file j r (fst po) \<and>
     (case sj_handleCompletion j (splice_cqe j r) w of
        (Pending j', w') \<Rightarrow> sj_results_ok file j' rs w' (splice_effect file j (nat r) po)
      | (res, w') \<Rightarrow> True)"

definition transfer_inv :: "string \<Rightarrow> nat \<Rightarrow> nat \<Rightarrow> SpliceFileJob \<Rightarrow> string \<times> string \<Rightarrow> bool" where
  "transfer_inv file off0 len0 j po \<longleftrightarrow>
     (let pipe = fst po; out = snd po; n = length out + length pipe in
      length file < 2 ^ 63 \<and> len0 < 2 ^ 63 \<and>
      sj_bytes_in_pipe j = length pipe \<and> sj_total_transferred j = length out \<and>
      out @ pipe = take n (drop off0 file) \<and> sj_offset j = off0 + n \<and> off0 + n \<le> length file \<and>
      sj_remaining j + n = len0 \<and> (sj_state j \<noteq> SplicingPipeToSocket \<longrightarrow> pipe = []))"

lemma add64_small: "a + b < 2 ^ 64 \<Longrightarrow> add64 a b = a + b"
  by (simp add: add64_def)

lemma sub64_small: "b \<le> a \<Longrightarrow> a < 2 ^ 64 \<Longrightarrow> sub64 a b = a - b"
proof -
  assume a: "b \<le> a" "a < 2 ^ 64"
  then have "sub64 a b = ((a - b) + 2 ^ 64) mod 2 ^ 64" by (simp add: sub64_def)
  also have "\<dots> = (a - b) mod 2 ^ 64" by (rule mod_add_self2)
  finally show ?thesis using a by simp
qed

lemma transfer_inv_cong:
  "transfer_inv file off0 len0 j po \<Longrightarrow> sj_bytes_in_pipe j' = sj_bytes_in_pipe j \<Longrightarrow>
   sj_total_transferred j' = sj_total_transferred j \<Longrightarrow> sj_offset j' = sj_offset j \<Longrightarrow>
   sj_remaining j' = sj_remaining j \<Longrightarrow> (sj_state j' \<noteq> SplicingPipeToSocket \<longrightarrow> fst po = []) \<Longrightarrow>
   transfer_inv file off0 len0 j' po"
  by (simp add: transfer_inv_def Let_def)

lemma effect_zero: "splice_effect file j 0 po = po"
  by (simp add: splice_effect_def)

lemma transfer_file_leg:
  assumes t: "transfer_inv file off0 len0 j po" and st: "sj_state j = SplicingFileToPipe" "\<not> sj_error_pending j"
    and n: "0 < n" "n \<le> sj_chunk_size j" "n \<le> length file - sj_offset j"
    and h: "sj_file_to_pipe_done (j\<lparr>sj_pending_operations := k\<rparr>) n w = (Pending j', w')"
  shows "transfer_inv file off0 len0 j' (splice_effect file j n po)"
proof -
  obtain out where po: "po = ([], out)" using t st(1) by (cases po) (simp add: transfer_inv_def Let_def)
  have eff: "splice_effect file j n po = (take n (drop (sj_offset j) file), out)"
    using st(1) by (simp add: splice_effect_def file_leg_def po)
  have b: "sj_offset j = off0 + length out" "off0 + length out \<le> length file" "length file < 2 ^ 63" "len0 < 2 ^ 63"
    "out = take (length out) (drop off0 file)" "sj_remaining j + length out = len0" "sj_bytes_in_pipe j = 0"
    "sj_total_transferred j = length out"
    using t by (simp_all add: transfer_inv_def Let_def po)
  have rem: "n \<le> sj_remaining j" using n(2) by (simp add: sj_chunk_size_def)
  have len: "length (take n (drop (sj_offset j) file)) = n" using n(3) by simp
  have sum: "off0 + length out + n < 2 ^ 64" using b(1,2,3) n(3) by simp
  have "out @ take n (drop (sj_offset j) file) = take (length out + n) (drop off0 file)"
    using b(1,5) by (metis add.commute drop_drop take_add)
  moreover have "add64 (sj_offset j) n = off0 + (length out + n)"
    using sum b(1) by (simp add: add64_small add.assoc)
  moreover have "add64 (sj_bytes_in_pipe j) n = n" using sum b(7) by (simp add: add64_small)
  moreover have "j' = j\<lparr>sj_pending_operations := k, sj_offset := add64 (sj_offset j) n,
      sj_bytes_in_pipe := add64 (sj_bytes_in_pipe j) n, sj_current_chunk_size := n,
      sj_remaining := sj_remaining j - n, sj_state := SplicingPipeToSocket\<rparr>"
    using h n(1) rem by (auto simp: sj_file_to_pipe_done_def min_def)
  ultimately show ?thesis
    unfolding eff transfer_inv_def using b n rem len by (simp add: Let_def)
qed

lemma transfer_socket_leg:
  assumes t: "transfer_inv file off0 len0 j po" and st: "sj_state j = SplicingPipeToSocket" "\<not> sj_error_pending j"
    and n: "n \<le> length (fst po)"
    and j1: "j1 = j\<lparr>sj_pending_operations := k, sj_total_transferred := add64 (sj_total_transferred j) n,
     sj_bytes_in_pipe := sub64 (sj_bytes_in_pipe j) n\<rparr>"
  shows "transfer_inv file off0 len0 j1 (splice_effect file j n po)"
proof -
  obtain pipe out where po: "po = (pipe, out)" by fastforce
  have eff: "splice_effect file j n po = (drop n pipe, out @ take n pipe)"
    using st by (simp add: splice_effect_def file_leg_def po)
  have b: "sj_bytes_in_pipe j = length pipe" "sj_total_transferred j = length out" "length file < 2 ^ 63"
    "off0 + (length out + length pipe) \<le> length file"
    using t by (simp_all add: transfer_inv_def Let_def po)
  have "add64 (sj_total_transferred j) n = length out + n" "sub64 (sj_bytes_in_pipe j) n = length pipe - n"
    using b n by (simp_all add: po add64_small sub64_small)
  then show ?thesis
    using t n st(1) unfolding eff j1 transfer_inv_def by (simp add: Let_def po)
qed

text \<open>The outcome of one completion, as the transfer sees it.\<close>

definition transfer_ok :: "string \<Rightarrow> nat \<Rightarrow> nat \<Rightarrow> SpliceFileJob job_result \<Rightarrow> string \<times> string \<Rightarrow> bool" where
  "transfer_ok file off0 len0 res po \<longleftrightarrow> prefix (snd po) (take len0 (drop off0 file)) \<and>
     (case res of
        Pending j' \<Rightarrow> transfer_inv file off0 len0 j' po
      | Cleanup (OnComplete fd n) \<Rightarrow> snd po = take len0 (drop off0 file) \<and> length (snd po) = len0 \<and> n = len0
      | _ \<Rightarrow> True)"

lemma transfer_prefix:
  assumes "transfer_inv file off0 len0 j po"
  shows "prefix (snd po) (take len0 (drop off0 file))"
proof -
  have a: "snd po @ fst po = take (length (snd po) + length (fst po)) (drop off0 file)"
    "length (snd po) + length (fst po) \<le> len0" using assms by (auto simp: transfer_inv_def Let_def)
  have "snd po = take (length (snd po)) (take (length (snd po) + length (fst po)) (drop off0 file))"
    using a(1) by (metis append_eq_conv_conj)
  also have "\<dots> = take (length (snd po)) (take len0 (drop off0 file))" using a(2) by (simp add: min_def)
  finally show ?thesis by (metis take_is_prefix)
qed

lemma transfer_complete:
  assumes "transfer_inv file off0 len0 j po" "sj_remaining j = 0" "fst po = []"
  shows "snd po = take len0 (drop off0 file) \<and> length (snd po) = len0 \<and> sj_total_transferred j = len0"
  using assms by (auto simp: transfer_inv_def Let_def)

lemma transfer_okI: "transfer_inv file off0 len0 j po \<Longrightarrow> res = Pending j \<Longrightarrow> transfer_ok file off0 len0 res po"
  by (simp add: transfer_ok_def transfer_prefix)

lemma transfer_ok_error:
  "transfer_inv file off0 len0 j po \<Longrightarrow> transfer_ok file off0 len0 (Cleanup (sj_error_cb j' e)) po"
  by (simp add: transfer_ok_def transfer_prefix sj_error_cb_def)

lemma transfer_start:
  assumes t: "transfer_inv file off0 len0 j po" and e: "fst po = []"
    and h: "startLinkedSplice j w = (res, w')"
  shows "transfer_ok file off0 len0 res po"
proof (cases rule: startLinkedSplice_cases[of j w])
  case nothing
  with h transfer_complete[OF t _ e] transfer_prefix[OF t] show ?thesis
    by (auto simp: transfer_ok_def sj_complete_cb_def)
next
  case (failed w1)
  with h transfer_ok_error[OF t] show ?thesis by auto
next
  case (half w1)
  with h have "res = Pending (j\<lparr>sj_error_pending := True, sj_pending_operations := 1\<rparr>)" by simp
  then show ?thesis by (rule transfer_okI[rotated]) (rule transfer_inv_cong[OF t], simp_all add: e)
next
  case (pair w1)
  with h have "res = Pending (j\<lparr>sj_state := SplicingFileToPipe, sj_pending_operations := 2,
      sj_current_chunk_size := sj_chunk_size j\<rparr>)" by simp
  then show ?thesis by (rule transfer_okI[rotated]) (rule transfer_inv_cong[OF t], simp_all add: e)
qed

lemma transfer_failed_leg:
  assumes t: "transfer_inv file off0 len0 j po" and inv: "sj_inv j"
    and h: "sj_failed_leg (j\<lparr>sj_pending_operations := k\<rparr>) r w = (res, w')"
  shows "transfer_ok file off0 len0 res po"
proof -
  have e: "sj_state j \<noteq> SplicingPipeToSocket \<Longrightarrow> fst po = []" using t by (simp add: transfer_inv_def Let_def)
  consider (keep) j' where "res = Pending j'" "sj_bytes_in_pipe j' = sj_bytes_in_pipe j"
      "sj_total_transferred j' = sj_total_transferred j" "sj_offset j' = sj_offset j"
      "sj_remaining j' = sj_remaining j" "sj_state j' = sj_state j"
    | (err) c where "res = Cleanup (sj_error_cb (j\<lparr>sj_pending_operations := k\<rparr>) c)"
    | (restart) "sj_retry_pending j" "startLinkedSplice (j\<lparr>sj_pending_operations := k, sj_retry_pending := False\<rparr>) w = (res, w')"
    | (resub) "sj_resubmit (j\<lparr>sj_pending_operations := k + 1\<rparr>) w = (res, w')"
    using h by (auto simp: sj_failed_leg_def Let_def split: if_splits)
  then show ?thesis
  proof cases
    case (keep j')
    then have "transfer_inv file off0 len0 j' po" using e by (intro transfer_inv_cong[OF t]) simp_all
    with keep(1) show ?thesis by (intro transfer_okI)
  next
    case err
    with transfer_ok_error[OF t] show ?thesis by simp
  next
    case restart
    with inv e have "fst po = []" by (simp add: sj_inv_def)
    moreover have "transfer_inv file off0 len0 (j\<lparr>sj_pending_operations := k, sj_retry_pending := False\<rparr>) po"
      by (rule transfer_inv_cong[OF t]) (simp_all add: e)
    ultimately show ?thesis using restart(2) by (intro transfer_start)
  next
    case resub
    have t2: "transfer_inv file off0 len0 (j\<lparr>sj_pending_operations := k + 1\<rparr>) po"
      by (rule transfer_inv_cong[OF t]) (simp_all add: e)
    show ?thesis
    proof (cases rule: sj_resubmit_cases[of "j\<lparr>sj_pending_operations := k + 1\<rparr>" w])
      case (failed w1)
      with resub transfer_ok_error[OF t2] show ?thesis by auto
    next
      case (queued w1 op)
      with resub transfer_okI[OF t2] show ?thesis by auto
    qed
  qed
qed

lemma transfer_socket_done:
  assumes t: "transfer_inv file off0 len0 j po" and st: "sj_state j = SplicingPipeToSocket" "\<not> sj_error_pending j"
    and n: "n \<le> length (fst po)"
    and h: "sj_pipe_to_socket_done (j\<lparr>sj_pending_operations := k\<rparr>) n w = (res, w')"
  shows "transfer_ok file off0 len0 res (splice_effect file j n po)"
proof -
  let ?po = "splice_effect file j n po"
  let ?j1 = "j\<lparr>sj_pending_operations := k, sj_total_transferred := add64 (sj_total_transferred j) n,
     sj_bytes_in_pipe := sub64 (sj_bytes_in_pipe j) n\<rparr>"
  have t1: "transfer_inv file off0 len0 ?j1 ?po" using t st n refl by (rule transfer_socket_leg)
  then have e: "sj_bytes_in_pipe ?j1 = 0 \<Longrightarrow> fst ?po = []" by (simp add: transfer_inv_def Let_def)
  consider (drain) "drainPipeToSocket ?j1 w = (res, w')"
    | (next_pair) "startLinkedSplice ?j1 w = (res, w')" "sj_bytes_in_pipe ?j1 = 0"
    | (err) c where "res = Cleanup (sj_error_cb ?j1 c)"
    | (comp) "res = Cleanup (sj_complete_cb ?j1)" "sj_bytes_in_pipe ?j1 = 0" "sj_remaining ?j1 = 0"
    using h by (auto simp: sj_pipe_to_socket_done_def Let_def split: if_splits)
  then show ?thesis
  proof cases
    case drain
    show ?thesis
    proof (cases rule: drainPipeToSocket_cases[of ?j1 w])
      case (failed w1)
      with drain transfer_ok_error[OF t1] show ?thesis by auto
    next
      case (queued w1)
      have "transfer_inv file off0 len0 (?j1\<lparr>sj_state := SplicingPipeToSocket, sj_pending_operations := 1\<rparr>) ?po"
        by (rule transfer_inv_cong[OF t1]) simp_all
      with queued drain show ?thesis by (intro transfer_okI) simp_all
    qed
  next
    case next_pair
    with transfer_start[OF t1] e show ?thesis by blast
  next
    case err
    with transfer_ok_error[OF t1] show ?thesis by simp
  next
    case comp
    have c: "snd ?po = take len0 (drop off0 file)" "length (snd ?po) = len0" "sj_total_transferred ?j1 = len0"
      using transfer_complete[OF t1 comp(3) e[OF comp(2)]] by blast+
    show ?thesis
      unfolding transfer_ok_def comp(1) sj_complete_cb_def using transfer_prefix[OF t1] c
      by (cases "sj_on_complete j") simp_all
  qed
qed

lemma transfer_file_done:
  assumes t: "transfer_inv file off0 len0 j po" and st: "sj_state j = SplicingFileToPipe" "\<not> sj_error_pending j"
    and n: "n \<le> sj_chunk_size j" "n \<le> length file - sj_offset j"
    and h: "sj_file_to_pipe_done (j\<lparr>sj_pending_operations := k\<rparr>) n w = (res, w')"
  shows "transfer_ok file off0 len0 res (splice_effect file j n po)"
proof (cases "n = 0")
  case False
  then obtain j' where j': "res = Pending j'" using h by (auto simp: sj_file_to_pipe_done_def)
  with False transfer_file_leg[OF t st _ n, of k w j' w'] h show ?thesis by (intro transfer_okI) simp_all
next
  case True
  have e: "fst po = []" using t st by (simp add: transfer_inv_def Let_def)
  let ?j = "j\<lparr>sj_pending_operations := k, sj_eof_reached := True, sj_deferred_error := EIO\<rparr>"
  obtain j1 w1 where c: "closePipeWriteEnd ?j w = (j1, w1)" by fastforce
  have "res = Pending (j1\<lparr>sj_state := SplicingPipeToSocket\<rparr>)"
    using h True c by (simp add: sj_file_to_pipe_done_def)
  moreover have "transfer_inv file off0 len0 (j1\<lparr>sj_state := SplicingPipeToSocket\<rparr>) po"
    using c by (intro transfer_inv_cong[OF t]) (auto simp: closePipeWriteEnd_def e split: if_splits)
  ultimately show ?thesis using True by (simp add: effect_zero transfer_okI)
qed

lemma transfer_step:
  assumes t: "transfer_inv file off0 len0 j po" and inv: "sj_inv j" and ok: "splice_result_ok file j r (fst po)"
    and h: "sj_handleCompletion j (splice_cqe j r) w = (res, w')"
  shows "transfer_ok file off0 len0 res (splice_effect file j (nat r) po)"
proof -
  have pos: "sj_pending_operations j > 0" using inv by (simp add: sj_inv_def)
  let ?k = "sj_pending_operations j - 1"
  show ?thesis
  proof (cases "r < 0")
    case True
    then have "sj_failed_leg (j\<lparr>sj_pending_operations := ?k\<rparr>) r w = (res, w')"
      using h pos by (simp add: sj_handleCompletion_def splice_cqe_def)
    with transfer_failed_leg[OF t inv] True show ?thesis by (simp add: effect_zero)
  next
    case nn: False
    show ?thesis
    proof (cases "sj_error_pending j \<and> sj_pending_operations j = 1")
      case True
      then have "res = Cleanup (sj_error_cb (j\<lparr>sj_pending_operations := ?k\<rparr>) ENOMEM)"
        using h pos nn by (auto simp: sj_handleCompletion_def splice_cqe_def)
      moreover have "snd (splice_effect file j (nat r) po) = snd po"
        using True by (simp add: splice_effect_def file_leg_def)
      ultimately show ?thesis using transfer_prefix[OF t] by (simp add: transfer_ok_def sj_error_cb_def)
    next
      case ne: False
      have one: "sj_error_pending j \<Longrightarrow> sj_pending_operations j = 1" using inv by (auto simp: sj_inv_def)
      with ne have nep: "\<not> sj_error_pending j" by blast
      show ?thesis
      proof (cases "sj_state j")
        case CreatingPipe
        with inv nep show ?thesis by (simp add: sj_inv_def)
      next
        case SplicingFileToPipe
        have "sj_file_to_pipe_done (j\<lparr>sj_pending_operations := ?k\<rparr>) (nat r) w = (res, w')"
          using h pos nn ne SplicingFileToPipe by (auto simp: sj_handleCompletion_def splice_cqe_def)
        moreover have "nat r \<le> sj_chunk_size j" "nat r \<le> length file - sj_offset j"
          using ok SplicingFileToPipe nn by (auto simp: splice_result_ok_def file_leg_def)
        ultimately show ?thesis using transfer_file_done[OF t SplicingFileToPipe nep] by blast
      next
        case SplicingPipeToSocket
        have "sj_pipe_to_socket_done (j\<lparr>sj_pending_operations := ?k\<rparr>) (nat r) w = (res, w')"
          using h pos nn ne SplicingPipeToSocket by (auto simp: sj_handleCompletion_def splice_cqe_def)
        moreover have "nat r \<le> length (fst po)"
          using ok SplicingPipeToSocket nep nn by (auto simp: splice_result_ok_def file_leg_def)
        ultimately show ?thesis using transfer_socket_done[OF t SplicingPipeToSocket nep] by blast
      qed
    qed
  qed
qed

lemma transfer_run:
  "transfer_inv file off0 len0 j po \<Longrightarrow> sj_inv j \<Longrightarrow> sj_results_ok file j rs w po \<Longrightarrow>
   sj_run file j rs w po = (res, out) \<Longrightarrow>
   prefix out (take len0 (drop off0 file)) \<and>
   (\<forall>fd n. res = Cleanup (OnComplete fd n) \<longrightarrow> out = take len0 (drop off0 file) \<and> length out = len0 \<and> n = len0)"
proof (induction rs arbitrary: j w po)
  case Nil
  then show ?case by (auto dest: transfer_prefix)
next
  case (Cons r rs)
  let ?po = "splice_effect file j (nat r) po"
  obtain r1 w1 where h: "sj_handleCompletion j (splice_cqe j r) w = (r1, w1)" by fastforce
  have ok: "splice_result_ok file j r (fst po)" using Cons.prems(3) by simp
  note t = transfer_step[OF Cons.prems(1,2) ok h]
  have k: "sj_kernel_ok j (splice_cqe j r)" using ok by (simp add: splice_result_ok_def)
  show ?case
  proof (cases r1)
    case (Pending j')
    have "sj_inv j'" using sj_handle_ok[OF Cons.prems(2) k h] Pending by (simp add: step_ok_def)
    moreover have "transfer_inv file off0 len0 j' ?po" using t Pending by (simp add: transfer_ok_def)
    moreover have "sj_results_ok file j' rs w1 ?po" "sj_run file j' rs w1 ?po = (res, out)"
      using Cons.prems(3,4) h Pending by simp_all
    ultimately show ?thesis using Cons.IH by blast
  next
    case (Cleanup cb)
    with Cons.prems(4) h have "res = Cleanup cb" "out = snd ?po" by simp_all
    with t Cleanup show ?thesis by (cases cb) (auto simp: transfer_ok_def simp del: length_take)
  next
    case (Abandoned cb)
    with Cons.prems(4) h t show ?thesis by (auto simp: transfer_ok_def)
  qed
qed

section \<open>Starting, and the pipe\<close>

definition pipe_ends :: "SpliceFileJob \<Rightarrow> int multiset" where
  "pipe_ends j = filter_mset (\<lambda>fd. fd \<ge> 0) {# sj_pipe0 j, sj_pipe1 j #}"

lemma sj_cleanup_effect:
  "freed (sj_cleanup j w) = freed w @ [sj_id j] \<and> mset (closed (sj_cleanup j w)) = mset (closed w) + pipe_ends j"
  by (auto simp: sj_cleanup_def ring_simps pipe_ends_def Let_def)

lemma closed_startLinkedSplice: "closed (snd (startLinkedSplice j w)) = closed w"
  by (rule startLinkedSplice_cases[of j w]) simp_all

lemma startLinkedSplice_pipe:
  "startLinkedSplice j w = (Pending j', w') \<Longrightarrow> sj_pipe0 j' = sj_pipe0 j \<and> sj_pipe1 j' = sj_pipe1 j"
  by (rule startLinkedSplice_cases[of j w]) auto

lemma sj_helpers_pipe:
  "drainPipeToSocket j w = (r, w') \<Longrightarrow> closed w' = closed w \<and> (\<forall>j'. r = Pending j' \<longrightarrow> pipe_ends j' = pipe_ends j)"
  "sj_resubmit j w = (r, w') \<Longrightarrow> closed w' = closed w \<and> (\<forall>j'. r = Pending j' \<longrightarrow> pipe_ends j' = pipe_ends j)"
  "startLinkedSplice j w = (r, w') \<Longrightarrow> closed w' = closed w \<and> (\<forall>j'. r = Pending j' \<longrightarrow> pipe_ends j' = pipe_ends j)"
  by (rule drainPipeToSocket_cases[of j w], simp_all add: pipe_ends_def, force, force)
     (rule sj_resubmit_cases[of j w], simp_all add: pipe_ends_def, force, force,
      rule startLinkedSplice_cases[of j w], simp_all add: pipe_ends_def, force+)

lemma sj_handle_pipe:
  assumes h: "sj_handleCompletion j c w = (r, w')"
  shows "(case r of
       Pending j' \<Rightarrow> mset (closed w') + pipe_ends j' = mset (closed w) + pipe_ends j
     | _ \<Rightarrow> closed w' = closed w)"
proof -
  let ?k = "sj_pending_operations j - 1"
  have keep: "pipe_ends (j\<lparr>sj_pending_operations := i\<rparr>) = pipe_ends j" for i by (simp add: pipe_ends_def)
  consider (bad_leg) "sj_failed_leg (j\<lparr>sj_pending_operations := ?k\<rparr>) (cqe_res c) w = (r, w')"
    | (unchanged) "w' = w" "\<forall>j'. r = Pending j' \<longrightarrow> pipe_ends j' = pipe_ends j"
    | (from_file) n where "sj_file_to_pipe_done (j\<lparr>sj_pending_operations := ?k\<rparr>) n w = (r, w')"
    | (to_socket) n where "sj_pipe_to_socket_done (j\<lparr>sj_pending_operations := ?k\<rparr>) n w = (r, w')"
    using h by (auto simp: sj_handleCompletion_def Let_def keep split: if_splits splice_state.splits)
  then show ?thesis
  proof cases
    case bad_leg
    then have "closed w' = closed w \<and> (\<forall>j'. r = Pending j' \<longrightarrow> pipe_ends j' = pipe_ends j)"
      by (auto simp: sj_failed_leg_def Let_def pipe_ends_def split: if_splits dest: sj_helpers_pipe)
    then show ?thesis by (auto split: job_result.splits)
  next
    case unchanged
    then show ?thesis by (auto split: job_result.splits)
  next
    case (from_file n)
    then show ?thesis
      by (auto simp: sj_file_to_pipe_done_def closePipeWriteEnd_def pipe_ends_def ring_simps split: if_splits)
  next
    case (to_socket n)
    then have "closed w' = closed w \<and> (\<forall>j'. r = Pending j' \<longrightarrow> pipe_ends j' = pipe_ends j)"
      by (auto simp: sj_pipe_to_socket_done_def Let_def pipe_ends_def split: if_splits dest: sj_helpers_pipe)
    then show ?thesis by (auto split: job_result.splits)
  qed
qed

text \<open>A life of the job with its real cleanup: the destructor closes the pipe.\<close>

fun splice_life :: "SpliceFileJob \<Rightarrow> cqe list \<Rightarrow> ring \<Rightarrow> SpliceFileJob option \<times> ring" where
  "splice_life j [] w = (Some j, w)"
| "splice_life j (c # cs) w =
     (case sj_handleCompletion j c w of
        (Pending j', w') \<Rightarrow> splice_life j' cs w'
      | (Cleanup cb, w') \<Rightarrow> (None, sj_cleanup j w')
      | (Abandoned cb, w') \<Rightarrow> (None, w'))"

lemma splice_life_releases:
  "sj_inv j \<Longrightarrow> splice_job.kernel_run j cs w \<Longrightarrow> splice_life j cs w = (r, w') \<Longrightarrow>
   (case r of
      None \<Rightarrow> freed w' = freed w @ [sj_id j] \<and> mset (closed w') = mset (closed w) + pipe_ends j
    | Some j' \<Rightarrow> freed w' = freed w \<and> mset (closed w') + pipe_ends j' = mset (closed w) + pipe_ends j \<and>
        (cs \<noteq> [] \<longrightarrow> 0 < sj_pending_operations j'))"
proof (induction cs arbitrary: j w)
  case Nil
  then show ?case by auto
next
  case (Cons c cs)
  obtain r1 w1 where h: "sj_handleCompletion j c w = (r1, w1)" by fastforce
  have k: "sj_kernel_ok j c" using Cons.prems(2) by simp
  note ok = sj_handle_ok[OF Cons.prems(1) k h] and pe = sj_handle_pipe[OF h]
  show ?case
  proof (cases r1)
    case (Pending j1)
    then have j1: "sj_inv j1" "sj_id j1 = sj_id j" "freed w1 = freed w"
      "mset (closed w1) + pipe_ends j1 = mset (closed w) + pipe_ends j"
      using ok pe by (simp_all add: step_ok_def)
    then have "0 < sj_pending_operations j1" by (simp add: sj_inv_def)
    note j1 = j1 this
    have l: "splice_life j1 cs w1 = (r, w')" "splice_job.kernel_run j1 cs w1"
      using Cons.prems(2,3) h Pending by (simp_all add: splice_job.serve_def)
    have "cs = [] \<Longrightarrow> r = Some j1 \<and> w' = w1" using l(1) by simp
    with Cons.IH[OF j1(1) l(2,1)] j1 show ?thesis by (cases "cs = []") (auto split: option.splits)
  next
    case (Cleanup cb)
    with Cons.prems(3) h have "r = None" "w' = sj_cleanup j w1" by simp_all
    with sj_cleanup_effect[of j w1] ok pe Cleanup show ?thesis by (simp add: step_ok_def)
  next
    case (Abandoned cb)
    with ok show ?thesis by (simp add: step_ok_def)
  qed
qed

lemma sj_start_cases:
  assumes "sj_start j w = (r, w')" "sj_pipe0 j = - 1" "sj_pipe1 j = - 1"
    "\<not> sj_error_pending j" "\<not> sj_retry_pending j"
  obtains (running) j1 j2 w1 where "r = Pending j2" "startLinkedSplice j1 w1 = (Pending j2, w')"
      "createPipe j w = (j1, w1)" "sj_pipe0 j1 \<ge> 0" "sj_pipe1 j1 \<ge> 0"
  | (ended) cb where "r = Abandoned cb" "freed w' = freed w @ [sj_id j]" "sq w' = sq w"
proof -
  obtain j1 w1 where c: "createPipe j w = (j1, w1)" by fastforce
  have j1: "sj_id j1 = sj_id j" "freed w1 = freed w" "sq w1 = sq w"
    using c by (auto simp: createPipe_def open_fd_def ask_def Let_def split: if_splits)
  show ?thesis
  proof (cases "sj_pipe0 j1 < 0 \<or> sj_pipe1 j1 < 0")
    case True
    with assms(1) c j1 show ?thesis
      by (intro ended[of "sj_error_cb j1 ENOMEM"]) (auto simp: sj_start_def sj_cleanup_def ring_simps Let_def)
  next
    case False
    obtain r2 w2 where s: "startLinkedSplice j1 w1 = (r2, w2)" by fastforce
    have "freed w2 = freed w1" using s by (cases rule: startLinkedSplice_cases[of j1 w1]) auto
    show ?thesis
    proof (cases r2)
      case (Pending j2)
      with False assms(1) c s show ?thesis by (intro running[of j2 j1 w1]) (simp_all add: sj_start_def)
    next
      case (Cleanup cb)
      have "sq w2 = sq w1" using s Cleanup by (cases rule: startLinkedSplice_cases[of j1 w1]) auto
      with Cleanup False assms(1) c s j1 \<open>freed w2 = freed w1\<close> show ?thesis
        by (intro ended[of cb]) (auto simp: sj_start_def sj_cleanup_def ring_simps Let_def)
    next
      case (Abandoned cb)
      with s show ?thesis by (cases rule: startLinkedSplice_cases[of j1 w1]) auto
    qed
  qed
qed

lemma created_job:
  assumes "sj_createFromPool cfd ffd off len hc he w = (Some j, w1)"
  shows "sj_pipe0 j = - 1 \<and> sj_pipe1 j = - 1 \<and> \<not> sj_error_pending j \<and> \<not> sj_retry_pending j \<and>
    sj_bytes_in_pipe j = 0 \<and> sj_total_transferred j = 0 \<and> sj_offset j = off \<and> sj_remaining j = len \<and>
    sj_deferred_error j = 0 \<and> \<not> sj_eof_reached j \<and> sj_client_fd j = cfd \<and> freed w1 = freed w"
proof -
  obtain a u where a: "pool_alloc w = (a, u)" by fastforce
  then have "freed u = freed w" using pool_alloc_simps(3)[of w] by simp
  with a assms show ?thesis
    by (auto simp: sj_createFromPool_def SpliceFileJob_init_def split: option.splits)
qed

lemma createPipe_keeps:
  assumes "createPipe j w = (j1, w1)"
  shows "sj_bytes_in_pipe j1 = sj_bytes_in_pipe j \<and> sj_total_transferred j1 = sj_total_transferred j \<and>
    sj_offset j1 = sj_offset j \<and> sj_remaining j1 = sj_remaining j \<and> sj_error_pending j1 = sj_error_pending j \<and>
    sj_retry_pending j1 = sj_retry_pending j \<and> sj_id j1 = sj_id j \<and> freed w1 = freed w \<and> closed w1 = closed w"
  using assms by (auto simp: createPipe_def open_fd_def ask_def Let_def split: if_splits)

lemma started_job:
  assumes c: "sj_createFromPool cfd ffd off len hc he w = (Some j, w1)" and s: "sj_start j w1 = (Pending j', w2)"
    and f: "off \<le> length file" "length file < 2 ^ 63" "len < 2 ^ 63"
  shows "sj_inv j' \<and> transfer_inv file off len j' ([], []) \<and> freed w2 = freed w \<and> sj_id j' = sj_id j \<and>
    ops_since (sj_id j) w1 w2 = sj_pending_operations j' \<and> closed w2 = closed w1"
proof -
  note j = created_job[OF c]
  obtain j1 u where r: "startLinkedSplice j1 u = (Pending j', w2)" "createPipe j w1 = (j1, u)"
    using s j by (cases rule: sj_start_cases[OF s]) auto
  note k = createPipe_keeps[OF r(2)]
  have sq: "sq u = sq w1" using r(2) by (auto simp: createPipe_def open_fd_def ask_def Let_def split: if_splits)
  have ok: "step_ok 0 j1 u (Pending j') w2" using j k by (intro step_startLinkedSplice[OF _ _ r(1)]) simp_all
  have "transfer_inv file off len (j1\<lparr>sj_state := SplicingPipeToSocket\<rparr>) ([], [])"
    using j k f by (simp add: transfer_inv_def)
  then have t: "transfer_inv file off len j1 ([], [])" by (rule transfer_inv_cong) simp_all
  have "transfer_ok file off len (Pending j') ([], [])" using t _ r(1) by (rule transfer_start) simp
  moreover have "closed w2 = closed u" using closed_startLinkedSplice[of j1 u] r(1) by simp
  ultimately show ?thesis
    using ok j k sq by (simp add: transfer_ok_def step_ok_def ops_since_def)
qed

section \<open>Ownership\<close>

text \<open>
  What a handler of the job leaves alone: descriptors and pool objects other than its own, the state
  of the server, its own callbacks. Every operation it adds is its own, and it ends in one of its two
  callbacks.
\<close>

definition sj_frame :: "SpliceFileJob \<Rightarrow> ring \<Rightarrow> SpliceFileJob job_result \<Rightarrow> ring \<Rightarrow> bool" where
  "sj_frame j w r w' \<longleftrightarrow> opened w' = opened w \<and> next_id w' = next_id w \<and> srv_state w' = srv_state w \<and>
     in_flight w' = in_flight w + int (ops_since (sj_id j) w w') \<and>
     (case r of
        Pending j' \<Rightarrow> sj_on_complete j' = sj_on_complete j \<and> sj_on_error j' = sj_on_error j \<and>
          sj_client_fd j' = sj_client_fd j
      | Cleanup cb \<Rightarrow> (\<exists>e. cb = sj_error_cb j e) \<or>
          (\<exists>n. cb = (if sj_on_complete j then OnComplete (sj_client_fd j) n else NoCallback))
      | Abandoned cb \<Rightarrow> False)"

lemma sj_frame_cong:
  "sj_frame j w r w' \<Longrightarrow> sj_id j = sj_id k \<Longrightarrow> sj_on_complete j = sj_on_complete k \<Longrightarrow>
   sj_on_error j = sj_on_error k \<Longrightarrow> sj_client_fd j = sj_client_fd k \<Longrightarrow> sj_frame k w r w'"
  by (cases r) (auto simp: sj_frame_def sj_error_cb_def)

lemma sj_frame_startLinkedSplice: "startLinkedSplice j w = (r, w') \<Longrightarrow> sj_frame j w r w'"
  by (cases rule: startLinkedSplice_cases[of j w])
     (auto simp: sj_frame_def ops_since_def sj_complete_cb_def)

lemma sj_frame_drain: "drainPipeToSocket j w = (r, w') \<Longrightarrow> sj_frame j w r w'"
  by (cases rule: drainPipeToSocket_cases[of j w]) (auto simp: sj_frame_def ops_since_def)

lemma sj_frame_resubmit: "sj_resubmit j w = (r, w') \<Longrightarrow> sj_frame j w r w'"
  by (cases rule: sj_resubmit_cases[of j w]) (auto simp: sj_frame_def ops_since_def)

lemma sj_frame_done:
  "sj_frame j w (Cleanup (sj_error_cb j e)) w" "sj_frame j w (Cleanup (sj_complete_cb j)) w"
  by (auto simp: sj_frame_def ops_since_def sj_complete_cb_def)

lemma sj_frame_failed_leg:
  assumes "sj_failed_leg j res w = (r, w')"
  shows "sj_frame j w r w'"
proof -
  consider (stay) j' where "r = Pending j'" "w' = w" "sj_on_complete j' = sj_on_complete j"
      "sj_on_error j' = sj_on_error j" "sj_client_fd j' = sj_client_fd j"
    | (retry) "startLinkedSplice (j\<lparr>sj_retry_pending := False\<rparr>) w = (r, w')"
    | (fail) e where "r = Cleanup (sj_error_cb j e)" "w' = w"
    | (again) "sj_resubmit (j\<lparr>sj_pending_operations := sj_pending_operations j + 1\<rparr>) w = (r, w')"
    using assms by (auto simp: sj_failed_leg_def Let_def split: if_splits)
  then show ?thesis
  proof cases
    case stay
    then show ?thesis by (simp add: sj_frame_def ops_since_def)
  next
    case retry
    from sj_frame_cong[OF sj_frame_startLinkedSplice[OF this]] show ?thesis by simp
  next
    case fail
    then show ?thesis by (simp add: sj_frame_done)
  next
    case again
    from sj_frame_cong[OF sj_frame_resubmit[OF this]] show ?thesis by simp
  qed
qed

lemma sj_frame_to_socket:
  assumes "sj_pipe_to_socket_done j n w = (r, w')"
  shows "sj_frame j w r w'"
proof -
  let ?j1 = "j\<lparr>sj_total_transferred := add64 (sj_total_transferred j) n, sj_bytes_in_pipe := sub64 (sj_bytes_in_pipe j) n\<rparr>"
  have "sj_frame ?j1 w r w'"
    using assms by (auto simp: sj_pipe_to_socket_done_def Let_def sj_frame_done
        dest: sj_frame_drain sj_frame_startLinkedSplice split: if_splits)
  then show ?thesis by (rule sj_frame_cong) simp_all
qed

lemma sj_frame_handle:
  assumes "sj_handleCompletion j c w = (r, w')"
  shows "sj_frame j w r w'"
proof -
  let ?j1 = "j\<lparr>sj_pending_operations := sj_pending_operations j - 1\<rparr>"
  have "sj_frame ?j1 w r w' \<or> (\<exists>j'. r = Pending j' \<and> sj_frame j w (Pending j') w')"
    using assms
    by (auto simp: sj_handleCompletion_def Let_def sj_frame_done sj_file_to_pipe_done_def closePipeWriteEnd_def
        sj_frame_def[where r = "Pending j'" for j'] ops_since_def ring_simps
        dest: sj_frame_failed_leg sj_frame_to_socket split: if_splits splice_state.splits)
  then show ?thesis by (auto elim: sj_frame_cong)
qed

text \<open>The resources of a splice job, by how its handler ended.\<close>

definition splice_fds :: "SpliceFileJob \<Rightarrow> SpliceFileJob job_result \<Rightarrow> int multiset" where
  "splice_fds j r = (case r of Pending j' \<Rightarrow> pipe_ends j' | Cleanup _ \<Rightarrow> pipe_ends j | Abandoned _ \<Rightarrow> {#})"

definition splice_jobs :: "nat \<Rightarrow> SpliceFileJob job_result \<Rightarrow> nat multiset" where
  "splice_jobs i r = (case r of Abandoned _ \<Rightarrow> {#} | _ \<Rightarrow> {# i #})"

definition splice_ops :: "SpliceFileJob job_result \<Rightarrow> nat" where
  "splice_ops r = (case r of Pending j' \<Rightarrow> sj_pending_operations j' | _ \<Rightarrow> 0)"

lemma keeps_splice_completion:
  assumes "sj_inv j" "sj_kernel_ok j c" "sj_handleCompletion j c w = (r, w')"
  shows "keeps (pipe_ends j) {# sj_id j #} (sj_pending_operations j - 1) w
     (splice_fds j r) (splice_jobs (sj_id j) r) (splice_ops r) w'"
  using sj_handle_ok[OF assms] sj_frame_handle[OF assms(3)] sj_handle_pipe[OF assms(3)]
  by (auto simp: keeps_def step_ok_def sj_frame_def splice_fds_def splice_jobs_def splice_ops_def
      split: job_result.splits)

lemma keeps_sj_cleanup: "keeps (pipe_ends j + F) (add_mset (sj_id j) J) n w F J n (sj_cleanup j w)"
  using sj_cleanup_effect[of j w] by (simp add: keeps_def sj_cleanup_def ring_simps Let_def)

lemma keeps_createPipe:
  assumes "createPipe j w = (j1, w1)" "sj_pipe0 j = - 1" "sj_pipe1 j = - 1"
  shows "keeps F J n w (pipe_ends j1 + F) J n w1"
  using assms by (auto simp: createPipe_def ask_def open_fd_def Let_def keeps_def pipe_ends_def split: if_splits)

lemma keeps_sj_start:
  assumes s: "sj_start j w = (r, w')" and "sj_pipe0 j = - 1" "sj_pipe1 j = - 1"
  shows "keeps F (add_mset (sj_id j) J) n w (splice_fds j r + F) (splice_jobs (sj_id j) r + J) (n + splice_ops r) w'"
proof -
  obtain j1 w1 where c: "createPipe j w = (j1, w1)" by fastforce
  have id: "sj_id j1 = sj_id j" using createPipe_keeps[OF c] by simp
  note k1 = keeps_createPipe[OF c assms(2,3), of F "add_mset (sj_id j) J" n]
  obtain r2 w2 where l: "startLinkedSplice j1 w1 = (r2, w2)" by fastforce
  have k2: "keeps (pipe_ends j1 + F) (add_mset (sj_id j) J) n w1
      (pipe_ends j1 + F) (add_mset (sj_id j) J) (n + splice_ops r2) w2"
    by (cases rule: startLinkedSplice_cases[of j1 w1]) (use l in \<open>auto simp: keeps_def splice_ops_def\<close>)
  have k3: "keeps (pipe_ends j1 + F) (add_mset (sj_id j) J) m u F J m (sj_cleanup j1 u)" for m u
    using keeps_sj_cleanup[of j1 F J m u] id by simp
  show ?thesis
  proof (cases "sj_pipe0 j1 < 0 \<or> sj_pipe1 j1 < 0")
    case True
    with s c keeps_trans[OF k1 k3] show ?thesis
      by (auto simp: sj_start_def splice_fds_def splice_jobs_def splice_ops_def)
  next
    case False
    show ?thesis
    proof (cases r2)
      case (Pending j2)
      then have "pipe_ends j2 = pipe_ends j1" using l sj_helpers_pipe(3) by blast
      with s c l False Pending keeps_trans[OF k1 k2] show ?thesis
        by (auto simp: sj_start_def splice_fds_def splice_jobs_def splice_ops_def)
    next
      case (Cleanup cb)
      with s c l False keeps_trans[OF keeps_trans[OF k1 k2] k3] show ?thesis
        by (auto simp: sj_start_def splice_fds_def splice_jobs_def splice_ops_def)
    next
      case (Abandoned cb)
      with sj_frame_startLinkedSplice[OF l] show ?thesis by (simp add: sj_frame_def)
    qed
  qed
qed

text \<open>How \<^verbatim>\<open>start\<close> ends: with operations in the kernel, or with one of the job's callbacks.\<close>

lemma sj_start_outcome:
  assumes s: "sj_start j w = (r, w')" and c: "\<not> sj_error_pending j" "\<not> sj_retry_pending j"
  shows "(case r of
      Pending j' \<Rightarrow> sj_inv j' \<and> sj_id j' = sj_id j \<and> sj_on_complete j' = sj_on_complete j \<and>
        sj_on_error j' = sj_on_error j \<and> sj_client_fd j' = sj_client_fd j
    | Cleanup cb \<Rightarrow> False
    | Abandoned cb \<Rightarrow> (\<exists>e. cb = sj_error_cb j e) \<or>
        (\<exists>n. cb = (if sj_on_complete j then OnComplete (sj_client_fd j) n else NoCallback)))"
proof -
  obtain j1 w1 where p: "createPipe j w = (j1, w1)" by fastforce
  note k = createPipe_keeps[OF p]
  have cb: "sj_on_complete j1 = sj_on_complete j" "sj_on_error j1 = sj_on_error j" "sj_client_fd j1 = sj_client_fd j"
    using p by (auto simp: createPipe_def ask_def Let_def split: if_splits)
  obtain r2 w2 where l: "startLinkedSplice j1 w1 = (r2, w2)" by fastforce
  have fr: "sj_frame j w1 r2 w2" using sj_frame_startLinkedSplice[OF l] k cb by (auto elim: sj_frame_cong)
  have ok: "step_ok 0 j1 w1 r2 w2" using step_startLinkedSplice[OF _ _ l] k c by simp
  have e: "sj_error_cb j1 e = sj_error_cb j e" for e using cb by (simp add: sj_error_cb_def)
  show ?thesis
    using s p l fr ok k e by (cases r2) (auto simp: sj_start_def sj_frame_def step_ok_def split: if_splits)
qed

section \<open>Properties\<close>


definition splice_ring :: ring where "splice_ring = kind_ring\<lparr>ora := (\<lambda>_. 7)\<rparr>"

definition splice_witness_job :: SpliceFileJob where
  "splice_witness_job = (SpliceFileJob_init 1 5 6 1 3)\<lparr>sj_on_complete := True, sj_on_error := True\<rparr>"


text \<open>
  A short read from the file ends the transfer. When the first leg of a pair moves fewer bytes
  than asked, which severs the link and cancels the second leg, the job reports ECANCELED and gives
  up, with those bytes in the pipe and the rest of the file unsent, although nothing failed.
\<close>

lemma splice_short_read_aborts:
  assumes "sj_state j = SplicingFileToPipe" "sj_pending_operations j = 2" "\<not> sj_error_pending j"
    "\<not> sj_retry_pending j" "sj_deferred_error j = 0" "sj_on_error j" "sj_bytes_in_pipe j = 0"
    and "0 < n" "n < sj_chunk_size j"
  shows "\<exists>j1. sj_handleCompletion j (splice_cqe j (int n)) w = (Pending j1, w) \<and> sj_bytes_in_pipe j1 = n \<and>
    sj_handleCompletion j1 (splice_cqe j1 (- ECANCELED)) w = (Cleanup (OnError (sj_client_fd j) ECANCELED), w)"
proof -
  let ?j1 = "j\<lparr>sj_pending_operations := 1, sj_offset := add64 (sj_offset j) n, sj_bytes_in_pipe := add64 (sj_bytes_in_pipe j) n,
    sj_current_chunk_size := n, sj_remaining := (if sj_remaining j > 0 then sj_remaining j - min (sj_remaining j) n
      else sj_remaining j), sj_state := SplicingPipeToSocket\<rparr>"
  have n: "n < 2 ^ 64" using assms(9) by (simp add: sj_chunk_size_def SPLICE_CHUNK_SIZE_def)
  have "sj_handleCompletion j (splice_cqe j (int n)) w = (Pending ?j1, w)"
    using assms by (simp add: sj_handleCompletion_def splice_cqe_def sj_file_to_pipe_done_def)
  moreover have "sj_bytes_in_pipe ?j1 = n" using assms n by (simp add: add64_def)
  moreover have "sj_handleCompletion ?j1 (splice_cqe ?j1 (- ECANCELED)) w = (Cleanup (OnError (sj_client_fd j) ECANCELED), w)"
    using assms by (simp add: sj_handleCompletion_def splice_cqe_def sj_failed_leg_def ECANCELED_def sj_error_cb_def)
  ultimately show ?thesis by blast
qed

end
