(* ===== verification/Ktls_Job.thy ===== *)
theory Ktls_Job
  imports Io_Job Splice_File_Job
begin

text \<open>
  The TLS handshake of an accepted connection, \<^verbatim>\<open>src/jobs/KTLSJob.cpp\<close>. OpenSSL is not part of the
  program: what \<^verbatim>\<open>SSL_new\<close>, \<^verbatim>\<open>SSL_set_fd\<close>, \<^verbatim>\<open>SSL_accept\<close>, \<^verbatim>\<open>SSL_get_error\<close> and the two kTLS queries return are answers of the
  environment, read with \<open>ask\<close> like those of the kernel. The success callback is \<open>OnComplete fd 0\<close>, the
  error callback \<open>OnError fd err\<close>; the operations return the callback they make, since each makes at
  most one and nothing of theirs follows it.

  The lemmas show that the job answers its owner exactly once, that it is freed only when the kernel
  holds none of its operations, and one case in which it is then not freed at all.
\<close>

section \<open>State\<close>

datatype ktls_state = HANDSHAKING | KTLS_READY | ERROR_STATE

record KTLSJob =
  kj_id :: nat
  kj_client_fd :: int
  kj_ssl_ctx :: bool
  kj_ssl :: bool
  kj_state :: ktls_state
  kj_ktls_enabled :: bool
  kj_timeout_ms :: nat
  kj_ssl_initialized :: bool
  kj_last_ssl_error :: int
  kj_pending_operations :: nat

definition KTLSJob_init :: "nat \<Rightarrow> int \<Rightarrow> bool \<Rightarrow> nat \<Rightarrow> KTLSJob" where
  "KTLSJob_init i client_fd ssl_ctx timeout_ms =
     \<lparr>kj_id = i, kj_client_fd = client_fd, kj_ssl_ctx = ssl_ctx, kj_ssl = False, kj_state = HANDSHAKING,
      kj_ktls_enabled = False, kj_timeout_ms = timeout_ms, kj_ssl_initialized = False, kj_last_ssl_error = 0,
      kj_pending_operations = 0\<rparr>"

definition SSL_ERROR_WANT_READ :: int where "SSL_ERROR_WANT_READ = 2"
definition SSL_ERROR_WANT_WRITE :: int where "SSL_ERROR_WANT_WRITE = 3"
definition POLLIN :: int where "POLLIN = 1"
definition POLLOUT :: int where "POLLOUT = 4"

section \<open>Operations\<close>

text \<open>The destructor, run by the return to the pool.\<close>

definition kj_cleanup :: "KTLSJob \<Rightarrow> KTLSJob" where
  "kj_cleanup j = j\<lparr>kj_ssl := False, kj_ssl_initialized := False\<rparr>"

definition initializeSSL :: "KTLSJob \<Rightarrow> ring \<Rightarrow> bool \<times> KTLSJob \<times> ring" where
  "initializeSSL j w =
     (if kj_ssl_initialized j then (True, j, w)
      else if \<not> kj_ssl_ctx j then (False, j, w)
      else let (ssl, w1) = ask w in
        if ssl < 0 then (False, j\<lparr>kj_ssl := False\<rparr>, w1)
        else let (set_fd, w2) = ask w1 in
          if set_fd < 0 then (False, j\<lparr>kj_ssl := False\<rparr>, w2)
          else (True, j\<lparr>kj_ssl := True, kj_ssl_initialized := True\<rparr>, w2))"

definition enableKTLS :: "ring \<Rightarrow> bool \<times> ring" where
  "enableKTLS w =
     (let (bio, w1) = ask w in
      if bio < 0 then (False, w1)
      else let (ktls_send, w2) = ask w1 in
        if ktls_send < 0 then (False, w2)
        else let (ktls_recv, w3) = ask w2 in (ktls_recv \<ge> 0, w3))"

definition completeHandshake :: "KTLSJob \<Rightarrow> ring \<Rightarrow> bool \<times> KTLSJob \<times> job_cb \<times> ring" where
  "completeHandshake j w =
     (let (ok, w1) = enableKTLS w in
      if ok then (True, j\<lparr>kj_state := KTLS_READY, kj_ktls_enabled := True\<rparr>, OnComplete (kj_client_fd j) 0, w1)
      else (False, j\<lparr>kj_state := ERROR_STATE\<rparr>, OnError (kj_client_fd j) (- 1), w1))"

text \<open>\<^verbatim>\<open>SSL_accept\<close>: None when it returned 1, else the code \<^verbatim>\<open>SSL_get_error\<close> gives.\<close>

definition SSL_accept :: "ring \<Rightarrow> int option \<times> ring" where
  "SSL_accept w =
     (let (ret, w1) = ask w in
      if ret = 1 then (None, w1) else let (ssl_error, w2) = ask w1 in (Some ssl_error, w2))"

definition submitPollOperation :: "int \<Rightarrow> KTLSJob \<Rightarrow> ring \<Rightarrow> KTLSJob \<times> job_cb \<times> ring" where
  "submitPollOperation events j w =
     (let (sqe, w1) = registerJob (kj_id j) (OpPollAdd (kj_client_fd j) events) w in
      if \<not> sqe then (j\<lparr>kj_state := ERROR_STATE\<rparr>, OnError (kj_client_fd j) (- ENOMEM), w1)
      else let (tsqe, w2) = registerJob (kj_id j) (OpLinkTimeout (kj_timeout_ms j)) w1 in
        if \<not> tsqe then (j\<lparr>kj_pending_operations := kj_pending_operations j + 1\<rparr>, NoCallback, snd (submit w2))
        else (j\<lparr>kj_pending_operations := kj_pending_operations j + 2\<rparr>, NoCallback, snd (submit w2)))"

definition performHandshakeStep :: "KTLSJob \<Rightarrow> ring \<Rightarrow> bool \<times> KTLSJob \<times> job_cb \<times> ring" where
  "performHandshakeStep j w =
     (if isStopping w \<or> isAborting w then
        (False, j\<lparr>kj_state := ERROR_STATE\<rparr>, OnError (kj_client_fd j) (- ECANCELED), w)
      else let (ok, j1, w1) = (if kj_ssl_initialized j then (True, j, w) else initializeSSL j w) in
        if \<not> ok then (False, j1, NoCallback, w1)
        else (case SSL_accept w1 of
                (None, w2) \<Rightarrow> completeHandshake j1 w2
              | (Some ssl_error, w2) \<Rightarrow>
                  let j2 = j1\<lparr>kj_last_ssl_error := ssl_error\<rparr> in
                  if ssl_error = SSL_ERROR_WANT_READ \<or> ssl_error = SSL_ERROR_WANT_WRITE then
                    let (j3, cb, w3) =
                          submitPollOperation (if ssl_error = SSL_ERROR_WANT_READ then POLLIN else POLLOUT) j2 w2 in
                    (kj_state j3 \<noteq> ERROR_STATE, j3, cb, w3)
                  else (False, j2\<lparr>kj_state := ERROR_STATE\<rparr>, OnError (kj_client_fd j2) ssl_error, w2)))"

text \<open>\<^verbatim>\<open>prepareSqe\<close> drives the first step and always prepares a no-op, whose completion continues the job.\<close>

definition kj_prepareSqe :: "KTLSJob \<Rightarrow> ring \<Rightarrow> KTLSJob \<times> job_cb \<times> ring" where
  "kj_prepareSqe j w =
     (let (ok, j1, w1) = (if kj_ssl_initialized j then (True, j, w) else initializeSSL j w) in
      if \<not> ok then (j1\<lparr>kj_state := ERROR_STATE\<rparr>, OnError (kj_client_fd j1) (- 1), w1)
      else (case SSL_accept w1 of
              (None, w2) \<Rightarrow> let (_, j2, cb, w3) = completeHandshake j1 w2 in (j2, cb, w3)
            | (Some ssl_error, w2) \<Rightarrow>
                let j2 = j1\<lparr>kj_last_ssl_error := ssl_error\<rparr> in
                if ssl_error = SSL_ERROR_WANT_READ \<or> ssl_error = SSL_ERROR_WANT_WRITE then (j2, NoCallback, w2)
                else (j2\<lparr>kj_state := ERROR_STATE\<rparr>, OnError (kj_client_fd j2) ssl_error, w2)))"

text \<open>The completion handler: the job, the callback it made, and whether it returned the cleanup callback.\<close>

definition kj_handleCompletion :: "KTLSJob \<Rightarrow> cqe \<Rightarrow> ring \<Rightarrow> KTLSJob \<times> job_cb \<times> bool \<times> ring" where
  "kj_handleCompletion j0 c w =
     (let j = j0\<lparr>kj_pending_operations := kj_pending_operations j0 - 1\<rparr> in
      if kj_state j = ERROR_STATE \<or> kj_state j = KTLS_READY then
        (j, NoCallback, kj_pending_operations j = 0, w)
      else if cqe_res c < 0 then
        if cqe_res c = - ECANCELED then (j, NoCallback, False, w)
        else (j\<lparr>kj_state := ERROR_STATE\<rparr>, OnError (kj_client_fd j) (cqe_res c), kj_pending_operations j = 0, w)
      else let (more_steps, j1, cb, w1) = performHandshakeStep j w in
        (j1, cb, \<not> more_steps \<and> (kj_state j1 = ERROR_STATE \<or> kj_state j1 = KTLS_READY) \<and> kj_pending_operations j1 = 0, w1))"

section \<open>One step\<close>

text \<open>
  What one step of the handshake does to the job, \<open>n\<close> being the operations it queued: the callback
  tells whether the handshake is over, and only a step that goes on queues anything.
\<close>

definition kj_step_ok :: "KTLSJob \<Rightarrow> ring \<Rightarrow> KTLSJob \<Rightarrow> job_cb \<Rightarrow> ring \<Rightarrow> bool" where
  "kj_step_ok j w j' cb w' \<longleftrightarrow>
     kj_id j' = kj_id j \<and> kj_client_fd j' = kj_client_fd j \<and> balanced w w' \<and> freed w' = freed w \<and> closed w' = closed w \<and>
     opened w' = opened w \<and>
     kj_pending_operations j' = kj_pending_operations j + ops_since (kj_id j) w w' \<and>
     (case cb of
        NoCallback \<Rightarrow> kj_state j' = kj_state j
      | OnComplete fd n \<Rightarrow> fd = kj_client_fd j \<and> n = 0 \<and> kj_state j' = KTLS_READY \<and> ops_since (kj_id j) w w' = 0
      | OnError fd e \<Rightarrow> fd = kj_client_fd j \<and> kj_state j' = ERROR_STATE \<and> ops_since (kj_id j) w w' = 0)"

lemma ask_same: "ask w = (a, w') \<Longrightarrow> balanced w w' \<and> freed w' = freed w \<and> closed w' = closed w \<and> opened w' = opened w \<and> sq w' = sq w"
  by (metis ask_simps(2-5) balanced_env(1) snd_conv)

text \<open>Answers of OpenSSL change nothing the ring accounts for.\<close>

definition same_books :: "ring \<Rightarrow> ring \<Rightarrow> bool" where
  "same_books w w' \<longleftrightarrow> sq w' = sq w \<and> in_flight w' = in_flight w \<and> freed w' = freed w \<and> closed w' = closed w \<and> opened w' = opened w"

lemma same_books_refl [simp]: "same_books w w"
  by (simp add: same_books_def)

lemma same_books_ask: "ask w = (a, w') \<Longrightarrow> same_books w w'"
  by (auto simp: same_books_def ask_def)

lemma same_books_ssl:
  "initializeSSL j w = (ok, j', w') \<Longrightarrow> same_books w w'" "enableKTLS w = (b, w') \<Longrightarrow> same_books w w'"
  "SSL_accept w = (e, w') \<Longrightarrow> same_books w w'"
  by (auto simp: initializeSSL_def enableKTLS_def SSL_accept_def ask_def same_books_def Let_def split: if_splits)

lemma kj_step_after:
  assumes "same_books w w1" "kj_step_ok j1 w1 j' cb w'"
    and "kj_id j1 = kj_id j" "kj_client_fd j1 = kj_client_fd j" "kj_pending_operations j1 = kj_pending_operations j" "kj_state j1 = kj_state j"
  shows "kj_step_ok j w j' cb w'"
  using assms unfolding kj_step_ok_def same_books_def by (simp add: ops_since_def balanced_def cong: job_cb.case_cong)

lemma completeHandshake_ok:
  "completeHandshake j w = (ok, j', cb, w') \<Longrightarrow> kj_step_ok j w j' cb w' \<and> cb \<noteq> NoCallback"
  using same_books_ssl(2)[of w]
  by (cases "enableKTLS w")
     (auto simp: completeHandshake_def kj_step_ok_def same_books_def ops_since_def balanced_def split: if_splits)

lemma submitPollOperation_ok:
  assumes "submitPollOperation ev j w = (j', cb, w')"
  shows "kj_step_ok j w j' cb w' \<and> (cb = NoCallback \<longrightarrow> 0 < ops_since (kj_id j) w w') \<and> (\<forall>fd n. cb \<noteq> OnComplete fd n)"
proof -
  let ?op = "OpPollAdd (kj_client_fd j) ev" and ?t = "OpLinkTimeout (kj_timeout_ms j)"
  show ?thesis
  proof (cases rule: registerJob_cases[of "kj_id j" ?op w])
    case (ok w1)
    show ?thesis
      using assms ok by (cases rule: registerJob_cases[of "kj_id j" ?t w1])
        (auto simp: submitPollOperation_def kj_step_ok_def ops_since_def balanced_def ring_simps)
  next
    case (no w1)
    with assms show ?thesis by (auto simp: submitPollOperation_def kj_step_ok_def ops_since_def balanced_def)
  qed
qed

lemma initializeSSL_frame:
  "initializeSSL j w = (ok, j', w') \<Longrightarrow> kj_id j' = kj_id j \<and> kj_client_fd j' = kj_client_fd j \<and>
     kj_pending_operations j' = kj_pending_operations j \<and> kj_state j' = kj_state j"
  by (auto simp: initializeSSL_def ask_def Let_def split: if_splits)


lemma performHandshakeStep_ok:
  assumes "performHandshakeStep j w = (ok, j', cb, w')" "kj_ssl_initialized j" "kj_state j = HANDSHAKING"
  shows "kj_step_ok j w j' cb w' \<and> (cb = NoCallback \<longrightarrow> ok \<and> 0 < ops_since (kj_id j) w w') \<and> kj_ssl_initialized j' \<and>
    (ok \<longleftrightarrow> kj_state j' \<noteq> ERROR_STATE)"
proof (cases "isStopping w \<or> isAborting w")
  case True
  with assms show ?thesis by (auto simp: performHandshakeStep_def kj_step_ok_def ops_since_def)
next
  case run: False
  obtain a w2 where ac: "SSL_accept w = (a, w2)" by fastforce
  note sb = same_books_ssl(3)[OF ac]
  show ?thesis
  proof (cases a)
    case None
    with run assms ac have h: "completeHandshake j w2 = (ok, j', cb, w')" by (simp add: performHandshakeStep_def)
    have "kj_ssl_initialized j' \<and> (ok \<longleftrightarrow> kj_state j' \<noteq> ERROR_STATE)"
      using h assms(2) by (auto simp: completeHandshake_def split: prod.splits if_splits)
    with kj_step_after[OF sb conjunct1[OF completeHandshake_ok[OF h]]] completeHandshake_ok[OF h] show ?thesis by simp
  next
    case (Some e)
    let ?j = "j\<lparr>kj_last_ssl_error := e\<rparr>"
    show ?thesis
    proof (cases "e = SSL_ERROR_WANT_READ \<or> e = SSL_ERROR_WANT_WRITE")
      case True
      then obtain ev where h: "submitPollOperation ev ?j w2 = (j', cb, w')" "ok \<longleftrightarrow> kj_state j' \<noteq> ERROR_STATE"
        using run assms ac Some by (auto simp: performHandshakeStep_def split: prod.splits if_splits)
      note p = submitPollOperation_ok[OF h(1)]
      have "kj_step_ok j w j' cb w'" by (rule kj_step_after[OF sb conjunct1[OF p]]) simp_all
      moreover have "ops_since (kj_id j) w w' = ops_since (kj_id j) w2 w'" using sb by (simp add: same_books_def ops_since_def)
      moreover have "kj_ssl_initialized j'"
        using h(1) assms(2) by (auto simp: submitPollOperation_def split: prod.splits if_splits)
      ultimately show ?thesis using p h(2) assms(3) by (auto simp: kj_step_ok_def)
    next
      case False
      with run assms ac Some sb show ?thesis
        by (auto simp: performHandshakeStep_def kj_step_ok_def same_books_def ops_since_def balanced_def)
    qed
  qed
qed

section \<open>The life of a handshake\<close>

text \<open>
  The job with the operations the kernel holds for it, the callbacks it has made, and whether it was
  returned to the pool. The life begins with the no-op that \<^verbatim>\<open>handleNewConnection\<close> registers; the pending count
  leaves that one out.
\<close>

record ktls_life =
  kl_job :: KTLSJob
  kl_ops :: nat
  kl_calls :: "job_cb list"
  kl_freed :: bool

fun called :: "job_cb \<Rightarrow> job_cb list" where
  "called NoCallback = []"
| "called cb = [cb]"

inductive ktls_run :: "KTLSJob \<Rightarrow> ktls_life \<Rightarrow> bool" for j0 where
  Registered: "kj_prepareSqe j0 w = (j, cb, w') \<Longrightarrow>
     ktls_run j0 \<lparr>kl_job = j, kl_ops = 1, kl_calls = called cb, kl_freed = False\<rparr>"
| Completed: "ktls_run j0 l \<Longrightarrow> 0 < kl_ops l \<Longrightarrow> \<not> kl_freed l \<Longrightarrow>
     kj_handleCompletion (kl_job l) c w = (j, cb, clean, w') \<Longrightarrow>
     ktls_run j0 \<lparr>kl_job = j, kl_ops = kl_ops l - 1 + ops_since (kj_id (kl_job l)) w w',
       kl_calls = kl_calls l @ called cb, kl_freed = clean\<rparr>"

definition ktls_inv :: "KTLSJob \<Rightarrow> ktls_life \<Rightarrow> bool" where
  "ktls_inv j0 l \<longleftrightarrow>
     kj_id (kl_job l) = kj_id j0 \<and> kj_client_fd (kl_job l) = kj_client_fd j0 \<and>
     (kl_ops l = kj_pending_operations (kl_job l) \<or> kl_ops l = 1 \<and> kj_pending_operations (kl_job l) = 0) \<and>
     (kl_freed l \<longrightarrow> kl_ops l = 0 \<and> kj_state (kl_job l) \<noteq> HANDSHAKING) \<and>
     (case kj_state (kl_job l) of
        HANDSHAKING \<Rightarrow> kl_calls l = [] \<and> kj_ssl_initialized (kl_job l)
      | KTLS_READY \<Rightarrow> kl_calls l = [OnComplete (kj_client_fd j0) 0]
      | ERROR_STATE \<Rightarrow> (\<exists>e. kl_calls l = [OnError (kj_client_fd j0) e]))"

lemma prepared_inv:
  assumes "kj_prepareSqe j0 w = (j, cb, w')" "kj_state j0 = HANDSHAKING" "kj_pending_operations j0 = 0"
  shows "ktls_inv j0 \<lparr>kl_job = j, kl_ops = 1, kl_calls = called cb, kl_freed = False\<rparr>"
proof -
  obtain ok j1 w1 where i: "(if kj_ssl_initialized j0 then (True, j0, w) else initializeSSL j0 w) = (ok, j1, w1)" by (metis prod.collapse)
  have f: "kj_id j1 = kj_id j0" "kj_client_fd j1 = kj_client_fd j0" "kj_pending_operations j1 = 0" "kj_state j1 = HANDSHAKING"
    using i assms(2,3) initializeSSL_frame[of j0 w ok j1 w1] by (auto split: if_splits)
  have si: "ok \<Longrightarrow> kj_ssl_initialized j1"
    using i by (auto simp: initializeSSL_def Let_def split: if_splits prod.splits)
  show ?thesis
  proof (cases ok)
    case False
    with assms(1) i f show ?thesis by (auto simp: kj_prepareSqe_def ktls_inv_def)
  next
    case True
    obtain a w2 where a: "SSL_accept w1 = (a, w2)" by fastforce
    show ?thesis
    proof (cases a)
      case None
      with True assms(1) i a f show ?thesis
        by (auto simp: kj_prepareSqe_def ktls_inv_def completeHandshake_def split: prod.splits if_splits)
    next
      case (Some e)
      with True assms(1) i a f si show ?thesis by (auto simp: kj_prepareSqe_def ktls_inv_def Let_def split: if_splits)
    qed
  qed
qed

lemma completed_inv:
  assumes inv: "ktls_inv j0 l" and pos: "0 < kl_ops l" "\<not> kl_freed l"
    and h: "kj_handleCompletion (kl_job l) c w = (j, cb, clean, w')"
  shows "ktls_inv j0 \<lparr>kl_job = j, kl_ops = kl_ops l - 1 + ops_since (kj_id (kl_job l)) w w',
       kl_calls = kl_calls l @ called cb, kl_freed = clean\<rparr>"
proof -
  define k where "k = (kl_job l)\<lparr>kj_pending_operations := kj_pending_operations (kl_job l) - 1\<rparr>"
  have n: "kl_ops l - 1 = kj_pending_operations k" using inv pos by (auto simp: ktls_inv_def k_def)
  have kf: "kj_state k = kj_state (kl_job l)" "kj_client_fd k = kj_client_fd j0" "kj_id k = kj_id j0"
    "kj_ssl_initialized k = kj_ssl_initialized (kl_job l)" using inv by (simp_all add: k_def ktls_inv_def)
  note hk = h[unfolded kj_handleCompletion_def Let_def, folded k_def]
  consider (over) "kj_state k \<noteq> HANDSHAKING" | (fails) "kj_state k = HANDSHAKING" "cqe_res c < 0" | (goes) "kj_state k = HANDSHAKING" "\<not> cqe_res c < 0"
    by blast
  then show ?thesis
  proof cases
    case over
    then have "kj_state k = ERROR_STATE \<or> kj_state k = KTLS_READY" by (cases "kj_state k") auto
    then have "j = k" "cb = NoCallback" "clean \<longleftrightarrow> kj_pending_operations k = 0" "w' = w"
      using hk by auto
    with over inv kf n show ?thesis by (auto simp: ktls_inv_def ops_since_def split: ktls_state.splits)
  next
    case fails
    then have s: "kj_state k \<noteq> ERROR_STATE" "kj_state k \<noteq> KTLS_READY" by simp_all
    show ?thesis
    proof (cases "cqe_res c = - ECANCELED")
      case True
      with s hk fails have "j = k" "cb = NoCallback" "\<not> clean" "w' = w" by simp_all
      with inv kf n fails show ?thesis by (simp add: ktls_inv_def ops_since_def)
    next
      case False
      with s hk fails have "j = k\<lparr>kj_state := ERROR_STATE\<rparr>" "cb = OnError (kj_client_fd k) (cqe_res c)"
        "clean = (kj_pending_operations k = 0)" "w' = w"
        by simp_all
      with inv kf n fails show ?thesis by (simp add: ktls_inv_def ops_since_def)
    qed
  next
    case goes
    obtain more_steps where p: "performHandshakeStep k w = (more_steps, j, cb, w')"
      "clean \<longleftrightarrow> \<not> more_steps \<and> (kj_state j = ERROR_STATE \<or> kj_state j = KTLS_READY) \<and> kj_pending_operations j = 0"
      using hk goes by (auto split: prod.splits)
    have init: "kj_ssl_initialized k" using inv kf goes(1) by (simp add: ktls_inv_def split: ktls_state.splits)
    note st = performHandshakeStep_ok[OF p(1) init goes(1)]
    have calls: "kl_calls l = []" using inv kf goes(1) by (simp add: ktls_inv_def split: ktls_state.splits)
    have ops: "kl_ops l - 1 + ops_since (kj_id (kl_job l)) w w' = kj_pending_operations j"
      using n st kf inv by (simp add: kj_step_ok_def ktls_inv_def)
    from st ops calls goes kf p inv show ?thesis by (cases cb) (auto simp: kj_step_ok_def ktls_inv_def)
  qed
qed

lemma ktls_run_inv: "ktls_run j0 l \<Longrightarrow> kj_state j0 = HANDSHAKING \<Longrightarrow> kj_pending_operations j0 = 0 \<Longrightarrow> ktls_inv j0 l"
proof (induction rule: ktls_run.induct)
  case Registered
  then show ?case by (rule prepared_inv)
next
  case (Completed l c w j cb clean w')
  then have "ktls_inv j0 l" by blast
  then show ?case using Completed(2-4) by (rule completed_inv)
qed

section \<open>Properties\<close>


text \<open>
  A handshake that succeeds in its last operation leaks its job. If \<^verbatim>\<open>SSL_accept\<close> succeeds while a completion is handled and no
  other operation of the job is in the kernel, \<^verbatim>\<open>performHandshakeStep\<close> returns true, so \<^verbatim>\<open>handleCompletion\<close> returns no cleanup
  callback: the success callback has run, nothing of the job is left in the kernel, and the job is never returned
  to its pool. The no-op that starts the handshake is such an operation.
\<close>

lemma ktls_success_leaks:
  assumes "kj_state j = HANDSHAKING" "kj_ssl_initialized j" "kj_pending_operations j \<le> 1" "0 \<le> cqe_res c"
    and "\<not> isStopping w" "\<not> isAborting w" "SSL_accept w = (None, w1)" "enableKTLS w1 = (True, w2)"
  shows "kj_handleCompletion j c w =
     (j\<lparr>kj_pending_operations := 0, kj_state := KTLS_READY, kj_ktls_enabled := True\<rparr>, OnComplete (kj_client_fd j) 0, False, w2) \<and>
    ops_since (kj_id j) w w2 = 0 \<and> freed w2 = freed w"
proof -
  have "same_books w w2"
    using same_books_ssl(3)[OF assms(7)] same_books_ssl(2)[OF assms(8)] by (simp add: same_books_def)
  with assms show ?thesis
    by (simp add: kj_handleCompletion_def performHandshakeStep_def completeHandshake_def same_books_def ops_since_def Let_def)
qed

definition ktls_ring :: ring where
  "ktls_ring = \<lparr>ora = (\<lambda>n. if n = 2 then 0 else if n = 3 then 2 else 1), tick = 0, in_flight = 1, sq = [(1, OpNop)], srv_state = Running,
     next_id = 2, freed = [], opened = [], closed = []\<rparr>"

definition ktls_demo :: "KTLSJob \<times> job_cb \<times> ring" where
  "ktls_demo = kj_prepareSqe (KTLSJob_init 1 7 True 5000) ktls_ring"

definition nop_cqe :: cqe where
  "nop_cqe = \<lparr>cqe_job = Some 1, cqe_res = 0, cqe_more = False, cqe_buf = 0\<rparr>"

lemmas ktls_eval = kj_prepareSqe_def initializeSSL_def SSL_accept_def enableKTLS_def completeHandshake_def KTLSJob_init_def ask_def
  SSL_ERROR_WANT_READ_def SSL_ERROR_WANT_WRITE_def ktls_ring_def Let_def

lemma ktls_demo_state:
  "ktls_demo = ((KTLSJob_init 1 7 True 5000)\<lparr>kj_ssl := True, kj_ssl_initialized := True, kj_last_ssl_error := 2\<rparr>, NoCallback,
     ktls_ring\<lparr>tick := 4\<rparr>)"
  by (simp add: ktls_demo_def ktls_eval)


end
