(* ===== verification/Http_Message.thy ===== *)
theory Http_Message
  imports Cdv_Prelude "HOL-Library.AList"
begin

text \<open>
  Requests and responses: \<^verbatim>\<open>include/caduvelox/http/HttpRequest.hpp\<close> and
  \<^verbatim>\<open>include/caduvelox/http/HttpResponse.hpp\<close>. A \<^verbatim>\<open>std::unordered_map<string, string>\<close> is an
  association list with distinct keys, read in the map's iteration order; that order is
  unspecified in C++, so every statement is for an arbitrary list, and the results that reach
  the wire are shown independent of it. The map interface the code relies on is the locale
  \<open>kv_store\<close>, interpreted on the association lists.
\<close>

section \<open>The map interface\<close>

locale kv_store =
  fixes lookup :: "'m \<Rightarrow> 'k \<Rightarrow> 'v option"
    and put :: "'k \<Rightarrow> 'v \<Rightarrow> 'm \<Rightarrow> 'm"
    and erase :: "'k \<Rightarrow> 'm \<Rightarrow> 'm"
    and wf :: "'m \<Rightarrow> bool"
  assumes lookup_put: "lookup (put k v m) = (lookup m)(k \<mapsto> v)"
    and lookup_erase: "wf m \<Longrightarrow> lookup (erase k m) = (lookup m)(k := None)"
    and wf_put: "wf m \<Longrightarrow> wf (put k v m)"
    and wf_erase: "wf m \<Longrightarrow> wf (erase k m)"
begin

text \<open>The idiom \<^verbatim>\<open>if (m.find(k) == m.end()) m[k] = v\<close> that fills in default fields.\<close>

definition put_default :: "'k \<Rightarrow> 'v \<Rightarrow> 'm \<Rightarrow> 'm" where
  "put_default k v m = (if lookup m k = None then put k v m else m)"

lemma lookup_put_default:
  "lookup (put_default k v m) j =
     (if j = k then Some (case lookup m k of None \<Rightarrow> v | Some w \<Rightarrow> w) else lookup m j)"
  by (auto simp: put_default_def lookup_put split: option.splits)

lemma wf_put_default: "wf m \<Longrightarrow> wf (put_default k v m)"
  by (simp add: put_default_def wf_put)

lemma put_default_keeps: "lookup m k = Some w \<Longrightarrow> lookup (put_default k' v m) k = Some w"
  by (auto simp: lookup_put_default)

lemma put_then_erase: "wf m \<Longrightarrow> lookup m k = None \<Longrightarrow> lookup (erase k (put k v m)) = lookup m"
  by (auto simp: lookup_erase lookup_put wf_put fun_eq_iff)

end

type_synonym headers = "(string \<times> string) list"

definition hdr_wf :: "headers \<Rightarrow> bool" where
  "hdr_wf h \<longleftrightarrow> distinct (map fst h)"

interpretation hdr: kv_store map_of AList.update AList.delete hdr_wf
  by unfold_locales
     (auto simp: update_conv' delete_conv' hdr_wf_def distinct_update distinct_delete)

lemma hdr_put_default_code [code]:
  "hdr.put_default k v m = (if map_of m k = None then AList.update k v m else m)"
  by (rule hdr.put_default_def)

text \<open>\<^verbatim>\<open>try_emplace\<close>: insert only when the key is absent.\<close>

definition try_emplace :: "string \<Rightarrow> string \<Rightarrow> headers \<Rightarrow> headers \<times> bool" where
  "try_emplace k v h = (case map_of h k of None \<Rightarrow> (h @ [(k, v)], True) | Some _ \<Rightarrow> (h, False))"

lemma map_of_snoc: "map_of h k = None \<Longrightarrow> map_of (h @ [(k, v)]) = (map_of h)(k \<mapsto> v)"
  by (auto simp: fun_eq_iff map_add_def split: option.splits)

lemma hdr_wf_snoc: "hdr_wf h \<Longrightarrow> map_of h k = None \<Longrightarrow> hdr_wf (h @ [(k, v)])"
  by (auto simp: hdr_wf_def map_of_eq_None_iff)

lemma hdr_wf_filter: "hdr_wf h \<Longrightarrow> hdr_wf (filter P h)"
  by (auto simp: hdr_wf_def distinct_map_filter)

section \<open>Requests\<close>

record HttpRequest =
  req_method :: string
  req_path :: string
  req_version :: string
  req_headers :: headers
  req_body :: string

definition empty_request :: HttpRequest where
  "empty_request = \<lparr>req_method = [], req_path = [], req_version = [], req_headers = [], req_body = []\<rparr>"

definition read_header :: "headers \<Rightarrow> string \<Rightarrow> string" where
  "read_header h name = (case map_of h (lowercase name) of Some v \<Rightarrow> v | None \<Rightarrow> [])"

definition req_getHeader :: "HttpRequest \<Rightarrow> string \<Rightarrow> string" where
  "req_getHeader r name = read_header (req_headers r) name"

section \<open>Responses\<close>

record HttpResponse =
  status_code :: int
  status_text :: string
  res_headers :: headers
  file_path :: string
  res_body :: string

definition HttpResponse_init :: HttpResponse where
  "HttpResponse_init =
     \<lparr>status_code = 200, status_text = [], res_headers = [], file_path = [], res_body = []\<rparr>"

definition res_getHeader :: "HttpResponse \<Rightarrow> string \<Rightarrow> string" where
  "res_getHeader r name = read_header (res_headers r) name"

definition getDefaultStatusText :: "int \<Rightarrow> string" where
  "getDefaultStatusText code =
     (if code = 200 then ''OK''
      else if code = 201 then ''Created''
      else if code = 202 then ''Accepted''
      else if code = 204 then ''No Content''
      else if code = 206 then ''Partial Content''
      else if code = 301 then ''Moved Permanently''
      else if code = 302 then ''Found''
      else if code = 304 then ''Not Modified''
      else if code = 400 then ''Bad Request''
      else if code = 401 then ''Unauthorized''
      else if code = 403 then ''Forbidden''
      else if code = 404 then ''Not Found''
      else if code = 405 then ''Method Not Allowed''
      else if code = 409 then ''Conflict''
      else if code = 413 then ''Content Too Large''
      else if code = 414 then ''URI Too Long''
      else if code = 416 then ''Range Not Satisfiable''
      else if code = 415 then ''Unsupported Media Type''
      else if code = 422 then ''Unprocessable Entity''
      else if code = 429 then ''Too Many Requests''
      else if code = 431 then ''Request Header Fields Too Large''
      else if code = 500 then ''Internal Server Error''
      else if code = 501 then ''Not Implemented''
      else if code = 502 then ''Bad Gateway''
      else if code = 503 then ''Service Unavailable''
      else if code = 504 then ''Gateway Timeout''
      else ''Unknown'')"

definition setStatus :: "int \<Rightarrow> string \<Rightarrow> HttpResponse \<Rightarrow> HttpResponse" where
  "setStatus code txt r =
     r\<lparr>status_code := code, status_text := (if txt = [] then getDefaultStatusText code else txt)\<rparr>"

text \<open>\<^verbatim>\<open>setHeader\<close>: drop every other spelling of the field, then store under the lowercase key.\<close>

definition setHeader :: "string \<Rightarrow> string \<Rightarrow> HttpResponse \<Rightarrow> HttpResponse" where
  "setHeader name v r =
     (let key = lowercase name;
          kept = filter (\<lambda>(k, _). \<not> (k \<noteq> key \<and> lowercase k = key)) (res_headers r)
      in r\<lparr>res_headers := AList.update key v kept\<rparr>)"

fun normalize_loop :: "headers \<Rightarrow> headers \<Rightarrow> bool \<Rightarrow> headers \<times> bool" where
  "normalize_loop [] normalized consistent = (normalized, consistent)"
| "normalize_loop ((name, v) # rest) normalized consistent =
     (case map_of normalized (lowercase name) of
        None \<Rightarrow> normalize_loop rest (normalized @ [(lowercase name, v)]) consistent
      | Some w \<Rightarrow> normalize_loop rest normalized (if w \<noteq> v then False else consistent))"

definition normalizeHeaders :: "HttpResponse \<Rightarrow> HttpResponse \<times> bool" where
  "normalizeHeaders r =
     (case normalize_loop (res_headers r) [] True of
        (normalized, consistent) \<Rightarrow> (r\<lparr>res_headers := normalized\<rparr>, consistent))"

definition setContentType :: "string \<Rightarrow> HttpResponse \<Rightarrow> HttpResponse" where
  "setContentType ct r = setHeader ''content-type'' ct r"

definition setBody :: "string \<Rightarrow> HttpResponse \<Rightarrow> HttpResponse" where
  "setBody content r = setHeader ''content-length'' (nat_to_string (length content)) (r\<lparr>res_body := content\<rparr>)"

definition setFile :: "string \<Rightarrow> HttpResponse \<Rightarrow> HttpResponse" where
  "setFile path r = r\<lparr>file_path := path\<rparr>"

definition html :: "string \<Rightarrow> HttpResponse \<Rightarrow> HttpResponse" where
  "html content r = setBody content (setContentType ''text/html'' r)"

definition json :: "string \<Rightarrow> HttpResponse \<Rightarrow> HttpResponse" where
  "json content r = setBody content (setContentType ''application/json'' r)"

definition sendFile :: "string \<Rightarrow> HttpResponse \<Rightarrow> HttpResponse" where
  "sendFile path r = r\<lparr>file_path := path\<rparr>"

section \<open>setHeader\<close>

lemma setHeader_fields [simp]:
  "status_code (setHeader n v r) = status_code r" "status_text (setHeader n v r) = status_text r"
  "file_path (setHeader n v r) = file_path r" "res_body (setHeader n v r) = res_body r"
  by (simp_all add: setHeader_def Let_def)

lemma setStatus_fields [simp]:
  "status_code (setStatus c t r) = c" "res_headers (setStatus c t r) = res_headers r"
  "file_path (setStatus c t r) = file_path r" "res_body (setStatus c t r) = res_body r"
  by (simp_all add: setStatus_def)

lemma setBody_fields [simp]:
  "status_code (setBody b r) = status_code r" "status_text (setBody b r) = status_text r"
  "file_path (setBody b r) = file_path r" "res_body (setBody b r) = b"
  by (simp_all add: setBody_def)

lemma hdr_wf_setHeader: "hdr_wf (res_headers r) \<Longrightarrow> hdr_wf (res_headers (setHeader n v r))"
  by (simp add: setHeader_def Let_def hdr.wf_put hdr_wf_filter)

lemma map_of_filter_keys: "map_of (filter (\<lambda>(k, _). P k) h) k = (if P k then map_of h k else None)"
  by (induction h) auto

lemma map_of_setHeader:
  "map_of (res_headers (setHeader n v r)) k =
     (if k = lowercase n then Some v else if lowercase k = lowercase n then None
      else map_of (res_headers r) k)"
  by (simp add: setHeader_def Let_def update_conv' map_of_filter_keys)

text \<open>The keys of a response all in lowercase, as \<open>normalizeHeaders\<close> leaves them.\<close>

definition lower_keys :: "headers \<Rightarrow> bool" where
  "lower_keys h \<longleftrightarrow> (\<forall>k \<in> fst ` set h. lowercase k = k)"

lemma lower_keys_filter: "lower_keys h \<Longrightarrow> lower_keys (filter P h)"
  by (auto simp: lower_keys_def)

lemma lower_keys_update: "lower_keys h \<Longrightarrow> lower_keys (AList.update (lowercase k) v h)"
  by (simp add: lower_keys_def dom_update)

lemma lower_keys_setHeader: "lower_keys (res_headers r) \<Longrightarrow> lower_keys (res_headers (setHeader n v r))"
  by (simp add: setHeader_def Let_def lower_keys_update lower_keys_filter)

section \<open>normalizeHeaders\<close>

text \<open>Two spellings of a field agree: the condition under which a response may be sent.\<close>

definition spellings_agree :: "headers \<Rightarrow> bool" where
  "spellings_agree h \<longleftrightarrow>
     (\<forall>(k, v) \<in> set h. \<forall>(k', v') \<in> set h. lowercase k = lowercase k' \<longrightarrow> v = v')"

lemma normalize_loop_keys:
  "hdr_wf acc \<Longrightarrow> lower_keys acc \<Longrightarrow> normalize_loop h acc c = (h', c') \<Longrightarrow>
   hdr_wf h' \<and> lower_keys h'"
proof (induction h acc c arbitrary: h' c' rule: normalize_loop.induct)
  case (1 acc c)
  then show ?case by simp
next
  case (2 n v rest acc c)
  have "lower_keys (acc @ [(lowercase n, v)])"
    using "2.prems"(2) by (auto simp: lower_keys_def)
  with 2 show ?case by (auto simp: hdr_wf_snoc split: option.splits)
qed

lemma normalize_loop_mono:
  "normalize_loop h acc c = (h', c') \<Longrightarrow> map_of acc k = Some v \<Longrightarrow> map_of h' k = Some v"
proof (induction h acc c arbitrary: h' c' rule: normalize_loop.induct)
  case (1 acc c)
  then show ?case by simp
next
  case (2 n w rest acc c)
  then show ?case by (auto simp: map_of_snoc split: option.splits)
qed

lemma normalize_loop_consistent:
  "normalize_loop h acc c = (h', c') \<Longrightarrow>
     c' \<longleftrightarrow> c \<and> (\<forall>(n, v) \<in> set h. map_of h' (lowercase n) = Some v)"
proof (induction h acc c arbitrary: h' c' rule: normalize_loop.induct)
  case (1 acc c)
  then show ?case by auto
next
  case (2 n v rest acc c)
  show ?case
  proof (cases "map_of acc (lowercase n)")
    case None
    with "2.prems" have rec: "normalize_loop rest (acc @ [(lowercase n, v)]) c = (h', c')" by simp
    have "map_of h' (lowercase n) = Some v"
      using None by (intro normalize_loop_mono[OF rec]) (simp add: map_add_def)
    with "2.IH"(1)[OF None rec] show ?thesis by auto
  next
    case (Some w)
    with "2.prems" have rec: "normalize_loop rest acc (if w \<noteq> v then False else c) = (h', c')" by simp
    have "map_of h' (lowercase n) = Some w" using rec Some by (rule normalize_loop_mono)
    with "2.IH"(2)[OF Some rec] show ?thesis by auto
  qed
qed

lemma normalize_loop_source:
  "normalize_loop h acc c = (h', c') \<Longrightarrow> map_of h' k = Some v \<Longrightarrow>
     map_of acc k = Some v \<or> (\<exists>n. (n, v) \<in> set h \<and> lowercase n = k)"
proof (induction h acc c arbitrary: h' c' rule: normalize_loop.induct)
  case (1 acc c)
  then show ?case by simp
next
  case (2 n w rest acc c)
  show ?case
  proof (cases "map_of acc (lowercase n)")
    case None
    with "2.prems" have rec: "normalize_loop rest (acc @ [(lowercase n, w)]) c = (h', c')" by simp
    from "2.IH"(1)[OF None rec "2.prems"(2)] None show ?thesis
      by (auto simp: map_of_snoc split: if_splits)
  next
    case (Some w')
    with 2 show ?thesis by auto
  qed
qed

lemma normalize_loop_covers:
  "normalize_loop h acc c = (h', c') \<Longrightarrow> (n, v) \<in> set h \<Longrightarrow> \<exists>w. map_of h' (lowercase n) = Some w"
proof (induction h acc c arbitrary: h' c' rule: normalize_loop.induct)
  case (1 acc c)
  then show ?case by simp
next
  case (2 n' v' rest acc c)
  show ?case
  proof (cases "map_of acc (lowercase n')")
    case None
    with "2.prems" have rec: "normalize_loop rest (acc @ [(lowercase n', v')]) c = (h', c')" by simp
    have "map_of h' (lowercase n') = Some v'"
      using None by (intro normalize_loop_mono[OF rec]) (simp add: map_add_def)
    with "2.IH"(1)[OF None rec] "2.prems"(2) show ?thesis by auto
  next
    case (Some w)
    with "2.prems" have rec: "normalize_loop rest acc (if w \<noteq> v' then False else c) = (h', c')" by simp
    have "map_of h' (lowercase n') = Some w" using rec Some by (rule normalize_loop_mono)
    with "2.IH"(2)[OF Some rec] "2.prems"(2) show ?thesis by auto
  qed
qed

lemma normalizeHeaders_fields [simp]:
  "status_code (fst (normalizeHeaders r)) = status_code r"
  "status_text (fst (normalizeHeaders r)) = status_text r"
  "file_path (fst (normalizeHeaders r)) = file_path r"
  "res_body (fst (normalizeHeaders r)) = res_body r"
  by (simp_all add: normalizeHeaders_def split: prod.splits)

lemma normalizeHeaders_wf:
  "hdr_wf (res_headers (fst (normalizeHeaders r))) \<and> lower_keys (res_headers (fst (normalizeHeaders r)))"
  using normalize_loop_keys[of "[]" "res_headers r" True]
  by (auto simp: normalizeHeaders_def hdr_wf_def lower_keys_def split: prod.splits)

lemma normalizeHeaders_lookup:
  assumes "snd (normalizeHeaders r)"
  shows "map_of (res_headers (fst (normalizeHeaders r))) k = Some v \<longleftrightarrow>
     (\<exists>n. (n, v) \<in> set (res_headers r) \<and> lowercase n = k)"
proof -
  obtain h c where nl: "normalize_loop (res_headers r) [] True = (h, c)" by fastforce
  with assms have c: c by (simp add: normalizeHeaders_def)
  from normalize_loop_consistent[OF nl] c normalize_loop_source[OF nl, of k v] nl show ?thesis
    by (auto simp: normalizeHeaders_def)
qed

lemma normalizeHeaders_consistent_iff:
  "snd (normalizeHeaders r) \<longleftrightarrow> spellings_agree (res_headers r)"
proof -
  obtain h c where nl: "normalize_loop (res_headers r) [] True = (h, c)" by fastforce
  have c: "snd (normalizeHeaders r) = c" using nl by (simp add: normalizeHeaders_def)
  note cons = normalize_loop_consistent[OF nl]
  show ?thesis
  proof
    assume "snd (normalizeHeaders r)"
    with c cons have all: "map_of h (lowercase n) = Some v" if "(n, v) \<in> set (res_headers r)" for n v
      using that by auto
    have "v = v'" if "(k, v) \<in> set (res_headers r)" "(k', v') \<in> set (res_headers r)"
      "lowercase k = lowercase k'" for k v k' v'
      using all[OF that(1)] all[OF that(2)] that(3) by simp
    then show "spellings_agree (res_headers r)" by (auto simp: spellings_agree_def)
  next
    assume agree: "spellings_agree (res_headers r)"
    have "map_of h (lowercase n) = Some v" if "(n, v) \<in> set (res_headers r)" for n v
    proof -
      from normalize_loop_covers[OF nl that] obtain w where w: "map_of h (lowercase n) = Some w" by blast
      from normalize_loop_source[OF nl w] obtain n' where
        "(n', w) \<in> set (res_headers r)" "lowercase n' = lowercase n" by auto
      with agree that have "w = v" by (fastforce simp: spellings_agree_def)
      with w show ?thesis by simp
    qed
    with cons c show "snd (normalizeHeaders r)" by auto
  qed
qed

section \<open>Properties\<close>

text \<open>
  \<^verbatim>\<open>setHeader\<close> replaces a field whatever its spelling: afterwards the only key that folds to
  the field's name is the lowercase one, it holds the new value, every other field is untouched,
  and the header map stays a map.
\<close>

lemma setHeader_replaces_every_spelling:
  assumes "hdr_wf (res_headers r)"
  shows "hdr_wf (res_headers (setHeader name v r)) \<and>
    res_getHeader (setHeader name v r) name = v \<and>
    {k \<in> fst ` set (res_headers (setHeader name v r)). lowercase k = lowercase name} = {lowercase name} \<and>
    (\<forall>k. lowercase k \<noteq> lowercase name \<longrightarrow>
       map_of (res_headers (setHeader name v r)) k = map_of (res_headers r) k)"
proof -
  have dom: "k \<in> fst ` set h \<longleftrightarrow> map_of h k \<noteq> None" for k :: string and h :: headers
    by (metis map_of_eq_None_iff)
  have "{k \<in> fst ` set (res_headers (setHeader name v r)). lowercase k = lowercase name} = {lowercase name}"
    by (auto simp: dom map_of_setHeader split: if_splits)
  then show ?thesis
    using hdr_wf_setHeader[OF assms] by (auto simp: res_getHeader_def read_header_def map_of_setHeader)
qed

text \<open>
  \<^verbatim>\<open>normalizeHeaders\<close> returns true exactly when no two spellings of a field carry different
  values; then the folded map has distinct lowercase keys and holds exactly the values the
  spellings carried, whatever order the map was iterated in.
\<close>

lemma normalizeHeaders_correct:
  "snd (normalizeHeaders r) = spellings_agree (res_headers r) \<and>
   hdr_wf (res_headers (fst (normalizeHeaders r))) \<and>
   lower_keys (res_headers (fst (normalizeHeaders r))) \<and>
   (spellings_agree (res_headers r) \<longrightarrow>
      (\<forall>k v. map_of (res_headers (fst (normalizeHeaders r))) k = Some v \<longleftrightarrow>
        (\<exists>n. (n, v) \<in> set (res_headers r) \<and> lowercase n = k)))"
  using normalizeHeaders_consistent_iff normalizeHeaders_wf normalizeHeaders_lookup by blast

end
