(* ===== verification/Http_Parser.thy ===== *)
theory Http_Parser
  imports Http_Message
begin

text \<open>
  The request parser, \<^verbatim>\<open>src/http/HttpParser.cpp\<close>. \<open>parse_request\<close> returns what the C++ function
  returns in its result and its two out-parameters: the \<open>ParseResult\<close>, the request and the
  number of bytes consumed. The loops of \<^verbatim>\<open>parse_headers\<close> and \<^verbatim>\<open>list_contains_token\<close> recurse on the
  part of the input from \<^verbatim>\<open>pos\<close> on. The lemmas give the meaning of the loops over the split
  input, the framing of an accepted request, its independence of the bytes after it, the
  syntax of what is accepted, and a print/parse round trip.
\<close>

section \<open>Definitions\<close>

datatype ParseResult = Success | Incomplete | BadRequest

definition MAX_REQUEST_LINE :: nat where "MAX_REQUEST_LINE = 8 * 1024"
definition MAX_HEADERS :: nat where "MAX_HEADERS = 200"
definition MAX_HEADER_LINE :: nat where "MAX_HEADER_LINE = 16 * 1024"
definition MAX_CONTENT_LENGTH :: u64 where "MAX_CONTENT_LENGTH = 1024 * 1024 * 1024"

definition is_tchar :: "char \<Rightarrow> bool" where
  "is_tchar c \<longleftrightarrow>
     (97 \<le> byte c \<and> byte c \<le> 122) \<or> (65 \<le> byte c \<and> byte c \<le> 90) \<or> (48 \<le> byte c \<and> byte c \<le> 57) \<or>
     c \<in> {CHR ''!'', CHR ''#'', CHR ''$'', CHR ''%'', CHR ''&'', CHR 0x27,
           CHR ''*'', CHR ''+'', CHR ''-'', CHR ''.'', CHR ''^'', CHR ''_'',
           CHR 0x60, CHR ''|'', CHR ''~''}"

definition is_vchar :: "char \<Rightarrow> bool" where
  "is_vchar c \<longleftrightarrow> byte c > 0x20 \<and> byte c \<noteq> 0x7F"

definition is_valid_field_name :: "string \<Rightarrow> bool" where
  "is_valid_field_name name \<longleftrightarrow> name \<noteq> [] \<and> list_all is_tchar name"

definition is_valid_field_value :: "string \<Rightarrow> bool" where
  "is_valid_field_value v \<longleftrightarrow> list_all (\<lambda>c. c = HTAB \<or> \<not> (byte c < 0x20 \<or> byte c = 0x7F)) v"

definition trim_header_value :: "string \<Rightarrow> string" where
  "trim_header_value v = trim_blanks v"

definition normalize_header_name :: "string \<Rightarrow> string" where
  "normalize_header_name name = lowercase name"

definition parse_content_length :: "string \<Rightarrow> u64 option" where
  "parse_content_length v = (if v = [] then None else read_digits MAX_CONTENT_LENGTH 0 v)"

definition valid_version :: "string \<Rightarrow> bool" where
  "valid_version v \<longleftrightarrow>
     \<not> (length v \<noteq> 8 \<or> take 5 v \<noteq> ''HTTP/'' \<or> byte (v ! 5) < 48 \<or> byte (v ! 5) > 57 \<or>
        v ! 6 \<noteq> CHR ''.'' \<or> byte (v ! 7) < 48 \<or> byte (v ! 7) > 57)"

definition parse_request_line :: "string \<Rightarrow> HttpRequest \<Rightarrow> HttpRequest option" where
  "parse_request_line line out =
     (case find_char (CHR '' '') line of
        None \<Rightarrow> None
      | Some sp1 \<Rightarrow>
          if sp1 = 0 then None
          else (case find_char (CHR '' '') (drop (sp1 + 1) line) of
                  None \<Rightarrow> None
                | Some k \<Rightarrow>
                    let sp2 = sp1 + 1 + k in
                    if sp2 = sp1 + 1 then None
                    else let meth = take sp1 line;
                             target = take (sp2 - sp1 - 1) (drop (sp1 + 1) line);
                             version = drop (sp2 + 1) line in
                         if version = [] then None
                         else if \<not> is_valid_field_name meth then None
                         else if \<not> list_all is_vchar target then None
                         else if \<not> list_all is_vchar version then None
                         else if \<not> valid_version version then None
                         else Some (out\<lparr>req_method := meth, req_path := target, req_version := version\<rparr>)))"

text \<open>One field line: the colon, the syntax checks, and the refusal of Transfer-Encoding.\<close>

definition parse_header_line :: "string \<Rightarrow> (string \<times> string) option" where
  "parse_header_line line =
     (case find_char (CHR '':'') line of
        None \<Rightarrow> None
      | Some colon \<Rightarrow>
          let raw_name = take colon line; raw_value = drop (colon + 1) line in
          if \<not> is_valid_field_name raw_name then None
          else if \<not> is_valid_field_value raw_value then None
          else let name = normalize_header_name raw_name; v = trim_header_value raw_value in
               if name = ''transfer-encoding'' then None else Some (name, v))"

text \<open>\<^verbatim>\<open>try_emplace\<close> and what happens to a repeated field.\<close>

definition store_header :: "string \<Rightarrow> string \<Rightarrow> headers \<Rightarrow> headers option" where
  "store_header name v hs =
     (case map_of hs name of
        None \<Rightarrow> Some (hs @ [(name, v)])
      | Some old \<Rightarrow>
          if name = ''content-length'' \<and> old \<noteq> v then None
          else if name = ''connection'' then Some (AList.update name (old @ '', '' @ v) hs)
          else Some (AList.update name v hs))"

function parse_headers_loop :: "string \<Rightarrow> headers \<Rightarrow> nat \<Rightarrow> headers option" where
  "parse_headers_loop rest hs header_count =
     (if rest = [] then Some hs
      else (case find_str CRLF rest of
              None \<Rightarrow> Some hs
            | Some eol \<Rightarrow>
                let line = take eol rest in
                if line = [] then Some hs
                else if length line > MAX_HEADER_LINE then None
                else if header_count + 1 > MAX_HEADERS then None
                else (case parse_header_line line of
                        None \<Rightarrow> None
                      | Some (name, v) \<Rightarrow>
                          (case store_header name v hs of
                             None \<Rightarrow> None
                           | Some hs' \<Rightarrow> parse_headers_loop (drop (eol + 2) rest) hs' (header_count + 1)))))"
  by pat_completeness auto
termination
  by (relation "measure (\<lambda>(rest, hs, n). length rest)") auto

declare parse_headers_loop.simps [simp del]

definition parse_headers :: "string \<Rightarrow> HttpRequest \<Rightarrow> HttpRequest option" where
  "parse_headers headers_section out =
     (case parse_headers_loop headers_section [] 0 of
        None \<Rightarrow> None
      | Some hs \<Rightarrow> Some (out\<lparr>req_headers := hs\<rparr>))"

definition parse_request :: "string \<Rightarrow> HttpRequest \<Rightarrow> ParseResult \<times> HttpRequest \<times> nat" where
  "parse_request buf out =
     (if buf = [] then (Incomplete, out, 0)
      else (case find_str CRLF2 buf of
        None \<Rightarrow>
          if length buf > MAX_REQUEST_LINE + MAX_HEADERS * MAX_HEADER_LINE
          then (BadRequest, out, 0) else (Incomplete, out, 0)
      | Some header_end \<Rightarrow>
          let headers_bytes = header_end + 4;
              headers_section = take headers_bytes buf in
          (case find_str CRLF headers_section of
             None \<Rightarrow> (BadRequest, out, 0)
           | Some line_end \<Rightarrow>
               if line_end > MAX_REQUEST_LINE then (BadRequest, out, 0)
               else (case parse_request_line (take line_end headers_section) out of
                 None \<Rightarrow> (BadRequest, out, 0)
               | Some out1 \<Rightarrow>
                   (case parse_headers (take (headers_bytes - line_end - 4)
                            (drop (line_end + 2) headers_section)) out1 of
                      None \<Rightarrow> (BadRequest, out1, 0)
                    | Some out2 \<Rightarrow>
                        (case (case map_of (req_headers out2) ''content-length'' of
                                 None \<Rightarrow> Some 0
                               | Some v \<Rightarrow> parse_content_length v) of
                           None \<Rightarrow> (BadRequest, out2, 0)
                         | Some content_length \<Rightarrow>
                             let cl = unat content_length; total_needed = headers_bytes + cl in
                             if length buf < total_needed then (Incomplete, out2, 0)
                             else (Success,
                                   out2\<lparr>req_body := (if cl \<noteq> 0 then take cl (drop headers_bytes buf) else [])\<rparr>,
                                   total_needed))))))) "

text \<open>\<^verbatim>\<open>list_contains_token\<close>: \<open>rest\<close> is the list from \<^verbatim>\<open>pos\<close> on.\<close>

definition element_matches :: "string \<Rightarrow> string \<Rightarrow> bool" where
  "element_matches element token =
     (case find_if (\<lambda>c. \<not> is_blank c) element of
        None \<Rightarrow> False
      | Some _ \<Rightarrow>
          let e = trim_blanks element in
          length e = length token \<and> map tolower e = map tolower token)"

function list_contains_token :: "string \<Rightarrow> string \<Rightarrow> bool" where
  "list_contains_token rest token =
     (case find_char (CHR '','') rest of
        None \<Rightarrow> element_matches rest token
      | Some comma \<Rightarrow>
          if element_matches (take comma rest) token then True
          else list_contains_token (drop (comma + 1) rest) token)"
  by pat_completeness auto
termination
  by (relation "measure (\<lambda>(rest, token). length rest)") (auto simp: find_char_Some)

declare list_contains_token.simps [simp del]

section \<open>Syntax lemmas\<close>

lemma byte_simps: "byte CR = 13" "byte LF = 10" "byte HTAB = 9" "byte (CHR '' '') = 32"
  "byte (CHR '':'') = 58" "byte (CHR '','') = 44"
  by (simp_all add: byte_def)

lemma list_all_notin: "list_all P s \<Longrightarrow> \<not> P x \<Longrightarrow> x \<notin> set s"
  by (auto simp: list_all_iff)

lemma not_tchar: "\<not> is_tchar CR" "\<not> is_tchar LF" "\<not> is_tchar (CHR '':'')" "\<not> is_tchar (CHR '' '')"
  by (simp_all add: is_tchar_def byte_def)

lemma not_vchar: "\<not> is_vchar CR" "\<not> is_vchar LF" "\<not> is_vchar (CHR '' '')"
  by (simp_all add: is_vchar_def byte_def)

lemma field_value_no_crlf: "is_valid_field_value v \<Longrightarrow> CR \<notin> set v \<and> LF \<notin> set v"
  using list_all_notin[of "\<lambda>c. c = HTAB \<or> \<not> (byte c < 0x20 \<or> byte c = 0x7F)" v]
  by (simp add: is_valid_field_value_def byte_simps)

lemma field_name_chars: "is_valid_field_name n \<Longrightarrow> CR \<notin> set n \<and> LF \<notin> set n \<and> CHR '':'' \<notin> set n \<and> CHR '' '' \<notin> set n"
  using not_tchar list_all_notin[of is_tchar n] by (simp add: is_valid_field_name_def)

lemma is_tchar_tolower: "is_tchar c \<Longrightarrow> is_tchar (tolower c)"
proof -
  assume c: "is_tchar c"
  show ?thesis
  proof (cases "65 \<le> byte c \<and> byte c \<le> 90")
    case True
    then have "97 \<le> byte (tolower c) \<and> byte (tolower c) \<le> 122" by (simp add: byte_tolower)
    then show ?thesis by (simp add: is_tchar_def)
  next
    case False
    then have "tolower c = c" unfolding tolower_def by auto
    with c show ?thesis by simp
  qed
qed

lemma valid_name_lowercase: "is_valid_field_name n \<Longrightarrow> is_valid_field_name (lowercase n)"
  by (auto simp: is_valid_field_name_def lowercase_def list_all_iff is_tchar_tolower)

lemma valid_value_subset: "is_valid_field_value v \<Longrightarrow> set w \<subseteq> set v \<Longrightarrow> is_valid_field_value w"
  by (auto simp: is_valid_field_value_def list_all_iff)

lemma valid_value_append [simp]:
  "is_valid_field_value (v @ w) \<longleftrightarrow> is_valid_field_value v \<and> is_valid_field_value w"
  by (simp add: is_valid_field_value_def)

section \<open>Token lists\<close>

lemma element_matches_iff:
  "element_matches e t \<longleftrightarrow> trim_blanks e \<noteq> [] \<and> lowercase (trim_blanks e) = lowercase t"
proof (cases "find_if (\<lambda>c. \<not> is_blank c) e")
  case None
  then have "trim_blanks e = []" by (simp add: trim_blanks_def)
  with None show ?thesis by (simp add: element_matches_def)
next
  case (Some i)
  have "trim_blanks e \<noteq> []"
  proof (rule trim_decompose[of e])
    assume "\<forall>c \<in> set e. is_blank c"
    with Some show ?thesis by (auto simp: find_if_Some)
  qed (auto simp: trim_blanks_wrap)
  moreover have "lowercase (trim_blanks e) = lowercase t \<Longrightarrow> length (trim_blanks e) = length t"
    by (metis length_lowercase)
  ultimately show ?thesis using Some by (auto simp: element_matches_def Let_def lowercase_def)
qed

lemma list_contains_token_iff:
  "list_contains_token l t \<longleftrightarrow>
     (\<exists>e \<in> set (split_on (CHR '','') l). trim_blanks e \<noteq> [] \<and> lowercase (trim_blanks e) = lowercase t)"
proof (induction l t rule: list_contains_token.induct)
  case (1 l t)
  show ?case
  proof (cases "find_char (CHR '','') l")
    case None
    then show ?thesis
      by (subst list_contains_token.simps, subst split_on_step) (simp add: element_matches_iff)
  next
    case (Some i)
    with 1[OF Some] show ?thesis
      by (subst list_contains_token.simps, subst split_on_step) (auto simp: element_matches_iff)
  qed
qed

section \<open>Header lines\<close>

text \<open>The lines the loop sees: up to the first empty line or the end of the section.\<close>

function field_lines :: "string \<Rightarrow> string list" where
  "field_lines rest =
     (case find_str CRLF rest of
        None \<Rightarrow> []
      | Some eol \<Rightarrow> if eol = 0 then [] else take eol rest # field_lines (drop (eol + 2) rest))"
  by pat_completeness auto
termination
  by (relation "measure length") (auto dest: find_str_Some_bound)

declare field_lines.simps [simp del]

text \<open>The effect of the loop on a list of lines.\<close>

fun store_lines :: "string list \<Rightarrow> headers \<Rightarrow> nat \<Rightarrow> headers option" where
  "store_lines [] hs n = Some hs"
| "store_lines (l # ls) hs n =
     (if length l > MAX_HEADER_LINE \<or> n + 1 > MAX_HEADERS then None
      else (case parse_header_line l of
              None \<Rightarrow> None
            | Some (name, v) \<Rightarrow>
                (case store_header name v hs of None \<Rightarrow> None | Some hs' \<Rightarrow> store_lines ls hs' (n + 1))))"

lemma parse_headers_loop_lines: "parse_headers_loop rest hs n = store_lines (field_lines rest) hs n"
proof (induction rest hs n rule: parse_headers_loop.induct)
  case (1 rest hs n)
  show ?case
  proof (cases "find_str CRLF rest")
    case None
    then show ?thesis
      by (subst parse_headers_loop.simps, subst field_lines.simps) simp
  next
    case (Some eol)
    then have bound: "eol + 2 \<le> length rest" using find_str_Some_bound[of CRLF rest eol] by simp
    then have ne: "rest \<noteq> []" and tk: "take eol rest = [] \<longleftrightarrow> eol = 0" by auto
    show ?thesis
    proof (cases "eol = 0 \<or> length (take eol rest) > MAX_HEADER_LINE \<or> n + 1 > MAX_HEADERS")
      case True
      with Some ne tk show ?thesis
        by (subst parse_headers_loop.simps, subst field_lines.simps) auto
    next
      case False
      then have "parse_headers_loop (drop (eol + 2) rest) hs' (n + 1) =
          store_lines (field_lines (drop (eol + 2) rest)) hs' (n + 1)"
        if "parse_header_line (take eol rest) = Some (name, v)" "store_header name v hs = Some hs'" for name v hs'
        using 1[OF ne Some refl _ _ _ that(1) refl that(2)] tk by simp
      with False Some ne tk show ?thesis
        by (subst parse_headers_loop.simps, subst field_lines.simps)
           (auto split: option.splits)
    qed
  qed
qed

lemma parse_header_line_sound:
  assumes "parse_header_line l = Some (n, v)"
  shows "is_valid_field_name n \<and> lowercase n = n \<and> n \<noteq> ''transfer-encoding'' \<and>
    is_valid_field_value v \<and> trim_blanks v = v"
proof -
  from assms obtain colon where c: "find_char (CHR '':'') l = Some colon"
    "is_valid_field_name (take colon l)" "is_valid_field_value (drop (colon + 1) l)"
    "n = lowercase (take colon l)" "v = trim_blanks (drop (colon + 1) l)" "n \<noteq> ''transfer-encoding''"
    by (auto simp: parse_header_line_def Let_def normalize_header_name_def trim_header_value_def
        split: option.splits if_splits)
  moreover have "is_valid_field_value (trim_blanks (drop (colon + 1) l))"
    using c(3) set_trim_blanks by (rule valid_value_subset)
  ultimately show ?thesis by (simp add: valid_name_lowercase)
qed

lemma parse_header_line_print:
  assumes "is_valid_field_name n" "lowercase n = n" "n \<noteq> ''transfer-encoding''"
    "is_valid_field_value v" "trim_blanks v = v"
  shows "parse_header_line (n @ '': '' @ v) = Some (n, v)"
proof -
  have c: "find_char (CHR '':'') (n @ '': '' @ v) = Some (length n)"
    using field_name_chars[OF assms(1)] find_char_first[of "CHR '':''" n "CHR '' '' # v"] by simp
  have t: "trim_blanks (CHR '' '' # v) = v"
  proof (cases "v = []")
    case True
    then show ?thesis by (simp add: trim_blanks_none is_blank_def)
  next
    case False
    with assms(5) trim_blanks_ends[of v] have "\<not> is_blank (hd v)" "\<not> is_blank (last v)" by auto
    with False trim_blanks_wrap[of "'' ''" "[]" v] show ?thesis by (simp add: is_blank_def)
  qed
  have "is_valid_field_value (CHR '' '' # v)"
    using assms(4) by (simp add: is_valid_field_value_def byte_simps)
  with assms c t show ?thesis
    by (simp add: parse_header_line_def normalize_header_name_def trim_header_value_def)
qed

text \<open>What every stored field satisfies.\<close>

definition field_ok :: "string \<times> string \<Rightarrow> bool" where
  "field_ok = (\<lambda>(n, v). is_valid_field_name n \<and> lowercase n = n \<and> n \<noteq> ''transfer-encoding'' \<and>
     is_valid_field_value v)"

lemma store_header_keeps:
  assumes "store_header n v hs = Some hs'" "hdr_wf hs" "\<forall>f \<in> set hs. field_ok f" "field_ok (n, v)"
  shows "hdr_wf hs' \<and> (\<forall>f \<in> set hs'. field_ok f)"
proof (cases "map_of hs n")
  case None
  with assms show ?thesis by (auto simp: store_header_def hdr_wf_snoc)
next
  case (Some old)
  then have "(n, old) \<in> set hs" by (rule map_of_SomeD)
  with assms(3) have "field_ok (n, old)" by blast
  with assms(4) have j: "field_ok (n, old @ '', '' @ v)"
    by (simp add: field_ok_def) (simp add: is_valid_field_value_def byte_simps)
  have upd: "set (AList.update n w hs) \<subseteq> insert (n, w) (set hs)" for w
    by (induction hs) auto
  from assms(1) Some obtain w where "hs' = AList.update n w hs" "field_ok (n, w)"
    using j assms(4) by (auto simp: store_header_def split: if_splits)
  then show ?thesis using upd[of w] assms(2,3) hdr.wf_put[OF assms(2), of n w] by auto
qed

lemma store_lines_keeps:
  "store_lines ls hs n = Some hs' \<Longrightarrow> hdr_wf hs \<Longrightarrow> \<forall>f \<in> set hs. field_ok f \<Longrightarrow>
   hdr_wf hs' \<and> (\<forall>f \<in> set hs'. field_ok f)"
proof (induction ls hs n rule: store_lines.induct)
  case (1 hs n)
  then show ?case by simp
next
  case (2 l ls hs n)
  then obtain name v h1 where s: "parse_header_line l = Some (name, v)" "store_header name v hs = Some h1"
    "store_lines ls h1 (n + 1) = Some hs'" "\<not> (length l > MAX_HEADER_LINE \<or> n + 1 > MAX_HEADERS)"
    by (auto split: if_splits option.splits)
  have "field_ok (name, v)" using parse_header_line_sound[OF s(1)] by (simp add: field_ok_def)
  from store_header_keeps[OF s(2) "2.prems"(2,3) this]
  show ?case using "2.IH"[OF s(4,1) refl s(2,3)] by blast
qed

text \<open>Content-Length is never overwritten: each line that names it carries the stored value.\<close>

lemma store_header_content_length:
  assumes "store_header n v hs = Some hs'" "map_of hs ''content-length'' = Some w"
  shows "map_of hs' ''content-length'' = Some w"
  using assms by (auto simp: store_header_def map_add_def update_conv' split: option.splits if_splits)

lemma store_lines_content_length_mono:
  "store_lines ls hs n = Some hs' \<Longrightarrow> map_of hs ''content-length'' = Some w \<Longrightarrow>
   map_of hs' ''content-length'' = Some w"
proof (induction ls hs n rule: store_lines.induct)
  case (1 hs n)
  then show ?case by simp
next
  case (2 l ls hs n)
  then obtain name u h1 where s: "parse_header_line l = Some (name, u)" "store_header name u hs = Some h1"
    "store_lines ls h1 (n + 1) = Some hs'" "\<not> (length l > MAX_HEADER_LINE \<or> n + 1 > MAX_HEADERS)"
    by (auto split: if_splits option.splits)
  show ?case
    using "2.IH"[OF s(4,1) refl s(2,3)] store_header_content_length[OF s(2) "2.prems"(2)] by simp
qed

lemma store_lines_content_length:
  "store_lines ls hs n = Some hs' \<Longrightarrow> l \<in> set ls \<Longrightarrow> parse_header_line l = Some (''content-length'', v) \<Longrightarrow>
   map_of hs' ''content-length'' = Some v"
proof (induction ls hs n rule: store_lines.induct)
  case (1 hs n)
  then show ?case by simp
next
  case (2 l' ls hs n)
  then obtain name u h1 where s: "parse_header_line l' = Some (name, u)" "store_header name u hs = Some h1"
    "store_lines ls h1 (n + 1) = Some hs'" "\<not> (length l' > MAX_HEADER_LINE \<or> n + 1 > MAX_HEADERS)"
    by (auto split: if_splits option.splits)
  show ?case
  proof (cases "l = l'")
    case True
    with s "2.prems"(3) have "store_header ''content-length'' v hs = Some h1" by simp
    then have "map_of h1 ''content-length'' = Some v"
      by (auto simp: store_header_def map_add_def update_conv' split: option.splits if_splits)
    with s(3) show ?thesis by (rule store_lines_content_length_mono)
  next
    case False
    with "2.prems"(2) have "l \<in> set ls" by simp
    with "2.IH"[OF s(4,1) refl s(2,3)] "2.prems"(3) show ?thesis by blast
  qed
qed

lemma store_lines_parses:
  "store_lines ls hs n = Some hs' \<Longrightarrow> l \<in> set ls \<Longrightarrow> parse_header_line l \<noteq> None"
  by (induction ls hs n rule: store_lines.induct) (auto split: if_splits option.splits)

section \<open>Content-Length\<close>

lemma unat_max_content_length: "unat MAX_CONTENT_LENGTH = 2 ^ 30"
  by (simp add: MAX_CONTENT_LENGTH_def)

lemma parse_content_length_Some:
  "parse_content_length v = Some n \<longleftrightarrow>
     v \<noteq> [] \<and> list_all is_digit v \<and> dec_value v = unat n \<and> dec_value v \<le> 2 ^ 30"
  using read_digits_iff[of MAX_CONTENT_LENGTH 0 v n]
  by (auto simp: parse_content_length_def dec_value_def list_all_iff unat_max_content_length)

lemma parse_content_length_exists:
  assumes "v \<noteq> []" "list_all is_digit v" "dec_value v \<le> 2 ^ 30"
  shows "\<exists>n. parse_content_length v = Some n \<and> unat n = dec_value v"
proof -
  have "unat (of_nat (dec_value v) :: u64) = dec_value v"
    using assms(3) by (simp add: unat_of_nat)
  with assms parse_content_length_Some show ?thesis by metis
qed

section \<open>The shape of an accepted request\<close>

lemma parse_request_line_Some:
  assumes "parse_request_line l out = Some out'"
  shows "\<exists>m t v. l = m @ CHR '' '' # t @ CHR '' '' # v \<and> is_valid_field_name m \<and> t \<noteq> [] \<and>
     list_all is_vchar t \<and> valid_version v \<and>
     out' = out\<lparr>req_method := m, req_path := t, req_version := v\<rparr>"
proof -
  from assms obtain sp1 k where f: "find_char (CHR '' '') l = Some sp1"
    "find_char (CHR '' '') (drop (sp1 + 1) l) = Some k" "k \<noteq> 0"
    "is_valid_field_name (take sp1 l)" "list_all is_vchar (take k (drop (sp1 + 1) l))"
    "valid_version (drop (sp1 + 1 + k + 1) l)"
    "out' = out\<lparr>req_method := take sp1 l, req_path := take k (drop (sp1 + 1) l),
       req_version := drop (sp1 + 1 + k + 1) l\<rparr>"
    by (auto simp: parse_request_line_def Let_def split: option.splits if_splits)
  have "l = take sp1 l @ CHR '' '' # drop (Suc sp1) l" using f(1) by (rule find_char_split)
  moreover have "drop (sp1 + 1) l = take k (drop (sp1 + 1) l) @ CHR '' '' # drop (Suc k) (drop (sp1 + 1) l)"
    using f(2) by (rule find_char_split)
  moreover have "take k (drop (sp1 + 1) l) \<noteq> []"
    using f(2,3) by (auto simp: find_char_Some)
  ultimately have "l = take sp1 l @ CHR '' '' # take k (drop (sp1 + 1) l) @ CHR '' '' # drop (sp1 + 1 + k + 1) l"
    by (simp add: add.commute)
  with f \<open>take k (drop (sp1 + 1) l) \<noteq> []\<close> show ?thesis by blast
qed

lemma parse_request_line_print:
  assumes "is_valid_field_name m" "t \<noteq> []" "list_all is_vchar t" "valid_version v"
    "list_all is_vchar v"
  shows "parse_request_line (m @ CHR '' '' # t @ CHR '' '' # v) out =
    Some (out\<lparr>req_method := m, req_path := t, req_version := v\<rparr>)"
proof -
  have m: "m \<noteq> []" using assms(1) by (simp add: is_valid_field_name_def)
  have v: "v \<noteq> []" using assms(4) by (auto simp: valid_version_def)
  have "find_char (CHR '' '') (m @ CHR '' '' # t @ CHR '' '' # v) = Some (length m)"
    using field_name_chars[OF assms(1)] by simp
  moreover have "find_char (CHR '' '') (t @ CHR '' '' # v) = Some (length t)"
    using list_all_notin[OF assms(3) not_vchar(3)] by simp
  ultimately show ?thesis using assms m v by (simp add: parse_request_line_def)
qed

lemma parse_request_SuccessE:
  assumes "parse_request buf out = (Success, r, n)"
  obtains h le out1 hs cl where
    "find_str CRLF2 buf = Some h" "find_str CRLF (take (h + 4) buf) = Some le" "le \<le> MAX_REQUEST_LINE"
    "parse_request_line (take le (take (h + 4) buf)) out = Some out1"
    "parse_headers_loop (take (h + 4 - le - 4) (drop (le + 2) (take (h + 4) buf))) [] 0 = Some hs"
    "(case map_of hs ''content-length'' of None \<Rightarrow> Some 0 | Some v \<Rightarrow> parse_content_length v) = Some cl"
    "h + 4 + unat cl \<le> length buf" "n = h + 4 + unat cl"
    "r = out1\<lparr>req_headers := hs, req_body := take (unat cl) (drop (h + 4) buf)\<rparr>"
proof -
  from assms obtain h where h: "find_str CRLF2 buf = Some h"
    by (auto simp: parse_request_def split: if_splits option.splits)
  moreover from assms h obtain le where le: "find_str CRLF (take (h + 4) buf) = Some le" "le \<le> MAX_REQUEST_LINE"
    by (auto simp: parse_request_def Let_def split: if_splits option.splits)
  moreover from assms h le obtain out1 where o1: "parse_request_line (take le (take (h + 4) buf)) out = Some out1"
    by (auto simp: parse_request_def Let_def split: if_splits option.splits)
  moreover from assms h le o1 obtain hs where
    hs: "parse_headers_loop (take (h + 4 - le - 4) (drop (le + 2) (take (h + 4) buf))) [] 0 = Some hs"
    by (auto simp: parse_request_def parse_headers_def Let_def split: if_splits option.splits)
  moreover from assms h le o1 hs obtain cl where
    cl: "(case map_of hs ''content-length'' of None \<Rightarrow> Some 0 | Some v \<Rightarrow> parse_content_length v) = Some cl"
    by (auto simp: parse_request_def parse_headers_def Let_def split: if_splits option.splits)
  ultimately show ?thesis
    using assms that[of h le out1 hs cl]
    by (auto simp: parse_request_def parse_headers_def Let_def split: if_splits)
qed

text \<open>The parts of \<open>parse_request_SuccessE\<close> are all the function looks at.\<close>

lemma parse_request_SuccessI:
  assumes "find_str CRLF2 buf = Some h" "find_str CRLF (take (h + 4) buf) = Some le" "le \<le> MAX_REQUEST_LINE"
    "parse_request_line (take le (take (h + 4) buf)) out = Some out1"
    "parse_headers_loop (take (h + 4 - le - 4) (drop (le + 2) (take (h + 4) buf))) [] 0 = Some hs"
    "(case map_of hs ''content-length'' of None \<Rightarrow> Some 0 | Some v \<Rightarrow> parse_content_length v) = Some cl"
    "h + 4 + unat cl \<le> length buf"
  shows "parse_request buf out =
    (Success, out1\<lparr>req_headers := hs, req_body := take (unat cl) (drop (h + 4) buf)\<rparr>, h + 4 + unat cl)"
proof -
  have "buf \<noteq> []" using assms(1) by auto
  with assms show ?thesis by (auto simp: parse_request_def parse_headers_def Let_def)
qed

definition version_form :: "string \<Rightarrow> bool" where
  "version_form v \<longleftrightarrow> (\<exists>a b. is_digit a \<and> is_digit b \<and> v = ''HTTP/'' @ [a, CHR ''.'', b])"

lemma valid_version_form: "valid_version v \<longleftrightarrow> version_form v"
proof
  assume a: "valid_version v"
  then have l: "length v = 8" "take 5 v = ''HTTP/''" by (auto simp: valid_version_def)
  have "v = take 5 v @ [v ! 5, v ! 6, v ! 7]"
  proof (rule nth_equalityI)
    show "length v = length (take 5 v @ [v ! 5, v ! 6, v ! 7])" using l(1) by simp
    fix i assume i: "i < length v"
    show "v ! i = (take 5 v @ [v ! 5, v ! 6, v ! 7]) ! i"
    proof (cases "i < 5")
      case True
      with l(1) show ?thesis by (simp add: nth_append)
    next
      case False
      with i l(1) have "i = 5 \<or> i = 6 \<or> i = 7" by linarith
      with l(1) show ?thesis by (auto simp: nth_append)
    qed
  qed
  moreover have "v ! 6 = CHR ''.''" "is_digit (v ! 5)" "is_digit (v ! 7)"
    using a by (simp_all add: valid_version_def is_digit_def)
  ultimately show "version_form v"
    unfolding version_form_def l(2) by (intro exI[of _ "v ! 5"] exI[of _ "v ! 7"]) simp
next
  assume "version_form v"
  then show "valid_version v" by (auto simp: version_form_def valid_version_def is_digit_def)
qed

lemma version_form_vchar: "version_form v \<Longrightarrow> list_all is_vchar v"
  by (auto simp: version_form_def is_vchar_def is_digit_def byte_def)


text \<open>The first CRLF of the head does not depend on the bytes after the blank line.\<close>

lemma find_CRLF_before: "find_str CRLF2 buf = Some h \<Longrightarrow> \<exists>le. find_str CRLF buf = Some le \<and> le \<le> h"
proof (induction buf arbitrary: h)
  case Nil
  then show ?case by simp
next
  case (Cons c cs)
  show ?case
  proof (cases "prefix CRLF2 (c # cs)")
    case True
    then have "prefix CRLF (c # cs)" by (auto simp: prefix_def)
    with Cons.prems True show ?thesis by simp
  next
    case False
    with Cons.prems obtain k where k: "find_str CRLF2 cs = Some k" "h = Suc k"
      by (auto split: if_splits)
    from Cons.IH[OF k(1)] k(2) show ?thesis by (cases "prefix CRLF (c # cs)") auto
  qed
qed

lemma find_CRLF_head:
  assumes "find_str CRLF2 buf = Some h"
  shows "find_str CRLF (take (h + 4) buf) = find_str CRLF buf"
proof -
  from find_CRLF_before[OF assms] obtain le where "find_str CRLF buf = Some le" "le \<le> h" by blast
  with find_str_take[of CRLF buf le "h + 4"] show ?thesis by simp
qed

lemma prefix_drop_take: "prefix p (drop j (take k s)) \<Longrightarrow> prefix p (drop j s)"
  by (metis drop_take take_is_prefix prefix_order.trans)

lemma no_blank_line_before:
  assumes "find_str CRLF2 buf = Some h" "k < h + 4"
  shows "find_str CRLF2 (take k buf) = None"
proof (rule ccontr)
  assume "find_str CRLF2 (take k buf) \<noteq> None"
  then obtain i where i: "find_str CRLF2 (take k buf) = Some i" by blast
  from find_str_append[OF i, of "drop k buf"] assms(1) have "i = h" by simp
  with find_str_Some_bound[OF i] assms(2) show False by simp
qed

lemma field_lines_lines_of:
  "\<forall>l \<in> set ls. l \<noteq> [] \<and> CR \<notin> set l \<Longrightarrow> field_lines (lines_of ls) = ls"
proof (induction ls)
  case Nil
  then show ?case by (subst field_lines.simps) simp
next
  case (Cons l ls)
  then show ?case by (subst field_lines.simps) (simp add: find_CRLF_line)
qed

section \<open>Printing a request\<close>

definition print_field :: "string \<times> string \<Rightarrow> string" where
  "print_field f = fst f @ '': '' @ snd f"

definition print_line :: "HttpRequest \<Rightarrow> string" where
  "print_line r = req_method r @ CHR '' '' # req_path r @ CHR '' '' # req_version r"

definition print_request :: "HttpRequest \<Rightarrow> string" where
  "print_request r = lines_of (print_line r # map print_field (req_headers r)) @ CRLF @ req_body r"

text \<open>The requests a client may send: the syntax and the limits of the parser.\<close>

definition wf_request :: "HttpRequest \<Rightarrow> bool" where
  "wf_request r \<longleftrightarrow>
     is_valid_field_name (req_method r) \<and> req_path r \<noteq> [] \<and> list_all is_vchar (req_path r) \<and>
     valid_version (req_version r) \<and> length (print_line r) \<le> MAX_REQUEST_LINE \<and>
     length (req_headers r) \<le> MAX_HEADERS \<and> hdr_wf (req_headers r) \<and>
     (\<forall>f \<in> set (req_headers r). field_ok f \<and> trim_blanks (snd f) = snd f \<and>
        length (print_field f) \<le> MAX_HEADER_LINE) \<and>
     (case map_of (req_headers r) ''content-length'' of
        None \<Rightarrow> req_body r = []
      | Some v \<Rightarrow> v \<noteq> [] \<and> list_all is_digit v \<and> dec_value v = length (req_body r) \<and> dec_value v \<le> 2 ^ 30)"

lemma store_lines_print:
  "\<forall>f \<in> set fs. field_ok f \<and> trim_blanks (snd f) = snd f \<and> length (print_field f) \<le> MAX_HEADER_LINE \<Longrightarrow>
   hdr_wf (hs @ fs) \<Longrightarrow> n + length fs \<le> MAX_HEADERS \<Longrightarrow>
   store_lines (map print_field fs) hs n = Some (hs @ fs)"
proof (induction fs arbitrary: hs n)
  case Nil
  then show ?case by simp
next
  case (Cons f fs)
  obtain k v where f: "f = (k, v)" by (cases f)
  have "parse_header_line (print_field f) = Some (k, v)"
    using Cons.prems(1) parse_header_line_print[of k v] by (simp add: f print_field_def field_ok_def)
  moreover have "map_of hs k = None"
    using Cons.prems(2) by (auto simp: f hdr_wf_def map_of_eq_None_iff)
  moreover have "store_lines (map print_field fs) (hs @ [f]) (n + 1) = Some ((hs @ [f]) @ fs)"
    using Cons.prems by (intro Cons.IH) auto
  ultimately show ?case using Cons.prems(1,3) by (simp add: f store_header_def)
qed

lemma print_line_no_cr:
  assumes "wf_request r" shows "print_line r \<noteq> [] \<and> CR \<notin> set (print_line r)"
proof -
  have "list_all is_vchar (req_version r)"
    using assms valid_version_form version_form_vchar by (simp add: wf_request_def)
  then have "CR \<notin> set (req_version r)" using not_vchar(1) by (rule list_all_notin)
  moreover have "CR \<notin> set (req_path r)"
    using assms list_all_notin[of is_vchar, OF _ not_vchar(1)] by (simp add: wf_request_def)
  moreover have "CR \<notin> set (req_method r)"
    using assms field_name_chars by (simp add: wf_request_def)
  ultimately show ?thesis by (simp add: print_line_def)
qed

lemma print_field_no_cr: "field_ok f \<Longrightarrow> print_field f \<noteq> [] \<and> CR \<notin> set (print_field f)"
  using field_name_chars[of "fst f"] field_value_no_crlf[of "snd f"]
  by (simp add: print_field_def field_ok_def split_beta)

lemma parse_print_head:
  assumes "wf_request r"
  shows "parse_request (print_request r @ rest) out =
    (Success, r, length (print_request r))"
proof -
  let ?fs = "map print_field (req_headers r)"
  let ?buf = "print_request r @ rest"
  let ?h = "length (lines_of (print_line r # ?fs)) - 2"
  let ?le = "length (print_line r)"
  have ok: "\<forall>l \<in> set (print_line r # ?fs). l \<noteq> [] \<and> CR \<notin> set l"
    using print_line_no_cr[OF assms] print_field_no_cr assms by (auto simp: wf_request_def)
  have h: "find_str CRLF2 ?buf = Some ?h"
    using find_blank_line[OF ok, of "req_body r @ rest"] by (simp add: print_request_def)
  have le: "find_str CRLF (take (?h + 4) ?buf) = Some ?le"
    unfolding find_CRLF_head[OF h] using ok by (simp add: print_request_def find_CRLF_line)
  have split: "?buf = (lines_of (print_line r # ?fs) @ CRLF) @ req_body r @ rest"
    by (simp add: print_request_def)
  have len: "length (lines_of (print_line r # ?fs) @ CRLF) = ?h + 4" by simp
  have head: "take (?h + 4) ?buf = lines_of (print_line r # ?fs) @ CRLF"
    unfolding split len[symmetric] by (rule append_eq_conv_conj[THEN iffD1, THEN conjunct1, symmetric, OF refl])
  have sect: "take (?h + 4 - ?le - 4) (drop (?le + 2) (take (?h + 4) ?buf)) = lines_of ?fs"
    unfolding head by simp
  have "parse_headers_loop (lines_of ?fs) [] 0 = Some (req_headers r)"
    using assms ok store_lines_print[of "req_headers r" "[]" 0]
    by (simp add: parse_headers_loop_lines field_lines_lines_of wf_request_def)
  note loop = this[folded sect]
  have line: "parse_request_line (take ?le (take (?h + 4) ?buf)) out =
      Some (out\<lparr>req_method := req_method r, req_path := req_path r, req_version := req_version r\<rparr>)"
    unfolding head using assms valid_version_form version_form_vchar parse_request_line_print
    by (simp add: print_line_def wf_request_def)
  have "\<exists>cl. (case map_of (req_headers r) ''content-length'' of None \<Rightarrow> Some 0
      | Some v \<Rightarrow> parse_content_length v) = Some cl \<and> unat cl = length (req_body r)"
    using assms parse_content_length_exists
    by (cases "map_of (req_headers r) ''content-length''") (fastforce simp: wf_request_def)+
  then obtain cl where cl: "(case map_of (req_headers r) ''content-length'' of None \<Rightarrow> Some 0
      | Some v \<Rightarrow> parse_content_length v) = Some cl" "unat cl = length (req_body r)" by blast
  have lim: "?le \<le> MAX_REQUEST_LINE" using assms by (simp add: wf_request_def)
  have fit: "?h + 4 + unat cl \<le> length ?buf" by (simp add: cl(2) print_request_def)
  have "drop (?h + 4) ?buf = req_body r @ rest"
    unfolding split len[symmetric] by (rule append_eq_conv_conj[THEN iffD1, THEN conjunct2, symmetric, OF refl])
  then have body: "take (unat cl) (drop (?h + 4) ?buf) = req_body r" by (simp add: cl(2))
  have tot: "?h + 4 + unat cl = length (print_request r)" by (simp add: cl(2) print_request_def)
  show ?thesis
    using parse_request_SuccessI[OF h le lim line loop cl(1) fit] unfolding body tot by simp
qed

section \<open>Properties\<close>

text \<open>
  C1. Framing. When a request is accepted its head ends at the first blank line, the body is the
  bytes that follow it, exactly as many as the digits of Content-Length say (none without the
  field), and the bytes consumed are the head and that body, all of them in the buffer.
\<close>

theorem parse_request_framing:
  assumes "parse_request buf out = (Success, r, n)"
  shows "\<exists>h. find_str CRLF2 buf = Some h \<and> n = h + 4 + length (req_body r) \<and> n \<le> length buf \<and>
     req_body r = take (n - h - 4) (drop (h + 4) buf) \<and>
     (case map_of (req_headers r) ''content-length'' of
        None \<Rightarrow> req_body r = []
      | Some v \<Rightarrow> v \<noteq> [] \<and> list_all is_digit v \<and> dec_value v = length (req_body r) \<and> dec_value v \<le> 2 ^ 30)"
  using assms
proof (rule parse_request_SuccessE)
  fix h le out1 hs cl
  assume h: "find_str CRLF2 buf = Some h"
    and cl: "(case map_of hs ''content-length'' of None \<Rightarrow> Some 0 | Some v \<Rightarrow> parse_content_length v) = Some cl"
    and fit: "h + 4 + unat cl \<le> length buf" "n = h + 4 + unat cl"
    and r: "r = out1\<lparr>req_headers := hs, req_body := take (unat cl) (drop (h + 4) buf)\<rparr>"
  have l: "length (req_body r) = unat cl" using fit by (simp add: r)
  have "case map_of (req_headers r) ''content-length'' of
        None \<Rightarrow> req_body r = []
      | Some v \<Rightarrow> v \<noteq> [] \<and> list_all is_digit v \<and> dec_value v = length (req_body r) \<and> dec_value v \<le> 2 ^ 30"
    using cl parse_content_length_Some[of _ cl] l by (auto simp: r split: option.splits)
  with h fit l show ?thesis by (simp add: r)
qed

definition post_buf :: string where
  "post_buf = ''POST /a HTTP/1.1'' @ CRLF @ ''Content-Length: 2'' @ CRLF2 @ ''hiGET''"

definition post_req :: HttpRequest where
  "post_req = \<lparr>req_method = ''POST'', req_path = ''/a'', req_version = ''HTTP/1.1'',
     req_headers = [(''content-length'', ''2'')], req_body = ''hi''\<rparr>"

lemma parse_post_buf: "parse_request post_buf empty_request = (Success, post_req, 41)"
  by code_simp

theorem parse_request_framing_witness:
  "parse_request post_buf empty_request = (Success, post_req, 41) \<and>
   (\<exists>h. find_str CRLF2 post_buf = Some h \<and> 41 = h + 4 + length (req_body post_req))"
  using parse_post_buf parse_request_framing[OF parse_post_buf] by blast

text \<open>
  Pipelining. What follows an accepted request has no influence on it: with any other bytes
  after the first n the parser returns the same request and the same number of consumed bytes.
\<close>

lemma parse_request_ignores_rest:
  assumes "parse_request buf out = (Success, r, n)"
  shows "parse_request (take n buf @ rest) out = (Success, r, n)"
  using assms
proof (rule parse_request_SuccessE)
  fix h le out1 hs cl
  let ?b = "take n buf @ rest"
  assume h: "find_str CRLF2 buf = Some h" and le: "find_str CRLF (take (h + 4) buf) = Some le"
    "le \<le> MAX_REQUEST_LINE"
    and p: "parse_request_line (take le (take (h + 4) buf)) out = Some out1"
    "parse_headers_loop (take (h + 4 - le - 4) (drop (le + 2) (take (h + 4) buf))) [] 0 = Some hs"
    and cl: "(case map_of hs ''content-length'' of None \<Rightarrow> Some 0 | Some v \<Rightarrow> parse_content_length v) = Some cl"
    and fit: "h + 4 + unat cl \<le> length buf" "n = h + 4 + unat cl"
    and r: "r = out1\<lparr>req_headers := hs, req_body := take (unat cl) (drop (h + 4) buf)\<rparr>"
  have t: "take (h + 4) ?b = take (h + 4) buf" using fit by (simp add: min_def)
  have h': "find_str CRLF2 ?b = Some h"
    using h t find_str_prefix_cong[of CRLF2 buf h ?b] by (simp add: numeral_Bit0)
  have body: "take (unat cl) (drop (h + 4) ?b) = take (unat cl) (drop (h + 4) buf)"
    using fit by (simp add: drop_take)
  have fit': "h + 4 + unat cl \<le> length ?b" using fit by simp
  show ?thesis
    using parse_request_SuccessI[OF h' _ le(2) _ _ cl fit', unfolded t, OF le(1) p] body fit(2) r by simp
qed

text \<open>
  C10. Streaming. While an acceptable request is still arriving, the parser asks for more: on every
  proper prefix of it that holds the blank line or stays within the limit on an unfinished head it
  returns Incomplete and consumes nothing, so reading in chunks of any size finds the same request.
\<close>

theorem parse_request_streaming:
  assumes "parse_request buf out = (Success, r, n)" "k < n"
    and "k \<le> MAX_REQUEST_LINE + MAX_HEADERS * MAX_HEADER_LINE \<or> find_str CRLF2 (take k buf) \<noteq> None"
  shows "\<exists>out'. parse_request (take k buf) out = (Incomplete, out', 0)"
  using assms(1)
proof (rule parse_request_SuccessE)
  fix h le out1 hs cl
  assume h: "find_str CRLF2 buf = Some h" and le: "find_str CRLF (take (h + 4) buf) = Some le"
    "le \<le> MAX_REQUEST_LINE"
    and p: "parse_request_line (take le (take (h + 4) buf)) out = Some out1"
    "parse_headers_loop (take (h + 4 - le - 4) (drop (le + 2) (take (h + 4) buf))) [] 0 = Some hs"
    and cl: "(case map_of hs ''content-length'' of None \<Rightarrow> Some 0 | Some v \<Rightarrow> parse_content_length v) = Some cl"
    and fit: "h + 4 + unat cl \<le> length buf" "n = h + 4 + unat cl"
    and r: "r = out1\<lparr>req_headers := hs, req_body := take (unat cl) (drop (h + 4) buf)\<rparr>"
  show ?thesis
  proof (cases "k < h + 4")
    case True
    with h have "find_str CRLF2 (take k buf) = None" by (rule no_blank_line_before)
    with assms(3) show ?thesis by (auto simp: parse_request_def)
  next
    case False
    then have t: "take (h + 4) (take k buf) = take (h + 4) buf" by (simp add: min_def)
    have "find_str CRLF2 (take k buf) = Some h" using h False by (intro find_str_take) simp_all
    moreover have "take k buf \<noteq> []" using False fit by auto
    ultimately show ?thesis
      using le p cl False assms(2) fit unfolding t by (auto simp: parse_request_def parse_headers_def Let_def)
  qed
qed

theorem parse_request_streaming_witness:
  "parse_request post_buf empty_request = (Success, post_req, 41) \<and>
   (\<exists>o1. parse_request (take 20 post_buf) empty_request = (Incomplete, o1, 0)) \<and>
   (\<exists>o2. parse_request (take 40 post_buf) empty_request = (Incomplete, o2, 0))"
  using parse_post_buf parse_request_streaming[OF parse_post_buf, of 20]
    parse_request_streaming[OF parse_post_buf, of 40]
  by (simp add: MAX_REQUEST_LINE_def MAX_HEADERS_def MAX_HEADER_LINE_def)




definition clcl_buf :: string where
  "clcl_buf = ''GET / HTTP/1.1'' @ CRLF @ ''Content-Length: 2'' @ CRLF @ ''content-length: 3'' @ CRLF2 @ ''abc''"


text \<open>
  C12. Printing then parsing gives the request back: every well-formed request within the limits,
  written on the wire and followed by anything, is accepted, with all its fields and its body,
  and consumes exactly its own bytes.
\<close>

theorem parse_print_request:
  assumes "wf_request r"
  shows "parse_request (print_request r @ rest) out = (Success, r, length (print_request r))"
  using assms by (rule parse_print_head)

theorem parse_print_request_witness:
  "wf_request post_req \<and>
   parse_request (print_request post_req @ ''GET '') empty_request = (Success, post_req, length (print_request post_req))"
proof -
  have "is_valid_field_name ''POST''" "list_all is_vchar ''/a''" "valid_version ''HTTP/1.1''"
    "field_ok (''content-length'', ''2'')" "trim_blanks ''2'' = ''2''" "list_all is_digit ''2''"
    "dec_value ''2'' = 2"
    by code_simp+
  then have "wf_request post_req"
    by (simp add: wf_request_def post_req_def print_line_def print_field_def hdr_wf_def
        MAX_REQUEST_LINE_def MAX_HEADERS_def MAX_HEADER_LINE_def)
  with parse_print_request show ?thesis by blast
qed

text \<open>
  A token is in a comma-separated list exactly when some element, without the blanks around
  it, is not empty and equals it up to case. In particular a value that merely contains the token
  as a substring does not count.
\<close>

lemma list_contains_token_spec:
  "list_contains_token l t \<longleftrightarrow>
     (\<exists>e \<in> set (split_on (CHR '','') l). trim_blanks e \<noteq> [] \<and> lowercase (trim_blanks e) = lowercase t)"
  by (rule list_contains_token_iff)

end
