(* ===== verification/Response_Writer.thy ===== *)
theory Response_Writer
  imports Http_Parser "HOL-Library.Char_ord" "HOL-Library.List_Lexorder"
begin

text \<open>
  The response head, \<^verbatim>\<open>src/http/HttpResponseWriter.cpp\<close>. The \<^verbatim>\<open>std::map\<close> of fields is an association
  list kept in the order of its keys, compared byte by byte as \<^verbatim>\<open>std::string\<close> is. The head is
  written only for a response that can be written honestly; \<open>build_response_head\<close> returns None
  where the C++ function returns false and leaves its out-parameter alone.
\<close>

section \<open>Definitions\<close>

definition is_valid_reason_phrase :: "string \<Rightarrow> bool" where
  "is_valid_reason_phrase text \<longleftrightarrow> list_all (\<lambda>c. c = HTAB \<or> \<not> (byte c < 0x20 \<or> byte c = 0x7F)) text"

definition status_allows_body :: "int \<Rightarrow> bool" where
  "status_allows_body code =
     (if code \<ge> 100 \<and> code < 200 then False else code \<noteq> 204 \<and> code \<noteq> 304)"

text \<open>\<^verbatim>\<open>std::map::emplace\<close> of an absent key.\<close>

fun map_insert :: "string \<Rightarrow> string \<Rightarrow> headers \<Rightarrow> headers" where
  "map_insert k v [] = [(k, v)]"
| "map_insert k v ((k', v') # fs) =
     (if k < k' then (k, v) # (k', v') # fs else (k', v') # map_insert k v fs)"

fun collect_fields :: "headers \<Rightarrow> headers \<Rightarrow> headers option" where
  "collect_fields [] flds = Some flds"
| "collect_fields ((name, v) # hs) flds =
     (if \<not> is_valid_field_name name then None
      else if \<not> is_valid_field_value v then None
      else let key = lowercase name in
        if key = ''transfer-encoding'' then None
        else if key = ''content-length'' then collect_fields hs flds
        else (case map_of flds key of
                None \<Rightarrow> collect_fields hs (map_insert key v flds)
              | Some old \<Rightarrow> if old \<noteq> v then None else collect_fields hs flds))"

definition write_field :: "string \<times> string \<Rightarrow> string" where
  "write_field f = fst f @ '': '' @ snd f @ CRLF"

definition build_response_head :: "HttpResponse \<Rightarrow> u64 \<Rightarrow> string option" where
  "build_response_head res content_length =
     (if status_code res < 100 \<or> status_code res > 599 then None
      else if \<not> is_valid_reason_phrase (status_text res) then None
      else (case collect_fields (res_headers res) [] of
              None \<Rightarrow> None
            | Some flds \<Rightarrow>
                Some (''HTTP/1.1 '' @ to_string (status_code res) @ '' '' @
                  (if status_text res = [] then getDefaultStatusText (status_code res) else status_text res) @ CRLF @
                  concat (map write_field flds) @
                  (if status_allows_body (status_code res)
                   then ''content-length: '' @ nat_to_string (unat content_length) @ CRLF else []) @
                  CRLF)))"

definition fallback_error_response :: "bool \<Rightarrow> string" where
  "fallback_error_response close_connection =
     (let kBody = ''Internal Server Error'' in
      ''HTTP/1.1 500 Internal Server Error'' @ CRLF @ ''content-type: text/plain'' @ CRLF @
      ''content-length: '' @ nat_to_string (length kBody) @ CRLF @
      (if close_connection then ''connection: close'' @ CRLF else []) @ CRLF @ kBody)"

section \<open>The ordered field map\<close>

definition fields_wf :: "headers \<Rightarrow> bool" where
  "fields_wf fs \<longleftrightarrow> sorted (map fst fs) \<and> distinct (map fst fs)"

lemma set_map_insert [simp]: "set (map_insert k v fs) = insert (k, v) (set fs)"
  by (induction k v fs rule: map_insert.induct) auto

lemma map_insert_wf:
  assumes "fields_wf fs" "map_of fs k = None"
  shows "fields_wf (map_insert k v fs)"
  using assms
proof (induction k v fs rule: map_insert.induct)
  case (1 k v)
  then show ?case by (simp add: fields_wf_def)
next
  case (2 k v k' v' fs)
  have keys: "fst ` set (map_insert k v fs) = insert k (fst ` set fs)" by simp
  show ?case
  proof (cases "k < k'")
    case True
    with 2 show ?thesis by (auto simp: fields_wf_def map_of_eq_None_iff)
  next
    case False
    then have "fields_wf (map_insert k v fs)" using 2 by (auto simp: fields_wf_def split: if_splits)
    with False 2 keys show ?thesis
      by (auto simp: fields_wf_def map_of_eq_None_iff image_iff)
  qed
qed

lemma fields_unique:
  assumes "fields_wf xs" "fields_wf ys" "set xs = set ys"
  shows "xs = ys"
proof (rule map_sorted_distinct_set_unique)
  show "inj_on fst (set xs \<union> set ys)"
    using assms by (simp add: fields_wf_def distinct_map)
qed (use assms in \<open>simp_all add: fields_wf_def\<close>)

section \<open>Collecting the fields\<close>

text \<open>The fields that are copied to the wire, and when they can be.\<close>

definition kept :: "headers \<Rightarrow> (string \<times> string) set" where
  "kept hs = {(lowercase n, v) | n v. (n, v) \<in> set hs \<and> lowercase n \<noteq> ''content-length''}"

definition entry_ok :: "string \<times> string \<Rightarrow> bool" where
  "entry_ok = (\<lambda>(n, v). is_valid_field_name n \<and> is_valid_field_value v \<and> lowercase n \<noteq> ''transfer-encoding'')"

definition agree :: "(string \<times> string) set \<Rightarrow> bool" where
  "agree S \<longleftrightarrow> (\<forall>k v w. (k, v) \<in> S \<longrightarrow> (k, w) \<in> S \<longrightarrow> v = w)"

lemma kept_Cons:
  "kept ((n, v) # hs) =
     (if lowercase n = ''content-length'' then kept hs else insert (lowercase n, v) (kept hs))"
  by (auto simp: kept_def)

lemma collect_fields_Some:
  "collect_fields hs fs = Some fs' \<Longrightarrow> fields_wf fs \<Longrightarrow>
   fields_wf fs' \<and> set fs' = set fs \<union> kept hs \<and> (\<forall>e \<in> set hs. entry_ok e)"
proof (induction hs fs rule: collect_fields.induct)
  case (1 fs)
  then show ?case by (simp add: kept_def)
next
  case (2 n v hs fs)
  have ok: "is_valid_field_name n" "is_valid_field_value v" "lowercase n \<noteq> ''transfer-encoding''"
    using "2.prems"(1) by (auto simp: Let_def split: if_splits)
  show ?case
  proof (cases "lowercase n = ''content-length''")
    case True
    with "2.prems" ok "2.IH"(1) show ?thesis by (simp add: kept_Cons entry_ok_def)
  next
    case ncl: False
    show ?thesis
    proof (cases "map_of fs (lowercase n)")
      case None
      with "2.prems" ok ncl "2.IH"(2) map_insert_wf[OF "2.prems"(2) None] show ?thesis
        by (auto simp: kept_Cons entry_ok_def Let_def)
    next
      case (Some old)
      with "2.prems"(1) ok ncl have "old = v" by (auto simp: Let_def split: if_splits)
      moreover have "(lowercase n, old) \<in> set fs" using Some by (rule map_of_SomeD)
      ultimately show ?thesis using "2.prems" ok ncl "2.IH"(3) Some
        by (auto simp: kept_Cons entry_ok_def Let_def)
    qed
  qed
qed

lemma collect_fields_total:
  "\<forall>e \<in> set hs. entry_ok e \<Longrightarrow> fields_wf fs \<Longrightarrow> agree (set fs \<union> kept hs) \<Longrightarrow>
   \<exists>fs'. collect_fields hs fs = Some fs'"
proof (induction hs fs rule: collect_fields.induct)
  case (1 fs)
  then show ?case by simp
next
  case (2 n v hs fs)
  have ok: "is_valid_field_name n" "is_valid_field_value v" "lowercase n \<noteq> ''transfer-encoding''"
    using "2.prems"(1) by (auto simp: entry_ok_def)
  have oks: "\<forall>e \<in> set hs. entry_ok e" using "2.prems"(1) by simp
  show ?case
  proof (cases "lowercase n = ''content-length''")
    case True
    with "2.prems" ok "2.IH"(1) show ?thesis by (simp add: kept_Cons)
  next
    case ncl: False
    show ?thesis
    proof (cases "map_of fs (lowercase n)")
      case None
      with "2.prems" ok ncl "2.IH"(2)[OF _ _ refl] map_insert_wf[OF "2.prems"(2) None] show ?thesis
        by (simp add: kept_Cons Let_def)
    next
      case (Some old)
      then have "(lowercase n, old) \<in> set fs" by (rule map_of_SomeD)
      then have "old = v" using "2.prems"(3) ncl by (auto simp: agree_def kept_Cons)
      moreover have "agree (set fs \<union> kept hs)"
        using "2.prems"(3) ncl by (auto simp: agree_def kept_Cons)
      ultimately show ?thesis using "2.prems" ok ncl "2.IH"(3)[OF _ _ refl] Some
        by (simp add: Let_def)
    qed
  qed
qed

lemma fields_agree: "fields_wf fs \<Longrightarrow> agree (set fs)"
  by (auto simp: fields_wf_def agree_def dest: eq_key_imp_eq_value)

lemma collect_fields_iff:
  "collect_fields hs [] \<noteq> None \<longleftrightarrow> (\<forall>e \<in> set hs. entry_ok e) \<and> agree (kept hs)"
proof
  assume "collect_fields hs [] \<noteq> None"
  then obtain fs where fs: "collect_fields hs [] = Some fs" by blast
  have "fields_wf []" by (simp add: fields_wf_def)
  from collect_fields_Some[OF fs this] fields_agree[of fs]
  show "(\<forall>e \<in> set hs. entry_ok e) \<and> agree (kept hs)" by simp
next
  assume "(\<forall>e \<in> set hs. entry_ok e) \<and> agree (kept hs)"
  then show "collect_fields hs [] \<noteq> None"
    using collect_fields_total[of hs "[]"] by (simp add: fields_wf_def)
qed

lemma collect_fields_set_cong:
  assumes "set hs = set hs'"
  shows "collect_fields hs [] = collect_fields hs' []"
proof -
  have k: "kept hs = kept hs'" using assms by (simp add: kept_def)
  have wf: "fields_wf []" by (simp add: fields_wf_def)
  show ?thesis
  proof (cases "collect_fields hs []")
    case None
    then show ?thesis using collect_fields_iff[of hs] collect_fields_iff[of hs'] assms k by metis
  next
    case (Some fs)
    then obtain fs' where fs': "collect_fields hs' [] = Some fs'"
      using collect_fields_iff[of hs] collect_fields_iff[of hs'] assms k by auto
    then show ?thesis
      using collect_fields_Some[OF Some wf] collect_fields_Some[OF fs' wf] k fields_unique[of fs fs'] Some
      by simp
  qed
qed

section \<open>The lines of a head\<close>

definition response_lines :: "HttpResponse \<Rightarrow> u64 \<Rightarrow> headers \<Rightarrow> string list" where
  "response_lines res cl fs =
     (''HTTP/1.1 '' @ to_string (status_code res) @ '' '' @
       (if status_text res = [] then getDefaultStatusText (status_code res) else status_text res)) #
     map print_field (fs @ (if status_allows_body (status_code res)
        then [(''content-length'', nat_to_string (unat cl))] else []))"

lemma write_fields: "concat (map write_field fs) = lines_of (map print_field fs)"
  by (induction fs) (simp_all add: write_field_def print_field_def)

lemma build_response_head_Some:
  "build_response_head res cl = Some out \<longleftrightarrow>
     100 \<le> status_code res \<and> status_code res \<le> 599 \<and> is_valid_reason_phrase (status_text res) \<and>
     (\<exists>fs. collect_fields (res_headers res) [] = Some fs \<and> out = lines_of (response_lines res cl fs) @ CRLF)"
  by (auto simp: build_response_head_def response_lines_def write_fields print_field_def
      split: option.splits)

lemma reason_is_value: "is_valid_reason_phrase t \<longleftrightarrow> is_valid_field_value t"
  by (simp add: is_valid_reason_phrase_def is_valid_field_value_def)

lemma default_text_valid: "is_valid_field_value (getDefaultStatusText c)"
proof -
  have v: "is_valid_field_value (if b then t else e)" if "is_valid_field_value t" "is_valid_field_value e" for b t e
    using that by simp
  show ?thesis
    unfolding getDefaultStatusText_def by (intro v) (simp_all add: is_valid_field_value_def byte_def)
qed

lemma digits_value: "is_valid_field_value (nat_to_string n)"
proof -
  have "c = HTAB \<or> \<not> (byte c < 0x20 \<or> byte c = 0x7F)" if "c \<in> set (nat_to_string n)" for c
    using nat_to_string_digits[OF that] by (simp add: is_digit_def)
  then show ?thesis by (simp add: is_valid_field_value_def list_all_iff)
qed

lemma value_Cons:
  "is_valid_field_value (c # s) \<longleftrightarrow>
     (c = HTAB \<or> \<not> (byte c < 0x20 \<or> byte c = 0x7F)) \<and> is_valid_field_value s"
  by (simp add: is_valid_field_value_def)

lemma status_line_value:
  assumes "100 \<le> status_code res" "is_valid_reason_phrase (status_text res)"
  shows "is_valid_field_value (hd (response_lines res cl fs))"
  using assms default_text_valid digits_value
  by (simp add: response_lines_def to_string_def reason_is_value value_Cons byte_def)

lemma name_is_value: "is_valid_field_name n \<Longrightarrow> is_valid_field_value n"
proof -
  have "c = HTAB \<or> \<not> (byte c < 0x20 \<or> byte c = 0x7F)" if "is_tchar c" for c
    using that unfolding is_tchar_def by (elim disjE conjE insertE) (auto simp: byte_def)
  then show "is_valid_field_name n \<Longrightarrow> is_valid_field_value n"
    by (auto simp: is_valid_field_name_def is_valid_field_value_def list_all_iff)
qed

lemma print_field_value:
  "is_valid_field_name (fst f) \<Longrightarrow> is_valid_field_value (snd f) \<Longrightarrow> is_valid_field_value (print_field f)"
  using name_is_value[of "fst f"] by (simp add: print_field_def value_Cons byte_def)

lemma response_lines_ok:
  assumes "build_response_head res cl = Some out" "collect_fields (res_headers res) [] = Some fs"
  shows "\<forall>l \<in> set (response_lines res cl fs). l \<noteq> [] \<and> CR \<notin> set l \<and> LF \<notin> set l"
proof -
  have st: "100 \<le> status_code res" "is_valid_reason_phrase (status_text res)"
    using assms(1) by (simp_all add: build_response_head_Some)
  have wf: "fields_wf []" by (simp add: fields_wf_def)
  have fs: "set fs = kept (res_headers res)" "\<forall>e \<in> set (res_headers res). entry_ok e"
    using collect_fields_Some[OF assms(2) wf] by simp_all
  have "is_valid_field_value (print_field f)" if "f \<in> set fs" for f
    using that fs by (auto simp: kept_def entry_ok_def intro!: print_field_value valid_name_lowercase)
  moreover have "is_valid_field_value (print_field (''content-length'', nat_to_string (unat cl)))"
    by (rule print_field_value) (simp_all add: digits_value is_valid_field_name_def is_tchar_def byte_def)
  ultimately have "\<forall>l \<in> set (tl (response_lines res cl fs)). is_valid_field_value l \<and> l \<noteq> []"
    by (auto simp: response_lines_def print_field_def)
  moreover have "hd (response_lines res cl fs) \<noteq> []" by (simp add: response_lines_def)
  ultimately have "\<forall>l \<in> set (response_lines res cl fs). is_valid_field_value l \<and> l \<noteq> []"
    using status_line_value[OF st, of cl fs] by (cases "response_lines res cl fs") simp_all
  then show ?thesis using field_value_no_crlf by simp
qed

section \<open>Properties\<close>


definition sample_response :: HttpResponse where
  "sample_response = HttpResponse_init\<lparr>res_headers := [(''X-B'', ''1''), (''Content-Length'', ''9''), (''a'', ''2'')]\<rparr>"

lemma build_sample:
  "build_response_head sample_response 3 =
   Some (lines_of [''HTTP/1.1 200 OK'', ''a: 2'', ''x-b: 1'', ''content-length: 3''] @ CRLF)"
  by code_simp


text \<open>
  C15. A head is refused only for a reason: it is written exactly when the status code has three
  digits between 100 and 599, the reason phrase and every name and value are free of control
  characters, there is no Transfer-Encoding, and no field other than Content-Length has two
  spellings with different values.
\<close>

theorem build_response_head_defined:
  "build_response_head res cl \<noteq> None \<longleftrightarrow>
     100 \<le> status_code res \<and> status_code res \<le> 599 \<and> is_valid_reason_phrase (status_text res) \<and>
     (\<forall>e \<in> set (res_headers res). entry_ok e) \<and> agree (kept (res_headers res))"
  using collect_fields_iff[of "res_headers res"] build_response_head_Some[of res cl] by fastforce

theorem build_response_head_defined_witness:
  "build_response_head sample_response 3 \<noteq> None \<and> agree (kept (res_headers sample_response))"
  using build_response_head_defined[of sample_response 3] build_sample by simp

text \<open>
  The wire output does not depend on the iteration order of the handler's header map, nor on
  entries repeated in it: two responses with the same set of fields have the same head.
\<close>

lemma build_response_head_order:
  assumes "set hs = set hs'"
  shows "build_response_head (res\<lparr>res_headers := hs\<rparr>) cl = build_response_head (res\<lparr>res_headers := hs'\<rparr>) cl"
  using collect_fields_set_cong[OF assms] by (simp add: build_response_head_def cong: option.case_cong)

end
