(* ===== verification/Range_Request.thy ===== *)
theory Range_Request
  imports Cdv_Prelude
begin

text \<open>
  Byte ranges and dates, \<^verbatim>\<open>src/http/RangeRequest.cpp\<close> and \<^verbatim>\<open>RangeRequest.hpp\<close>. Positions and lengths
  are 64-bit words, as in the code. The lemmas relate \<open>resolve\<close> to the set of byte positions the
  field asks for, show that the arithmetic does not wrap on anything \<open>parse_range\<close> returns, and
  give a print/parse round trip. \<^verbatim>\<open>gmtime_r\<close> is a parameter of \<open>format_http_date\<close>.
\<close>

section \<open>Definitions\<close>

record ResolvedRange =
  rr_offset :: u64
  rr_length :: u64

record ByteRangeSpec =
  rsuffix :: bool
  rfirst :: u64
  rlast :: "u64 option"

definition ByteRangeSpec_init :: ByteRangeSpec where
  "ByteRangeSpec_init = \<lparr>rsuffix = False, rfirst = 0, rlast = None\<rparr>"

definition trim_ows :: "string \<Rightarrow> string" where
  "trim_ows s = trim_blanks s"

definition equals_ignore_case :: "string \<Rightarrow> string \<Rightarrow> bool" where
  "equals_ignore_case a b \<longleftrightarrow> length a = length b \<and> map tolower a = map tolower b"

definition parse_digits :: "string \<Rightarrow> u64 option" where
  "parse_digits s = (if s = [] then None else read_digits (- 1) 0 s)"

definition resolve :: "ByteRangeSpec \<Rightarrow> u64 \<Rightarrow> ResolvedRange option" where
  "resolve spec file_size =
     (if rsuffix spec then
        if rfirst spec = 0 \<or> file_size = 0 then None
        else let offset = (if rfirst spec \<ge> file_size then 0 else file_size - rfirst spec) in
             Some \<lparr>rr_offset = offset, rr_length = file_size - offset\<rparr>
      else if rfirst spec \<ge> file_size then None
      else let last_byte = min (case rlast spec of None \<Rightarrow> file_size - 1 | Some l \<Rightarrow> l) (file_size - 1) in
           Some \<lparr>rr_offset = rfirst spec, rr_length = last_byte - rfirst spec + 1\<rparr>)"

definition parse_range :: "string \<Rightarrow> ByteRangeSpec option" where
  "parse_range field_value =
     (let v = trim_ows field_value in
      if v = [] then None
      else (case find_char (CHR ''='') v of
        None \<Rightarrow> None
      | Some eq \<Rightarrow>
          if \<not> equals_ignore_case (trim_ows (take eq v)) ''bytes'' then None
          else let range_set = trim_ows (drop (eq + 1) v) in
            if find_char (CHR '','') range_set \<noteq> None then None
            else (case find_char (CHR ''-'') range_set of
              None \<Rightarrow> None
            | Some dash \<Rightarrow>
                if dash = 0 then
                  (case parse_digits (drop 1 range_set) of
                     None \<Rightarrow> None
                   | Some n \<Rightarrow> Some (ByteRangeSpec_init\<lparr>rfirst := n, rsuffix := True\<rparr>))
                else
                  (case parse_digits (take dash range_set) of
                     None \<Rightarrow> None
                   | Some f \<Rightarrow>
                       let spec = ByteRangeSpec_init\<lparr>rfirst := f\<rparr>; last_pos = drop (dash + 1) range_set in
                       if last_pos \<noteq> [] then
                         (case parse_digits last_pos of
                            None \<Rightarrow> None
                          | Some l \<Rightarrow> if l < rfirst spec then None else Some (spec\<lparr>rlast := Some l\<rparr>))
                       else Some spec))))"

text \<open>The broken-down time of \<^verbatim>\<open>gmtime_r\<close>, and the conversion \<^verbatim>\<open>%0wd\<close>.\<close>

record tm =
  tm_sec :: int
  tm_min :: int
  tm_hour :: int
  tm_mday :: int
  tm_mon :: int
  tm_year :: int
  tm_wday :: int

definition fmt_0d :: "nat \<Rightarrow> int \<Rightarrow> string" where
  "fmt_0d w i =
     (let ds = nat_to_string (nat \<bar>i\<bar>); sign = (if i < 0 then ''-'' else []) in
      sign @ replicate (w - length sign - length ds) (CHR ''0'') @ ds)"

definition kDays :: "string list" where
  "kDays = [''Sun'', ''Mon'', ''Tue'', ''Wed'', ''Thu'', ''Fri'', ''Sat'']"

definition kMonths :: "string list" where
  "kMonths = [''Jan'', ''Feb'', ''Mar'', ''Apr'', ''May'', ''Jun'',
              ''Jul'', ''Aug'', ''Sep'', ''Oct'', ''Nov'', ''Dec'']"

definition format_http_date :: "(int \<Rightarrow> tm option) \<Rightarrow> int \<Rightarrow> string" where
  "format_http_date gmtime_r unix_seconds =
     (case gmtime_r unix_seconds of
        None \<Rightarrow> []
      | Some t \<Rightarrow>
          if tm_wday t < 0 \<or> tm_wday t > 6 \<or> tm_mon t < 0 \<or> tm_mon t > 11 then []
          else let out = kDays ! nat (tm_wday t) @ '', '' @ fmt_0d 2 (tm_mday t) @ '' '' @
                     kMonths ! nat (tm_mon t) @ '' '' @ fmt_0d 4 (tm_year t + 1900) @ '' '' @
                     fmt_0d 2 (tm_hour t) @ '':'' @ fmt_0d 2 (tm_min t) @ '':'' @ fmt_0d 2 (tm_sec t) @ '' GMT'' in
               if length out \<ge> 40 then [] else out)"

section \<open>Parsing\<close>

lemma parse_digits_Some:
  "parse_digits s = Some n \<longleftrightarrow>
     s \<noteq> [] \<and> list_all is_digit s \<and> dec_value s = unat n \<and> dec_value s < 2 ^ 64"
proof -
  have "unat (- 1 :: u64) = 2 ^ 64 - 1"
    by (simp add: unsigned_minus_1_eq_mask mask_eq_exp_minus_1)
  with read_digits_iff[of "- 1" 0 s n] show ?thesis
    by (auto simp: parse_digits_def dec_value_def list_all_iff)
qed

lemma parse_digits_print: "parse_digits (nat_to_string (unat n)) = Some n"
  using nat_to_string_digits[of _ "unat n"] unsigned_less[where w=n]
  by (simp add: parse_digits_Some list_all_iff)

lemma equals_ignore_case_iff: "equals_ignore_case a b \<longleftrightarrow> lowercase a = lowercase b"
  by (auto simp: equals_ignore_case_def lowercase_def dest: map_eq_imp_length_eq)

text \<open>What a parsed range satisfies; without it \<open>resolve\<close> could wrap around.\<close>

definition range_ok :: "ByteRangeSpec \<Rightarrow> bool" where
  "range_ok s \<longleftrightarrow> (case rlast s of None \<Rightarrow> True | Some l \<Rightarrow> \<not> rsuffix s \<and> rfirst s \<le> l)"

lemma parse_range_ok: "parse_range s = Some spec \<Longrightarrow> range_ok spec"
  by (auto simp: parse_range_def range_ok_def ByteRangeSpec_init_def Let_def
      split: option.splits if_splits)

definition print_range :: "ByteRangeSpec \<Rightarrow> string" where
  "print_range s =
     (if rsuffix s then CHR ''-'' # nat_to_string (unat (rfirst s))
      else nat_to_string (unat (rfirst s)) @ CHR ''-'' #
           (case rlast s of None \<Rightarrow> [] | Some l \<Rightarrow> nat_to_string (unat l)))"

lemma digit_not: "is_digit c \<Longrightarrow> c \<noteq> CHR ''-'' \<and> c \<noteq> CHR '','' \<and> c \<noteq> CHR ''='' \<and> \<not> is_blank c"
  by (auto simp: is_digit_def is_blank_def byte_def)

lemma nat_to_string_not:
  "CHR ''-'' \<notin> set (nat_to_string n)" "CHR '','' \<notin> set (nat_to_string n)"
  "CHR ''='' \<notin> set (nat_to_string n)" "c \<in> set (nat_to_string n) \<Longrightarrow> \<not> is_blank c"
  using nat_to_string_digits digit_not by blast+

lemma dash_not: "\<not> is_blank (CHR ''-'')"
  by (simp add: is_blank_def)

lemma print_range_chars:
  "c \<in> set (print_range s) \<Longrightarrow> c \<noteq> CHR '','' \<and> \<not> is_blank c"
  using nat_to_string_not(2,4) dash_not
  by (auto simp: print_range_def split: option.splits if_splits)

lemma parse_int_range:
  assumes "\<not> rsuffix s" "range_ok s"
  shows "find_char (CHR ''-'') (print_range s) = Some (length (nat_to_string (unat (rfirst s))))"
  using assms nat_to_string_not by (simp add: print_range_def)

lemma trim_blanks_pad:
  assumes "\<forall>c \<in> set a. is_blank c" "\<forall>c \<in> set b. is_blank c" "\<forall>c \<in> set s. \<not> is_blank c"
  shows "trim_blanks (a @ s @ b) = s"
proof (cases "s = []")
  case True
  with assms show ?thesis by (auto intro!: trim_blanks_none)
next
  case False
  with assms show ?thesis by (intro trim_blanks_wrap) auto
qed

lemma bytes_unit:
  assumes "lowercase u = ''bytes''"
  shows "u \<noteq> [] \<and> CHR ''='' \<notin> set u \<and> CHR '','' \<notin> set u \<and> (\<forall>c \<in> set u. \<not> is_blank c)"
proof -
  have t: "tolower c \<in> set ''bytes''" if "c \<in> set u" for c
    using that unfolding assms[symmetric] by (simp add: lowercase_def)
  have n: "tolower (CHR ''='') \<notin> set ''bytes''" "tolower (CHR '','') \<notin> set ''bytes''"
    "tolower (CHR '' '') \<notin> set ''bytes''" "tolower HTAB \<notin> set ''bytes''"
    by code_simp+
  have "\<not> is_blank c" if "c \<in> set u" for c
    using t[OF that] n(3,4) unfolding is_blank_def by metis
  moreover have "u \<noteq> []" using assms by (auto simp: lowercase_def)
  ultimately show ?thesis using t n(1,2) by blast
qed

lemma parse_printed_spec:
  assumes "range_ok s" "lowercase u = ''bytes''"
    and w: "\<forall>c \<in> set (w1 @ w2 @ w3 @ w4). is_blank c"
  shows "parse_range (w1 @ u @ w2 @ CHR ''='' # w3 @ print_range s @ w4) = Some s"
proof -
  let ?v = "u @ w2 @ CHR ''='' # w3 @ print_range s"
  note u = bytes_unit[OF assms(2)]
  have pr: "print_range s \<noteq> []" by (simp add: print_range_def)
  then have "\<not> is_blank (last (print_range s))"
    using print_range_chars[of "last (print_range s)" s] by simp
  then have trim: "trim_ows (w1 @ u @ w2 @ CHR ''='' # w3 @ print_range s @ w4) = ?v"
    using trim_blanks_wrap[of w1 w4 ?v] w u pr by (simp add: trim_ows_def)
  have "\<not> is_blank (CHR ''='')" by (simp add: is_blank_def)
  with w u have "CHR ''='' \<notin> set (u @ w2)" by auto
  then have eq: "find_char (CHR ''='') ?v = Some (length (u @ w2))"
    using find_char_first[of "CHR ''=''" "u @ w2" "w3 @ print_range s"] by simp
  have unit: "equals_ignore_case (trim_ows (take (length (u @ w2)) ?v)) ''bytes''"
    using trim_blanks_pad[of "[]" w2 u] w u assms(2)
    by (simp add: trim_ows_def equals_ignore_case_iff) (simp add: lowercase_def tolower_def byte_def)
  have set: "trim_ows (drop (length (u @ w2) + 1) ?v) = print_range s"
    using trim_blanks_pad[of w3 "[]" "print_range s"] w print_range_chars[of _ s]
    by (simp add: trim_ows_def)
  have comma: "find_char (CHR '','') (print_range s) = None"
    using print_range_chars[of "CHR '',''" s] by (auto simp: find_char_None)
  show ?thesis
  proof (cases "rsuffix s")
    case True
    with assms(1) have "s = ByteRangeSpec_init\<lparr>rfirst := rfirst s, rsuffix := True\<rparr>"
      by (cases s) (simp add: range_ok_def ByteRangeSpec_init_def split: option.splits)
    with True show ?thesis
      unfolding parse_range_def Let_def trim using eq unit set comma
      by (simp add: print_range_def find_char_def parse_digits_print)
  next
    case False
    note dash = parse_int_range[OF False assms(1)]
    from False assms(1) have "s = ByteRangeSpec_init\<lparr>rfirst := rfirst s, rlast := rlast s\<rparr>"
      by (cases s) (simp add: ByteRangeSpec_init_def)
    with False assms(1) show ?thesis
      unfolding parse_range_def Let_def trim using eq unit set comma dash
      by (cases "rlast s") (auto simp: print_range_def parse_digits_print range_ok_def ByteRangeSpec_init_def)
  qed
qed

lemma in_trim_blanks: "c \<in> set s \<Longrightarrow> \<not> is_blank c \<Longrightarrow> c \<in> set (trim_blanks s)"
  by (rule trim_decompose[of s]) (auto simp: trim_blanks_wrap)

lemma parse_range_comma:
  assumes "CHR '','' \<in> set field"
  shows "parse_range field = None"
proof (cases "find_char (CHR ''='') (trim_ows field)")
  case None
  then show ?thesis by (simp add: parse_range_def Let_def)
next
  case (Some eq)
  let ?v = "trim_ows field"
  have nb: "\<not> is_blank (CHR '','')" by (simp add: is_blank_def)
  with assms have comma: "CHR '','' \<in> set ?v" by (simp add: trim_ows_def in_trim_blanks)
  from Some have sp: "?v = take eq ?v @ CHR ''='' # drop (Suc eq) ?v" by (rule find_char_split)
  have "CHR '','' \<in> set (take eq ?v @ CHR ''='' # drop (Suc eq) ?v)"
    unfolding sp[symmetric] by (rule comma)
  then have "CHR '','' \<in> set (take eq ?v) \<or> CHR '','' \<in> set (drop (eq + 1) ?v)"
    by simp
  then have "\<not> lowercase (trim_ows (take eq ?v)) = ''bytes'' \<or> CHR '','' \<in> set (trim_ows (drop (eq + 1) ?v))"
    using bytes_unit nb in_trim_blanks unfolding trim_ows_def by blast
  moreover have "lowercase ''bytes'' = ''bytes''" by code_simp
  ultimately show ?thesis using Some
    by (auto simp: parse_range_def Let_def equals_ignore_case_iff find_char_None)
qed

section \<open>Resolution\<close>

text \<open>The byte positions of a file of \<open>n\<close> bytes that a range asks for.\<close>

definition requested :: "ByteRangeSpec \<Rightarrow> nat \<Rightarrow> nat set" where
  "requested s n = {i. i < n \<and>
     (if rsuffix s then n \<le> i + unat (rfirst s)
      else unat (rfirst s) \<le> i \<and> (case rlast s of None \<Rightarrow> True | Some l \<Rightarrow> i \<le> unat l))}"

definition served :: "ResolvedRange option \<Rightarrow> nat set" where
  "served r = (case r of None \<Rightarrow> {}
     | Some rr \<Rightarrow> {unat (rr_offset rr) ..< unat (rr_offset rr) + unat (rr_length rr)})"

lemma resolve_int:
  fixes f l n :: u64
  assumes "f \<le> l" "l < n"
  shows "unat (l - f + 1) = unat l - unat f + 1"
proof -
  have "unat (l - f) = unat l - unat f" using assms(1) by (simp add: unat_sub)
  moreover have "unat l < unat n" "unat n < 2 ^ 64"
    using assms(2) unsigned_less[where w=n] by (simp_all add: word_less_nat_alt)
  ultimately show ?thesis by (simp add: unat_word_ariths)
qed

lemma resolve_served:
  assumes "range_ok s"
  shows "served (resolve s n) = requested s (unat n) \<and>
    (case resolve s n of None \<Rightarrow> True
     | Some rr \<Rightarrow> rr_length rr \<noteq> 0 \<and> unat (rr_offset rr) + unat (rr_length rr) \<le> unat n)"
proof (cases "rsuffix s")
  case True
  show ?thesis
  proof (cases "rfirst s = 0 \<or> n = 0")
    case True
    with \<open>rsuffix s\<close> show ?thesis by (auto simp: resolve_def served_def requested_def)
  next
    case False
    let ?o = "if rfirst s \<ge> n then 0 else n - rfirst s"
    have "unat ?o = unat n - unat (rfirst s)"
      by (auto simp: unat_sub word_le_nat_alt)
    moreover have "unat (n - ?o) = unat n - unat ?o"
      by (rule unat_sub) (auto simp: word_le_nat_alt unat_sub)
    moreover have "unat n \<noteq> 0" "unat (rfirst s) \<noteq> 0"
      using False by (simp_all add: unat_eq_zero)
    ultimately show ?thesis using \<open>rsuffix s\<close> False
      by (auto simp: resolve_def served_def requested_def Let_def word_le_nat_alt unat_sub unat_eq_zero)
  qed
next
  case False
  show ?thesis
  proof (cases "rfirst s \<ge> n")
    case True
    then have "unat n \<le> unat (rfirst s)" by (simp add: word_le_nat_alt)
    with True False show ?thesis by (auto simp: resolve_def served_def requested_def)
  next
    case lt: False
    then have n: "0 < unat n" "unat (rfirst s) < unat n" by (simp_all add: word_le_nat_alt not_le)
    have n1: "unat (n - 1) = unat n - 1" using n by (simp add: unat_sub word_le_nat_alt)
    define l where "l = min (case rlast s of None \<Rightarrow> n - 1 | Some l \<Rightarrow> l) (n - 1)"
    have l: "unat l = min (case rlast s of None \<Rightarrow> unat n - 1 | Some l \<Rightarrow> unat l) (unat n - 1)"
      by (auto simp: l_def min_def word_le_nat_alt n1 split: option.splits)
    have "l < n" "rfirst s \<le> l"
      using l n assms by (auto simp: word_less_nat_alt word_le_nat_alt range_ok_def split: option.splits)
    then have len: "unat (l - rfirst s + 1) = unat l - unat (rfirst s) + 1"
      by (intro resolve_int)
    then have nz: "l - rfirst s + 1 \<noteq> 0" by (metis add_is_0 one_neq_zero unat_0)
    have res: "resolve s n = Some \<lparr>rr_offset = rfirst s, rr_length = l - rfirst s + 1\<rparr>"
      using False lt by (simp add: resolve_def Let_def l_def)
    have le: "unat (rfirst s) \<le> unat l" using \<open>rfirst s \<le> l\<close> by (simp add: word_le_nat_alt)
    show ?thesis
      unfolding res using False nz len l n le
      by (auto simp: served_def requested_def split: option.splits)
  qed
qed

section \<open>Dates\<close>

lemma fmt_0d_digits: "0 \<le> i \<Longrightarrow> c \<in> set (fmt_0d w i) \<Longrightarrow> is_digit c"
  using nat_to_string_digits[of c "nat i"]
  by (auto simp: fmt_0d_def Let_def is_digit_def byte_def)

lemma length_nat_to_string: "n < 10 ^ k \<Longrightarrow> 0 < k \<Longrightarrow> length (nat_to_string n) \<le> k"
proof (induction n arbitrary: k rule: nat_to_string.induct)
  case (1 n)
  show ?case
  proof (cases "n < 10")
    case True
    with 1 show ?thesis by (simp add: nat_to_string.simps[of n])
  next
    case False
    then obtain j where k: "k = Suc j" "0 < j"
      using 1(2,3) by (cases k; cases "k = 1") auto
    then have "n div 10 < 10 ^ j" using 1(2) by (simp add: less_mult_imp_div_less mult.commute)
    from 1(1)[OF False this k(2)] False k show ?thesis by (simp add: nat_to_string.simps[of n])
  qed
qed

lemma length_fmt_0d: "0 \<le> i \<Longrightarrow> i < 10 ^ w \<Longrightarrow> 0 < w \<Longrightarrow> length (fmt_0d w i) = w"
proof -
  assume i: "0 \<le> i" "i < 10 ^ w" "0 < w"
  then have "nat i < 10 ^ w" by (simp add: nat_less_iff)
  from length_nat_to_string[OF this i(3)] i(1) show ?thesis by (simp add: fmt_0d_def Let_def)
qed

lemma nth_names:
  "0 \<le> d \<Longrightarrow> d \<le> 6 \<Longrightarrow> length (kDays ! nat d) = 3"
  "0 \<le> d \<Longrightarrow> d \<le> 11 \<Longrightarrow> length (kMonths ! nat d) = 3"
proof -
  have all: "list_all (\<lambda>x. length x = 3) kDays" "list_all (\<lambda>x. length x = 3) kMonths" by code_simp+
  have len: "length kDays = 7" "length kMonths = 12" by (simp_all add: kDays_def kMonths_def)
  show "0 \<le> d \<Longrightarrow> d \<le> 6 \<Longrightarrow> length (kDays ! nat d) = 3"
    using all(1) len(1) by (simp add: list_all_length nat_less_iff)
  show "0 \<le> d \<Longrightarrow> d \<le> 11 \<Longrightarrow> length (kMonths ! nat d) = 3"
    using all(2) len(2) by (simp add: list_all_length nat_less_iff)
qed

lemma names_no_cr:
  "0 \<le> d \<Longrightarrow> d \<le> 6 \<Longrightarrow> CR \<notin> set (kDays ! nat d)"
  "0 \<le> d \<Longrightarrow> d \<le> 11 \<Longrightarrow> CR \<notin> set (kMonths ! nat d)"
proof -
  have all: "list_all (\<lambda>x. CR \<notin> set x) kDays" "list_all (\<lambda>x. CR \<notin> set x) kMonths" by code_simp+
  have len: "length kDays = 7" "length kMonths = 12" by (simp_all add: kDays_def kMonths_def)
  show "0 \<le> d \<Longrightarrow> d \<le> 6 \<Longrightarrow> CR \<notin> set (kDays ! nat d)"
    using all(1) len(1) by (simp add: list_all_length nat_less_iff)
  show "0 \<le> d \<Longrightarrow> d \<le> 11 \<Longrightarrow> CR \<notin> set (kMonths ! nat d)"
    using all(2) len(2) by (simp add: list_all_length nat_less_iff)
qed

section \<open>Properties\<close>

text \<open>
  C18. A range that was parsed is served exactly: the resolved offset and length cover the byte
  positions the field asks for and nothing else, they stay within the file although they are
  computed on 64-bit words, a satisfiable range is never empty, and the range is refused only
  when it names no byte of the file.
\<close>

theorem range_serves_requested_bytes:
  assumes "parse_range field = Some s"
  shows "(case resolve s n of
       None \<Rightarrow> requested s (unat n) = {}
     | Some rr \<Rightarrow> rr_length rr \<noteq> 0 \<and> unat (rr_offset rr) + unat (rr_length rr) \<le> unat n \<and>
         requested s (unat n) = {unat (rr_offset rr) ..< unat (rr_offset rr) + unat (rr_length rr)})"
  using resolve_served[OF parse_range_ok[OF assms], of n]
  by (auto simp: served_def split: option.splits)

theorem range_serves_requested_bytes_witness:
  "parse_range ''bytes=-500'' = Some \<lparr>rsuffix = True, rfirst = 500, rlast = None\<rparr> \<and>
   resolve \<lparr>rsuffix = True, rfirst = 500, rlast = None\<rparr> 1200 = Some \<lparr>rr_offset = 700, rr_length = 500\<rparr> \<and>
   requested \<lparr>rsuffix = True, rfirst = 500, rlast = None\<rparr> (unat (1200 :: u64)) =
     {unat (700 :: u64) ..< unat (700 :: u64) + unat (500 :: u64)}"
proof -
  have p: "parse_range ''bytes=-500'' = Some \<lparr>rsuffix = True, rfirst = 500, rlast = None\<rparr>"
    by code_simp
  have r: "resolve \<lparr>rsuffix = True, rfirst = 500, rlast = None\<rparr> 1200 = Some \<lparr>rr_offset = 700, rr_length = 500\<rparr>"
    by code_simp
  from range_serves_requested_bytes[OF p, of 1200] p r show ?thesis by simp
qed

text \<open>
  Every range a client can mean is understood: printed with any spelling of the unit and any
  blanks around the parts, the field parses to that range. Positions up to 2^64 - 1 are read
  exactly.
\<close>

lemma parse_print_range:
  assumes "range_ok s" "lowercase u = ''bytes''" "\<forall>c \<in> set (w1 @ w2 @ w3 @ w4). is_blank c"
  shows "parse_range (w1 @ u @ w2 @ CHR ''='' # w3 @ print_range s @ w4) = Some s"
  using assms by (rule parse_printed_spec)

definition tm_ok :: "tm \<Rightarrow> bool" where
  "tm_ok t \<longleftrightarrow> 0 \<le> tm_sec t \<and> tm_sec t \<le> 60 \<and> 0 \<le> tm_min t \<and> tm_min t \<le> 59 \<and>
     0 \<le> tm_hour t \<and> tm_hour t \<le> 23 \<and> 1 \<le> tm_mday t \<and> tm_mday t \<le> 31 \<and>
     0 \<le> tm_mon t \<and> tm_mon t \<le> 11 \<and> 0 \<le> tm_year t + 1900 \<and> tm_year t + 1900 \<le> 9999 \<and>
     0 \<le> tm_wday t \<and> tm_wday t \<le> 6"

lemma format_http_date_length:
  assumes "gmtime_r secs = Some t" "tm_ok t"
  shows "length (format_http_date gmtime_r secs) = 29"
  using assms nth_names length_fmt_0d[of "tm_mday t" 2] length_fmt_0d[of "tm_year t + 1900" 4]
    length_fmt_0d[of "tm_hour t" 2] length_fmt_0d[of "tm_min t" 2] length_fmt_0d[of "tm_sec t" 2]
  by (simp add: format_http_date_def Let_def tm_ok_def)

text \<open>
  A date is written as an IMF-fixdate: for any broken-down time within the calendar and a
  four-digit year, it is 29 characters long, ends in GMT and can stand in a header field.
\<close>

lemma format_http_date_fixed:
  assumes "gmtime_r secs = Some t" "tm_ok t"
  shows "length (format_http_date gmtime_r secs) = 29 \<and>
     drop 25 (format_http_date gmtime_r secs) = '' GMT'' \<and>
     CR \<notin> set (format_http_date gmtime_r secs)"
proof -
  let ?p = "kDays ! nat (tm_wday t) @ '', '' @ fmt_0d 2 (tm_mday t) @ '' '' @
     kMonths ! nat (tm_mon t) @ '' '' @ fmt_0d 4 (tm_year t + 1900) @ '' '' @
     fmt_0d 2 (tm_hour t) @ '':'' @ fmt_0d 2 (tm_min t) @ '':'' @ fmt_0d 2 (tm_sec t)"
  note len = format_http_date_length[of gmtime_r secs t, OF assms]
  then have out: "format_http_date gmtime_r secs = ?p @ '' GMT''"
    using assms by (auto simp: format_http_date_def Let_def split: if_splits)
  with len have lp: "length ?p = 25" by simp
  have d: "CR \<notin> set (fmt_0d w i)" if "0 \<le> i" for w i
    using fmt_0d_digits[OF that, of CR w] by (auto simp: is_digit_def byte_def)
  have "CR \<notin> set (kDays ! nat (tm_wday t))" "CR \<notin> set (kMonths ! nat (tm_mon t))"
    using names_no_cr assms(2) by (simp_all add: tm_ok_def)
  then have "CR \<notin> set (?p @ '' GMT'')" using d assms(2) by (simp add: tm_ok_def)
  moreover have "drop 25 (?p @ '' GMT'') = '' GMT''"
    using lp append_eq_conv_conj[of ?p "'' GMT''" "?p @ '' GMT''"] by metis
  ultimately show ?thesis using len unfolding out by blast
qed

end
