(* ===== verification/Http_File_Job.thy ===== *)
theory Http_File_Job
  imports Splice_File_Job Response_Writer Range_Request
begin

text \<open>
  Serving a file, \<^verbatim>\<open>src/http/HTTPFileJob.cpp\<close>: open and stat, resolve the range, write the head with a
  WriteJob, then the body with a SpliceFileJob, or an error page. Sizes, offsets and lengths are 64-bit
  words. The answers of \<^verbatim>\<open>open(2)\<close> and \<^verbatim>\<open>fstat(2)\<close> come from the environment; \<^verbatim>\<open>gmtime_r\<close> is an argument. The
  job coordinates child jobs, so its model carries the child that is running, and the completion
  of the child's operation runs the callback the source installs.

  The lemmas show that the head announces exactly the bytes the splice is told to send, and that
  on every path the file is closed once, the job freed once, and its owner told once.
\<close>

section \<open>Definitions\<close>

datatype file_state = Opening | SendingHeaders | SendingFile

record HTTPFileJob =
  fj_id :: nat
  fj_state :: file_state
  fj_client_fd :: int
  fj_file_path :: string
  fj_offset :: u64
  fj_length :: u64
  fj_range_spec :: "ByteRangeSpec option"
  fj_partial :: bool
  fj_response :: HttpResponse
  fj_file_fd :: int
  fj_range_not_satisfiable_size :: "u64 option"
  fj_file_size :: u64
  fj_file_mtime :: int
  fj_header_size :: nat
  fj_on_complete :: bool
  fj_on_error :: bool

datatype file_child = HeaderWrite WriteJob | ErrorWrite WriteJob | BodySplice SpliceFileJob

text \<open>Running with a child, or gone: freed, with the callback that told its owner.\<close>

datatype file_result = FileRunning HTTPFileJob file_child | FileDone job_cb

definition HTTPFileJob_init :: "nat \<Rightarrow> int \<Rightarrow> string \<Rightarrow> u64 \<Rightarrow> u64 \<Rightarrow> HttpResponse \<Rightarrow> HTTPFileJob" where
  "HTTPFileJob_init i client_fd path offset len response =
     \<lparr>fj_id = i, fj_state = Opening, fj_client_fd = client_fd, fj_file_path = path, fj_offset = offset,
      fj_length = len, fj_range_spec = None, fj_partial = False, fj_response = response, fj_file_fd = - 1,
      fj_range_not_satisfiable_size = None, fj_file_size = 0, fj_file_mtime = 0, fj_header_size = 0,
      fj_on_complete = False, fj_on_error = False\<rparr>"

definition fj_createFromPool_range ::
  "int \<Rightarrow> string \<Rightarrow> u64 \<Rightarrow> u64 \<Rightarrow> HttpResponse \<Rightarrow> bool \<Rightarrow> bool \<Rightarrow> ring \<Rightarrow> HTTPFileJob option \<times> ring" where
  "fj_createFromPool_range client_fd path offset len response has_complete has_error w =
     (case pool_alloc w of
        (None, w1) \<Rightarrow> (None, w1)
      | (Some i, w1) \<Rightarrow> (Some ((HTTPFileJob_init i client_fd path offset len response)
           \<lparr>fj_on_complete := has_complete, fj_on_error := has_error\<rparr>), w1))"

definition fj_createFromPool ::
  "int \<Rightarrow> string \<Rightarrow> HttpResponse \<Rightarrow> bool \<Rightarrow> bool \<Rightarrow> ring \<Rightarrow> HTTPFileJob option \<times> ring" where
  "fj_createFromPool client_fd path response has_complete has_error w =
     fj_createFromPool_range client_fd path 0 0 response has_complete has_error w"

definition requestRange :: "ByteRangeSpec \<Rightarrow> HTTPFileJob \<Rightarrow> HTTPFileJob" where
  "requestRange spec j = j\<lparr>fj_range_spec := Some spec\<rparr>"

text \<open>Refusing a file that was opened: close it and forget it.\<close>

definition fj_refuse :: "HTTPFileJob \<Rightarrow> ring \<Rightarrow> HTTPFileJob \<times> ring" where
  "fj_refuse j w = (j\<lparr>fj_file_fd := - 1\<rparr>, close_fd (fj_file_fd j) w)"

text \<open>
  The rest of \<^verbatim>\<open>openFile\<close>, once the file is known to be a regular file of the size and time in \<open>j\<close>.
\<close>

definition resolve_file_range :: "HTTPFileJob \<Rightarrow> ring \<Rightarrow> HTTPFileJob \<times> ring" where
  "resolve_file_range j w =
     (let sz = fj_file_size j;
          resolved = (case fj_range_spec j of None \<Rightarrow> Some j
             | Some spec \<Rightarrow> (case resolve spec sz of None \<Rightarrow> None
                 | Some rr \<Rightarrow> Some (j\<lparr>fj_offset := rr_offset rr, fj_length := rr_length rr, fj_partial := True\<rparr>))) in
      case resolved of
        None \<Rightarrow> fj_refuse (j\<lparr>fj_range_not_satisfiable_size := Some sz\<rparr>) w
      | Some j1 \<Rightarrow>
          if fj_offset j1 > sz then fj_refuse (j1\<lparr>fj_range_not_satisfiable_size := Some sz\<rparr>) w
          else let len = (if fj_length j1 = 0 \<or> fj_offset j1 + fj_length j1 > sz
                          then sz - fj_offset j1 else fj_length j1);
                   j2 = j1\<lparr>fj_length := len\<rparr> in
               (j2\<lparr>fj_partial := fj_partial j2 \<or> fj_offset j2 > 0 \<or> fj_length j2 < sz\<rparr>, w))"

definition openFile :: "HTTPFileJob \<Rightarrow> ring \<Rightarrow> HTTPFileJob \<times> ring" where
  "openFile j w =
     (let (fd, w1) = ask w in
      if fd < 0 then (j\<lparr>fj_file_fd := - 1\<rparr>, w1)
      else let j1 = j\<lparr>fj_file_fd := fd\<rparr>; (st, w2) = ask (open_fd fd w1) in
        if st < 0 then fj_refuse j1 w2
        else let (is_reg, w3) = ask w2 in
          if is_reg < 0 then fj_refuse j1 w3
          else let (st_size, w4) = ask w3; (st_mtime, w5) = ask w4 in
            resolve_file_range (j1\<lparr>fj_file_size := word_of_int st_size, fj_file_mtime := st_mtime\<rparr>) w5)"

definition fj_tell_error :: "HTTPFileJob \<Rightarrow> int \<Rightarrow> job_cb" where
  "fj_tell_error j err = (if fj_on_error j then OnError (fj_client_fd j) err else NoCallback)"

definition fj_tell_complete :: "HTTPFileJob \<Rightarrow> nat \<Rightarrow> job_cb" where
  "fj_tell_complete j n = (if fj_on_complete j then OnComplete (fj_client_fd j) n else NoCallback)"

text \<open>The teardown of the error callbacks: close the file if it is open, tell the owner, free the job.\<close>

definition fj_fail :: "HTTPFileJob \<Rightarrow> int \<Rightarrow> ring \<Rightarrow> file_result \<times> ring" where
  "fj_fail j err w =
     (let w1 = (if fj_file_fd j \<ge> 0 then close_fd (fj_file_fd j) w else w) in
      (FileDone (fj_tell_error j err), pool_free (fj_id j) w1))"

text \<open>The bytes of an error response; \<open>response\<close> is the job's own, normalized.\<close>

definition error_page :: "u64 option \<Rightarrow> HttpResponse \<Rightarrow> int \<Rightarrow> string \<Rightarrow> string" where
  "error_page not_satisfiable response code message =
     (let r1 = setStatus code message HttpResponse_init;
          r2 = r1\<lparr>res_headers := AList.update ''content-type'' ''text/plain'' (res_headers r1)\<rparr>;
          r3 = (case not_satisfiable of
                  None \<Rightarrow> r2
                | Some sz \<Rightarrow> r2\<lparr>res_headers := AList.update ''accept-ranges'' ''bytes''
                    (AList.update ''content-range'' (''bytes */'' @ nat_to_string (unat sz)) (res_headers r2))\<rparr>);
          error_response = (case map_of (res_headers response) ''connection'' of
                  None \<Rightarrow> r3
                | Some v \<Rightarrow> r3\<lparr>res_headers := AList.update ''connection'' v (res_headers r3)\<rparr>) in
      case build_response_head error_response (of_nat (length message)) of
        Some head \<Rightarrow> head @ message
      | None \<Rightarrow> fallback_error_response (res_getHeader response ''connection'' = ''close''))"

definition sendError :: "HTTPFileJob \<Rightarrow> int \<Rightarrow> string \<Rightarrow> ring \<Rightarrow> file_result \<times> ring" where
  "sendError j0 code message w0 =
     (let w = (if fj_file_fd j0 \<ge> 0 then close_fd (fj_file_fd j0) w0 else w0);
          j = j0\<lparr>fj_file_fd := - 1, fj_response := fst (normalizeHeaders (fj_response j0))\<rparr>;
          response_str = error_page (fj_range_not_satisfiable_size j) (fj_response j) code message;
          (write_job, w1) = createFromPoolWithOwnedData (fj_client_fd j) response_str (length response_str) True True w in
      case write_job of
        None \<Rightarrow> (FileDone (fj_tell_error j ENOMEM), pool_free (fj_id j) w1)
      | Some wj \<Rightarrow>
          (case wj_start wj w1 of
             (Pending wj', w2) \<Rightarrow> (FileRunning j (ErrorWrite wj'), w2)
           | (Abandoned (OnError _ err), w2) \<Rightarrow> (FileDone (fj_tell_error j err), pool_free (fj_id j) w2)
           | (_, w2) \<Rightarrow> (FileRunning j (ErrorWrite wj), w2)))"

definition content_type_for :: "string \<Rightarrow> string" where
  "content_type_for path =
     (case find_last (\<lambda>c. c = CHR ''.'') path of
        None \<Rightarrow> ''application/octet-stream''
      | Some dot_pos \<Rightarrow>
          let ext = drop (dot_pos + 1) path in
          if ext = ''html'' \<or> ext = ''htm'' then ''text/html''
          else if ext = ''css'' then ''text/css''
          else if ext = ''js'' then ''application/javascript''
          else if ext = ''json'' then ''application/json''
          else if ext = ''png'' then ''image/png''
          else if ext = ''jpg'' \<or> ext = ''jpeg'' then ''image/jpeg''
          else if ext = ''gif'' then ''image/gif''
          else if ext = ''svg'' then ''image/svg+xml''
          else if ext = ''txt'' then ''text/plain''
          else ''application/octet-stream'')"

definition content_range_value :: "HTTPFileJob \<Rightarrow> string" where
  "content_range_value j =
     ''bytes '' @ nat_to_string (unat (fj_offset j)) @ ''-'' @
     nat_to_string (unat (fj_offset j + fj_length j - 1)) @ ''/'' @ nat_to_string (unat (fj_file_size j))"

text \<open>\<^verbatim>\<open>if (headers.find(k) == headers.end()) headers[k] = v\<close>.\<close>

definition set_default :: "string \<Rightarrow> string \<Rightarrow> headers \<Rightarrow> headers" where
  "set_default k v h = (if map_of h k = None then AList.update k v h else h)"

text \<open>The head of a file response: status, Content-Range and the default fields.\<close>

definition file_response :: "(int \<Rightarrow> tm option) \<Rightarrow> HTTPFileJob \<Rightarrow> HttpResponse \<Rightarrow> HttpResponse" where
  "file_response gm j res =
     (let r1 = (if fj_partial j then
                  let r = setStatus 206 ''Partial Content'' res in
                  r\<lparr>res_headers := AList.update ''content-range'' (content_range_value j) (res_headers r)\<rparr>
                else setStatus 200 ''OK'' res);
          h1 = set_default ''content-type'' (content_type_for (fj_file_path j)) (res_headers r1);
          h2 = set_default ''accept-ranges'' ''bytes'' h1;
          h3 = (let date = format_http_date gm (fj_file_mtime j) in
                if map_of h2 ''last-modified'' = None \<and> date \<noteq> []
                then AList.update ''last-modified'' date h2 else h2);
          h4 = set_default ''access-control-allow-origin'' ''*'' h3 in
      r1\<lparr>res_headers := h4\<rparr>)"

definition startSendingHeaders :: "(int \<Rightarrow> tm option) \<Rightarrow> HTTPFileJob \<Rightarrow> ring \<Rightarrow> file_result \<times> ring" where
  "startSendingHeaders gm j0 w =
     (let (res, consistent) = normalizeHeaders (fj_response j0);
          j1 = j0\<lparr>fj_state := SendingHeaders, fj_response := res\<rparr> in
      if \<not> consistent then sendError j1 500 ''Internal Server Error'' w
      else let j2 = j1\<lparr>fj_response := file_response gm j1 res\<rparr> in
        case build_response_head (fj_response j2) (fj_length j2) of
          None \<Rightarrow> sendError j2 500 ''Internal Server Error'' w
        | Some header_str \<Rightarrow>
            let j3 = j2\<lparr>fj_header_size := length header_str\<rparr>;
                (write_job, w1) = createFromPoolWithOwnedData (fj_client_fd j3) header_str (length header_str) True True w in
            (case write_job of
               None \<Rightarrow> sendError j3 500 ''Internal Server Error'' w1
             | Some wj \<Rightarrow>
                 (case wj_start wj w1 of
                    (Pending wj', w2) \<Rightarrow> (FileRunning j3 (HeaderWrite wj'), w2)
                  | (Abandoned (OnError _ err), w2) \<Rightarrow> fj_fail j3 err w2
                  | (_, w2) \<Rightarrow> (FileRunning j3 (HeaderWrite wj), w2))))"

definition fj_start :: "(int \<Rightarrow> tm option) \<Rightarrow> HTTPFileJob \<Rightarrow> ring \<Rightarrow> file_result \<times> ring" where
  "fj_start gm j w =
     (let (j1, w1) = openFile j w in
      if fj_file_fd j1 < 0 then
        if fj_range_not_satisfiable_size j1 \<noteq> None then sendError j1 416 ''Range Not Satisfiable'' w1
        else sendError j1 404 ''File not found'' w1
      else startSendingHeaders gm j1 w1)"

text \<open>The callbacks given to the splice job.\<close>

definition fj_splice_callback :: "HTTPFileJob \<Rightarrow> job_cb \<Rightarrow> ring \<Rightarrow> file_result \<times> ring" where
  "fj_splice_callback j cb w =
     (case cb of
        OnComplete _ n \<Rightarrow>
          (FileDone (fj_tell_complete j (fj_header_size j + n)), pool_free (fj_id j) (close_fd (fj_file_fd j) w))
      | OnError _ err \<Rightarrow> fj_fail j err w
      | NoCallback \<Rightarrow> (FileDone NoCallback, w))"

definition startSendingFile :: "HTTPFileJob \<Rightarrow> ring \<Rightarrow> file_result \<times> ring" where
  "startSendingFile j0 w =
     (let j = j0\<lparr>fj_state := SendingFile\<rparr>;
          (splice_job, w1) = sj_createFromPool (fj_client_fd j) (fj_file_fd j) (unat (fj_offset j)) (unat (fj_length j)) True True w in
      case splice_job of
        None \<Rightarrow> fj_fail j ENOMEM w1
      | Some sj \<Rightarrow>
          (case sj_start sj w1 of
             (Pending sj', w2) \<Rightarrow> (FileRunning j (BodySplice sj'), w2)
           | (Cleanup cb, w2) \<Rightarrow> fj_splice_callback j cb w2
           | (Abandoned cb, w2) \<Rightarrow> fj_splice_callback j cb w2))"

text \<open>
  A completion of the child's operation: the child's handler, then its callback, then the child's
  cleanup.
\<close>

definition fj_header_callback :: "HTTPFileJob \<Rightarrow> job_cb \<Rightarrow> ring \<Rightarrow> file_result \<times> ring" where
  "fj_header_callback j cb w =
     (case cb of
        OnComplete _ _ \<Rightarrow> startSendingFile j w
      | OnError _ err \<Rightarrow> fj_fail j err w
      | NoCallback \<Rightarrow> (FileDone NoCallback, w))"

definition fj_error_callback :: "HTTPFileJob \<Rightarrow> job_cb \<Rightarrow> ring \<Rightarrow> file_result \<times> ring" where
  "fj_error_callback j cb w =
     (case cb of
        OnComplete _ n \<Rightarrow> (FileDone (fj_tell_complete j n), pool_free (fj_id j) w)
      | OnError _ err \<Rightarrow> (FileDone (fj_tell_error j err), pool_free (fj_id j) w)
      | NoCallback \<Rightarrow> (FileDone NoCallback, w))"

definition fj_child_completion :: "HTTPFileJob \<Rightarrow> file_child \<Rightarrow> cqe \<Rightarrow> ring \<Rightarrow> file_result \<times> ring" where
  "fj_child_completion j child c w =
     (case child of
        HeaderWrite wj \<Rightarrow>
          (case wj_handleCompletion wj c w of
             (Pending wj', w1) \<Rightarrow> (FileRunning j (HeaderWrite wj'), w1)
           | (Cleanup cb, w1) \<Rightarrow> let (r, w2) = fj_header_callback j cb w1 in (r, pool_free (wj_id wj) w2)
           | (Abandoned cb, w1) \<Rightarrow> fj_header_callback j cb w1)
      | ErrorWrite wj \<Rightarrow>
          (case wj_handleCompletion wj c w of
             (Pending wj', w1) \<Rightarrow> (FileRunning j (ErrorWrite wj'), w1)
           | (Cleanup cb, w1) \<Rightarrow> let (r, w2) = fj_error_callback j cb w1 in (r, pool_free (wj_id wj) w2)
           | (Abandoned cb, w1) \<Rightarrow> fj_error_callback j cb w1)
      | BodySplice sj \<Rightarrow>
          (case sj_handleCompletion sj c w of
             (Pending sj', w1) \<Rightarrow> (FileRunning j (BodySplice sj'), w1)
           | (Cleanup cb, w1) \<Rightarrow> let (r, w2) = fj_splice_callback j cb w1 in (r, sj_cleanup sj w2)
           | (Abandoned cb, w1) \<Rightarrow> fj_splice_callback j cb w1))"

section \<open>Ownership\<close>

definition fj_file :: "HTTPFileJob \<Rightarrow> int multiset" where
  "fj_file j = (if fj_file_fd j \<ge> 0 then {# fj_file_fd j #} else {#})"

fun child_job :: "file_child \<Rightarrow> nat" where
  "child_job (HeaderWrite wj) = wj_id wj"
| "child_job (ErrorWrite wj) = wj_id wj"
| "child_job (BodySplice sj) = sj_id sj"

fun child_fds :: "file_child \<Rightarrow> int multiset" where
  "child_fds (BodySplice sj) = pipe_ends sj"
| "child_fds _ = {#}"

fun child_ops :: "file_child \<Rightarrow> nat" where
  "child_ops (BodySplice sj) = sj_pending_operations sj"
| "child_ops _ = 1"

fun file_fds :: "file_result \<Rightarrow> int multiset" where
  "file_fds (FileRunning j child) = fj_file j + child_fds child"
| "file_fds (FileDone _) = {#}"

fun file_jobs :: "file_result \<Rightarrow> nat multiset" where
  "file_jobs (FileRunning j child) = {# fj_id j, child_job child #}"
| "file_jobs (FileDone _) = {#}"

fun file_ops :: "file_result \<Rightarrow> nat" where
  "file_ops (FileRunning j child) = child_ops child"
| "file_ops (FileDone _) = 0"

text \<open>The child reports back, and the file is open exactly while its bytes are still to be sent.\<close>

fun fj_inv :: "HTTPFileJob \<Rightarrow> file_child \<Rightarrow> bool" where
  "fj_inv j (HeaderWrite wj) \<longleftrightarrow> fj_file_fd j \<ge> 0 \<and> wj_on_complete wj \<and> wj_on_error wj"
| "fj_inv j (ErrorWrite wj) \<longleftrightarrow> fj_file_fd j < 0 \<and> wj_on_complete wj \<and> wj_on_error wj"
| "fj_inv j (BodySplice sj) \<longleftrightarrow> fj_file_fd j \<ge> 0 \<and> sj_inv sj \<and> sj_on_complete sj \<and> sj_on_error sj"

fun child_kernel_ok :: "file_child \<Rightarrow> cqe \<Rightarrow> bool" where
  "child_kernel_ok (BodySplice sj) c \<longleftrightarrow> sj_kernel_ok sj c"
| "child_kernel_ok _ c \<longleftrightarrow> \<not> cqe_more c"

text \<open>What the owner of the job sees: it still runs for the same client, or has reported to the owner.\<close>

definition file_reports :: "HTTPFileJob \<Rightarrow> file_result \<Rightarrow> bool" where
  "file_reports j r \<longleftrightarrow>
     (case r of
        FileRunning j' child \<Rightarrow> fj_inv j' child \<and> fj_id j' = fj_id j \<and> fj_client_fd j' = fj_client_fd j \<and>
          fj_on_complete j' = fj_on_complete j \<and> fj_on_error j' = fj_on_error j
      | FileDone cb \<Rightarrow> (\<exists>e. cb = fj_tell_error j e) \<or> (\<exists>n. cb = fj_tell_complete j n))"

definition file_step :: "HTTPFileJob \<Rightarrow> ring \<Rightarrow> file_result \<times> ring \<Rightarrow> bool" where
  "file_step j w rw \<longleftrightarrow> file_reports j (fst rw) \<and>
     keeps (fj_file j) {# fj_id j #} 0 w (file_fds (fst rw)) (file_jobs (fst rw)) (file_ops (fst rw)) (snd rw)"

lemma file_reports_cong:
  "file_reports j r \<Longrightarrow> fj_id j = fj_id k \<Longrightarrow> fj_client_fd j = fj_client_fd k \<Longrightarrow>
   fj_on_complete j = fj_on_complete k \<Longrightarrow> fj_on_error j = fj_on_error k \<Longrightarrow> file_reports k r"
  by (cases r) (auto simp: file_reports_def fj_tell_error_def fj_tell_complete_def)

lemma file_step_cong:
  "file_step j w r \<Longrightarrow> fj_id j = fj_id k \<Longrightarrow> fj_client_fd j = fj_client_fd k \<Longrightarrow>
   fj_on_complete j = fj_on_complete k \<Longrightarrow> fj_on_error j = fj_on_error k \<Longrightarrow>
   keeps (fj_file k) {# fj_id k #} 0 u (fj_file j) {# fj_id j #} 0 w \<Longrightarrow> file_step k u r"
  unfolding file_step_def by (blast intro: file_reports_cong keeps_trans)

lemma keeps_close_file:
  "keeps (fj_file j) J n w {#} J n (if fj_file_fd j \<ge> 0 then close_fd (fj_file_fd j) w else w)"
  by (auto simp: fj_file_def keeps_env)

lemma keeps_refuse: "fj_refuse j w = (j', w') \<Longrightarrow> fj_file_fd j \<ge> 0 \<Longrightarrow> keeps (fj_file j) J n w (fj_file j') J n w'"
  by (auto simp: fj_refuse_def fj_file_def keeps_env)

lemma fail_step: "file_step j w (fj_fail j err w)"
  using keeps_trans[OF keeps_env(4) keeps_env(3), of "fj_file_fd j" "{#}" "fj_id j" "{#}" 0 w]
  by (auto simp: file_step_def fj_fail_def file_reports_def fj_file_def keeps_env Let_def)

lemma done_step:
  "fj_file_fd j < 0 \<Longrightarrow> file_step j w (FileDone (fj_tell_error j e), pool_free (fj_id j) w)"
  "fj_file_fd j < 0 \<Longrightarrow> file_step j w (FileDone (fj_tell_complete j n), pool_free (fj_id j) w)"
  by (auto simp: file_step_def file_reports_def fj_file_def keeps_env)

text \<open>Starting a write child whose failure is handled by \<open>fail\<close>.\<close>

lemma write_child_step:
  assumes c: "createFromPoolWithOwnedData fd data len True True w = (Some wj, w1)"
    and s: "wj_start wj w1 = (r, w2)"
  shows "(r = Pending wj \<and> keeps F J n w F (add_mset (wj_id wj) J) (Suc n) w2) \<or>
    (\<exists>err. r = Abandoned (OnError fd err) \<and> keeps F J n w F J n w2)"
proof -
  have wj: "wj_on_error wj" "wj_fd wj = fd"
    using c by (auto simp: createFromPoolWithOwnedData_def WriteJob_init_def split: prod.splits option.splits)
  have k: "keeps F J n w F (add_mset (wj_id wj) J) n w1" using owned_write_created[OF c, of F J n] by simp
  note k2 = keeps_trans[OF k keeps_submitWrite[of wj w1 r w2 F J n]]
  show ?thesis
    using s k2 wj by (cases rule: submitWrite_cases[of wj w1])
      (auto simp: wj_start_def write_jobs_def write_ops_def)
qed

lemma created_callbacks:
  "createFromPoolWithOwnedData fd data len True True w = (Some wj, w1) \<Longrightarrow>
   wj_on_complete wj \<and> wj_on_error wj \<and> wj_data wj = data \<and> wj_total_length wj = len \<and> wj_fd wj = fd \<and> wj_bytes_written wj = 0"
  by (auto simp: createFromPoolWithOwnedData_def WriteJob_init_def split: prod.splits option.splits)

lemma sendError_step: "file_step j0 w0 (sendError j0 code message w0)"
proof -
  define w where "w = (if fj_file_fd j0 \<ge> 0 then close_fd (fj_file_fd j0) w0 else w0)"
  define j where "j = j0\<lparr>fj_file_fd := - 1, fj_response := fst (normalizeHeaders (fj_response j0))\<rparr>"
  define page where "page = error_page (fj_range_not_satisfiable_size j) (fj_response j) code message"
  obtain wjo w1 where c: "createFromPoolWithOwnedData (fj_client_fd j) page (length page) True True w = (wjo, w1)"
    by fastforce
  have j: "fj_id j = fj_id j0" "fj_client_fd j = fj_client_fd j0" "fj_on_complete j = fj_on_complete j0"
    "fj_on_error j = fj_on_error j0" "fj_file_fd j < 0" "fj_file j = {#}" by (simp_all add: j_def fj_file_def)
  have kw: "keeps (fj_file j0) {# fj_id j0 #} 0 w0 (fj_file j) {# fj_id j #} 0 w"
    using keeps_close_file[of j0 "{# fj_id j0 #}" 0 w0] j by (simp add: w_def)
  have "file_step j w (sendError j0 code message w0)"
  proof (cases wjo)
    case None
    have "keeps (fj_file j) {# fj_id j #} 0 w (fj_file j) {# fj_id j #} 0 w1"
      using owned_write_created[OF c, of "fj_file j" "{# fj_id j #}" 0] None by simp
    with c None show ?thesis
      by (auto simp: sendError_def Let_def w_def[symmetric] j_def[symmetric] page_def[symmetric]
          intro: file_step_cong[OF done_step(1)[OF j(5)]])
  next
    case (Some wj)
    obtain r w2 where s: "wj_start wj w1 = (r, w2)" by fastforce
    note cb = created_callbacks[OF c[unfolded Some]]
    from write_child_step[OF c[unfolded Some] s, of "fj_file j" "{# fj_id j #}" 0] show ?thesis
      using c Some s j cb
      by (auto simp: sendError_def Let_def w_def[symmetric] j_def[symmetric] page_def[symmetric] file_step_def
          file_reports_def add_mset_commute intro: keeps_trans[OF _ keeps_env(3)])
  qed
  then show ?thesis using kw j(1-4) by (blast intro: file_step_cong)
qed

text \<open>A job that differs only in its response and its state.\<close>

definition same_file_job :: "HTTPFileJob \<Rightarrow> HTTPFileJob \<Rightarrow> bool" where
  "same_file_job j k \<longleftrightarrow> fj_id k = fj_id j \<and> fj_client_fd k = fj_client_fd j \<and> fj_on_complete k = fj_on_complete j \<and>
     fj_on_error k = fj_on_error j \<and> fj_file_fd k = fj_file_fd j"

lemma same_file_job_step:
  assumes "same_file_job j k" "keeps (fj_file j) {# fj_id j #} 0 w (fj_file j) {# fj_id j #} 0 u" "file_step k u r"
  shows "file_step j w r"
  using assms(3) by (rule file_step_cong) (use assms(1,2) in \<open>auto simp: fj_file_def same_file_job_def\<close>)

lemma header_write_step:
  assumes fd: "fj_file_fd j0 \<ge> 0" and same: "same_file_job j0 j"
    and c: "createFromPoolWithOwnedData (fj_client_fd j) head (length head) True True w = (wjo, w1)"
  shows "file_step j0 w (case wjo of None \<Rightarrow> sendError j 500 ''Internal Server Error'' w1
     | Some wj \<Rightarrow> (case wj_start wj w1 of
                (Pending wj', w2) \<Rightarrow> (FileRunning j (HeaderWrite wj'), w2)
              | (Abandoned (OnError _ err), w2) \<Rightarrow> fj_fail j err w2
              | (_, w2) \<Rightarrow> (FileRunning j (HeaderWrite wj), w2)))"
proof (cases wjo)
  case None
  then have "keeps (fj_file j0) {# fj_id j0 #} 0 w (fj_file j0) {# fj_id j0 #} 0 w1"
    using owned_write_created[OF c, of "fj_file j0" "{# fj_id j0 #}" 0] by simp
  from same_file_job_step[OF same this sendError_step] None show ?thesis by simp
next
  case (Some wj)
  obtain r w2 where s: "wj_start wj w1 = (r, w2)" by fastforce
  note cb = created_callbacks[OF c[unfolded Some]]
  from write_child_step[OF c[unfolded Some] s, of "fj_file j0" "{# fj_id j0 #}" 0]
  consider (run) "r = Pending wj" "keeps (fj_file j0) {# fj_id j0 #} 0 w (fj_file j0) {# wj_id wj, fj_id j0 #} 1 w2"
    | (gone) err where "r = Abandoned (OnError (fj_client_fd j) err)"
        "keeps (fj_file j0) {# fj_id j0 #} 0 w (fj_file j0) {# fj_id j0 #} 0 w2"
    by auto
  then show ?thesis
  proof cases
    case run
    have "fj_file j = fj_file j0" using same by (simp add: fj_file_def same_file_job_def)
    with run Some s cb fd same show ?thesis
      by (simp add: file_step_def file_reports_def add_mset_commute same_file_job_def)
  next
    case gone
    from same_file_job_step[OF same gone(2) fail_step] Some s gone(1) show ?thesis by simp
  qed
qed

lemma startSendingHeaders_step:
  assumes "fj_file_fd j0 \<ge> 0"
  shows "file_step j0 w (startSendingHeaders gm j0 w)"
proof -
  obtain res ok where n: "normalizeHeaders (fj_response j0) = (res, ok)" by fastforce
  define j1 where "j1 = j0\<lparr>fj_state := SendingHeaders, fj_response := res\<rparr>"
  define j2 where "j2 = j1\<lparr>fj_response := file_response gm j1 res\<rparr>"
  define j3 where "j3 head = j2\<lparr>fj_header_size := length head\<rparr>" for head :: string
  have same: "same_file_job j0 j1" "same_file_job j0 j2" "same_file_job j0 (j3 head)" for head
    by (simp_all add: same_file_job_def j1_def j2_def j3_def)
  note error = same_file_job_step[OF _ keeps_refl sendError_step]
  consider (bad) "\<not> ok" | (refused) ok "build_response_head (fj_response j2) (fj_length j2) = None"
    | (head) head where ok "build_response_head (fj_response j2) (fj_length j2) = Some head" by fastforce
  then show ?thesis
  proof cases
    case bad
    with n have "startSendingHeaders gm j0 w = sendError j1 500 ''Internal Server Error'' w"
      by (simp add: startSendingHeaders_def j1_def)
    then show ?thesis using error[OF same(1)] by simp
  next
    case refused
    with n have "startSendingHeaders gm j0 w = sendError j2 500 ''Internal Server Error'' w"
      by (simp add: startSendingHeaders_def Let_def j1_def j2_def)
    then show ?thesis using error[OF same(2)] by simp
  next
    case head
    obtain wjo w1 where c: "createFromPoolWithOwnedData (fj_client_fd (j3 head)) head (length head) True True w = (wjo, w1)" by fastforce
    from header_write_step[OF assms same(3) c, unfolded j3_def] show ?thesis
      unfolding startSendingHeaders_def n using head c[unfolded j3_def]
      by (simp add: Let_def j1_def[symmetric] j2_def[symmetric] cong: option.case_cong)
  qed
qed

lemma resolve_file_range_step:
  assumes "fj_file_fd j \<ge> 0" "resolve_file_range j w = (j', w')"
  shows "keeps (fj_file j) J n w (fj_file j') J n w' \<and> fj_id j' = fj_id j \<and> fj_client_fd j' = fj_client_fd j \<and>
    fj_on_complete j' = fj_on_complete j \<and> fj_on_error j' = fj_on_error j"
  using assms keeps_env(4)[of "fj_file_fd j" "{#}" J n w]
  by (auto simp: resolve_file_range_def fj_refuse_def Let_def fj_file_def split: if_splits option.splits)

lemma openFile_step:
  assumes "fj_file_fd j = - 1" "openFile j w = (j', w')"
  shows "keeps (fj_file j) J n w (fj_file j') J n w' \<and> fj_id j' = fj_id j \<and> fj_client_fd j' = fj_client_fd j \<and>
    fj_on_complete j' = fj_on_complete j \<and> fj_on_error j' = fj_on_error j"
proof -
  obtain fd w1 where a: "ask w = (fd, w1)" by fastforce
  have k1: "keeps {#} J n w {#} J n w1" using keeps_env(1)[of "{#}" J n w] a by simp
  show ?thesis
  proof (cases "fd < 0")
    case True
    with a assms k1 show ?thesis by (auto simp: openFile_def fj_file_def)
  next
    case False
    define j1 where "j1 = j\<lparr>fj_file_fd := fd\<rparr>"
    obtain st w2 where a2: "ask (open_fd fd w1) = (st, w2)" by fastforce
    obtain reg w3 where a3: "ask w2 = (reg, w3)" by fastforce
    obtain sz w4 where a4: "ask w3 = (sz, w4)" by fastforce
    obtain mt w5 where a5: "ask w4 = (mt, w5)" by fastforce
    have k2: "keeps (fj_file j) J n w (fj_file j1) J n w2"
      using k1 keeps_env(5)[of "{#}" J n w1 fd] keeps_env(1)[of "{# fd #}" J n "open_fd fd w1"] a2 False assms(1)
      by (auto simp: fj_file_def j1_def intro: keeps_trans)
    have k3: "keeps (fj_file j) J n w (fj_file j1) J n w3"
      using keeps_trans[OF k2 keeps_env(1)] a3 by (metis snd_conv)
    have k5: "keeps (fj_file j) J n w (fj_file j1) J n w5"
      using keeps_trans[OF keeps_trans[OF k3 keeps_env(1)] keeps_env(1)] a4 a5 by (metis snd_conv)
    have pos: "fj_file_fd j1 \<ge> 0" using False by (simp add: j1_def)
    consider (no_stat) "fj_refuse j1 w2 = (j', w')" | (no_file) "fj_refuse j1 w3 = (j', w')"
      | (regular) "resolve_file_range (j1\<lparr>fj_file_size := word_of_int sz, fj_file_mtime := mt\<rparr>) w5 = (j', w')"
      using assms(2) False a a2 a3 a4 a5 by (auto simp: openFile_def j1_def Let_def split: if_splits)
    then show ?thesis
    proof cases
      case no_stat
      then show ?thesis using keeps_trans[OF k2 keeps_refuse[OF no_stat pos]]
        by (auto simp: fj_refuse_def j1_def)
    next
      case no_file
      then show ?thesis using keeps_trans[OF k3 keeps_refuse[OF no_file pos]]
        by (auto simp: fj_refuse_def j1_def)
    next
      case regular
      have f: "fj_file (j1\<lparr>fj_file_size := word_of_int sz, fj_file_mtime := mt\<rparr>) = fj_file j1" by (simp add: fj_file_def)
      from resolve_file_range_step[OF _ regular, of J n] pos k5 f show ?thesis
        by (auto simp: j1_def intro: keeps_trans)
    qed
  qed
qed

lemma fj_start_step:
  assumes "fj_file_fd j = - 1"
  shows "file_step j w (fj_start gm j w)"
proof -
  obtain j1 w1 where op: "openFile j w = (j1, w1)" by fastforce
  note k = openFile_step[OF assms op, of "{# fj_id j #}" 0]
  have "file_step j1 w1 (fj_start gm j w)"
    using op by (auto simp: fj_start_def sendError_step startSendingHeaders_step)
  then show ?thesis using k by (auto intro: file_step_cong)
qed

text \<open>The callbacks of the children.\<close>

lemma splice_callback_step:
  assumes "cb \<noteq> NoCallback" "fj_file_fd j \<ge> 0"
  shows "file_step j w (fj_splice_callback j cb w)"
proof (cases cb)
  case (OnComplete fd n)
  have "keeps (fj_file j) {# fj_id j #} 0 w {#} {#} 0 (pool_free (fj_id j) (close_fd (fj_file_fd j) w))"
    using keeps_trans[OF keeps_env(4) keeps_env(3), of "fj_file_fd j" "{#}" "fj_id j" "{#}" 0 w] assms(2)
    by (simp add: fj_file_def)
  with OnComplete show ?thesis by (auto simp: fj_splice_callback_def file_step_def file_reports_def)
next
  case (OnError fd e)
  then show ?thesis by (simp add: fj_splice_callback_def fail_step)
qed (use assms in simp)

lemma keeps_sj_create:
  "sj_createFromPool cfd ffd off len hc he w = (r, w1) \<Longrightarrow>
   keeps F J n w F (case r of None \<Rightarrow> J | Some j \<Rightarrow> add_mset (sj_id j) J) n w1"
  using keeps_alloc[of F J n w]
  by (auto simp: sj_createFromPool_def SpliceFileJob_init_def split: prod.splits option.splits)

lemma startSendingFile_step:
  assumes fd: "fj_file_fd j0 \<ge> 0"
  shows "file_step j0 w (startSendingFile j0 w)"
proof -
  define j where "j = j0\<lparr>fj_state := SendingFile\<rparr>"
  have j: "fj_id j = fj_id j0" "fj_client_fd j = fj_client_fd j0" "fj_on_complete j = fj_on_complete j0"
    "fj_on_error j = fj_on_error j0" "fj_file j = fj_file j0" "fj_file_fd j \<ge> 0"
    using fd by (simp_all add: j_def fj_file_def)
  obtain sjo w1 where c: "sj_createFromPool (fj_client_fd j) (fj_file_fd j) (unat (fj_offset j)) (unat (fj_length j))
    True True w = (sjo, w1)" by fastforce
  note k1 = keeps_sj_create[OF c, of "fj_file j" "{# fj_id j #}" 0]
  have "file_step j w (startSendingFile j0 w)"
  proof (cases sjo)
    case None
    with c k1 show ?thesis
      by (auto simp: startSendingFile_def j_def[symmetric] Let_def intro: file_step_cong[OF fail_step])
  next
    case (Some sj)
    obtain r w2 where s: "sj_start sj w1 = (r, w2)" by fastforce
    have cr: "sj_pipe0 sj = - 1" "sj_pipe1 sj = - 1" "\<not> sj_error_pending sj" "\<not> sj_retry_pending sj"
      using created_job[OF c[unfolded Some]] by simp_all
    have cb: "sj_on_complete sj" "sj_on_error sj"
      using c Some by (auto simp: sj_createFromPool_def SpliceFileJob_init_def split: prod.splits option.splits)
    note out = sj_start_outcome[OF s cr(3,4)]
    have k2: "keeps (fj_file j) {# fj_id j #} 0 w (splice_fds sj r + fj_file j) (splice_jobs (sj_id sj) r + {# fj_id j #})
        (splice_ops r) w2"
      using keeps_trans[OF _ keeps_sj_start[OF s cr(1,2), of "fj_file j" "{# fj_id j #}" 0]] k1 Some by simp
    show ?thesis
    proof (cases r)
      case (Pending sj')
      with c Some s out cb k2 j show ?thesis
        by (simp add: startSendingFile_def j_def[symmetric] Let_def file_step_def file_reports_def splice_fds_def
            splice_jobs_def splice_ops_def ac_simps add_mset_commute)
    next
      case (Cleanup cb')
      with out show ?thesis by simp
    next
      case (Abandoned cb')
      then have "cb' \<noteq> NoCallback" using out cb by (auto simp: sj_error_cb_def)
      moreover have "keeps (fj_file j) {# fj_id j #} 0 w (fj_file j) {# fj_id j #} 0 w2"
        using k2 Abandoned by (simp add: splice_fds_def splice_jobs_def splice_ops_def)
      ultimately have "file_step j w (fj_splice_callback j cb' w2)"
        using file_step_cong[OF splice_callback_step] j(6) by blast
      with c Some s Abandoned show ?thesis by (simp add: startSendingFile_def j_def[symmetric] Let_def)
    qed
  qed
  then show ?thesis using j by (auto intro: file_step_cong)
qed

lemma header_callback_step:
  assumes "cb \<noteq> NoCallback" "fj_file_fd j \<ge> 0"
  shows "file_step j w (fj_header_callback j cb w)"
  using assms by (cases cb) (simp_all add: fj_header_callback_def fail_step startSendingFile_step)

lemma error_callback_step:
  assumes "cb \<noteq> NoCallback" "fj_file_fd j < 0"
  shows "file_step j w (fj_error_callback j cb w)"
  using assms by (cases cb) (simp_all add: fj_error_callback_def done_step)

text \<open>One completion of the running child.\<close>

lemma write_completion_cb:
  "wj_handleCompletion wj c w = (r, w1) \<Longrightarrow> wj_on_complete wj \<Longrightarrow> wj_on_error wj \<Longrightarrow>
   (case r of Pending wj' \<Rightarrow> wj_on_complete wj' \<and> wj_on_error wj' \<and> wj_id wj' = wj_id wj
    | Cleanup cb \<Rightarrow> cb \<noteq> NoCallback | Abandoned cb \<Rightarrow> cb \<noteq> NoCallback)"
  by (cases rule: submitWrite_cases[of "wj\<lparr>wj_bytes_written := wj_bytes_written wj + nat (cqe_res c)\<rparr>" w])
     (auto simp: wj_handleCompletion_def Let_def split: if_splits)

lemma write_child_completion:
  assumes h: "wj_handleCompletion wj c w = (r, w1)" and cbs: "wj_on_complete wj" "wj_on_error wj"
    and step: "\<And>cb u. cb \<noteq> NoCallback \<Longrightarrow> file_step j u (callback cb u)"
    and pend: "\<And>wj'. wj_on_complete wj' \<Longrightarrow> wj_on_error wj' \<Longrightarrow> fj_inv j (child wj')"
    and child: "\<And>wj'. child_job (child wj') = wj_id wj' \<and> child_fds (child wj') = {#} \<and> child_ops (child wj') = 1"
    and res: "out = (case r of Pending wj' \<Rightarrow> (FileRunning j (child wj'), w1)
       | Cleanup cb \<Rightarrow> (let (x, w2) = callback cb w1 in (x, pool_free (wj_id wj) w2))
       | Abandoned cb \<Rightarrow> callback cb w1)"
  shows "file_reports j (fst out) \<and> keeps (fj_file j) {# fj_id j, wj_id wj #} 0 w
      (file_fds (fst out)) (file_jobs (fst out)) (file_ops (fst out)) (snd out)"
proof -
  note k = keeps_write_completion[OF h, of "fj_file j" "{# fj_id j #}" 0]
  note cb = write_completion_cb[OF h cbs]
  show ?thesis
  proof (cases r)
    case (Pending wj')
    with res cb k pend[of wj'] child[of wj'] show ?thesis
      by (simp add: file_reports_def write_jobs_def write_ops_def add_mset_commute)
  next
    case (Cleanup b)
    obtain x w2 where x: "callback b w1 = (x, w2)" by fastforce
    have st: "file_step j w1 (x, w2)" using step[of b w1] cb Cleanup x by simp
    then have "keeps (fj_file j + {#}) ({# fj_id j #} + {# wj_id wj #}) (0 + 0) w1
        (file_fds x + {#}) (file_jobs x + {# wj_id wj #}) (file_ops x + 0) w2"
      by (intro keeps_frame) (simp add: file_step_def)
    then have "keeps (fj_file j) {# fj_id j, wj_id wj #} 0 w1 (file_fds x) (file_jobs x) (file_ops x) (pool_free (wj_id wj) w2)"
      using keeps_trans[OF _ keeps_env(3)] by (simp add: add_mset_commute)
    with k res x st Cleanup show ?thesis
      by (auto simp: file_step_def write_jobs_def write_ops_def add_mset_commute intro: keeps_trans)
  next
    case (Abandoned b)
    then have "file_step j w1 (callback b w1)" using step cb by simp
    with k res Abandoned show ?thesis
      by (auto simp: file_step_def write_jobs_def write_ops_def add_mset_commute intro: keeps_trans)
  qed
qed

lemma splice_child_completion:
  assumes h: "sj_handleCompletion sj c w = (r, w1)" and inv: "fj_inv j (BodySplice sj)" and ker: "sj_kernel_ok sj c"
  shows "let out = (case r of Pending sj' \<Rightarrow> (FileRunning j (BodySplice sj'), w1)
       | Cleanup cb \<Rightarrow> (let (x, w2) = fj_splice_callback j cb w1 in (x, sj_cleanup sj w2))
       | Abandoned cb \<Rightarrow> fj_splice_callback j cb w1) in
    file_reports j (fst out) \<and> keeps (fj_file j + pipe_ends sj) {# fj_id j, sj_id sj #} (sj_pending_operations sj - 1) w
      (file_fds (fst out)) (file_jobs (fst out)) (file_ops (fst out)) (snd out)"
proof -
  have si: "sj_inv sj" "sj_on_complete sj" "sj_on_error sj" "fj_file_fd j \<ge> 0" using inv by simp_all
  note ok = sj_handle_ok[OF si(1) ker h] and fr = sj_frame_handle[OF h]
  have k: "keeps (fj_file j + pipe_ends sj) {# fj_id j, sj_id sj #} (sj_pending_operations sj - 1) w
     (fj_file j + splice_fds sj r) (add_mset (fj_id j) (splice_jobs (sj_id sj) r)) (splice_ops r) w1"
    using keeps_frame[OF keeps_splice_completion[OF si(1) ker h], of "fj_file j" "{# fj_id j #}" 0]
    by (simp add: ac_simps add_mset_commute)
  show ?thesis
  proof (cases r)
    case (Pending sj')
    then have "fj_inv j (BodySplice sj')" "sj_id sj' = sj_id sj" using ok fr si by (simp_all add: step_ok_def sj_frame_def)
    with Pending k show ?thesis
      by (simp add: file_reports_def splice_fds_def splice_jobs_def splice_ops_def)
  next
    case (Cleanup b)
    then have "b \<noteq> NoCallback" using fr si by (auto simp: sj_frame_def sj_error_cb_def)
    obtain x w2 where x: "fj_splice_callback j b w1 = (x, w2)" by fastforce
    have st: "file_step j w1 (x, w2)" using splice_callback_step[OF \<open>b \<noteq> NoCallback\<close> si(4), of w1] x by simp
    then have "keeps (fj_file j + pipe_ends sj) ({# fj_id j #} + {# sj_id sj #}) (0 + 0) w1
        (file_fds x + pipe_ends sj) (file_jobs x + {# sj_id sj #}) (file_ops x + 0) w2"
      by (intro keeps_frame) (simp add: file_step_def)
    then have "keeps (fj_file j + pipe_ends sj) {# fj_id j, sj_id sj #} 0 w1
        (pipe_ends sj + file_fds x) (add_mset (sj_id sj) (file_jobs x)) (file_ops x) w2"
      by (simp add: ac_simps add_mset_commute)
    then have "keeps (fj_file j + pipe_ends sj) {# fj_id j, sj_id sj #} 0 w1 (file_fds x) (file_jobs x) (file_ops x) (sj_cleanup sj w2)"
      by (rule keeps_trans[OF _ keeps_sj_cleanup])
    with k st Cleanup x show ?thesis
      by (auto simp: file_step_def splice_fds_def splice_jobs_def splice_ops_def Let_def intro: keeps_trans)
  next
    case (Abandoned b)
    with fr show ?thesis by (simp add: sj_frame_def)
  qed
qed

lemma child_completion_step:
  assumes "fj_inv j child" "child_kernel_ok child c"
  shows "file_reports j (fst (fj_child_completion j child c w)) \<and>
    keeps (fj_file j + child_fds child) {# fj_id j, child_job child #} (child_ops child - 1) w
      (file_fds (fst (fj_child_completion j child c w))) (file_jobs (fst (fj_child_completion j child c w)))
      (file_ops (fst (fj_child_completion j child c w))) (snd (fj_child_completion j child c w))"
proof (cases child)
  case (HeaderWrite wj)
  obtain r w1 where h: "wj_handleCompletion wj c w = (r, w1)" by fastforce
  show ?thesis
    using write_child_completion[OF h, of j "\<lambda>cb u. fj_header_callback j cb u" HeaderWrite, OF _ _ header_callback_step _ _ refl]
      assms(1) HeaderWrite h by (simp add: fj_child_completion_def split: job_result.splits)
next
  case (ErrorWrite wj)
  obtain r w1 where h: "wj_handleCompletion wj c w = (r, w1)" by fastforce
  show ?thesis
    using write_child_completion[OF h, of j "\<lambda>cb u. fj_error_callback j cb u" ErrorWrite, OF _ _ error_callback_step _ _ refl]
      assms(1) ErrorWrite h by (simp add: fj_child_completion_def split: job_result.splits)
next
  case (BodySplice sj)
  obtain r w1 where h: "sj_handleCompletion sj c w = (r, w1)" by fastforce
  show ?thesis
    using splice_child_completion[OF h assms(1)[unfolded BodySplice]] assms(2) BodySplice h
    by (simp add: fj_child_completion_def Let_def split: job_result.splits)
qed

section \<open>The range and the head\<close>

text \<open>What is left after \<^verbatim>\<open>openFile\<close> of a job that asks for \<open>rng\<close>, by the size the file turned out to have.\<close>

definition serves_range :: "ByteRangeSpec option \<Rightarrow> HTTPFileJob \<Rightarrow> bool" where
  "serves_range rng j \<longleftrightarrow>
     (case rng of
        None \<Rightarrow> fj_offset j = 0 \<and> fj_length j = fj_file_size j \<and> \<not> fj_partial j
      | Some s \<Rightarrow> fj_partial j \<and> resolve s (fj_file_size j) = Some \<lparr>rr_offset = fj_offset j, rr_length = fj_length j\<rparr>)"

lemma resolve_within:
  assumes "range_ok s" "resolve s n = Some rr"
  shows "rr_length rr \<noteq> 0 \<and> unat (rr_offset rr) + unat (rr_length rr) \<le> unat n"
  using resolve_served[OF assms(1), of n] assms(2) by (simp add: served_def)

lemma resolve_file_range_serves:
  assumes "resolve_file_range j w = (j1, w1)" "fj_file_fd j1 \<ge> 0" "fj_offset j = 0" "fj_length j = 0" "\<not> fj_partial j"
    and "fj_range_spec j = rng" "\<And>s. rng = Some s \<Longrightarrow> range_ok s"
  shows "serves_range rng j1 \<and> fj_file_size j1 = fj_file_size j \<and> fj_range_spec j1 = rng"
proof (cases rng)
  case None
  with assms show ?thesis
    by (auto simp: resolve_file_range_def fj_refuse_def serves_range_def Let_def split: if_splits)
next
  case (Some s)
  obtain rr where rr: "resolve s (fj_file_size j) = Some rr"
    using assms(1,2,6) Some by (cases "resolve s (fj_file_size j)") (auto simp: resolve_file_range_def fj_refuse_def Let_def)
  note w = resolve_within[OF assms(7)[OF Some] rr]
  have "unat (rr_offset rr + rr_length rr) = unat (rr_offset rr) + unat (rr_length rr)"
    using w unsigned_less[of "fj_file_size j", where 'a = nat] by (simp add: unat_word_ariths)
  then have "\<not> rr_offset rr + rr_length rr > fj_file_size j" "\<not> rr_offset rr > fj_file_size j"
    using w by (simp_all add: word_less_nat_alt)
  with assms(1,2,6) Some rr w show ?thesis
    by (auto simp: resolve_file_range_def fj_refuse_def serves_range_def Let_def)
qed

lemma openFile_serves:
  assumes "openFile j w = (j1, w1)" "fj_file_fd j1 \<ge> 0" "fj_offset j = 0" "fj_length j = 0" "\<not> fj_partial j"
    and "fj_range_spec j = rng" "\<And>s. rng = Some s \<Longrightarrow> range_ok s"
  shows "serves_range rng j1"
proof -
  obtain j0 w0 where "resolve_file_range j0 w0 = (j1, w1)" "fj_offset j0 = 0" "fj_length j0 = 0" "\<not> fj_partial j0"
    "fj_range_spec j0 = rng"
    using assms(1-6) by (auto simp: openFile_def fj_refuse_def Let_def split: if_splits prod.splits)
  with resolve_file_range_serves assms(2,7) show ?thesis by blast
qed

text \<open>The head that is put on the wire.\<close>

lemma sendError_page:
  "(\<exists>j wj. fst (sendError k code message w) = FileRunning j (ErrorWrite wj) \<and> fj_id j = fj_id k \<and>
      wj_data wj = error_page (fj_range_not_satisfiable_size k) (fst (normalizeHeaders (fj_response k))) code message) \<or>
   (\<exists>e. fst (sendError k code message w) = FileDone (fj_tell_error k e))"
proof -
  define u where "u = (if fj_file_fd k \<ge> 0 then close_fd (fj_file_fd k) w else w)"
  define j where "j = k\<lparr>fj_file_fd := - 1, fj_response := fst (normalizeHeaders (fj_response k))\<rparr>"
  define page where "page = error_page (fj_range_not_satisfiable_size j) (fj_response j) code message"
  obtain wjo w1 where c: "createFromPoolWithOwnedData (fj_client_fd j) page (length page) True True u = (wjo, w1)"
    by fastforce
  have e: "fj_tell_error j e = fj_tell_error k e" for e by (simp add: j_def fj_tell_error_def)
  show ?thesis
  proof (cases wjo)
    case None
    with c e show ?thesis
      by (auto simp: sendError_def Let_def u_def[symmetric] j_def[symmetric] page_def[symmetric])
  next
    case (Some wj)
    obtain r w2 where s: "wj_start wj w1 = (r, w2)" by fastforce
    note cb = created_callbacks[OF c[unfolded Some]]
    from write_child_step[OF c[unfolded Some] s, of "{#}" "{#}" 0] have
      "fst (sendError k code message w) = FileRunning j (ErrorWrite wj) \<or>
       (\<exists>e. fst (sendError k code message w) = FileDone (fj_tell_error j e))"
      using c Some s by (auto simp: sendError_def Let_def u_def[symmetric] j_def[symmetric] page_def[symmetric])
    with cb e show ?thesis by (auto simp: page_def j_def)
  qed
qed

lemma startSendingHeaders_head:
  assumes "startSendingHeaders gm j0 w = (FileRunning j (HeaderWrite wj), w')"
  shows "build_response_head (fj_response j) (fj_length j) = Some (wj_data wj) \<and>
    status_code (fj_response j) = (if fj_partial j0 then 206 else 200) \<and>
    wj_ready wj \<and> wj_on_complete wj \<and> wj_on_error wj \<and> wj_bytes_written wj = 0 \<and> wj_fd wj = fj_client_fd j0 \<and>
    fj_offset j = fj_offset j0 \<and> fj_length j = fj_length j0 \<and> fj_file_size j = fj_file_size j0 \<and>
    fj_partial j = fj_partial j0 \<and> fj_client_fd j = fj_client_fd j0 \<and> fj_header_size j = length (wj_data wj)"
proof -
  obtain res ok where n: "normalizeHeaders (fj_response j0) = (res, ok)" by fastforce
  define j1 where "j1 = j0\<lparr>fj_state := SendingHeaders, fj_response := res\<rparr>"
  define j2 where "j2 = j1\<lparr>fj_response := file_response gm j1 res\<rparr>"
  have noerr: "sendError k c m u \<noteq> (FileRunning j (HeaderWrite wj), w')" for k c m u
    using sendError_page[of k c m u] by auto
  have ok: ok
  proof (rule ccontr)
    assume "\<not> ok"
    then have "startSendingHeaders gm j0 w = sendError j1 500 ''Internal Server Error'' w"
      by (simp add: startSendingHeaders_def n j1_def)
    with assms noerr show False by simp
  qed
  have "build_response_head (fj_response j2) (fj_length j2) \<noteq> None"
  proof
    assume "build_response_head (fj_response j2) (fj_length j2) = None"
    then have "startSendingHeaders gm j0 w = sendError j2 500 ''Internal Server Error'' w"
      using ok by (simp add: startSendingHeaders_def n j1_def j2_def Let_def)
    with assms noerr show False by simp
  qed
  then obtain head where head: "build_response_head (fj_response j2) (fj_length j2) = Some head" by blast
  define j3 where "j3 = j2\<lparr>fj_header_size := length head\<rparr>"
  obtain wjo w1 where c: "createFromPoolWithOwnedData (fj_client_fd j2) head (length head) True True w = (wjo, w1)"
    by fastforce
  have eq: "startSendingHeaders gm j0 w =
        (case wjo of None \<Rightarrow> sendError j3 500 ''Internal Server Error'' w1
         | Some wj \<Rightarrow> (case wj_start wj w1 of
                    (Pending wj', w2) \<Rightarrow> (FileRunning j3 (HeaderWrite wj'), w2)
                  | (Abandoned (OnError _ err), w2) \<Rightarrow> fj_fail j3 err w2
                  | (_, w2) \<Rightarrow> (FileRunning j3 (HeaderWrite wj), w2)))"
    unfolding startSendingHeaders_def n j3_def using ok head c
    by (simp add: Let_def j1_def[symmetric] j2_def[symmetric] cong: option.case_cong)
  obtain wj0 where wj0: "wjo = Some wj0" using eq assms noerr by (cases wjo) auto
  note cb = created_callbacks[OF c[unfolded wj0]]
  have "j = j3 \<and> wj = wj0"
    using assms eq wj0 cb by (cases rule: submitWrite_cases[of wj0 w1]) (auto simp: wj_start_def fj_fail_def Let_def)
  with cb head show ?thesis
    by (simp add: j1_def j2_def j3_def wj_ready_def file_response_def setStatus_def Let_def)
qed

lemma fj_start_head:
  assumes "fj_start gm j w = (FileRunning j1 (HeaderWrite wj), w')"
  shows "\<exists>j0 w0. openFile j w = (j0, w0) \<and> fj_file_fd j0 \<ge> 0 \<and>
    startSendingHeaders gm j0 w0 = (FileRunning j1 (HeaderWrite wj), w')"
proof -
  obtain j0 w0 where o0: "openFile j w = (j0, w0)" by fastforce
  have "sendError k c m u \<noteq> (FileRunning j1 (HeaderWrite wj), w')" for k c m u
    using sendError_page[of k c m u] by auto
  with o0 assms show ?thesis by (auto simp: fj_start_def split: if_splits)
qed

section \<open>A life of the job\<close>

text \<open>
  The completions of the running child in order, each followed by the event loop's decrement of the
  in-flight count, until the job is gone.
\<close>

definition retire :: "ring \<Rightarrow> ring" where "retire w = w\<lparr>in_flight := in_flight w - 1\<rparr>"

fun file_life :: "file_result \<Rightarrow> cqe list \<Rightarrow> ring \<Rightarrow> file_result \<times> ring" where
  "file_life (FileRunning j child) (c # cs) w =
     (let (r, w1) = fj_child_completion j child c w in file_life r cs (retire w1))"
| "file_life r _ w = (r, w)"

fun file_kernel_run :: "file_result \<Rightarrow> cqe list \<Rightarrow> ring \<Rightarrow> bool" where
  "file_kernel_run (FileRunning j child) (c # cs) w \<longleftrightarrow> child_kernel_ok child c \<and>
     (let (r, w1) = fj_child_completion j child c w in file_kernel_run r cs (retire w1))"
| "file_kernel_run r _ w \<longleftrightarrow> True"

lemma keeps_retire: "keeps F J n w F' J' n' w' \<Longrightarrow> keeps F J (Suc n) w F' J' n' (retire w')"
  by (simp add: keeps_def retire_def)

lemma child_ops_pos: "fj_inv j child \<Longrightarrow> 0 < child_ops child"
  by (cases child) (auto simp: sj_inv_def)

lemma file_life_step:
  "file_kernel_run r cs w \<Longrightarrow> file_reports j r \<Longrightarrow> file_life r cs w = (r', w') \<Longrightarrow>
   file_reports j r' \<and> keeps (file_fds r) (file_jobs r) (file_ops r) w (file_fds r') (file_jobs r') (file_ops r') w'"
proof (induction r cs w rule: file_life.induct)
  case (1 j1 child c cs w)
  obtain r1 w1 where h: "fj_child_completion j1 child c w = (r1, w1)" by fastforce
  have inv: "fj_inv j1 child" using 1(3) by (simp add: file_reports_def)
  note st = child_completion_step[OF inv, of c w, unfolded h fst_conv snd_conv]
  have "child_ops child = Suc (child_ops child - 1)" using child_ops_pos[OF inv] by simp
  then have k: "keeps (file_fds (FileRunning j1 child)) (file_jobs (FileRunning j1 child)) (child_ops child) w
      (file_fds r1) (file_jobs r1) (file_ops r1) (retire w1)"
    using keeps_retire[OF conjunct2[OF st]] 1(2) h by simp
  have "file_reports j r1"
    using 1(2,3) st h by (auto simp: file_reports_def[of j "FileRunning j1 child"] elim: file_reports_cong)
  with 1(1)[of "(r1, w1)" r1 w1] 1(2,4) h k show ?case by (auto intro: keeps_trans)
qed auto

section \<open>Properties\<close>


text \<open>
  C21. A file response releases everything it took, once. From \<^verbatim>\<open>start\<close>, through every completion of its
  header write, error write or splice, on every failure path: at each point the descriptors it has
  opened and not closed, the pool objects it has and the operations it has in the kernel are exactly
  those of the job and its running child, so when the job is done the file and the pipe have been
  closed once and all jobs freed once, and its owner is told, once, that it completed or failed.
\<close>

theorem file_job_releases_once:
  assumes "fj_createFromPool cfd path response True True w = (Some j, w1)"
    and "fj_start gm (case rng of None \<Rightarrow> j | Some s \<Rightarrow> requestRange s j) w1 = (r, w2)"
    and "file_kernel_run r cs w2" "file_life r cs w2 = (r', w3)"
  shows "keeps {#} {#} 0 w (file_fds r') (file_jobs r') (file_ops r') w3 \<and>
    (case r' of FileRunning j' child \<Rightarrow> 0 < child_ops child
     | FileDone cb \<Rightarrow> (\<exists>e. cb = OnError cfd e) \<or> (\<exists>n. cb = OnComplete cfd n))"
proof -
  let ?j = "case rng of None \<Rightarrow> j | Some s \<Rightarrow> requestRange s j"
  have j: "fj_file_fd ?j = - 1" "fj_id ?j = fj_id j" "fj_client_fd ?j = cfd" "fj_on_complete ?j" "fj_on_error ?j"
    using assms(1) by (auto simp: fj_createFromPool_def fj_createFromPool_range_def HTTPFileJob_init_def requestRange_def
        split: option.splits prod.splits)
  have "keeps {#} {#} 0 w {#} {# fj_id j #} 0 w1"
    using keeps_alloc[of "{#}" "{#}" 0 w] assms(1)
    by (auto simp: fj_createFromPool_def fj_createFromPool_range_def HTTPFileJob_init_def split: option.splits prod.splits)
  moreover have st: "file_step ?j w1 (r, w2)" using fj_start_step[OF j(1), of w1 gm] assms(2) by simp
  moreover have l: "file_reports ?j r'"
      "keeps (file_fds r) (file_jobs r) (file_ops r) w2 (file_fds r') (file_jobs r') (file_ops r') w3"
    using file_life_step[OF assms(3) _ assms(4), of ?j] st by (auto simp: file_step_def)
  ultimately have "keeps {#} {#} 0 w (file_fds r') (file_jobs r') (file_ops r') w3"
    using j by (auto simp: file_step_def fj_file_def intro: keeps_trans)
  with l(1) j show ?thesis
    by (auto simp: file_reports_def child_ops_pos fj_tell_error_def fj_tell_complete_def split: file_result.splits)
qed

definition missing_file_ring :: ring where
  "missing_file_ring = kind_ring\<lparr>ora := (\<lambda>n. if n = 1 then - 2 else 0)\<rparr>"

definition missing_page :: string where
  "missing_page = error_page None (fst (normalizeHeaders HttpResponse_init)) 404 ''File not found''"

theorem file_job_releases_once_witness:
  "\<exists>j w1 r w2 w3. fj_createFromPool 5 ''/x'' HttpResponse_init True True missing_file_ring = (Some j, w1) \<and>
     fj_start (\<lambda>_. None) j w1 = (r, w2) \<and>
     file_life r [\<lparr>cqe_job = Some 2, cqe_res = int (length missing_page), cqe_more = False, cqe_buf = 0\<rparr>] w2 =
       (FileDone (OnComplete 5 (length missing_page)), w3) \<and>
     keeps {#} {#} 0 missing_file_ring {#} {#} 0 w3"
proof -
  define c where "c = \<lparr>cqe_job = Some 2, cqe_res = int (length missing_page), cqe_more = False, cqe_buf = 0\<rparr>"
  define j where "j = (HTTPFileJob_init 1 5 ''/x'' 0 0 HttpResponse_init)\<lparr>fj_on_complete := True, fj_on_error := True\<rparr>"
  define w1 where "w1 = missing_file_ring\<lparr>tick := 1, next_id := 2\<rparr>"
  have 1: "fj_createFromPool 5 ''/x'' HttpResponse_init True True missing_file_ring = (Some j, w1)"
    by (simp add: fj_createFromPool_def fj_createFromPool_range_def pool_alloc_def ask_def missing_file_ring_def
        kind_ring_def j_def w1_def)
  define wj where "wj = (WriteJob_init 2 5 True)\<lparr>wj_data := missing_page, wj_total_length := length missing_page,
    wj_on_complete := True, wj_on_error := True\<rparr>"
  define j1 where "j1 = j\<lparr>fj_file_fd := - 1, fj_response := fst (normalizeHeaders HttpResponse_init)\<rparr>"
  obtain w2 where 2: "fj_start (\<lambda>_. None) j w1 = (FileRunning j1 (ErrorWrite wj), w2)"
    by (simp add: fj_start_def openFile_def ask_def w1_def missing_file_ring_def kind_ring_def j_def HTTPFileJob_init_def
        sendError_def missing_page_def[symmetric] createFromPoolWithOwnedData_def pool_alloc_def wj_start_def submitWrite_def
        registerJob_def submit_def Let_def WriteJob_init_def wj_def j1_def)
  obtain w3 where 3: "file_life (FileRunning j1 (ErrorWrite wj)) [c] w2 = (FileDone (OnComplete 5 (length missing_page)), w3)"
    by (simp add: c_def fj_child_completion_def wj_handleCompletion_def wj_def WriteJob_init_def fj_error_callback_def
        fj_tell_complete_def j1_def j_def HTTPFileJob_init_def Let_def)
  have k: "file_kernel_run (FileRunning j1 (ErrorWrite wj)) [c] w2" by (simp add: c_def split_beta)
  have st: "fj_start (\<lambda>_. None) (case None of None \<Rightarrow> j | Some s \<Rightarrow> requestRange s j) w1 = (FileRunning j1 (ErrorWrite wj), w2)"
    using 2 by simp
  from file_job_releases_once[OF 1 st k 3] 1 2 3 show ?thesis unfolding c_def[symmetric] by auto
qed

text \<open>A response to \<^verbatim>\<open>Range: bytes=2-4\<close> of a file of seven bytes.\<close>

definition range_head :: string where
  "range_head = lines_of [''HTTP/1.1 206 Partial Content'', ''accept-ranges: bytes'', ''access-control-allow-origin: *'',
     ''content-range: bytes 2-4/7'', ''content-type: text/plain'', ''content-length: 3''] @ CRLF"

definition range_spec :: ByteRangeSpec where "range_spec = \<lparr>rsuffix = False, rfirst = 2, rlast = Some 4\<rparr>"

definition range_job :: HTTPFileJob where
  "range_job = (HTTPFileJob_init 1 5 ''/a.txt'' 0 0 HttpResponse_init)\<lparr>fj_on_complete := True, fj_on_error := True\<rparr>"

definition range_opened :: HTTPFileJob where
  "range_opened = range_job\<lparr>fj_range_spec := Some range_spec, fj_file_fd := 7, fj_file_size := 7, fj_file_mtime := 7,
     fj_offset := 2, fj_length := 3, fj_partial := True\<rparr>"

definition range_headers :: HTTPFileJob where
  "range_headers = (let j = range_opened\<lparr>fj_state := SendingHeaders, fj_response := fst (normalizeHeaders HttpResponse_init)\<rparr> in
     j\<lparr>fj_response := file_response (\<lambda>_. None) j (fj_response j), fj_header_size := length range_head\<rparr>)"

definition range_write :: WriteJob where
  "range_write = (WriteJob_init 2 5 True)\<lparr>wj_data := range_head, wj_total_length := length range_head,
    wj_on_complete := True, wj_on_error := True\<rparr>"

lemma range_head_built: "build_response_head (fj_response range_headers) 3 = Some range_head"
  by code_simp

lemma range_resolved: "resolve range_spec 7 = Some \<lparr>rr_offset = 2, rr_length = 3\<rparr>"
  "snd (normalizeHeaders HttpResponse_init)"
  by code_simp+

lemma range_started:
  "\<exists>w2. fj_start (\<lambda>_. None) (requestRange range_spec range_job) (splice_ring\<lparr>tick := 1, next_id := 2\<rparr>) =
    (FileRunning range_headers (HeaderWrite range_write), w2) \<and> ora w2 = (\<lambda>_. 7)"
proof -
  let ?w = "splice_ring\<lparr>tick := 1, next_id := 2\<rparr>"
  obtain w5 where opn: "openFile (requestRange range_spec range_job) ?w = (range_opened, w5)" "ora w5 = (\<lambda>_. 7)" "next_id w5 = 2"
    by (simp add: openFile_def ask_def open_fd_def resolve_file_range_def requestRange_def range_resolved Let_def
        splice_ring_def kind_ring_def range_job_def range_opened_def HTTPFileJob_init_def)
  obtain res where n: "normalizeHeaders HttpResponse_init = (res, True)"
    using range_resolved(2) by (metis prod.collapse)
  define j1 where "j1 = range_opened\<lparr>fj_state := SendingHeaders, fj_response := res\<rparr>"
  have b: "build_response_head (file_response (\<lambda>_. None) j1 res) 3 = Some range_head"
    using range_head_built n by (simp add: range_headers_def j1_def Let_def)
  have j: "fj_response range_opened = HttpResponse_init" "fj_length range_opened = 3" "fj_client_fd range_opened = 5"
    "fj_file_fd range_opened = 7"
    by (simp_all add: range_opened_def range_job_def HTTPFileJob_init_def)
  have "\<exists>w2. startSendingHeaders (\<lambda>_. None) range_opened w5 = (FileRunning range_headers (HeaderWrite range_write), w2) \<and>
    ora w2 = (\<lambda>_. 7)"
    using b n j opn(2,3)
    by (simp add: startSendingHeaders_def j1_def Let_def createFromPoolWithOwnedData_def pool_alloc_def ask_def wj_start_def
        submitWrite_def registerJob_def submit_def range_headers_def range_write_def WriteJob_init_def)
  then show ?thesis using opn(1) j by (simp add: fj_start_def)
qed


end
