(* ===== verification/Url_Decode.thy ===== *)
theory Url_Decode
  imports Cdv_Prelude
begin

text \<open>
  Percent-decoding of a request path, \<^verbatim>\<open>src/http/UrlDecode.cpp\<close>: \<open>hexValue\<close>, the loop over the
  bytes of one segment (\<open>decode_segment\<close>) and the loop over the segments (\<open>decodePath\<close>). The
  lemmas show that the loop decodes segment by segment, that decoding never creates a
  separator, a control character or a parent-directory segment, and that it inverts
  percent-encoding.
\<close>

section \<open>The decoder\<close>

definition hexValue :: "char \<Rightarrow> int" where
  "hexValue c =
     (if 48 \<le> byte c \<and> byte c \<le> 57 then int (byte c) - 48
      else if 97 \<le> byte c \<and> byte c \<le> 102 then int (byte c) - 97 + 10
      else if 65 \<le> byte c \<and> byte c \<le> 70 then int (byte c) - 65 + 10
      else - 1)"

text \<open>One escape: the two hex digits after the percent sign, with the three refusals.\<close>

definition decode_escape :: "char \<Rightarrow> char \<Rightarrow> char option" where
  "decode_escape h l =
     (let hi = hexValue h; lo = hexValue l in
      if hi < 0 \<or> lo < 0 then None
      else let b = nat (hi * 16 + lo) in
           if b < 0x20 \<or> b = 0x7F then None
           else if b = 47 then None
           else Some (char_of b))"

text \<open>
  The inner loop. The arguments are the bytes of the segment not yet read, the string
  \<^verbatim>\<open>decoded\<close> and the flag \<^verbatim>\<open>had_escape\<close>; the source's \<^verbatim>\<open>i + 2 >= segment.size()\<close> is the case
  of fewer than two bytes after the percent sign.
\<close>

fun decode_segment :: "string \<Rightarrow> string \<Rightarrow> bool \<Rightarrow> (string \<times> bool) option" where
  "decode_segment [] decoded had_escape = Some (decoded, had_escape)"
| "decode_segment [c] decoded had_escape =
     (if c \<noteq> CHR ''%'' then decode_segment [] (decoded @ [c]) had_escape else None)"
| "decode_segment [c, d] decoded had_escape =
     (if c \<noteq> CHR ''%'' then decode_segment [d] (decoded @ [c]) had_escape else None)"
| "decode_segment (c # h # l # rest) decoded had_escape =
     (if c \<noteq> CHR ''%'' then decode_segment (h # l # rest) (decoded @ [c]) had_escape
      else (case decode_escape h l of
              None \<Rightarrow> None
            | Some b \<Rightarrow> decode_segment rest (decoded @ [b]) True))"

text \<open>The checks of one segment: the loop above, then the refusal of a manufactured "..".\<close>

definition check_segment :: "string \<Rightarrow> string option" where
  "check_segment segment =
     (case decode_segment segment [] False of
        None \<Rightarrow> None
      | Some (decoded, had_escape) \<Rightarrow>
          if had_escape \<and> decoded = ''..'' then None else Some decoded)"

text \<open>The outer loop: \<open>rest\<close> is the path from \<^verbatim>\<open>pos\<close> on, \<open>out\<close> the output so far.\<close>

function decode_loop :: "string \<Rightarrow> string \<Rightarrow> string option" where
  "decode_loop rest out =
     (case find_char (CHR ''/'') rest of
        None \<Rightarrow> (case check_segment rest of None \<Rightarrow> None | Some d \<Rightarrow> Some (out @ d))
      | Some slash \<Rightarrow>
          (case check_segment (take slash rest) of
             None \<Rightarrow> None
           | Some d \<Rightarrow> decode_loop (drop (slash + 1) rest) (out @ d @ ''/'')))"
  by pat_completeness auto
termination
  by (relation "measure (\<lambda>(rest, out). length rest)") (auto simp: find_char_Some)

declare decode_loop.simps [simp del]

definition decodePath :: "string \<Rightarrow> string option" where
  "decodePath raw_path = decode_loop raw_path []"

section \<open>One segment\<close>

lemma hexValue_range: "hexValue c < 16" "- 1 \<le> hexValue c"
  by (auto simp: hexValue_def)

lemma escape_byte_range:
  "0 \<le> hexValue h \<Longrightarrow> 0 \<le> hexValue l \<Longrightarrow> nat (hexValue h * 16 + hexValue l) < 256"
  using hexValue_range[of h] hexValue_range[of l] by linarith

definition safe_byte :: "char \<Rightarrow> bool" where
  "safe_byte c \<longleftrightarrow> 0x20 \<le> byte c \<and> byte c \<noteq> 0x7F \<and> c \<noteq> CHR ''/''"

lemma byte_slash: "byte c = 47 \<longleftrightarrow> c = CHR ''/''"
proof -
  have "byte (CHR ''/'') = 47" by (simp add: byte_def)
  then show ?thesis by (metis byte_inj)
qed

lemma decode_escape_safe: "decode_escape h l = Some b \<Longrightarrow> safe_byte b"
proof -
  assume "decode_escape h l = Some b"
  then obtain n where n: "b = char_of n" "n = nat (hexValue h * 16 + hexValue l)"
    "0 \<le> hexValue h" "0 \<le> hexValue l" "0x20 \<le> n" "n \<noteq> 0x7F" "n \<noteq> 47"
    by (auto simp: decode_escape_def Let_def split: if_splits)
  then have "byte b = n" using escape_byte_range[of h l] by simp
  with n byte_slash[of b] show ?thesis by (auto simp: safe_byte_def)
qed

text \<open>Every byte of the result was a literal byte of the input or is a safe byte.\<close>

lemma decode_segment_bytes:
  "decode_segment s d h = Some (d', h') \<Longrightarrow> c \<in> set d' \<Longrightarrow> c \<in> set d \<or> c \<in> set s \<or> safe_byte c"
proof (induction s d h arbitrary: d' h' rule: decode_segment.induct)
  case (4 x hc lc rest d h)
  show ?case
  proof (cases "x = CHR ''%''")
    case True
    with "4.prems"(1) obtain b where b: "decode_escape hc lc = Some b"
      and rec: "decode_segment rest (d @ [b]) True = Some (d', h')"
      by (auto split: option.splits)
    then have "c \<in> set (d @ [b]) \<or> c \<in> set rest \<or> safe_byte c"
      using "4.IH"(2)[OF _ b rec "4.prems"(2)] True by simp
    with decode_escape_safe[OF b] show ?thesis by auto
  next
    case False
    with "4.IH"(1)[of d' h'] "4.prems" show ?thesis by auto
  qed
qed (auto split: if_splits)

lemma decode_segment_had_escape:
  "decode_segment s d h = Some (d', h') \<Longrightarrow> h \<Longrightarrow> h'"
  by (induction s d h arbitrary: d' h' rule: decode_segment.induct)
     (auto split: if_splits option.splits)

lemma decode_segment_literal:
  "decode_segment s d h = Some (d', h') \<Longrightarrow> \<not> h' \<Longrightarrow> d' = d @ s"
proof (induction s d h arbitrary: d' h' rule: decode_segment.induct)
  case (4 x hc lc rest d h)
  then show ?case
    by (cases "x = CHR ''%''") (auto split: option.splits dest: decode_segment_had_escape)
qed (auto split: if_splits)

lemma decode_segment_no_percent:
  "CHR ''%'' \<notin> set s \<Longrightarrow> decode_segment s d h = Some (d @ s, h)"
  by (induction s d h rule: decode_segment.induct) auto

lemma check_segment_no_slash:
  assumes "check_segment s = Some d" and "CHR ''/'' \<notin> set s"
  shows "CHR ''/'' \<notin> set d"
proof
  assume a: "CHR ''/'' \<in> set d"
  from assms(1) obtain h where "decode_segment s [] False = Some (d, h)"
    by (auto simp: check_segment_def split: option.splits if_splits)
  from decode_segment_bytes[OF this a] assms(2) show False by (simp add: safe_byte_def)
qed

lemma check_segment_bytes:
  "check_segment s = Some d \<Longrightarrow> c \<in> set d \<Longrightarrow> c \<in> set s \<or> safe_byte c"
  by (auto simp: check_segment_def split: option.splits if_splits dest: decode_segment_bytes)

lemma check_segment_dotdot: "check_segment s = Some ''..'' \<Longrightarrow> s = ''..''"
  by (auto simp: check_segment_def split: option.splits if_splits dest: decode_segment_literal[OF _ notI])

lemma check_segment_no_percent: "CHR ''%'' \<notin> set s \<Longrightarrow> check_segment s = Some s"
  by (simp add: check_segment_def decode_segment_no_percent)

section \<open>The loop over the segments is a map over the split path\<close>

lemma decode_loop_spec:
  "decode_loop rest out =
     map_option (\<lambda>ds. out @ join_on (CHR ''/'') ds) (those (map check_segment (split_on (CHR ''/'') rest)))"
proof (induction rest out rule: decode_loop.induct)
  case (1 rest out)
  show ?case
  proof (cases "find_char (CHR ''/'') rest")
    case None
    then show ?thesis
      by (subst decode_loop.simps, subst split_on_step) (auto split: option.splits)
  next
    case (Some i)
    show ?thesis
    proof (cases "check_segment (take i rest)")
      case None
      with Some show ?thesis
        by (subst decode_loop.simps, subst split_on_step) simp
    next
      case d: (Some d)
      have j: "join_on (CHR ''/'') (d # ds) = d @ CHR ''/'' # join_on (CHR ''/'') ds" if "ds \<noteq> []" for ds
        using that by (cases ds) auto
      have ne: "ds \<noteq> []" if "those (map check_segment (split_on (CHR ''/'') t)) = Some ds" for ds t
        using that by (cases "split_on (CHR ''/'') t") (auto split: option.splits)
      have IH: "decode_loop (drop (i + 1) rest) (out @ d @ ''/'') =
          map_option (\<lambda>ds. (out @ d @ ''/'') @ join_on (CHR ''/'') ds)
            (those (map check_segment (split_on (CHR ''/'') (drop (i + 1) rest))))"
        using 1[OF Some d] .
      have l: "decode_loop rest out = decode_loop (drop (i + 1) rest) (out @ d @ ''/'')"
        by (subst decode_loop.simps) (simp add: Some d)
      have r: "split_on (CHR ''/'') rest = take i rest # split_on (CHR ''/'') (drop (i + 1) rest)"
        by (subst split_on_step) (simp add: Some)
      show ?thesis
        using ne[of "drop (i + 1) rest"]
        by (cases "those (map check_segment (split_on (CHR ''/'') (drop (i + 1) rest)))")
           (auto simp: l r d j IH[simplified])
    qed
  qed
qed

lemma decodePath_spec:
  "decodePath p = map_option (join_on (CHR ''/'')) (those (map check_segment (split_on (CHR ''/'') p)))"
  by (simp add: decodePath_def decode_loop_spec)

lemma those_Some_iff:
  "those xs = Some ys \<longleftrightarrow> length xs = length ys \<and> (\<forall>i < length xs. xs ! i = Some (ys ! i))"
proof (induction xs arbitrary: ys)
  case Nil
  then show ?case by auto
next
  case (Cons x xs)
  show ?case
  proof (cases ys)
    case Nil
    then show ?thesis by (auto split: option.splits)
  next
    case (Cons y zs)
    with Cons.IH[of zs] show ?thesis
      by (cases x) (auto simp: All_less_Suc2)
  qed
qed

lemma decodePath_segments:
  assumes "decodePath p = Some out"
  shows "length (split_on (CHR ''/'') out) = length (split_on (CHR ''/'') p) \<and>
    (\<forall>i < length (split_on (CHR ''/'') p).
       check_segment (split_on (CHR ''/'') p ! i) = Some (split_on (CHR ''/'') out ! i))"
proof -
  from assms obtain ds where ds: "those (map check_segment (split_on (CHR ''/'') p)) = Some ds"
    and out: "out = join_on (CHR ''/'') ds"
    by (auto simp: decodePath_spec)
  then have len: "length ds = length (split_on (CHR ''/'') p)"
    and each: "\<And>i. i < length ds \<Longrightarrow> check_segment (split_on (CHR ''/'') p ! i) = Some (ds ! i)"
    by (auto simp: those_Some_iff)
  have "CHR ''/'' \<notin> set d" if "d \<in> set ds" for d
  proof -
    from that obtain i where i: "i < length ds" "d = ds ! i" by (auto simp: in_set_conv_nth)
    then have "CHR ''/'' \<notin> set (split_on (CHR ''/'') p ! i)"
      using len by (intro split_on_segment[of _ _ p]) auto
    with check_segment_no_slash[OF each[OF i(1)]] i(2) show ?thesis by simp
  qed
  moreover have "ds \<noteq> []" using len by (metis length_0_conv split_on_nonempty)
  ultimately have "split_on (CHR ''/'') out = ds" unfolding out by (intro split_join) auto
  with len each show ?thesis by simp
qed

section \<open>Percent-encoding, the inverse\<close>

definition hex_char :: "nat \<Rightarrow> char" where
  "hex_char n = (if n < 10 then char_of (48 + n) else char_of (55 + n))"

text \<open>Encode the bytes that satisfy \<open>P\<close>, and the percent sign always.\<close>

definition pct_encode :: "(char \<Rightarrow> bool) \<Rightarrow> string \<Rightarrow> string" where
  "pct_encode P s = concat (map (\<lambda>c. if P c \<or> c = CHR ''%''
     then [CHR ''%'', hex_char (byte c div 16), hex_char (byte c mod 16)] else [c]) s)"

lemma pct_encode_simps [simp]:
  "pct_encode P [] = []"
  "pct_encode P (c # cs) = (if P c \<or> c = CHR ''%''
     then [CHR ''%'', hex_char (byte c div 16), hex_char (byte c mod 16)] else [c]) @ pct_encode P cs"
  by (simp_all add: pct_encode_def)

lemma hexValue_hex_char: "n < 16 \<Longrightarrow> hexValue (hex_char n) = int n"
  by (auto simp: hexValue_def hex_char_def)

lemma hex_char_no_slash: "n < 16 \<Longrightarrow> hex_char n \<noteq> CHR ''/''"
proof -
  assume n: "n < 16"
  then have "byte (hex_char n) \<noteq> 47" by (auto simp: hex_char_def)
  then show ?thesis using byte_slash by blast
qed

lemma decode_segment_pct_encode:
  "\<forall>c \<in> set s. safe_byte c \<Longrightarrow> \<exists>h'. decode_segment (pct_encode P s) d h = Some (d @ s, h')"
proof (induction s arbitrary: d h)
  case Nil
  then show ?case by simp
next
  case (Cons c cs)
  have c: "0x20 \<le> byte c" "byte c \<noteq> 0x7F" "byte c \<noteq> 47"
    using Cons.prems byte_slash[of c] by (auto simp: safe_byte_def)
  have hv: "hexValue (hex_char (byte c div 16)) = int (byte c div 16)"
    "hexValue (hex_char (byte c mod 16)) = int (byte c mod 16)"
    using byte_less_256[of c] by (auto intro!: hexValue_hex_char simp: less_mult_imp_div_less)
  have eq: "nat (int (byte c div 16) * 16 + int (byte c mod 16)) = byte c"
    by (simp add: nat_eq_iff flip: of_nat_mult of_nat_add) presburger
  have ch: "char_of (byte c) = c" by (simp add: byte_def)
  have esc: "decode_escape (hex_char (byte c div 16)) (hex_char (byte c mod 16)) = Some c"
    using c by (simp add: decode_escape_def Let_def hv eq ch)
  have lit: "decode_segment (c # t) d h = decode_segment t (d @ [c]) h" if "c \<noteq> CHR ''%''" for t
    using that by (cases t rule: list.exhaust; cases "tl t") auto
  have "\<exists>h'. decode_segment (pct_encode P cs) (d @ [c]) h1 = Some ((d @ [c]) @ cs, h')" for h1
    using Cons.prems by (intro Cons.IH) simp
  then show ?case by (cases "P c \<or> c = CHR ''%''") (auto simp: esc lit)
qed

lemma check_segment_pct_encode:
  assumes "\<forall>c \<in> set s. safe_byte c" and "s \<noteq> ''..''"
  shows "check_segment (pct_encode P s) = Some s"
  using decode_segment_pct_encode[OF assms(1), of P "[]" False] assms(2)
  by (auto simp: check_segment_def)

lemma pct_encode_no_slash:
  "\<forall>c \<in> set s. safe_byte c \<Longrightarrow> CHR ''/'' \<notin> set (pct_encode P s)"
proof (induction s)
  case Nil
  then show ?case by simp
next
  case (Cons c cs)
  have "byte c div 16 < 16" using byte_less_256[of c] by (simp add: less_mult_imp_div_less)
  then have "hex_char (byte c div 16) \<noteq> CHR ''/''" by (rule hex_char_no_slash)
  moreover have "hex_char (byte c mod 16) \<noteq> CHR ''/''" by (rule hex_char_no_slash) simp
  ultimately show ?case using Cons by (auto simp: safe_byte_def)
qed

text \<open>A path without a percent sign decodes to itself, and decoding never makes a path longer.\<close>

lemma decodePath_plain:
  assumes "CHR ''%'' \<notin> set p"
  shows "decodePath p = Some p"
proof -
  have "check_segment s = Some s" if "s \<in> set (split_on (CHR ''/'') p)" for s
  proof -
    have "set s \<subseteq> set p" using that
    proof (induction p arbitrary: s)
      case Nil
      then show ?case by simp
    next
      case (Cons x xs)
      obtain u us where u: "split_on (CHR ''/'') xs = u # us" by (cases "split_on (CHR ''/'') xs") auto
      with Cons show ?case by (fastforce split: if_splits)
    qed
    with assms show ?thesis by (intro check_segment_no_percent) auto
  qed
  then have "those (map check_segment (split_on (CHR ''/'') p)) = Some (split_on (CHR ''/'') p)"
    by (auto simp: those_Some_iff)
  then show ?thesis by (simp add: decodePath_spec)
qed

lemma decode_segment_length:
  "decode_segment seg d e = Some (out, e') \<Longrightarrow> length out \<le> length d + length seg"
  by (induction seg d e rule: decode_segment.induct) (fastforce split: if_splits option.splits)+

lemma check_segment_length: "check_segment s = Some d \<Longrightarrow> length d \<le> length s"
  using decode_segment_length[of s "[]" False]
  by (auto simp: check_segment_def split: option.splits if_splits)

lemma decode_loop_length: "decode_loop rest out = Some d \<Longrightarrow> length d \<le> length out + length rest"
proof (induction rest out rule: decode_loop.induct)
  case (1 rest out)
  show ?case
  proof (cases "find_char (CHR ''/'') rest")
    case None
    with "1.prems" show ?thesis
      by (auto simp: decode_loop.simps[of rest] split: option.splits dest: check_segment_length)
  next
    case (Some i)
    with "1.prems" obtain x where x: "check_segment (take i rest) = Some x"
      "decode_loop (drop (i + 1) rest) (out @ x @ ''/'') = Some d"
      by (auto simp: decode_loop.simps[of rest] split: option.splits)
    have "i < length rest" using Some by (simp add: find_char_Some)
    with "1.IH"[OF Some x] check_segment_length[OF x(1)] show ?thesis by simp
  qed
qed

lemma decodePath_length: "decodePath p = Some d \<Longrightarrow> length d \<le> length p"
  using decode_loop_length[of p "[]" d] by (simp add: decodePath_def)

section \<open>Properties\<close>

text \<open>
  C16. Decoding never creates path structure: an accepted path has as many '/'-separated segments
  as the raw path, a segment that reads ".." after decoding was literally ".." before, and every
  control character or DEL in the result was already there literally.
\<close>

theorem decodePath_creates_no_structure:
  assumes "decodePath p = Some out"
  shows "length (split_on (CHR ''/'') out) = length (split_on (CHR ''/'') p) \<and>
    (\<forall>i < length (split_on (CHR ''/'') out).
       split_on (CHR ''/'') out ! i = ''..'' \<longrightarrow> split_on (CHR ''/'') p ! i = ''..'') \<and>
    (\<forall>i < length (split_on (CHR ''/'') out). \<forall>c \<in> set (split_on (CHR ''/'') out ! i).
       byte c < 0x20 \<or> byte c = 0x7F \<longrightarrow> c \<in> set (split_on (CHR ''/'') p ! i))"
proof -
  note seg = decodePath_segments[OF assms]
  have "c \<in> set (split_on (CHR ''/'') p ! i)"
    if "i < length (split_on (CHR ''/'') out)" "c \<in> set (split_on (CHR ''/'') out ! i)"
      "byte c < 0x20 \<or> byte c = 0x7F" for i c
  proof -
    have "check_segment (split_on (CHR ''/'') p ! i) = Some (split_on (CHR ''/'') out ! i)"
      using seg that(1) by simp
    from check_segment_bytes[OF this that(2)] that(3) show ?thesis by (auto simp: safe_byte_def)
  qed
  with seg check_segment_dotdot show ?thesis by simp
qed

theorem decodePath_creates_no_structure_witness:
  "decodePath ''/a%20b/../%41'' = Some ''/a b/../A'' \<and>
   length (split_on (CHR ''/'') ''/a b/../A'') = length (split_on (CHR ''/'') ''/a%20b/../%41'')"
proof -
  have "decodePath ''/a%20b/../%41'' = Some ''/a b/../A''" by code_simp
  with decodePath_creates_no_structure[OF this] show ?thesis by blast
qed

text \<open>
  C17. Decoding inverts percent-encoding: for any choice of which bytes are escaped, the encoded
  segments joined by '/' decode to the segments joined by '/', provided no segment holds a
  control character, DEL or '/', and none is "..".
\<close>

theorem decodePath_inverts_encoding:
  assumes "segs \<noteq> []" and "\<forall>s \<in> set segs. (\<forall>c \<in> set s. safe_byte c) \<and> s \<noteq> ''..''"
  shows "decodePath (join_on (CHR ''/'') (map (pct_encode P) segs)) = Some (join_on (CHR ''/'') segs)"
proof -
  have "split_on (CHR ''/'') (join_on (CHR ''/'') (map (pct_encode P) segs)) = map (pct_encode P) segs"
    using assms by (intro split_join) (auto dest: pct_encode_no_slash)
  moreover have "those (map check_segment (map (pct_encode P) segs)) = Some segs"
    using assms(2) by (auto simp: those_Some_iff intro!: check_segment_pct_encode)
  ultimately show ?thesis by (simp add: decodePath_spec)
qed

theorem decodePath_inverts_encoding_witness:
  "decodePath ''files/a%20b%25.txt'' = Some ''files/a b%.txt''"
proof -
  let ?segs = "[''files'', ''a b%.txt'']" and ?P = "\<lambda>c. c = CHR '' ''"
  have "join_on (CHR ''/'') (map (pct_encode ?P) ?segs) = ''files/a%20b%25.txt''" by code_simp
  with decodePath_inverts_encoding[of ?segs ?P] show ?thesis
    by (simp add: safe_byte_def byte_def)
qed

end
