(* ===== verification/Http_Router.thy ===== *)
theory Http_Router
  imports Http_Message Url_Decode
begin

text \<open>
  The router, \<^verbatim>\<open>src/http/HttpRouter.cpp\<close>. The regular-expression engine is a parameter: a compiled
  pattern is a value of type \<open>'rx\<close>, \<open>regex_match\<close> gives the match results of a pattern against a
  whole string, and \<open>regex\<close> compiles the text of a pattern or throws (None). A handler is the
  application's code; it maps the request and the response it is given to the response it leaves
  behind and a flag that says whether it threw.
\<close>

section \<open>Definitions\<close>

type_synonym smatch = "string list"
type_synonym HttpHandler = "HttpRequest \<Rightarrow> HttpResponse \<Rightarrow> HttpResponse \<times> bool"
type_synonym HttpHandlerWithCaptures = "HttpRequest \<Rightarrow> HttpResponse \<Rightarrow> smatch \<Rightarrow> HttpResponse \<times> bool"

record 'rx Route =
  route_method :: string
  path_regex :: 'rx
  handler :: "HttpHandler option"
  handler_with_captures :: "HttpHandlerWithCaptures option"
  uses_captures :: bool

definition MAX_ROUTABLE_PATH :: nat where "MAX_ROUTABLE_PATH = 2048"

text \<open>Copying a router copies every route, field by field.\<close>

fun copy_routes :: "'rx Route list \<Rightarrow> 'rx Route list" where
  "copy_routes [] = []"
| "copy_routes (r # rs) =
     \<lparr>route_method = route_method r, path_regex = path_regex r, handler = handler r,
      handler_with_captures = handler_with_captures r, uses_captures = uses_captures r\<rparr> # copy_routes rs"

definition addRoute ::
  "(string \<Rightarrow> 'rx option) \<Rightarrow> string \<Rightarrow> string \<Rightarrow> HttpHandler option \<Rightarrow> 'rx Route list \<Rightarrow> 'rx Route list option" where
  "addRoute regex meth pathRegex h routes =
     (case regex pathRegex of
        None \<Rightarrow> None
      | Some rx \<Rightarrow> Some (routes @ [\<lparr>route_method = meth, path_regex = rx, handler = h,
          handler_with_captures = None, uses_captures = False\<rparr>]))"

definition addRouteWithCaptures ::
  "(string \<Rightarrow> 'rx option) \<Rightarrow> string \<Rightarrow> string \<Rightarrow> HttpHandlerWithCaptures option \<Rightarrow> 'rx Route list \<Rightarrow>
   'rx Route list option" where
  "addRouteWithCaptures regex meth pathRegex h routes =
     (case regex pathRegex of
        None \<Rightarrow> None
      | Some rx \<Rightarrow> Some (routes @ [\<lparr>route_method = meth, path_regex = rx, handler = None,
          handler_with_captures = h, uses_captures = True\<rparr>]))"

definition router_get where "router_get regex = addRoute regex ''GET''"
definition router_post where "router_post regex = addRoute regex ''POST''"
definition router_put where "router_put regex = addRoute regex ''PUT''"
definition router_del where "router_del regex = addRoute regex ''DELETE''"
definition router_all where "router_all regex = addRoute regex ''ALL''"
definition getWithCaptures where "getWithCaptures regex = addRouteWithCaptures regex ''GET''"
definition postWithCaptures where "postWithCaptures regex = addRouteWithCaptures regex ''POST''"
definition putWithCaptures where "putWithCaptures regex = addRouteWithCaptures regex ''PUT''"
definition delWithCaptures where "delWithCaptures regex = addRouteWithCaptures regex ''DELETE''"
definition allWithCaptures where "allWithCaptures regex = addRouteWithCaptures regex ''ALL''"

definition fallback_to_default_headers :: "HttpResponse \<Rightarrow> HttpResponse" where
  "fallback_to_default_headers res =
     (let res1 = (if res_getHeader res ''content-length'' = []
                  then setHeader ''content-length'' (nat_to_string (length (res_body res))) res else res) in
      if res_getHeader res1 ''content-type'' = [] \<and> file_path res1 = []
      then setHeader ''content-type'' ''text/plain'' res1 else res1)"

definition handle_bad_request :: "HttpResponse \<Rightarrow> HttpResponse" where
  "handle_bad_request res =
     setHeader ''content-type'' ''text/plain'' (setBody ''Bad Request'' (setStatus 400 ''Bad Request'' res))"

definition handle_uri_too_long :: "HttpResponse \<Rightarrow> HttpResponse" where
  "handle_uri_too_long res =
     setHeader ''content-type'' ''text/plain'' (setBody ''URI Too Long'' (setStatus 414 ''URI Too Long'' res))"

definition handle_not_found :: "HttpResponse \<Rightarrow> HttpResponse" where
  "handle_not_found res =
     (let res1 = setHeader ''content-type'' ''text/plain'' (setBody ''Not Found'' (setStatus 404 ''Not Found'' res)) in
      setHeader ''content-length'' (nat_to_string (length (res_body res1))) res1)"

text \<open>The try block: which handler runs, and what the catch clause does.\<close>

definition run_handler :: "'rx Route \<Rightarrow> HttpRequest \<Rightarrow> smatch \<Rightarrow> HttpResponse \<Rightarrow> HttpResponse" where
  "run_handler route req m res =
     (let (res1, threw) =
        (case (uses_captures route, handler_with_captures route, handler route) of
           (True, Some h, _) \<Rightarrow> h req res m
         | (False, _, Some h) \<Rightarrow> h req res
         | _ \<Rightarrow> (setBody ''Route configuration error'' (setStatus 500 ''Internal Server Error'' res), False)) in
      if threw then setBody ''Internal Server Error'' (setStatus 500 ''Internal Server Error'' res1) else res1)"

definition finish_response :: "HttpResponse \<Rightarrow> HttpResponse" where
  "finish_response res =
     (let (res1, ok) = normalizeHeaders res;
          res2 = (if ok then res1
                  else setBody ''Internal Server Error'' (setStatus 500 ''Internal Server Error'' HttpResponse_init)) in
      fallback_to_default_headers res2)"

fun match_routes ::
  "('rx \<Rightarrow> string \<Rightarrow> smatch option) \<Rightarrow> 'rx Route list \<Rightarrow> string \<Rightarrow> HttpRequest \<Rightarrow> HttpResponse \<Rightarrow> HttpResponse" where
  "match_routes regex_match [] route_path req res = handle_not_found res"
| "match_routes regex_match (route # routes) route_path req res =
     (if route_method route \<noteq> ''ALL'' \<and> route_method route \<noteq> req_method req
      then match_routes regex_match routes route_path req res
      else (case regex_match (path_regex route) route_path of
              None \<Rightarrow> match_routes regex_match routes route_path req res
            | Some m \<Rightarrow> finish_response (run_handler route req m res)))"

definition dispatch ::
  "('rx \<Rightarrow> string \<Rightarrow> smatch option) \<Rightarrow> 'rx Route list \<Rightarrow> HttpRequest \<Rightarrow> HttpResponse \<Rightarrow> HttpResponse" where
  "dispatch regex_match routes req res =
     (let route_path = (case find_char (CHR ''?'') (req_path req) of
                          None \<Rightarrow> req_path req | Some query \<Rightarrow> take query (req_path req)) in
      if length route_path > MAX_ROUTABLE_PATH then handle_uri_too_long res
      else if find_char (CHR ''%'') route_path \<noteq> None
      then (case decodePath route_path of
              None \<Rightarrow> handle_bad_request res
            | Some decoded \<Rightarrow> match_routes regex_match routes decoded req res)
      else match_routes regex_match routes route_path req res)"

section \<open>Which route answers\<close>

lemma copy_routes_id: "copy_routes (rs :: 'rx Route list) = rs"
  by (induction rs) simp_all

definition route_applies :: "('rx \<Rightarrow> string \<Rightarrow> smatch option) \<Rightarrow> string \<Rightarrow> HttpRequest \<Rightarrow> 'rx Route \<Rightarrow> bool" where
  "route_applies regex_match path req route \<longleftrightarrow>
     (route_method route = ''ALL'' \<or> route_method route = req_method req) \<and>
     regex_match (path_regex route) path \<noteq> None"

definition route_path :: "HttpRequest \<Rightarrow> string" where
  "route_path req = takeWhile (\<lambda>c. c \<noteq> CHR ''?'') (req_path req)"

lemma match_routes_find:
  "match_routes rm routes path req res =
     (case find (route_applies rm path req) routes of
        None \<Rightarrow> handle_not_found res
      | Some route \<Rightarrow> finish_response (run_handler route req (the (rm (path_regex route) path)) res))"
  by (induction rm routes path req res rule: match_routes.induct)
     (auto simp: route_applies_def split: option.splits)

lemma route_path_code:
  "(case find_char c s of None \<Rightarrow> s | Some q \<Rightarrow> take q s) = takeWhile (\<lambda>x. x \<noteq> c) s"
proof (cases "find_char c s")
  case None
  then have "c \<notin> set s" by (simp add: find_char_None)
  then have "takeWhile (\<lambda>x. x \<noteq> c) s = s" by (subst takeWhile_eq_all_conv) auto
  with None show ?thesis by (simp only: option.case)
next
  case (Some q)
  then have "s = take q s @ c # drop (Suc q) s" "c \<notin> set (take q s)"
    by (simp_all add: find_char_split) (auto simp: find_char_Some in_set_conv_nth)
  then have "takeWhile (\<lambda>x. x \<noteq> c) s = take q s"
    by (metis (mono_tags, lifting) takeWhile_append2 takeWhile.simps(2) append_Nil2)
  with Some show ?thesis by simp
qed

lemma dispatch_decoded:
  "dispatch rm routes req res =
     (if length (route_path req) > MAX_ROUTABLE_PATH then handle_uri_too_long res
      else (case decodePath (route_path req) of
              None \<Rightarrow> handle_bad_request res
            | Some path \<Rightarrow> match_routes rm routes path req res))"
proof -
  have "decodePath (route_path req) = Some (route_path req)"
    if "find_char (CHR ''%'') (route_path req) = None"
    using that by (simp add: decodePath_plain find_char_None)
  then show ?thesis
    unfolding dispatch_def route_path_code route_path_def[symmetric]
    by (auto simp: Let_def)
qed

section \<open>What reaches the writer\<close>

text \<open>A response with everything the writer needs: folded names, a length, a type unless a file is sent.\<close>

definition complete_headers :: "HttpResponse \<Rightarrow> bool" where
  "complete_headers res \<longleftrightarrow> hdr_wf (res_headers res) \<and> lower_keys (res_headers res) \<and>
     res_getHeader res ''content-length'' \<noteq> [] \<and>
     (file_path res = [] \<longrightarrow> res_getHeader res ''content-type'' \<noteq> [])"

lemma getHeader_setHeader:
  "res_getHeader (setHeader n v r) k = (if lowercase k = lowercase n then v else res_getHeader r k)"
  by (simp add: res_getHeader_def read_header_def map_of_setHeader)

lemma lower_names [simp]:
  "lowercase ''content-length'' = ''content-length''" "lowercase ''content-type'' = ''content-type''"
  by code_simp+

lemma fallback_complete:
  assumes "hdr_wf (res_headers res)" "lower_keys (res_headers res)"
  shows "complete_headers (fallback_to_default_headers res)"
proof -
  let ?r1 = "if res_getHeader res ''content-length'' = []
    then setHeader ''content-length'' (nat_to_string (length (res_body res))) res else res"
  have "hdr_wf (res_headers ?r1) \<and> lower_keys (res_headers ?r1) \<and> res_getHeader ?r1 ''content-length'' \<noteq> []"
    using assms by (simp add: hdr_wf_setHeader lower_keys_setHeader getHeader_setHeader)
  then show ?thesis
    unfolding fallback_to_default_headers_def Let_def complete_headers_def
    by (auto simp: hdr_wf_setHeader lower_keys_setHeader getHeader_setHeader split: if_splits)
qed

lemma finish_complete: "complete_headers (finish_response res)"
proof -
  have w: "hdr_wf (res_headers (setBody b (setStatus c t HttpResponse_init))) \<and>
      lower_keys (res_headers (setBody b (setStatus c t HttpResponse_init)))" for b c t
    by (simp add: setBody_def hdr_wf_setHeader lower_keys_setHeader)
       (simp add: HttpResponse_init_def setStatus_def hdr_wf_def lower_keys_def setHeader_def)
  show ?thesis
    unfolding finish_response_def
    using normalizeHeaders_wf[of res] w by (auto simp: Let_def split_beta intro!: fallback_complete)
qed

lemma init_wf: "hdr_wf (res_headers HttpResponse_init)" "lower_keys (res_headers HttpResponse_init)"
  by (simp_all add: HttpResponse_init_def hdr_wf_def lower_keys_def)

lemma error_pages_complete:
  "complete_headers (handle_bad_request HttpResponse_init)"
  "complete_headers (handle_uri_too_long HttpResponse_init)"
  "complete_headers (handle_not_found HttpResponse_init)"
  by (simp_all add: complete_headers_def handle_bad_request_def handle_uri_too_long_def handle_not_found_def
      setBody_def Let_def hdr_wf_setHeader lower_keys_setHeader getHeader_setHeader init_wf)

section \<open>Properties\<close>


text \<open>
  No pattern is ever run over a long subject: two regular-expression engines that agree on
  subjects of at most 2048 bytes give the same answer to every request, however long its target
  and whatever its escapes expand to.
\<close>

lemma dispatch_bounds_regex_subject:
  assumes "\<And>rx s. length s \<le> MAX_ROUTABLE_PATH \<Longrightarrow> rm rx s = rm' rx s"
  shows "dispatch rm routes req res = dispatch rm' routes req res"
proof -
  have "match_routes rm routes path req res = match_routes rm' routes path req res"
    if "decodePath (route_path req) = Some path" "length (route_path req) \<le> MAX_ROUTABLE_PATH" for path
  proof -
    have "length path \<le> MAX_ROUTABLE_PATH" using decodePath_length[OF that(1)] that(2) by simp
    then show ?thesis by (induction routes) (simp_all add: assms split: option.splits)
  qed
  then show ?thesis by (auto simp: dispatch_decoded split: option.splits)
qed

definition hello_route :: "unit Route" where
  "hello_route = \<lparr>route_method = ''ALL'', path_regex = (), handler = Some (\<lambda>q r. (setBody ''hi'' r, False)),
     handler_with_captures = None, uses_captures = False\<rparr>"

text \<open>
  Whatever the handler did to the header map, the response that leaves the router has each
  field once under its lower-case name, a content-length, and a content-type unless it names a
  file; this holds of the error answers too.
\<close>

lemma dispatch_complete_headers:
  "complete_headers (dispatch rm routes req HttpResponse_init)"
  using error_pages_complete finish_complete
  by (auto simp: dispatch_decoded match_routes_find split: option.splits)

text \<open>
  A handler that throws is answered with status 500 and the fixed body, but a file path it had
  already set is kept in the response.
\<close>

lemma throwing_handler_keeps_file:
  assumes "route = \<lparr>route_method = ''ALL'', path_regex = rx, handler = Some h,
      handler_with_captures = None, uses_captures = False\<rparr>"
    and "length (route_path req) \<le> MAX_ROUTABLE_PATH" "decodePath (route_path req) = Some path"
    and "rm rx path = Some m" "h req HttpResponse_init = (sendFile file HttpResponse_init, True)"
  shows "status_code (dispatch rm [route] req HttpResponse_init) = 500 \<and>
     res_body (dispatch rm [route] req HttpResponse_init) = ''Internal Server Error'' \<and>
     file_path (dispatch rm [route] req HttpResponse_init) = file"
proof -
  have fb: "status_code (fallback_to_default_headers r) = status_code r \<and>
      res_body (fallback_to_default_headers r) = res_body r \<and>
      file_path (fallback_to_default_headers r) = file_path r" for r
    by (simp add: fallback_to_default_headers_def Let_def)
  let ?r = "setBody ''Internal Server Error'' (setStatus 500 ''Internal Server Error'' (sendFile file HttpResponse_init))"
  have "dispatch rm [route] req HttpResponse_init = finish_response ?r"
    using assms by (simp add: dispatch_decoded run_handler_def)
  moreover have "spellings_agree (res_headers ?r)"
    by (simp add: spellings_agree_def setBody_def setHeader_def sendFile_def HttpResponse_init_def setStatus_def)
  then have "snd (normalizeHeaders ?r)" by (simp add: normalizeHeaders_consistent_iff)
  moreover have "status_code (fst (normalizeHeaders r)) = status_code r \<and>
      res_body (fst (normalizeHeaders r)) = res_body r \<and> file_path (fst (normalizeHeaders r)) = file_path r" for r
    by (simp add: normalizeHeaders_def split_beta)
  ultimately show ?thesis
    by (simp add: finish_response_def split_beta Let_def fb sendFile_def)
qed

end
