(* ===== verification/Http_Connection.thy ===== *)
theory Http_Connection
  imports Http_File_Job Http_Router Http_Parser
begin

text \<open>
  One client connection: \<^verbatim>\<open>HttpConnectionJob\<close> of \<^verbatim>\<open>src/http/SingleRingHttpServer.cpp\<close> with the jobs that serve
  it, \<^verbatim>\<open>MultishotRecvJob.hpp\<close>, \<^verbatim>\<open>HttpConnectionRecvHandler.cpp\<close> and \<^verbatim>\<open>IdleTimeoutJob.cpp\<close>. The connection reads with
  one multishot receive, answers one request at a time, arms a timer while it is idle, and closes only
  when nothing in the kernel refers to it any more.

  A method of the connection maps the connection and the ring to what is left of the connection:
  \<open>Live\<close> with the response that is on the wire, or \<open>Freed\<close>. The pool generation the code compares before
  it calls into a connection is the identity \<open>cn_id\<close>, fresh for every connection. Where a job calls its
  owner back and is then returned to the pool, the model does both in that order or the other; the
  two touch different parts of the state.
\<close>

section \<open>The connection\<close>

record conn =
  cn_id :: nat
  cn_client_fd :: int
  cn_request_buffer :: string
  cn_max_request_size :: nat
  cn_idle_timeout_ms :: nat
  cn_reading_active :: bool
  cn_keep_alive :: bool
  cn_pending_range :: "ByteRangeSpec option"
  cn_advertise_keep_alive :: bool
  cn_response_in_flight :: bool
  cn_close_pending :: bool
  cn_active_read_job :: "nat option"
  cn_read_cancel_pending :: bool
  cn_deferred_close_fd :: int
  cn_active_idle_timeout_job :: "nat option"
  cn_idle_cancel_pending :: bool

text \<open>The response on the wire, with the keep-alive decision its callback captured.\<close>

datatype response_child = BodyWrite WriteJob bool | FileTransfer HTTPFileJob file_child bool

datatype conn_state = Live conn "response_child option" | Freed

text \<open>What the connection gets from outside: \<^verbatim>\<open>gmtime_r\<close>, and the answer of the router to a request.\<close>

record app =
  gmtime :: "int \<Rightarrow> tm option"
  respond :: "HttpRequest \<Rightarrow> HttpResponse"

definition router_app :: "(int \<Rightarrow> tm option) \<Rightarrow> ('rx \<Rightarrow> string \<Rightarrow> smatch option) \<Rightarrow> 'rx Route list \<Rightarrow> app" where
  "router_app gm regex_match routes =
     \<lparr>gmtime = gm, respond = (\<lambda>request. dispatch regex_match routes request HttpResponse_init)\<rparr>"

definition HttpConnectionJob_init :: "nat \<Rightarrow> int \<Rightarrow> nat \<Rightarrow> nat \<Rightarrow> conn" where
  "HttpConnectionJob_init i fd max_size idle_ms =
     \<lparr>cn_id = i, cn_client_fd = fd, cn_request_buffer = [], cn_max_request_size = max_size,
      cn_idle_timeout_ms = idle_ms, cn_reading_active = False, cn_keep_alive = True, cn_pending_range = None,
      cn_advertise_keep_alive = False, cn_response_in_flight = False, cn_close_pending = False,
      cn_active_read_job = None, cn_read_cancel_pending = False, cn_deferred_close_fd = - 1,
      cn_active_idle_timeout_job = None, cn_idle_cancel_pending = False\<rparr>"

section \<open>Timers and cancellation\<close>

definition armIdleTimeout :: "conn \<Rightarrow> ring \<Rightarrow> conn \<times> ring" where
  "armIdleTimeout c w =
     (if cn_idle_timeout_ms c = 0 \<or> cn_client_fd c < 0 then (c, w)
      else (case pool_alloc w of
              (None, w1) \<Rightarrow> (c, w1)
            | (Some t, w1) \<Rightarrow>
                let (sqe, w2) = registerJob t (OpTimeout (cn_idle_timeout_ms c)) w1 in
                if \<not> sqe then (c, pool_free t w2)
                else (c\<lparr>cn_active_idle_timeout_job := Some t, cn_idle_cancel_pending := False\<rparr>, snd (submit w2))))"

text \<open>A null pointer is the identity 0, which no object has.\<close>

definition submitIdleTimeoutCancel :: "conn \<Rightarrow> ring \<Rightarrow> bool \<times> ring" where
  "submitIdleTimeoutCancel c w =
     submit_cancel (case cn_active_idle_timeout_job c of None \<Rightarrow> 0 | Some t \<Rightarrow> t) w"

definition submitRecvCancel :: "conn \<Rightarrow> ring \<Rightarrow> bool \<times> ring" where
  "submitRecvCancel c w =
     submit_cancel (case cn_active_read_job c of None \<Rightarrow> 0 | Some r \<Rightarrow> r) w"

definition startReading :: "conn \<Rightarrow> ring \<Rightarrow> conn \<times> ring" where
  "startReading c w =
     (if cn_reading_active c \<or> cn_client_fd c < 0 then (c, w)
      else let c1 = c\<lparr>cn_reading_active := True\<rparr> in
        (case pool_alloc w of
           (None, w1) \<Rightarrow> (c1\<lparr>cn_reading_active := False\<rparr>, w1)
         | (Some r, w1) \<Rightarrow>
             let (sqe, w2) = registerJob r (OpRecvMultishot (cn_client_fd c1)) w1 in
             if sqe then armIdleTimeout (c1\<lparr>cn_active_read_job := Some r\<rparr>) (snd (submit w2))
             else (c1\<lparr>cn_reading_active := False\<rparr>, pool_free r w2)))"

definition conn_start :: "conn \<Rightarrow> ring \<Rightarrow> conn \<times> ring" where
  "conn_start c w = startReading c w"

definition continueReading :: "conn \<Rightarrow> ring \<Rightarrow> conn \<times> ring" where
  "continueReading c w = armIdleTimeout c w"

definition wantsContinuedRead :: "conn \<Rightarrow> bool" where
  "wantsContinuedRead c \<longleftrightarrow> cn_client_fd c \<ge> 0 \<and> \<not> cn_close_pending c \<and> cn_reading_active c \<and>
     cn_active_read_job c \<noteq> None"

section \<open>Closing\<close>

text \<open>The two legs that cancel what is armed; afterwards a leg that is still set is waited for.\<close>

definition close_idle_leg :: "conn \<Rightarrow> ring \<Rightarrow> conn \<times> ring" where
  "close_idle_leg c w =
     (if cn_active_idle_timeout_job c \<noteq> None \<and> \<not> cn_idle_cancel_pending c then
        let (ok, w1) = submitIdleTimeoutCancel c w in
        if ok then (c\<lparr>cn_idle_cancel_pending := True\<rparr>, w1)
        else (c\<lparr>cn_active_idle_timeout_job := None\<rparr>, w1)
      else (c, w))"

definition close_recv_leg :: "conn \<Rightarrow> ring \<Rightarrow> conn \<times> ring" where
  "close_recv_leg c w =
     (if cn_active_read_job c \<noteq> None \<and> \<not> cn_read_cancel_pending c then
        let c1 = c\<lparr>cn_deferred_close_fd := cn_client_fd c, cn_client_fd := - 1\<rparr>;
            (ok, w1) = submitRecvCancel c1 w in
        if ok then (c1\<lparr>cn_read_cancel_pending := True\<rparr>, w1)
        else (c1\<lparr>cn_active_read_job := None\<rparr>, w1)
      else (c, w))"

definition closeConnection :: "conn \<Rightarrow> response_child option \<Rightarrow> ring \<Rightarrow> conn_state \<times> ring" where
  "closeConnection c child w =
     (if cn_response_in_flight c then (Live (c\<lparr>cn_close_pending := True\<rparr>) child, w)
      else let (c1, w1) = close_idle_leg (c\<lparr>cn_close_pending := True\<rparr>) w;
               (c2, w2) = close_recv_leg c1 w1 in
        if cn_active_idle_timeout_job c2 \<noteq> None \<or> cn_active_read_job c2 \<noteq> None then (Live c2 child, w2)
        else let fd_to_close = (if cn_deferred_close_fd c2 \<ge> 0 then cn_deferred_close_fd c2 else cn_client_fd c2);
                 w3 = (if fd_to_close \<ge> 0 then close_fd fd_to_close w2 else w2) in
             (Freed, pool_free (cn_id c2) w3))"

section \<open>Requests and responses\<close>

definition shouldKeepAlive :: "HttpRequest \<Rightarrow> bool" where
  "shouldKeepAlive request =
     (let options = req_getHeader request ''connection'' in
      if list_contains_token options ''close'' then False
      else if req_version request = ''HTTP/1.1'' then True
      else req_version request = ''HTTP/1.0'' \<and> list_contains_token options ''keep-alive'')"

text \<open>The connection decides, then states the decision on the response.\<close>

definition state_disposition :: "conn \<Rightarrow> HttpResponse \<Rightarrow> ring \<Rightarrow> conn \<times> HttpResponse" where
  "state_disposition c response w =
     (let c1 = (if list_contains_token (res_getHeader response ''connection'') ''close'' \<or> isStopping w
                then c\<lparr>cn_keep_alive := False\<rparr> else c) in
      (c1, if \<not> cn_keep_alive c1 then setHeader ''connection'' ''close'' response
           else if cn_advertise_keep_alive c1 then setHeader ''connection'' ''keep-alive'' response
           else response\<lparr>res_headers := AList.delete ''connection'' (res_headers response)\<rparr>))"

definition body_response :: "bool \<Rightarrow> HttpResponse \<Rightarrow> string" where
  "body_response keep_alive response =
     (case build_response_head response (of_nat (length (res_body response))) of
        Some head \<Rightarrow> if status_allows_body (status_code response) then head @ res_body response else head
      | None \<Rightarrow> fallback_error_response (\<not> keep_alive))"

text \<open>
  \<^verbatim>\<open>start\<close> of either job can report back before it returns only to say that it failed
  (\<open>fj_start_sync\<close>, \<open>write_child_step\<close>); the error callback releases the response slot and closes.
\<close>

definition response_failed :: "conn \<Rightarrow> ring \<Rightarrow> conn_state \<times> ring" where
  "response_failed c w = closeConnection (c\<lparr>cn_response_in_flight := False\<rparr>) None w"

definition sendFileResponse :: "app \<Rightarrow> conn \<Rightarrow> HttpResponse \<Rightarrow> ring \<Rightarrow> conn_state \<times> ring" where
  "sendFileResponse app c0 response w =
     (let c = c0\<lparr>cn_response_in_flight := True, cn_pending_range := None\<rparr>;
          (file_job, w1) = fj_createFromPool (cn_client_fd c) (file_path response) response True True w in
      case file_job of
        None \<Rightarrow> response_failed c w1
      | Some j \<Rightarrow>
          (case fj_start (gmtime app) (case cn_pending_range c0 of None \<Rightarrow> j | Some spec \<Rightarrow> requestRange spec j) w1 of
             (FileRunning j' child, w2) \<Rightarrow> (Live c (Some (FileTransfer j' child (cn_keep_alive c))), w2)
           | (FileDone _, w2) \<Rightarrow> response_failed c w2))"

definition sendResponse :: "app \<Rightarrow> conn \<Rightarrow> HttpResponse \<Rightarrow> ring \<Rightarrow> conn_state \<times> ring" where
  "sendResponse app c0 response0 w =
     (let (c1, response) = state_disposition c0 response0 w in
      if file_path response \<noteq> [] then sendFileResponse app c1 response w
      else let response_str = body_response (cn_keep_alive c1) response;
               c = c1\<lparr>cn_response_in_flight := True\<rparr>;
               (write_job, w1) = createFromPoolWithOwnedData (cn_client_fd c) response_str (length response_str) True True w in
        case write_job of
          None \<Rightarrow> response_failed c w1
        | Some wj \<Rightarrow>
            (case wj_start wj w1 of
               (Pending wj', w2) \<Rightarrow> (Live c (Some (BodyWrite wj' (cn_keep_alive c))), w2)
             | (_, w2) \<Rightarrow> response_failed c w2))"

definition sendErrorAndClose ::
  "app \<Rightarrow> int \<Rightarrow> string \<Rightarrow> conn \<Rightarrow> response_child option \<Rightarrow> ring \<Rightarrow> conn_state \<times> ring" where
  "sendErrorAndClose app code reason c child w =
     (let c1 = c\<lparr>cn_keep_alive := False, cn_advertise_keep_alive := False, cn_request_buffer := []\<rparr> in
      if cn_client_fd c1 < 0 \<or> cn_response_in_flight c1 then closeConnection c1 child w
      else sendResponse app c1
             (setBody reason (setHeader ''content-type'' ''text/plain'' (setStatus code reason HttpResponse_init))) w)"

definition handleHttpRequest :: "app \<Rightarrow> HttpRequest \<Rightarrow> conn \<Rightarrow> ring \<Rightarrow> conn_state \<times> ring" where
  "handleHttpRequest app request c w =
     (let c1 = c\<lparr>cn_keep_alive := shouldKeepAlive request,
                 cn_advertise_keep_alive := (req_version request \<noteq> ''HTTP/1.1''),
                 cn_pending_range := (if req_method request = ''GET''
                                      then parse_range (req_getHeader request ''range'') else None)\<rparr> in
      sendResponse app c1 (respond app request) w)"

definition processHttpRequests :: "app \<Rightarrow> conn \<Rightarrow> response_child option \<Rightarrow> ring \<Rightarrow> conn_state \<times> ring" where
  "processHttpRequests app c child w =
     (if cn_response_in_flight c \<or> cn_client_fd c < 0 \<or> cn_request_buffer c = [] then (Live c child, w)
      else (case parse_request (cn_request_buffer c) empty_request of
              (Success, request, bytes_consumed) \<Rightarrow>
                handleHttpRequest app request
                  (c\<lparr>cn_request_buffer := drop bytes_consumed (cn_request_buffer c)\<rparr>) w
            | (Incomplete, _, _) \<Rightarrow> (Live c child, w)
            | (BadRequest, _, _) \<Rightarrow> sendErrorAndClose app 400 ''Bad Request'' c child w))"

definition onResponseComplete :: "app \<Rightarrow> bool \<Rightarrow> conn \<Rightarrow> ring \<Rightarrow> conn_state \<times> ring" where
  "onResponseComplete app keep_alive c0 w =
     (let c = c0\<lparr>cn_response_in_flight := False\<rparr> in
      if cn_close_pending c then closeConnection c None w
      else if \<not> keep_alive \<or> isStopping w then closeConnection c None w
      else if cn_request_buffer c \<noteq> [] then processHttpRequests app c None w
      else let (c1, w1) = continueReading c w in (Live c1 None, w1))"

section \<open>What the kernel reports\<close>

definition handleDataReceived ::
  "app \<Rightarrow> string \<Rightarrow> int \<Rightarrow> conn \<Rightarrow> response_child option \<Rightarrow> ring \<Rightarrow> conn_state \<times> ring" where
  "handleDataReceived app data len c child w =
     (if cn_client_fd c < 0 then (Live c child, w)
      else if len = 0 then closeConnection c child w
      else if len < 0 then closeConnection c child w
      else if length (cn_request_buffer c) + nat len > cn_max_request_size c then
        (case find_str CRLF2 (cn_request_buffer c) of
           None \<Rightarrow> sendErrorAndClose app 431 ''Request Header Fields Too Large'' c child w
         | Some _ \<Rightarrow> sendErrorAndClose app 413 ''Content Too Large'' c child w)
      else
        let (c1, w1) =
              (if cn_active_idle_timeout_job c \<noteq> None \<and> \<not> cn_idle_cancel_pending c then
                 let (ok, w') = submitIdleTimeoutCancel c w in
                 (if ok then c\<lparr>cn_idle_cancel_pending := True\<rparr> else c, w')
               else (c, w)) in
        processHttpRequests app
          (c1\<lparr>cn_request_buffer := cn_request_buffer c1 @ take (nat len) data\<rparr>) child w1)"

definition handleReadError :: "int \<Rightarrow> conn \<Rightarrow> response_child option \<Rightarrow> ring \<Rightarrow> conn_state \<times> ring" where
  "handleReadError err c child w =
     (let c1 = c\<lparr>cn_active_read_job := None\<rparr> in
      if cn_client_fd c1 < 0 \<and> cn_deferred_close_fd c1 < 0 then (Live c1 child, w)
      else closeConnection c1 child w)"

definition handleIdleTimeout :: "nat \<Rightarrow> int \<Rightarrow> conn \<Rightarrow> response_child option \<Rightarrow> ring \<Rightarrow> conn_state \<times> ring" where
  "handleIdleTimeout job res c child w =
     (if cn_active_idle_timeout_job c \<noteq> Some job then (Live c child, w)
      else let c1 = c\<lparr>cn_active_idle_timeout_job := None\<rparr> in
        if res = - ECANCELED then
          if cn_close_pending c1 then closeConnection c1 child w else (Live c1 child, w)
        else if cn_client_fd c1 < 0 \<and> cn_deferred_close_fd c1 < 0 then (Live c1 child, w)
        else closeConnection c1 child w)"

text \<open>
  The receive handler and the timer hold the connection with its generation and drop a completion
  whose connection is gone.
\<close>

record HttpConnectionRecvHandler =
  rh_connection :: nat

definition rh_onError :: "HttpConnectionRecvHandler \<Rightarrow> int \<Rightarrow> conn_state \<Rightarrow> ring \<Rightarrow> conn_state \<times> ring" where
  "rh_onError h err s w =
     (case s of
        Live c child \<Rightarrow> if cn_id c = rh_connection h then handleReadError err c child w else (s, w)
      | Freed \<Rightarrow> (s, w))"

definition rh_onDataToken ::
  "app \<Rightarrow> HttpConnectionRecvHandler \<Rightarrow> string \<Rightarrow> conn_state \<Rightarrow> ring \<Rightarrow> conn_state \<times> ring" where
  "rh_onDataToken app h data s w =
     (case s of
        Live c child \<Rightarrow>
          if cn_id c = rh_connection h then handleDataReceived app data (int (length data)) c child w else (s, w)
      | Freed \<Rightarrow> (s, w))"

definition rh_shouldRearmRecv :: "HttpConnectionRecvHandler \<Rightarrow> conn_state \<Rightarrow> bool" where
  "rh_shouldRearmRecv h s =
     (case s of Live c _ \<Rightarrow> cn_id c = rh_connection h \<and> wantsContinuedRead c | Freed \<Rightarrow> False)"

section \<open>The multishot receive\<close>

record 'h MultishotRecvJob =
  mr_id :: nat
  mr_fd :: int
  mr_handler :: 'h

definition EINVAL :: int where "EINVAL = 22"

definition mr_prepareSqe :: "'h MultishotRecvJob \<Rightarrow> sqe_op" where
  "mr_prepareSqe j = OpRecvMultishot (mr_fd j)"

definition mr_requestShutdownCancel :: "'h MultishotRecvJob \<Rightarrow> ring \<Rightarrow> ring" where
  "mr_requestShutdownCancel j w = snd (submit_cancel (mr_id j) w)"

definition mr_rearm :: "'h MultishotRecvJob \<Rightarrow> ring \<Rightarrow> bool \<times> ring" where
  "mr_rearm j w =
     (let (sqe, w1) = registerJob (mr_id j) (mr_prepareSqe j) w in
      if \<not> sqe then (False, w1) else (True, snd (submit w1)))"

text \<open>
  The completion handler over any handler policy; \<open>buffer\<close> is what the buffer ring holds for the
  buffer the completion names, None for a number out of range. The flag is the returned cleanup
  callback.
\<close>

definition mr_handleCompletion ::
  "('h \<Rightarrow> string \<Rightarrow> 's \<Rightarrow> ring \<Rightarrow> 's \<times> ring) \<Rightarrow> ('h \<Rightarrow> int \<Rightarrow> 's \<Rightarrow> ring \<Rightarrow> 's \<times> ring) \<Rightarrow> ('h \<Rightarrow> 's \<Rightarrow> bool) \<Rightarrow>
   'h MultishotRecvJob \<Rightarrow> cqe \<Rightarrow> string option \<Rightarrow> 's \<Rightarrow> ring \<Rightarrow> bool \<times> 's \<times> ring" where
  "mr_handleCompletion onDataToken onError shouldRearmRecv j c buffer s w =
     (let result = cqe_res c; multishot_continues = cqe_more c in
      if result \<le> 0 then
        let (s1, w1) = onError (mr_handler j) result s w in (\<not> multishot_continues, s1, w1)
      else (case buffer of
        None \<Rightarrow> let (s1, w1) = onError (mr_handler j) (- EINVAL) s w in (\<not> multishot_continues, s1, w1)
      | Some buf \<Rightarrow>
          let (s1, w1) = onDataToken (mr_handler j) (take (nat result) buf) s w in
          if multishot_continues then (False, s1, w1)
          else let (armed, w2) = (if shouldRearmRecv (mr_handler j) s1 then mr_rearm j w1 else (False, w1)) in
            if armed then (False, s1, w2)
            else let (s2, w3) = onError (mr_handler j) (- ECANCELED) s1 w2 in (True, s2, w3)))"

definition http_recv_completion ::
  "app \<Rightarrow> HttpConnectionRecvHandler MultishotRecvJob \<Rightarrow> cqe \<Rightarrow> string option \<Rightarrow> conn_state \<Rightarrow> ring \<Rightarrow>
   bool \<times> conn_state \<times> ring" where
  "http_recv_completion app = mr_handleCompletion (rh_onDataToken app) rh_onError rh_shouldRearmRecv"

section \<open>The idle timer\<close>

record IdleTimeoutJob =
  it_id :: nat
  it_owner :: nat
  it_sec :: nat
  it_nsec :: nat

definition IdleTimeoutJob_init :: "nat \<Rightarrow> nat \<Rightarrow> nat \<Rightarrow> IdleTimeoutJob" where
  "IdleTimeoutJob_init i owner timeout_ms =
     \<lparr>it_id = i, it_owner = owner, it_sec = timeout_ms div 1000, it_nsec = (timeout_ms mod 1000) * 1000000\<rparr>"

definition it_handleCompletion :: "IdleTimeoutJob \<Rightarrow> cqe \<Rightarrow> conn_state \<Rightarrow> ring \<Rightarrow> conn_state \<times> ring" where
  "it_handleCompletion j c s w =
     (case s of
        Live cn child \<Rightarrow> if cn_id cn = it_owner j then handleIdleTimeout (it_id j) (cqe_res c) cn child w else (s, w)
      | Freed \<Rightarrow> (s, w))"

definition it_requestShutdownCancel :: "IdleTimeoutJob \<Rightarrow> ring \<Rightarrow> ring" where
  "it_requestShutdownCancel j w = snd (submit_cancel (it_id j) w)"

section \<open>Completions of the response\<close>

definition response_callback :: "app \<Rightarrow> bool \<Rightarrow> job_cb \<Rightarrow> conn \<Rightarrow> ring \<Rightarrow> conn_state \<times> ring" where
  "response_callback app keep_alive cb c w =
     (case cb of
        OnComplete _ _ \<Rightarrow> onResponseComplete app keep_alive c w
      | OnError _ _ \<Rightarrow> response_failed c w
      | NoCallback \<Rightarrow> (Live c None, w))"

definition response_completion :: "app \<Rightarrow> conn \<Rightarrow> response_child \<Rightarrow> cqe \<Rightarrow> ring \<Rightarrow> conn_state \<times> ring" where
  "response_completion app c child ce w =
     (case child of
        BodyWrite wj keep_alive \<Rightarrow>
          (case wj_handleCompletion wj ce w of
             (Pending wj', w1) \<Rightarrow> (Live c (Some (BodyWrite wj' keep_alive)), w1)
           | (Cleanup cb, w1) \<Rightarrow>
               let (s, w2) = response_callback app keep_alive cb c w1 in (s, pool_free (wj_id wj) w2)
           | (Abandoned cb, w1) \<Rightarrow> response_callback app keep_alive cb c w1)
      | FileTransfer j fchild keep_alive \<Rightarrow>
          (case fj_child_completion j fchild ce w of
             (FileRunning j' fchild', w1) \<Rightarrow> (Live c (Some (FileTransfer j' fchild' keep_alive)), w1)
           | (FileDone cb, w1) \<Rightarrow> response_callback app keep_alive cb c w1))"

section \<open>A new connection\<close>

text \<open>
  \<^verbatim>\<open>SingleRingHttpServer::createConnectionHandler\<close>: \<open>Freed\<close> when the pool has no connection object, and
  then the socket is closed.
\<close>

definition createConnectionHandler :: "nat \<Rightarrow> int \<Rightarrow> ring \<Rightarrow> conn_state \<times> ring" where
  "createConnectionHandler idle_ms client_fd w =
     (case pool_alloc w of
        (None, w1) \<Rightarrow> (Freed, close_fd client_fd w1)
      | (Some i, w1) \<Rightarrow>
          let (c, w2) = conn_start (HttpConnectionJob_init i client_fd (1024 * 1024) idle_ms) w1 in (Live c None, w2))"

end
