(* ===== verification/Response_Traffic.thy ===== *)
theory Response_Traffic
  imports Http_File_Job
begin

text \<open>
  What a response puts on the submission queue. The operations a connection has in the kernel are its
  receive, its timers and cancels, and the writes and splices of the response on the wire; the lemmas
  show, for every function of the write, splice and file jobs, that all it queues are writes and splices of the
  job that is then running. Connection\_Life uses them to show that the responses of a connection never
  overlap.
\<close>

text \<open>\<open>queues j w w'\<close>: between the two states only writes and splices were queued, all by the job \<open>j\<close>.\<close>

fun aux_op :: "sqe_op \<Rightarrow> bool" where
  "aux_op (OpRecvMultishot _) = True"
| "aux_op (OpTimeout _) = True"
| "aux_op (OpCancel _) = True"
| "aux_op _ = False"

definition quiet :: "ring \<Rightarrow> ring \<Rightarrow> bool" where
  "quiet w w' \<longleftrightarrow> sq w' = sq w \<and> in_flight w' = in_flight w"

definition queues :: "nat \<Rightarrow> ring \<Rightarrow> ring \<Rightarrow> bool" where
  "queues j w w' \<longleftrightarrow>
     (\<exists>E. sq w' = sq w @ E \<and> in_flight w' = in_flight w + int (length E) \<and>
        (\<forall>e \<in> set E. fst e = j \<and> \<not> aux_op (snd e)))"

lemma queues_same: "sq w' = sq w \<Longrightarrow> in_flight w' = in_flight w \<Longrightarrow> queues j w w'"
  by (simp add: queues_def)

lemma queues_snoc: "sq w' = sq w @ [(j, op)] \<Longrightarrow> in_flight w' = in_flight w + 1 \<Longrightarrow> \<not> aux_op op \<Longrightarrow> queues j w w'"
  by (simp add: queues_def)

lemma quiet_refl [simp]: "quiet w w"
  by (simp add: quiet_def)

lemma quiet_env [simp]: "quiet w (pool_free i w)" "quiet w (close_fd f w)"
  by (simp_all add: quiet_def ring_simps)

lemma queues_cong: "queues j w w' \<Longrightarrow> quiet v w \<Longrightarrow> quiet w' v' \<Longrightarrow> queues j v v'"
  by (simp add: queues_def quiet_def)

lemma not_aux_ops [simp]:
  "\<not> aux_op (wj_prepareSqe j)" "\<not> aux_op (file_to_pipe_op s)" "\<not> aux_op (pipe_to_socket_op s n)"
  by (simp_all add: wj_prepareSqe_def file_to_pipe_op_def pipe_to_socket_op_def Let_def)

lemma queues_write:
  "wj_handleCompletion wj c w = (r, w') \<Longrightarrow> queues (wj_id wj) w w' \<and> ((\<forall>x. r \<noteq> Pending x) \<longrightarrow> quiet w w')"
  by (cases rule: submitWrite_cases[of "wj\<lparr>wj_bytes_written := wj_bytes_written wj + nat (cqe_res c)\<rparr>" w])
     (auto simp: wj_handleCompletion_def Let_def queues_same quiet_def intro: queues_snoc split: if_splits)

lemma queues_write_start:
  "wj_start wj w = (r, w') \<Longrightarrow> queues (wj_id wj) w w' \<and> ((\<forall>x. r \<noteq> Pending x) \<longrightarrow> quiet w w')"
  by (cases rule: submitWrite_cases[of wj w]) (auto simp: wj_start_def queues_same quiet_def intro: queues_snoc)

lemma queues_startLinkedSplice: "startLinkedSplice j w = (r, w') \<Longrightarrow> queues (sj_id j) w w'"
  by (cases rule: startLinkedSplice_cases[of j w]) (auto simp: queues_same, auto simp: queues_def)

lemma queues_drain: "drainPipeToSocket j w = (r, w') \<Longrightarrow> queues (sj_id j) w w'"
  by (cases rule: drainPipeToSocket_cases[of j w]) (auto simp: queues_same intro: queues_snoc)

lemma queues_resubmit: "sj_resubmit j w = (r, w') \<Longrightarrow> queues (sj_id j) w w'"
proof -
  let ?op = "case sj_prepareSqe j of Some o' \<Rightarrow> o' | None \<Rightarrow> OpSplice (- 1) (- 1) (- 1) 0"
  have na: "\<not> aux_op ?op" by (simp add: sj_prepareSqe_def split: splice_state.splits)
  assume "sj_resubmit j w = (r, w')"
  then show ?thesis
    by (cases rule: registerJob_cases[of "sj_id j" ?op w])
       (use na in \<open>auto simp: sj_resubmit_def Let_def queues_same ring_simps intro: queues_snoc\<close>)
qed

lemma queues_splice: "sj_handleCompletion j c w = (r, w') \<Longrightarrow> queues (sj_id j) w w'"
  using queues_startLinkedSplice queues_drain queues_resubmit
  by (fastforce simp: sj_handleCompletion_def Let_def sj_failed_leg_def sj_file_to_pipe_done_def
      sj_pipe_to_socket_done_def closePipeWriteEnd_def queues_same ring_simps split: if_splits splice_state.splits)

lemma queues_splice_start:
  assumes s: "sj_start j w = (r, w')" and j: "sj_pipe0 j = - 1" "sj_pipe1 j = - 1" "\<not> sj_error_pending j" "\<not> sj_retry_pending j"
  shows "queues (sj_id j) w w' \<and> ((\<forall>x. r \<noteq> Pending x) \<longrightarrow> quiet w w')"
proof (cases rule: sj_start_cases[OF s j, case_names running ended])
  case (running j1 j2 w1)
  have "sj_id j1 = sj_id j" "sq w1 = sq w"
    using running(3) by (auto simp: createPipe_def open_fd_def ask_def Let_def split: if_splits)
  moreover have "in_flight w1 = in_flight w"
    using running(3) by (auto simp: createPipe_def open_fd_def ask_def Let_def split: if_splits)
  ultimately show ?thesis using queues_startLinkedSplice[OF running(2)] running(1) by (auto simp: queues_def)
next
  case (ended cb)
  have "keeps {#} {# sj_id j #} 0 w {#} {#} 0 w'"
    using keeps_sj_start[OF s j(1,2), of "{#}" "{#}" 0] ended by (simp add: splice_fds_def splice_jobs_def splice_ops_def)
  with ended show ?thesis by (simp add: queues_same quiet_def keeps_def)
qed

text \<open>The same for a file response.\<close>

definition file_queues :: "ring \<Rightarrow> file_result \<Rightarrow> ring \<Rightarrow> bool" where
  "file_queues w r w' \<longleftrightarrow> (case r of FileRunning j child \<Rightarrow> queues (child_job child) w w' | FileDone _ \<Rightarrow> quiet w w')"

lemma file_queues_cong:
  "file_queues w r w' \<Longrightarrow> quiet v w \<Longrightarrow> quiet w' v' \<Longrightarrow> file_queues v r v'"
  by (auto simp: file_queues_def quiet_def queues_def split: file_result.splits)

lemma quiet_created:
  "createFromPoolWithOwnedData fd data len hc he w = (r, w1) \<Longrightarrow> quiet w w1"
  "sj_createFromPool cfd ffd off l hc he w = (r', w1) \<Longrightarrow> quiet w w1"
  "fj_createFromPool_range cfd p off' l' res hc he w = (r'', w1) \<Longrightarrow> quiet w w1"
  using pool_alloc_simps(1,2)[of w]
  by (auto simp: quiet_def createFromPoolWithOwnedData_def sj_createFromPool_def fj_createFromPool_range_def
      split: prod.splits option.splits)

lemma file_queues_fail: "fj_fail j e w = (r, w') \<Longrightarrow> file_queues w r w'"
  by (auto simp: fj_fail_def file_queues_def quiet_def Let_def ring_simps)

lemma write_child_queues:
  assumes c: "createFromPoolWithOwnedData fd data len True True w = (Some wj, w1)" and s: "wj_start wj w1 = (r, w2)"
  shows "(r = Pending wj \<and> queues (wj_id wj) w w2) \<or> (\<exists>err. r = Abandoned (OnError fd err) \<and> quiet w w2)"
  using write_child_step[OF c s, of "{#}" "{#}" 0] queues_write_start[OF s] quiet_created(1)[OF c]
  by (auto simp: queues_def quiet_def)

lemma file_queues_sendError: "file_queues w0 (fst (sendError j0 code message w0)) (snd (sendError j0 code message w0))"
proof -
  define w where "w = (if fj_file_fd j0 \<ge> 0 then close_fd (fj_file_fd j0) w0 else w0)"
  define j where "j = j0\<lparr>fj_file_fd := - 1, fj_response := fst (normalizeHeaders (fj_response j0))\<rparr>"
  define page where "page = error_page (fj_range_not_satisfiable_size j) (fj_response j) code message"
  obtain wjo w1 where c: "createFromPoolWithOwnedData (fj_client_fd j) page (length page) True True w = (wjo, w1)"
    by fastforce
  have sw: "sq w = sq w0" "in_flight w = in_flight w0" by (simp_all add: w_def ring_simps)
  show ?thesis
  proof (cases wjo)
    case None
    with c sw quiet_created(1)[OF c] show ?thesis
      by (simp add: sendError_def Let_def w_def[symmetric] j_def[symmetric] page_def[symmetric] file_queues_def quiet_def ring_simps)
  next
    case (Some wj)
    obtain r w2 where s: "wj_start wj w1 = (r, w2)" by fastforce
    from write_child_queues[OF c[unfolded Some] s] c Some s sw show ?thesis
      by (auto simp: sendError_def Let_def w_def[symmetric] j_def[symmetric] page_def[symmetric] file_queues_def quiet_def ring_simps
          queues_def)
  qed
qed

lemma file_queues_headers: "file_queues w (fst (startSendingHeaders gm j0 w)) (snd (startSendingHeaders gm j0 w))"
proof -
  obtain res ok where n: "normalizeHeaders (fj_response j0) = (res, ok)" by fastforce
  define j1 where "j1 = j0\<lparr>fj_state := SendingHeaders, fj_response := res\<rparr>"
  define j2 where "j2 = j1\<lparr>fj_response := file_response gm j1 res\<rparr>"
  show ?thesis
  proof (cases "ok \<and> build_response_head (fj_response j2) (fj_length j2) \<noteq> None")
    case False
    then have "startSendingHeaders gm j0 w = sendError j1 500 ''Internal Server Error'' w \<or>
        startSendingHeaders gm j0 w = sendError j2 500 ''Internal Server Error'' w"
      by (auto simp: startSendingHeaders_def n j1_def j2_def Let_def)
    then show ?thesis using file_queues_sendError by auto
  next
    case True
    then obtain head where head: "build_response_head (fj_response j2) (fj_length j2) = Some head" by blast
    define j3 where "j3 = j2\<lparr>fj_header_size := length head\<rparr>"
    obtain wjo w1 where c: "createFromPoolWithOwnedData (fj_client_fd j3) head (length head) True True w = (wjo, w1)"
      by fastforce
    have eq: "startSendingHeaders gm j0 w =
        (case wjo of None \<Rightarrow> sendError j3 500 ''Internal Server Error'' w1
         | Some wj \<Rightarrow> (case wj_start wj w1 of
                    (Pending wj', w2) \<Rightarrow> (FileRunning j3 (HeaderWrite wj'), w2)
                  | (Abandoned (OnError _ err), w2) \<Rightarrow> fj_fail j3 err w2
                  | (_, w2) \<Rightarrow> (FileRunning j3 (HeaderWrite wj), w2)))"
      unfolding startSendingHeaders_def n j3_def using True head c[unfolded j3_def]
      by (simp add: Let_def j1_def[symmetric] j2_def[symmetric] cong: option.case_cong)
    show ?thesis
    proof (cases wjo)
      case None
      with eq file_queues_cong[OF file_queues_sendError[of w1 j3] quiet_created(1)[OF c]] show ?thesis by simp
    next
      case (Some wj)
      obtain r w2 where s: "wj_start wj w1 = (r, w2)" by fastforce
      from write_child_queues[OF c[unfolded Some] s] eq Some s show ?thesis
        by (auto simp: file_queues_def fj_fail_def quiet_def Let_def ring_simps)
    qed
  qed
qed

lemma quiet_openFile: "openFile j w = (j1, w1) \<Longrightarrow> quiet w w1"
  by (auto simp: quiet_def openFile_def resolve_file_range_def fj_refuse_def open_fd_def ask_def close_fd_def Let_def
      split: if_splits option.splits)

lemma file_queues_start: "fj_start gm j w = (r, w') \<Longrightarrow> file_queues w r w'"
proof -
  assume a: "fj_start gm j w = (r, w')"
  obtain j1 w1 where o1: "openFile j w = (j1, w1)" by fastforce
  have "file_queues w1 r w'"
    using a o1 file_queues_sendError[of w1 j1] file_queues_headers[of w1 gm j1]
    by (auto simp: fj_start_def split: if_splits) (metis fst_conv snd_conv)+
  then show ?thesis using quiet_openFile[OF o1] by (auto elim: file_queues_cong)
qed

lemma queues_splice_callback: "cb \<noteq> NoCallback \<Longrightarrow> fj_splice_callback j cb w = (r, w') \<Longrightarrow> file_queues w r w'"
  by (cases cb) (auto simp: fj_splice_callback_def file_queues_def fj_fail_def quiet_def Let_def ring_simps)

lemma file_queues_body:
  assumes "startSendingFile j0 w = (r, w')"
  shows "file_queues w r w'"
proof -
  define j where "j = j0\<lparr>fj_state := SendingFile\<rparr>"
  obtain sjo w1 where c: "sj_createFromPool (fj_client_fd j) (fj_file_fd j) (unat (fj_offset j)) (unat (fj_length j))
    True True w = (sjo, w1)" by fastforce
  show ?thesis
  proof (cases sjo)
    case None
    with assms c have "fj_fail j ENOMEM w1 = (r, w')" by (simp add: startSendingFile_def j_def[symmetric] Let_def)
    from file_queues_cong[OF file_queues_fail[OF this] quiet_created(2)[OF c]] show ?thesis by simp
  next
    case (Some sj)
    obtain r2 w2 where s: "sj_start sj w1 = (r2, w2)" by fastforce
    have cr: "sj_pipe0 sj = - 1" "sj_pipe1 sj = - 1" "\<not> sj_error_pending sj" "\<not> sj_retry_pending sj"
      using created_job[OF c[unfolded Some]] by simp_all
    have cb: "sj_on_complete sj" "sj_on_error sj"
      using c Some by (auto simp: sj_createFromPool_def SpliceFileJob_init_def split: prod.splits option.splits)
    note q = queues_splice_start[OF s cr] and out = sj_start_outcome[OF s cr(3,4)]
    have eq: "(case r2 of Pending sj' \<Rightarrow> (FileRunning j (BodySplice sj'), w2)
           | Cleanup cb \<Rightarrow> fj_splice_callback j cb w2 | Abandoned cb \<Rightarrow> fj_splice_callback j cb w2) = (r, w')"
      using assms c Some s by (simp add: startSendingFile_def j_def[symmetric] Let_def split: job_result.splits)
    show ?thesis
    proof (cases r2)
      case (Pending sj')
      with eq q out quiet_created(2)[OF c] show ?thesis by (auto simp: file_queues_def queues_def quiet_def)
    next
      case (Cleanup b)
      with out show ?thesis by simp
    next
      case (Abandoned b)
      then have "b \<noteq> NoCallback" using out cb by (auto simp: sj_error_cb_def)
      with eq Abandoned have "file_queues w2 r w'" using queues_splice_callback by simp
      moreover have "quiet w w2" using q Abandoned quiet_created(2)[OF c] by (simp add: quiet_def)
      ultimately show ?thesis by (auto elim: file_queues_cong)
    qed
  qed
qed

lemma file_queues_callbacks:
  "cb \<noteq> NoCallback \<Longrightarrow> fj_header_callback j cb w = (r, w') \<Longrightarrow> file_queues w r w'"
  "cb \<noteq> NoCallback \<Longrightarrow> fj_error_callback j cb w = (r, w') \<Longrightarrow> file_queues w r w'"
  using file_queues_body[of j w r w'] file_queues_fail[of j _ w r w']
  by (cases cb; auto simp: fj_header_callback_def fj_error_callback_def file_queues_def quiet_def ring_simps)+

lemma quiet_splice_ended:
  assumes "sj_inv j" "sj_kernel_ok j c" "sj_handleCompletion j c w = (r, w')" "\<forall>x. r \<noteq> Pending x"
  shows "quiet w w'"
proof -
  obtain E where E: "sq w' = sq w @ E" "in_flight w' = in_flight w + int (length E)" "\<forall>e \<in> set E. fst e = sj_id j"
    using queues_splice[OF assms(3)] by (auto simp: queues_def)
  have "ops_since (sj_id j) w w' = 0"
    using sj_handle_ok[OF assms(1-3)] assms(4) by (cases r) (auto simp: step_ok_def)
  with E show ?thesis by (simp add: ops_since_def quiet_def)
qed

lemma write_queues_child:
  assumes h: "wj_handleCompletion wj c w = (r1, w1)" and cbs: "wj_on_complete wj" "wj_on_error wj"
    and step: "\<And>cb u x v. cb \<noteq> NoCallback \<Longrightarrow> callback cb u = (x, v) \<Longrightarrow> file_queues u x v"
    and child: "\<And>wj'. child_job (child wj') = wj_id wj'"
    and res: "(r, w') = (case r1 of Pending wj' \<Rightarrow> (FileRunning j (child wj'), w1)
       | Cleanup cb \<Rightarrow> (let (x, w2) = callback cb w1 in (x, pool_free (wj_id wj) w2))
       | Abandoned cb \<Rightarrow> callback cb w1)"
  shows "file_queues w r w'"
proof -
  note q = queues_write[OF h] and cb = write_completion_cb[OF h cbs]
  show ?thesis
  proof (cases r1)
    case (Pending wj')
    with res q cb child show ?thesis by (auto simp: file_queues_def)
  next
    case (Cleanup b)
    obtain x w2 where x: "callback b w1 = (x, w2)" by fastforce
    have "file_queues w1 x w2" using step[OF _ x] cb Cleanup by simp
    with res q Cleanup x show ?thesis by (auto simp: ring_simps quiet_def intro: file_queues_cong)
  next
    case (Abandoned b)
    with res[symmetric] q cb step[of b w1 r w'] show ?thesis by (auto intro: file_queues_cong)
  qed
qed

lemma file_queues_child:
  assumes inv: "fj_inv j child" and k: "child_kernel_ok child c" and h: "fj_child_completion j child c w = (r, w')"
  shows "file_queues w r w'"
proof (cases child)
  case (HeaderWrite wj)
  obtain r1 w1 where wc: "wj_handleCompletion wj c w = (r1, w1)" by fastforce
  show ?thesis
    using inv h HeaderWrite wc
    by (intro write_queues_child[OF wc, of "fj_header_callback j" HeaderWrite _ _ j])
       (auto simp: fj_child_completion_def file_queues_callbacks split: job_result.splits)
next
  case (ErrorWrite wj)
  obtain r1 w1 where wc: "wj_handleCompletion wj c w = (r1, w1)" by fastforce
  show ?thesis
    using inv h ErrorWrite wc
    by (intro write_queues_child[OF wc, of "fj_error_callback j" ErrorWrite _ _ j])
       (auto simp: fj_child_completion_def file_queues_callbacks split: job_result.splits)
next
  case (BodySplice sj)
  obtain r1 w1 where wc: "sj_handleCompletion sj c w = (r1, w1)" by fastforce
  have si: "sj_inv sj" "sj_on_complete sj" "sj_on_error sj" "sj_kernel_ok sj c" using inv k BodySplice by simp_all
  note fr = sj_frame_handle[OF wc] and ok = sj_handle_ok[OF si(1,4) wc]
  show ?thesis
  proof (cases r1)
    case (Pending sj')
    with h BodySplice wc queues_splice[OF wc] ok show ?thesis
      by (auto simp: fj_child_completion_def file_queues_def step_ok_def)
  next
    case (Cleanup b)
    then have nb: "b \<noteq> NoCallback" using fr si by (auto simp: sj_frame_def sj_error_cb_def)
    obtain x w2 where x: "fj_splice_callback j b w1 = (x, w2)" by fastforce
    have "quiet w2 (sj_cleanup sj w2)" by (simp add: sj_cleanup_def quiet_def ring_simps Let_def)
    with h BodySplice wc Cleanup x quiet_splice_ended[OF si(1,4) wc] queues_splice_callback[OF nb x] show ?thesis
      by (auto simp: fj_child_completion_def intro: file_queues_cong)
  next
    case (Abandoned b)
    with fr show ?thesis by (simp add: sj_frame_def)
  qed
qed

end
