(* ===== verification/Step_Systems.thy ===== *)
theory Step_Systems
  imports Main
begin

text \<open>
  What the components with a step relation share. A locale per kind of argument, interpreted
  where the relation is defined: an invariant that every step keeps; a refinement, a function to the
  states of an abstract system under which every step is at most one step of that system; and an end, with a
  measure that every step brings down and a step as long as the end is not reached.
\<close>

locale step_invariant =
  fixes step :: "'s \<Rightarrow> 's \<Rightarrow> bool" and inv :: "'s \<Rightarrow> bool"
  assumes preserved: "step s s' \<Longrightarrow> inv s \<Longrightarrow> inv s'"
begin

lemma reachable: "step\<^sup>*\<^sup>* s s' \<Longrightarrow> inv s \<Longrightarrow> inv s'"
  by (induction rule: rtranclp_induct) (auto intro: preserved)

lemma reachable_both: "step\<^sup>*\<^sup>* s s' \<Longrightarrow> inv s \<Longrightarrow> step s' s'' \<Longrightarrow> inv s' \<and> inv s''"
  using reachable preserved by blast

end

locale step_refinement = step_invariant step inv
  for step :: "'s \<Rightarrow> 's \<Rightarrow> bool" and inv :: "'s \<Rightarrow> bool" +
  fixes abs :: "'s \<Rightarrow> 'a" and astep :: "'a \<Rightarrow> 'a \<Rightarrow> bool"
  assumes simulates: "step s s' \<Longrightarrow> inv s \<Longrightarrow> abs s' = abs s \<or> astep (abs s) (abs s')"
begin

lemma refines: "step\<^sup>*\<^sup>* s s' \<Longrightarrow> inv s \<Longrightarrow> astep\<^sup>*\<^sup>* (abs s) (abs s')"
proof (induction rule: rtranclp_induct)
  case (step u v)
  then have "astep\<^sup>*\<^sup>* (abs s) (abs u)" "inv u" using reachable by blast+
  with simulates[OF step(2)] show ?case by (auto intro: rtranclp.rtrancl_into_rtrancl)
qed simp

end

locale step_ending = step_invariant step inv
  for step :: "'s \<Rightarrow> 's \<Rightarrow> bool" and inv :: "'s \<Rightarrow> bool" +
  fixes left :: "'s \<Rightarrow> nat" and ended :: "'s \<Rightarrow> bool"
  assumes nearer: "step s s' \<Longrightarrow> inv s \<Longrightarrow> left s' < left s"
    and not_stuck: "inv s \<Longrightarrow> \<not> ended s \<Longrightarrow> \<exists>s'. step s s'"
begin

lemma bounded: "(step ^^ n) s s' \<Longrightarrow> inv s \<Longrightarrow> inv s' \<and> n + left s' \<le> left s"
proof (induction n arbitrary: s')
  case (Suc n)
  then obtain u where "(step ^^ n) s u" "step u s'" by auto
  with Suc.IH Suc.prems(2) nearer preserved show ?case by fastforce
qed simp

lemma ends: "inv s \<Longrightarrow> \<exists>n s'. (step ^^ n) s s' \<and> ended s'"
proof (induction "left s" arbitrary: s rule: less_induct)
  case less
  show ?case
  proof (cases "ended s")
    case True
    then have "(step ^^ 0) s s \<and> ended s" by simp
    then show ?thesis by blast
  next
    case False
    then obtain u where u: "step s u" using not_stuck less.prems by blast
    then obtain n s' where "(step ^^ n) u s'" "ended s'" using less nearer preserved by blast
    with u have "(step ^^ Suc n) s s' \<and> ended s'" using relpowp_Suc_I2 by metis
    then show ?thesis by blast
  qed
qed

end

end
