(* ===== verification/Connection_Life.thy ===== *)
theory Connection_Life
  imports Http_Connection Response_Traffic Step_Systems
begin

text \<open>
  The life of a connection, from the first receive to the last completion. The world is the
  connection, the ring, and the multiset of its operations that are in the kernel; a step is one completion, of
  any operation in the kernel and with any result, handled as \<^verbatim>\<open>Server::handleCompletion\<close> does, or the shutdown
  sweep. The environment's answers are arbitrary throughout, so pool and queue exhaustion can
  strike anywhere.
\<close>

section \<open>Auxiliary operations\<close>

definition aux_jobs :: "(nat \<times> sqe_op) multiset \<Rightarrow> nat multiset" where
  "aux_jobs K = image_mset fst (filter_mset (\<lambda>e. aux_op (snd e)) K)"

lemma aux_jobs_simps [simp]:
  "aux_jobs {#} = {#}" "aux_jobs (K + L) = aux_jobs K + aux_jobs L"
  "aux_jobs (add_mset e K) = (if aux_op (snd e) then add_mset (fst e) (aux_jobs K) else aux_jobs K)"
  by (simp_all add: aux_jobs_def)

text \<open>A step that queues receives, timers and cancels only, each a new pool object.\<close>

definition aux_step :: "ring \<Rightarrow> ring \<Rightarrow> (nat \<times> sqe_op) list \<Rightarrow> bool" where
  "aux_step w w' E \<longleftrightarrow> sq w' = sq w @ E \<and> (\<forall>e \<in> set E. aux_op (snd e)) \<and>
     (\<forall>F J n. keeps F J n w F (J + aux_jobs (mset E)) (n + length E) w')"

lemma aux_step_refl [simp]: "aux_step w w []"
  by (simp add: aux_step_def)

lemma aux_step_trans:
  assumes "aux_step u v D" "aux_step v w E"
  shows "aux_step u w (D @ E)"
  unfolding aux_step_def
proof (intro conjI allI)
  fix F J n
  have "keeps F J n u F (J + aux_jobs (mset D)) (n + length D) v"
    "keeps F (J + aux_jobs (mset D)) (n + length D) v F (J + aux_jobs (mset D) + aux_jobs (mset E)) (n + length D + length E) w"
    using assms by (simp_all add: aux_step_def)
  from keeps_trans[OF this] show "keeps F J n u F (J + aux_jobs (mset (D @ E))) (n + length (D @ E)) w"
    by (simp add: add.assoc)
qed (use assms in \<open>auto simp: aux_step_def\<close>)

text \<open>Allocate, register, submit; give back when there is no entry.\<close>

definition alloc_submit :: "(nat \<Rightarrow> sqe_op) \<Rightarrow> ring \<Rightarrow> nat option \<times> ring" where
  "alloc_submit op w =
     (case pool_alloc w of
        (None, w1) \<Rightarrow> (None, w1)
      | (Some i, w1) \<Rightarrow>
          let (ok, w2) = registerJob i (op i) w1 in
          if ok then (Some i, snd (submit w2)) else (None, pool_free i w2))"

lemma alloc_submit_aux:
  assumes "alloc_submit op w = (r, w')" "\<And>i. aux_op (op i)"
  shows "aux_step w w' (case r of None \<Rightarrow> [] | Some i \<Rightarrow> [(i, op i)])"
proof -
  obtain a w1 where a: "pool_alloc w = (a, w1)" by fastforce
  have k1: "keeps F J n w F (case a of None \<Rightarrow> J | Some i \<Rightarrow> add_mset i J) n w1" for F J n
    using keeps_alloc[of F J n w] a by simp
  have q1: "sq w1 = sq w" using pool_alloc_simps(2)[of w] a by simp
  show ?thesis
  proof (cases a)
    case None
    with assms(1) a k1 q1 show ?thesis by (auto simp: alloc_submit_def aux_step_def)
  next
    case (Some i)
    obtain ok w2 where r: "registerJob i (op i) w1 = (ok, w2)" by fastforce
    have k2: "keeps F J n w1 F J (if ok then n + 1 else n) w2" for F J n
      using keeps_register[of F J n w1 i "op i"] r by simp
    show ?thesis
    proof (cases ok)
      case True
      have "keeps F J n w F (add_mset i J) (n + 1) (snd (submit w2))" for F J n
        using keeps_trans[OF keeps_trans[OF k1[of F J n] k2] keeps_env(2)] Some True by simp
      moreover have "sq w2 = sq w @ [(i, op i)]"
        using r True q1 by (auto simp: registerJob_def ask_def Let_def split: if_splits)
      ultimately show ?thesis using assms a Some r True by (auto simp: alloc_submit_def aux_step_def ring_simps)
    next
      case False
      have "keeps F J n w F J n (pool_free i w2)" for F J n
        using keeps_trans[OF keeps_trans[OF k1[of F J n] k2] ] keeps_env(3) Some False by simp
      moreover have "sq w2 = sq w"
        using r False q1 by (auto simp: registerJob_def ask_def Let_def split: if_splits)
      ultimately show ?thesis using assms a Some r False by (auto simp: alloc_submit_def aux_step_def ring_simps)
    qed
  qed
qed

lemma submit_cancel_alloc:
  "submit_cancel t w = (case alloc_submit (\<lambda>_. OpCancel t) w of (r, w') \<Rightarrow> (r \<noteq> None, w'))"
  by (auto simp: submit_cancel_def alloc_submit_def cancel_prepareSqe_def Let_def split: prod.splits option.splits if_splits)

lemma submit_cancel_aux:
  assumes "submit_cancel t w = (ok, w')"
  obtains E where "aux_step w w' E" "\<forall>e \<in> set E. \<exists>u. snd e = OpCancel u"
proof -
  obtain r where r: "alloc_submit (\<lambda>_. OpCancel t) w = (r, w')" using assms by (auto simp: submit_cancel_alloc split: prod.splits)
  from alloc_submit_aux[OF r] have "aux_step w w' (case r of None \<Rightarrow> [] | Some i \<Rightarrow> [(i, OpCancel t)])" by simp
  then show ?thesis by (rule that) (auto split: option.splits)
qed

lemma armIdleTimeout_alloc:
  "armIdleTimeout c w =
     (if cn_idle_timeout_ms c = 0 \<or> cn_client_fd c < 0 then (c, w)
      else case alloc_submit (\<lambda>_. OpTimeout (cn_idle_timeout_ms c)) w of
         (None, w') \<Rightarrow> (c, w')
       | (Some t, w') \<Rightarrow> (c\<lparr>cn_active_idle_timeout_job := Some t, cn_idle_cancel_pending := False\<rparr>, w'))"
  by (auto simp: armIdleTimeout_def alloc_submit_def Let_def split: prod.splits option.splits if_splits)

lemma armIdleTimeout_aux:
  assumes "armIdleTimeout c w = (c', w')"
  obtains (same) E where "aux_step w w' E" "c' = c"
  | (armed) t where "aux_step w w' [(t, OpTimeout (cn_idle_timeout_ms c))]"
      "c' = c\<lparr>cn_active_idle_timeout_job := Some t, cn_idle_cancel_pending := False\<rparr>"
proof (cases "cn_idle_timeout_ms c = 0 \<or> cn_client_fd c < 0")
  case True
  with assms have "c' = c" "w' = w" by (simp_all add: armIdleTimeout_alloc)
  then show ?thesis using same[of "[]"] by simp
next
  case False
  obtain r u where r: "alloc_submit (\<lambda>_. OpTimeout (cn_idle_timeout_ms c)) w = (r, u)" by fastforce
  have "aux_step w u (case r of None \<Rightarrow> [] | Some i \<Rightarrow> [(i, OpTimeout (cn_idle_timeout_ms c))])"
    using alloc_submit_aux[OF r] by simp
  with False assms r show ?thesis
    by (cases r) (auto simp: armIdleTimeout_alloc intro: same armed)
qed

section \<open>What a connection owns\<close>

fun resp_job :: "response_child \<Rightarrow> nat" where
  "resp_job (BodyWrite wj _) = wj_id wj"
| "resp_job (FileTransfer j child _) = child_job child"

fun resp_fds :: "response_child \<Rightarrow> int multiset" where
  "resp_fds (BodyWrite wj _) = {#}"
| "resp_fds (FileTransfer j child _) = file_fds (FileRunning j child)"

fun resp_jobs :: "response_child \<Rightarrow> nat multiset" where
  "resp_jobs (BodyWrite wj _) = {# wj_id wj #}"
| "resp_jobs (FileTransfer j child _) = file_jobs (FileRunning j child)"

fun resp_ops :: "response_child \<Rightarrow> nat" where
  "resp_ops (BodyWrite wj _) = 1"
| "resp_ops (FileTransfer j child _) = child_ops child"

fun resp_inv :: "response_child \<Rightarrow> bool" where
  "resp_inv (BodyWrite wj _) \<longleftrightarrow> wj_on_complete wj \<and> wj_on_error wj"
| "resp_inv (FileTransfer j child _) \<longleftrightarrow> fj_inv j child \<and> fj_on_complete j \<and> fj_on_error j"

text \<open>The socket: it moves from one field to the other when the close is deferred.\<close>

definition conn_fd :: "conn \<Rightarrow> int" where
  "conn_fd c = (if cn_deferred_close_fd c \<ge> 0 then cn_deferred_close_fd c else cn_client_fd c)"

fun state_fds :: "conn_state \<Rightarrow> int multiset" where
  "state_fds (Live c None) = {# conn_fd c #}"
| "state_fds (Live c (Some r)) = add_mset (conn_fd c) (resp_fds r)"
| "state_fds Freed = {#}"

fun state_jobs :: "conn_state \<Rightarrow> nat multiset" where
  "state_jobs (Live c None) = {# cn_id c #}"
| "state_jobs (Live c (Some r)) = add_mset (cn_id c) (resp_jobs r)"
| "state_jobs Freed = {#}"

text \<open>
  The writes and splices among the operations \<open>K\<close> are exactly those of the response on the wire.
\<close>

fun traffic_ok :: "conn_state \<Rightarrow> (nat \<times> sqe_op) multiset \<Rightarrow> bool" where
  "traffic_ok (Live c (Some r)) K \<longleftrightarrow> (\<forall>e \<in># K. \<not> aux_op (snd e) \<longrightarrow> fst e = resp_job r) \<and>
     size (filter_mset (\<lambda>e. \<not> aux_op (snd e)) K) = resp_ops r"
| "traffic_ok _ K \<longleftrightarrow> (\<forall>e \<in># K. aux_op (snd e))"

section \<open>The invariant of a connection\<close>

text \<open>
  \<open>conn_base\<close> holds also in the middle of a method; \<open>conn_inv\<close> adds what holds between completions: a
  connection that is not closing is reading, and one that is closing, with no response left, waits for
  nothing but operations it has cancelled.
\<close>

definition conn_base :: "conn \<Rightarrow> response_child option \<Rightarrow> (nat \<times> sqe_op) multiset \<Rightarrow> bool" where
  "conn_base c child K \<longleftrightarrow>
     (cn_response_in_flight c \<longleftrightarrow> child \<noteq> None) \<and>
     (\<forall>r. child = Some r \<longrightarrow> resp_inv r \<and> cn_client_fd c \<ge> 0) \<and>
     conn_fd c \<ge> 0 \<and> (cn_client_fd c \<ge> 0 \<longleftrightarrow> cn_deferred_close_fd c < 0) \<and>
     (cn_client_fd c < 0 \<longrightarrow> cn_read_cancel_pending c \<or> cn_active_read_job c = None) \<and>
     (\<forall>j. cn_active_read_job c = Some j \<longrightarrow> (\<exists>fd. (j, OpRecvMultishot fd) \<in># K)) \<and>
     (\<forall>t. cn_active_idle_timeout_job c = Some t \<longrightarrow> (\<exists>ms. (t, OpTimeout ms) \<in># K))"

definition conn_inv :: "conn \<Rightarrow> response_child option \<Rightarrow> (nat \<times> sqe_op) multiset \<Rightarrow> bool" where
  "conn_inv c child K \<longleftrightarrow> conn_base c child K \<and>
     (\<not> cn_close_pending c \<longrightarrow> cn_active_read_job c \<noteq> None \<and> cn_client_fd c \<ge> 0) \<and>
     (cn_close_pending c \<and> child = None \<longrightarrow>
        (cn_active_read_job c \<noteq> None \<or> cn_active_idle_timeout_job c \<noteq> None) \<and>
        (cn_active_read_job c \<noteq> None \<longrightarrow> cn_read_cancel_pending c) \<and>
        (cn_active_idle_timeout_job c \<noteq> None \<longrightarrow> cn_idle_cancel_pending c))"

fun state_inv :: "conn_state \<Rightarrow> (nat \<times> sqe_op) multiset \<Rightarrow> bool" where
  "state_inv (Live c child) K \<longleftrightarrow> conn_inv c child K"
| "state_inv Freed K \<longleftrightarrow> True"

lemma conn_base_mono: "conn_base c child K \<Longrightarrow> conn_base c child (K + L)"
  by (fastforce simp: conn_base_def)

lemma conn_inv_mono: "conn_inv c child K \<Longrightarrow> conn_inv c child (K + L)"
  by (simp add: conn_inv_def conn_base_mono)

text \<open>
  The contract of a method called with the response \<open>child\<close> on the wire, the operations \<open>K\<close> in the kernel:
  what it queues, what is owned afterwards, and the invariant.
\<close>

definition method_ok ::
  "conn \<Rightarrow> response_child option \<Rightarrow> (nat \<times> sqe_op) multiset \<Rightarrow> ring \<Rightarrow> conn_state \<Rightarrow> ring \<Rightarrow> bool" where
  "method_ok c child K w s' w' \<longleftrightarrow>
     (\<exists>E. sq w' = sq w @ E \<and>
        keeps (state_fds (Live c child)) (state_jobs (Live c child)) 0 w
          (state_fds s') (state_jobs s' + aux_jobs (mset E)) (length E) w' \<and>
        (case child of None \<Rightarrow> traffic_ok s' (mset E)
         | Some r \<Rightarrow> (\<exists>c'. s' = Live c' (Some r)) \<and> (\<forall>e \<in> set E. aux_op (snd e))) \<and>
        state_inv s' (K + mset E) \<and>
        (case s' of Live c' _ \<Rightarrow> cn_id c' = cn_id c | Freed \<Rightarrow> True))"

lemma method_stay:
  assumes "conn_inv c' child K" "cn_id c' = cn_id c" "conn_fd c' = conn_fd c"
  shows "method_ok c child K w (Live c' child) w"
  using assms unfolding method_ok_def
  by (intro exI[of _ "[]"]) (cases child; simp)

lemma traffic_aux:
  "\<forall>e \<in> set E. aux_op (snd e) \<Longrightarrow> traffic_ok s (mset D) \<Longrightarrow> traffic_ok s (mset (E @ D))"
proof (induction s "mset D" rule: traffic_ok.induct)
  case (1 c r)
  then have "filter_mset (\<lambda>e. \<not> aux_op (snd e)) (mset E) = {#}" by (auto simp: filter_mset_eq_conv)
  with 1 show ?case by auto
qed auto

text \<open>An auxiliary step first, then a method.\<close>

lemma method_after_aux:
  assumes "aux_step w w1 E" and "method_ok c1 child (K + mset E) w1 s' w'"
    and "cn_id c1 = cn_id c" "conn_fd c1 = conn_fd c"
  shows "method_ok c child K w s' w'"
proof -
  obtain D where D: "sq w' = sq w1 @ D"
    "keeps (state_fds (Live c1 child)) (state_jobs (Live c1 child)) 0 w1 (state_fds s') (state_jobs s' + aux_jobs (mset D)) (length D) w'"
    "case child of None \<Rightarrow> traffic_ok s' (mset D) | Some r \<Rightarrow> (\<exists>c'. s' = Live c' (Some r)) \<and> (\<forall>e \<in> set D. aux_op (snd e))"
    "state_inv s' (K + mset E + mset D)" "case s' of Live c' _ \<Rightarrow> cn_id c' = cn_id c1 | Freed \<Rightarrow> True"
    using assms(2) by (auto simp: method_ok_def)
  have same: "state_fds (Live c1 child) = state_fds (Live c child)" "state_jobs (Live c1 child) = state_jobs (Live c child)"
    using assms(3,4) by (cases child; simp)+
  have "keeps (state_fds (Live c1 child)) (state_jobs (Live c1 child)) 0 w
      (state_fds (Live c1 child)) (state_jobs (Live c1 child) + aux_jobs (mset E)) (length E) w1"
    using assms(1) by (metis add_0 aux_step_def)
  moreover have "keeps (state_fds (Live c1 child)) (state_jobs (Live c1 child) + aux_jobs (mset E)) (length E) w1
      (state_fds s') (state_jobs s' + aux_jobs (mset D) + aux_jobs (mset E)) (length D + length E) w'"
    using keeps_frame[OF D(2), of "{#}" "aux_jobs (mset E)" "length E"] by simp
  ultimately have k: "keeps (state_fds (Live c1 child)) (state_jobs (Live c1 child)) 0 w
      (state_fds s') (state_jobs s' + aux_jobs (mset D) + aux_jobs (mset E)) (length D + length E) w'"
    by (rule keeps_trans)
  have e: "\<forall>e \<in> set E. aux_op (snd e)" "sq w1 = sq w @ E" using assms(1) by (simp_all add: aux_step_def)
  show ?thesis unfolding method_ok_def
  proof (intro exI[of _ "E @ D"] conjI)
    show "keeps (state_fds (Live c child)) (state_jobs (Live c child)) 0 w (state_fds s')
        (state_jobs s' + aux_jobs (mset (E @ D))) (length (E @ D)) w'"
      using k unfolding same by (simp add: ac_simps)
    show "case child of None \<Rightarrow> traffic_ok s' (mset (E @ D))
      | Some r \<Rightarrow> (\<exists>c'. s' = Live c' (Some r)) \<and> (\<forall>e \<in> set (E @ D). aux_op (snd e))"
      using D(3) e(1) traffic_aux[OF e(1), of s' D] by (auto split: option.splits)
    show "state_inv s' (K + mset (E @ D))" using D(4) by (simp add: ac_simps)
  qed (use D e assms(3) in \<open>simp_all split: conn_state.splits\<close>)
qed

section \<open>Closing\<close>

lemma close_idle_leg_cases:
  assumes "close_idle_leg c w = (c1, w1)"
  obtains E where "aux_step w w1 E" "c1 = c" "cn_active_idle_timeout_job c \<noteq> None \<longrightarrow> cn_idle_cancel_pending c"
  | E where "aux_step w w1 E" "c1 = c\<lparr>cn_idle_cancel_pending := True\<rparr>"
  | E where "aux_step w w1 E" "c1 = c\<lparr>cn_active_idle_timeout_job := None\<rparr>"
proof (cases "cn_active_idle_timeout_job c \<noteq> None \<and> \<not> cn_idle_cancel_pending c")
  case False
  with assms show ?thesis using that(1)[of "[]"] by (auto simp: close_idle_leg_def)
next
  case True
  obtain ok u where s: "submitIdleTimeoutCancel c w = (ok, u)" by fastforce
  obtain E where "aux_step w u E" using s by (auto simp: submitIdleTimeoutCancel_def elim: submit_cancel_aux)
  with True s assms show ?thesis using that(2,3)[of E] by (auto simp: close_idle_leg_def split: if_splits)
qed

lemma close_recv_leg_cases:
  assumes "close_recv_leg c w = (c1, w1)"
  obtains E where "aux_step w w1 E" "c1 = c" "cn_active_read_job c \<noteq> None \<longrightarrow> cn_read_cancel_pending c"
  | E where "aux_step w w1 E" "cn_active_read_job c \<noteq> None" "\<not> cn_read_cancel_pending c"
      "c1 = c\<lparr>cn_deferred_close_fd := cn_client_fd c, cn_client_fd := - 1, cn_read_cancel_pending := True\<rparr>"
  | E where "aux_step w w1 E" "cn_active_read_job c \<noteq> None" "\<not> cn_read_cancel_pending c"
      "c1 = c\<lparr>cn_deferred_close_fd := cn_client_fd c, cn_client_fd := - 1, cn_active_read_job := None\<rparr>"
proof (cases "cn_active_read_job c \<noteq> None \<and> \<not> cn_read_cancel_pending c")
  case False
  with assms show ?thesis using that(1)[of "[]"] by (auto simp: close_recv_leg_def)
next
  case True
  let ?c = "c\<lparr>cn_deferred_close_fd := cn_client_fd c, cn_client_fd := - 1\<rparr>"
  obtain ok u where s: "submitRecvCancel ?c w = (ok, u)" by fastforce
  obtain E where E: "aux_step w u E" using s by (auto simp: submitRecvCancel_def elim: submit_cancel_aux)
  have r: "(c1, w1) = (if ok then (?c\<lparr>cn_read_cancel_pending := True\<rparr>, u) else (?c\<lparr>cn_active_read_job := None\<rparr>, u))"
    using True assms s by (simp add: close_recv_leg_def Let_def)
  show ?thesis
  proof (cases ok)
    case yes: True
    with r E True show ?thesis by (intro that(2)[of E]) simp_all
  next
    case False
    with r E True show ?thesis by (intro that(3)[of E]) simp_all
  qed
qed

lemma conn_inv_closing:
  "conn_base c child K \<Longrightarrow> child \<noteq> None \<Longrightarrow> cn_close_pending c \<Longrightarrow> conn_inv c child K"
  by (auto simp: conn_inv_def)

lemma conn_base_close_pending [simp]:
  "conn_base (c\<lparr>cn_close_pending := b\<rparr>) child K = conn_base c child K" "conn_fd (c\<lparr>cn_close_pending := b\<rparr>) = conn_fd c"
  by (simp_all add: conn_base_def conn_fd_def)

lemma close_legs:
  assumes base: "conn_base c None K" and l1: "close_idle_leg (c\<lparr>cn_close_pending := True\<rparr>) w = (c1, w1)"
    and l2: "close_recv_leg c1 w1 = (c2, w2)"
  obtains E where "aux_step w w2 E" "conn_base c2 None K" "cn_close_pending c2" "cn_id c2 = cn_id c" "conn_fd c2 = conn_fd c"
    "cn_active_read_job c2 \<noteq> None \<longrightarrow> cn_read_cancel_pending c2"
    "cn_active_idle_timeout_job c2 \<noteq> None \<longrightarrow> cn_idle_cancel_pending c2"
proof -
  obtain E1 where E1: "aux_step w w1 E1" and c1: "conn_base c1 None K" "cn_close_pending c1" "cn_id c1 = cn_id c"
      "conn_fd c1 = conn_fd c" "cn_active_idle_timeout_job c1 \<noteq> None \<longrightarrow> cn_idle_cancel_pending c1"
    using base by (cases rule: close_idle_leg_cases[OF l1]) (auto simp: conn_base_def conn_fd_def)
  obtain E2 where E2: "aux_step w1 w2 E2" and c2: "conn_base c2 None K" "cn_close_pending c2" "cn_id c2 = cn_id c1"
      "conn_fd c2 = conn_fd c1" "cn_active_read_job c2 \<noteq> None \<longrightarrow> cn_read_cancel_pending c2"
      "cn_active_idle_timeout_job c2 = cn_active_idle_timeout_job c1" "cn_idle_cancel_pending c2 = cn_idle_cancel_pending c1"
    using c1(1,2) by (cases rule: close_recv_leg_cases[OF l2]) (auto simp: conn_base_def conn_fd_def)
  show ?thesis using that[OF aux_step_trans[OF E1 E2]] c1 c2 by simp
qed

lemma closeConnection_ok:
  assumes base: "conn_base c child K" and cl: "closeConnection c child w = (s', w')"
  shows "method_ok c child K w s' w'"
proof (cases "cn_response_in_flight c")
  case True
  with base have "child \<noteq> None" by (simp add: conn_base_def)
  with True cl base show ?thesis by (auto simp: closeConnection_def intro!: method_stay conn_inv_closing)
next
  case False
  with base have ch: "child = None" by (simp add: conn_base_def)
  obtain c1 w1 where l1: "close_idle_leg (c\<lparr>cn_close_pending := True\<rparr>) w = (c1, w1)" by fastforce
  obtain c2 w2 where l2: "close_recv_leg c1 w1 = (c2, w2)" by fastforce
  obtain E where E: "aux_step w w2 E" "conn_base c2 None K" "cn_close_pending c2" "cn_id c2 = cn_id c" "conn_fd c2 = conn_fd c"
      "cn_active_read_job c2 \<noteq> None \<longrightarrow> cn_read_cancel_pending c2"
      "cn_active_idle_timeout_job c2 \<noteq> None \<longrightarrow> cn_idle_cancel_pending c2"
    using close_legs[OF base[unfolded ch] l1 l2] by metis
  show ?thesis
  proof (cases "cn_active_idle_timeout_job c2 \<noteq> None \<or> cn_active_read_job c2 \<noteq> None")
    case True
    then have "conn_inv c2 None (K + mset E)" using E conn_base_mono by (auto simp: conn_inv_def)
    with True False cl l1 l2 ch show ?thesis
      by (auto simp: closeConnection_def intro!: method_after_aux[OF E(1) _ E(4,5)] method_stay)
  next
    case nowait: False
    have fd: "conn_fd c2 \<ge> 0" using E(2) by (simp add: conn_base_def)
    have "keeps {# conn_fd c2 #} {# cn_id c2 #} 0 w2 {#} {#} 0 (pool_free (cn_id c2) (close_fd (conn_fd c2) w2))"
      using keeps_trans[OF keeps_env(4) keeps_env(3), of "conn_fd c2" "{#}" "cn_id c2" "{#}" 0 w2] by simp
    then have "method_ok c2 None (K + mset E) w2 Freed (pool_free (cn_id c2) (close_fd (conn_fd c2) w2))"
      by (auto simp: method_ok_def ring_simps)
    with nowait False cl l1 l2 ch fd show ?thesis
      by (auto simp: closeConnection_def Let_def conn_fd_def[symmetric] intro!: method_after_aux[OF E(1) _ E(4,5)])
  qed
qed

section \<open>Sending\<close>

text \<open>The fields the invariant reads, apart from the response slot.\<close>

definition same_conn :: "conn \<Rightarrow> conn \<Rightarrow> bool" where
  "same_conn c c' \<longleftrightarrow> cn_id c' = cn_id c \<and> cn_client_fd c' = cn_client_fd c \<and>
     cn_deferred_close_fd c' = cn_deferred_close_fd c \<and> cn_close_pending c' = cn_close_pending c \<and>
     cn_active_read_job c' = cn_active_read_job c \<and> cn_read_cancel_pending c' = cn_read_cancel_pending c \<and>
     cn_active_idle_timeout_job c' = cn_active_idle_timeout_job c \<and> cn_idle_cancel_pending c' = cn_idle_cancel_pending c"

lemma same_conn_base:
  "same_conn c c' \<Longrightarrow> cn_response_in_flight c' = cn_response_in_flight c \<Longrightarrow> conn_base c child K \<Longrightarrow> conn_base c' child K"
  by (auto simp: same_conn_def conn_base_def conn_fd_def)

lemma same_conn_fd: "same_conn c c' \<Longrightarrow> conn_fd c' = conn_fd c \<and> cn_id c' = cn_id c"
  by (simp add: same_conn_def conn_fd_def)

lemma same_conn_inv:
  "same_conn c c' \<Longrightarrow> cn_response_in_flight c' = cn_response_in_flight c \<Longrightarrow> conn_inv c child K \<Longrightarrow> conn_inv c' child K"
  using same_conn_base[of c c' child K] by (simp add: conn_inv_def same_conn_def)

lemma method_same:
  "method_ok c1 child K w s' w' \<Longrightarrow> same_conn c c1 \<Longrightarrow> method_ok c child K w s' w'"
  using method_after_aux[OF aux_step_refl, of c1 child K w s' w' c] same_conn_fd[of c c1] by simp

text \<open>A connection that may be sent to: no response is on the wire.\<close>

definition may_send :: "conn \<Rightarrow> (nat \<times> sqe_op) multiset \<Rightarrow> bool" where
  "may_send c K \<longleftrightarrow> conn_base c None K \<and> cn_client_fd c \<ge> 0 \<and> (\<not> cn_close_pending c \<longrightarrow> cn_active_read_job c \<noteq> None)"

lemma may_send_same:
  "may_send c K \<Longrightarrow> same_conn c c' \<Longrightarrow> cn_response_in_flight c' = cn_response_in_flight c \<Longrightarrow> may_send c' K"
  unfolding may_send_def using same_conn_base[of c c' None K] by (simp add: same_conn_def)

lemma may_send_mono: "may_send c K \<Longrightarrow> may_send c (K + L)"
  by (simp add: may_send_def conn_base_mono)

lemma response_failed_ok:
  assumes "may_send c0 K" "same_conn c0 c" "response_failed c w = (s', w')" "keeps {# conn_fd c #} {# cn_id c #} 0 u {# conn_fd c #} {# cn_id c #} 0 w"
    and "quiet u w"
  shows "method_ok c0 None K u s' w'"
proof -
  let ?c = "c\<lparr>cn_response_in_flight := False\<rparr>"
  have s: "same_conn c0 ?c" using assms(2) by (simp add: same_conn_def)
  have "cn_response_in_flight c0 = False" using assms(1) by (simp add: may_send_def conn_base_def)
  then have "conn_base ?c None K"
    using assms(1) same_conn_base[OF s, of None K] by (simp add: may_send_def)
  with assms(3) have m: "method_ok ?c None K w s' w'" by (auto simp: response_failed_def intro: closeConnection_ok)
  then obtain E where E: "sq w' = sq w @ E"
    "keeps {# conn_fd ?c #} {# cn_id ?c #} 0 w (state_fds s') (state_jobs s' + aux_jobs (mset E)) (length E) w'"
    "traffic_ok s' (mset E)" "state_inv s' (K + mset E)" "case s' of Live c' _ \<Rightarrow> cn_id c' = cn_id ?c | Freed \<Rightarrow> True"
    by (auto simp: method_ok_def)
  have f: "conn_fd ?c = conn_fd c0" "cn_id ?c = cn_id c0" "conn_fd c = conn_fd c0" "cn_id c = cn_id c0"
    using same_conn_fd[OF s] same_conn_fd[OF assms(2)] by simp_all
  from keeps_trans[OF assms(4)[unfolded f] E(2)[unfolded f]] E assms(5) f show ?thesis
    by (auto simp: method_ok_def quiet_def intro!: exI[of _ E] split: conn_state.splits)
qed

lemma sent_ok:
  assumes m: "may_send c0 K" and s: "same_conn c0 c" and rif: "cn_response_in_flight c" and r: "resp_inv r"
    and E: "sq w' = sq w @ E" "\<forall>e \<in> set E. fst e = resp_job r \<and> \<not> aux_op (snd e)" "length E = resp_ops r"
    and k: "keeps {#} {#} 0 w (resp_fds r) (resp_jobs r) (resp_ops r) w'"
  shows "method_ok c0 None K w (Live c (Some r)) w'"
proof -
  have "filter_mset (\<lambda>e. aux_op (snd e)) (mset E) = {#}" "filter_mset (\<lambda>e. \<not> aux_op (snd e)) (mset E) = mset E"
    using E(2) by (auto simp: filter_mset_eq_conv)
  then have t: "aux_jobs (mset E) = {#}" "traffic_ok (Live c (Some r)) (mset E)" using E by (auto simp: aux_jobs_def)
  have b: "conn_base c (Some r) K"
    using m s rif r by (auto simp: may_send_def conn_base_def same_conn_def conn_fd_def)
  then have "conn_inv c (Some r) (K + mset E)"
    using m s conn_base_mono[OF b] by (auto simp: conn_inv_def may_send_def same_conn_def)
  moreover have "keeps {# conn_fd c0 #} {# cn_id c0 #} 0 w (add_mset (conn_fd c0) (resp_fds r)) (add_mset (cn_id c0) (resp_jobs r)) (length E) w'"
    using keeps_frame[OF k, of "{# conn_fd c0 #}" "{# cn_id c0 #}" 0] E(3) by simp
  ultimately show ?thesis using E t same_conn_fd[OF s] unfolding method_ok_def by (intro exI[of _ E]) simp
qed

lemma fj_created:
  assumes "fj_createFromPool fd path response True True w = (jo, w1)"
  shows "keeps F J n w F (case jo of None \<Rightarrow> J | Some j \<Rightarrow> add_mset (fj_id j) J) n w1 \<and> quiet w w1 \<and>
    (\<forall>j. jo = Some j \<longrightarrow> fj_file_fd j = - 1 \<and> fj_on_complete j \<and> fj_on_error j \<and> fj_client_fd j = fd)"
  using assms keeps_alloc[of F J n w] quiet_created(3)[of fd path 0 0 response True True w jo w1]
  by (auto simp: fj_createFromPool_def fj_createFromPool_range_def HTTPFileJob_init_def split: option.splits prod.splits)

lemma quiet_keeps: "keeps {#} {#} 0 u F J n w \<Longrightarrow> queues j u w \<Longrightarrow>
   \<exists>E. sq w = sq u @ E \<and> (\<forall>e \<in> set E. fst e = j \<and> \<not> aux_op (snd e)) \<and> length E = n"
  by (auto simp: queues_def keeps_def)

lemma sendFileResponse_ok:
  assumes m: "may_send c0 K" and se: "sendFileResponse app c0 response w = (s', w')"
  shows "method_ok c0 None K w s' w'"
proof -
  define c where "c = c0\<lparr>cn_response_in_flight := True, cn_pending_range := None\<rparr>"
  have s: "same_conn c0 c" by (simp add: same_conn_def c_def)
  obtain jo w1 where cr: "fj_createFromPool (cn_client_fd c) (file_path response) response True True w = (jo, w1)" by fastforce
  note fc = fj_created[OF cr]
  show ?thesis
  proof (cases jo)
    case None
    with se cr have "response_failed c w1 = (s', w')" by (simp add: sendFileResponse_def c_def[symmetric] Let_def)
    from response_failed_ok[OF m s this] fc None show ?thesis by simp
  next
    case (Some j)
    let ?j = "case cn_pending_range c0 of None \<Rightarrow> j | Some spec \<Rightarrow> requestRange spec j"
    have j: "fj_file_fd ?j = - 1" "fj_on_complete ?j" "fj_on_error ?j" "fj_id ?j = fj_id j" "fj_file ?j = {#}"
      using fc Some by (auto simp: requestRange_def fj_file_def split: option.splits)
    obtain r w2 where st: "fj_start (gmtime app) ?j w1 = (r, w2)" by fastforce
    have fs: "file_reports ?j r" "keeps {#} {# fj_id j #} 0 w1 (file_fds r) (file_jobs r) (file_ops r) w2"
      using fj_start_step[OF j(1), of w1 "gmtime app"] st j by (simp_all add: file_step_def)
    have q: "file_queues w r w2" using file_queues_cong[OF file_queues_start[OF st]] fc by simp
    have k: "keeps {#} {#} 0 w (file_fds r) (file_jobs r) (file_ops r) w2"
      using keeps_trans[OF _ fs(2)] fc[of "{#}" "{#}" 0] Some by simp
    show ?thesis
    proof (cases r)
      case (FileRunning j' child)
      let ?r = "FileTransfer j' child (cn_keep_alive c)"
      have eq: "s' = Live c (Some ?r)" "w' = w2"
        using se cr Some st FileRunning by (simp_all add: sendFileResponse_def c_def[symmetric] Let_def)
      have "resp_inv ?r" using fs(1) FileRunning j by (simp add: file_reports_def)
      moreover have "cn_response_in_flight c" by (simp add: c_def)
      moreover obtain E where "sq w2 = sq w @ E" "\<forall>e \<in> set E. fst e = child_job child \<and> \<not> aux_op (snd e)" "length E = file_ops r"
        using quiet_keeps[OF k] q FileRunning by (auto simp: file_queues_def)
      ultimately show ?thesis unfolding eq using k FileRunning by (intro sent_ok[OF m s]) auto
    next
      case (FileDone cb)
      then have "response_failed c w2 = (s', w')"
        using se cr Some st by (simp add: sendFileResponse_def c_def[symmetric] Let_def)
      moreover have "keeps {# conn_fd c #} {# cn_id c #} 0 w {# conn_fd c #} {# cn_id c #} 0 w2"
        using keeps_frame[OF k, of "{# conn_fd c #}" "{# cn_id c #}" 0] FileDone by simp
      moreover have "quiet w w2" using q FileDone by (simp add: file_queues_def)
      ultimately show ?thesis by (intro response_failed_ok[OF m s])
    qed
  qed
qed

lemma sendBody_ok:
  assumes m: "may_send c0 K" and s: "same_conn c0 c" and fl: "cn_response_in_flight c"
    and cr: "createFromPoolWithOwnedData (cn_client_fd c) str (length str) True True w = (wjo, w1)"
    and se: "(case wjo of None \<Rightarrow> response_failed c w1
          | Some wj \<Rightarrow> (case wj_start wj w1 of
               (Pending wj', w2) \<Rightarrow> (Live c (Some (BodyWrite wj' (cn_keep_alive c))), w2)
             | (_, w2) \<Rightarrow> response_failed c w2)) = (s', w')"
  shows "method_ok c0 None K w s' w'"
proof (cases wjo)
  case None
  with se have "response_failed c w1 = (s', w')" by simp
  moreover have "keeps {# conn_fd c #} {# cn_id c #} 0 w {# conn_fd c #} {# cn_id c #} 0 w1"
    using owned_write_created[OF cr] None by simp
  ultimately show ?thesis using response_failed_ok[OF m s] quiet_created(1)[OF cr] by blast
next
  case (Some wj)
  obtain r w2 where st: "wj_start wj w1 = (r, w2)" by fastforce
  note cb = created_callbacks[OF cr[unfolded Some]]
  from write_child_queues[OF cr[unfolded Some] st] write_child_step[OF cr[unfolded Some] st, of "{#}" "{#}" 0]
  consider (run) "r = Pending wj" "queues (wj_id wj) w w2" "keeps {#} {#} 0 w {#} {# wj_id wj #} 1 w2"
    | (gone) err where "r = Abandoned (OnError (cn_client_fd c) err)" "quiet w w2" "keeps {#} {#} 0 w {#} {#} 0 w2"
    by auto
  then show ?thesis
  proof cases
    case run
    have eq: "s' = Live c (Some (BodyWrite wj (cn_keep_alive c)))" "w' = w2" using se Some st run(1) by simp_all
    obtain E where "sq w2 = sq w @ E" "\<forall>e \<in> set E. fst e = wj_id wj \<and> \<not> aux_op (snd e)" "length E = 1"
      using quiet_keeps[OF run(3,2)] by blast
    then show ?thesis unfolding eq using run(3) cb fl by (intro sent_ok[OF m s]) auto
  next
    case gone
    have "response_failed c w2 = (s', w')" using se Some st gone(1) by simp
    moreover have "keeps {# conn_fd c #} {# cn_id c #} 0 w {# conn_fd c #} {# cn_id c #} 0 w2"
      using keeps_frame[OF gone(3), of "{# conn_fd c #}" "{# cn_id c #}" 0] by simp
    ultimately show ?thesis using gone(2) by (intro response_failed_ok[OF m s])
  qed
qed

lemma sendResponse_ok:
  assumes m: "may_send c0 K" and se: "sendResponse app c0 response0 w = (s', w')"
  shows "method_ok c0 None K w s' w'"
proof -
  obtain c1 response where d: "state_disposition c0 response0 w = (c1, response)" by fastforce
  have s1: "same_conn c0 c1" "cn_response_in_flight c1 = cn_response_in_flight c0"
    using d by (auto simp: state_disposition_def same_conn_def Let_def split: if_splits)
  show ?thesis
  proof (cases "file_path response = []")
    case False
    with se d have "sendFileResponse app c1 response w = (s', w')" by (simp add: sendResponse_def)
    from method_same[OF sendFileResponse_ok[OF may_send_same[OF m s1] this] s1(1)] show ?thesis .
  next
    case True
    define str where "str = body_response (cn_keep_alive c1) response"
    define c where "c = c1\<lparr>cn_response_in_flight := True\<rparr>"
    have s: "same_conn c0 c" using s1 by (simp add: same_conn_def c_def)
    obtain wjo w1 where cr: "createFromPoolWithOwnedData (cn_client_fd c) str (length str) True True w = (wjo, w1)" by fastforce
    show ?thesis
      by (rule sendBody_ok[OF m s _ cr]) (use se d True cr in \<open>simp_all add: sendResponse_def str_def[symmetric] c_def[symmetric] Let_def, simp_all add: c_def\<close>)
  qed
qed

section \<open>Requests\<close>

lemma sendErrorAndClose_ok:
  assumes inv: "conn_inv c child K" and se: "sendErrorAndClose app code reason c child w = (s', w')"
  shows "method_ok c child K w s' w'"
proof -
  let ?c = "c\<lparr>cn_keep_alive := False, cn_advertise_keep_alive := False, cn_request_buffer := []\<rparr>"
  have s: "same_conn c ?c" by (simp add: same_conn_def)
  have b: "conn_base ?c child K" using same_conn_base[OF s] inv by (simp add: conn_inv_def)
  show ?thesis
  proof (cases "cn_client_fd c < 0 \<or> cn_response_in_flight c")
    case True
    with se have "closeConnection ?c child w = (s', w')" by (simp add: sendErrorAndClose_def)
    from method_same[OF closeConnection_ok[OF b this] s] show ?thesis .
  next
    case False
    then have ch: "child = None" "may_send ?c K"
      using b inv by (auto simp: may_send_def conn_inv_def conn_base_def)
    from method_same[OF sendResponse_ok[OF ch(2)] s] se False ch(1) show ?thesis
      by (simp add: sendErrorAndClose_def)
  qed
qed

lemma processHttpRequests_cases:
  assumes pr: "processHttpRequests app c child w = (s', w')"
  obtains (idle) "s' = Live c child" "w' = w"
    | (bad) "sendErrorAndClose app 400 ''Bad Request'' c child w = (s', w')"
    | (request) req n where "\<not> cn_response_in_flight c" "cn_client_fd c \<ge> 0"
        "handleHttpRequest app req (c\<lparr>cn_request_buffer := drop n (cn_request_buffer c)\<rparr>) w = (s', w')"
proof (cases "cn_response_in_flight c \<or> cn_client_fd c < 0 \<or> cn_request_buffer c = []")
  case True
  with pr show ?thesis by (intro idle) (simp_all add: processHttpRequests_def)
next
  case False
  obtain res req n where p: "parse_request (cn_request_buffer c) empty_request = (res, req, n)" by (metis prod.collapse)
  show ?thesis
  proof (cases res)
    case Success
    with False pr p show ?thesis by (intro request) (simp_all add: processHttpRequests_def)
  next
    case Incomplete
    with False pr p show ?thesis by (intro idle) (simp_all add: processHttpRequests_def)
  next
    case BadRequest
    with False pr p show ?thesis by (intro bad) (simp add: processHttpRequests_def)
  qed
qed

lemma processHttpRequests_ok:
  assumes inv: "conn_inv c child K" and pr: "processHttpRequests app c child w = (s', w')"
  shows "method_ok c child K w s' w'"
proof (cases rule: processHttpRequests_cases[OF pr, case_names idle bad request])
  case idle
  with inv show ?thesis by (simp add: method_stay)
next
  case bad
  then show ?thesis by (rule sendErrorAndClose_ok[OF inv])
next
  case (request req n)
  then have ch: "child = None" using inv by (simp add: conn_inv_def conn_base_def)
  let ?c = "c\<lparr>cn_request_buffer := drop n (cn_request_buffer c), cn_keep_alive := shouldKeepAlive req,
    cn_advertise_keep_alive := (req_version req \<noteq> ''HTTP/1.1''),
    cn_pending_range := (if req_method req = ''GET'' then parse_range (req_getHeader req ''range'') else None)\<rparr>"
  have s: "same_conn c ?c" by (simp add: same_conn_def)
  have "may_send c K" using inv request(2) ch by (auto simp: may_send_def conn_inv_def)
  then have "may_send ?c K" using s by (rule may_send_same) simp
  from method_same[OF sendResponse_ok[OF this] s] request(3) ch show ?thesis by (simp add: handleHttpRequest_def)
qed

lemma onResponseComplete_ok:
  assumes m: "may_send (c0\<lparr>cn_response_in_flight := False\<rparr>) K" and oc: "onResponseComplete app ka c0 w = (s', w')"
  shows "method_ok (c0\<lparr>cn_response_in_flight := False\<rparr>) None K w s' w'"
proof -
  define c where "c = c0\<lparr>cn_response_in_flight := False\<rparr>"
  have mc: "may_send c K" using m by (simp add: c_def)
  then have b: "conn_base c None K" by (simp add: may_send_def)
  obtain c1 w1 where a: "armIdleTimeout c w = (c1, w1)" by fastforce
  consider (close) "closeConnection c None w = (s', w')"
    | (next_request) "\<not> cn_close_pending c" "processHttpRequests app c None w = (s', w')"
    | (idle) "\<not> cn_close_pending c" "s' = Live c1 None" "w' = w1"
    using oc a by (auto simp: onResponseComplete_def c_def[symmetric] continueReading_def Let_def split: if_splits)
  then have "method_ok c None K w s' w'"
  proof cases
    case close
    with b show ?thesis by (rule closeConnection_ok)
  next
    case next_request
    then have "conn_inv c None K" using mc by (simp add: may_send_def conn_inv_def)
    then show ?thesis using next_request(2) by (rule processHttpRequests_ok)
  next
    case idle
    have i: "conn_inv c None K" using mc idle(1) by (simp add: may_send_def conn_inv_def)
    show ?thesis
    proof (cases rule: armIdleTimeout_aux[OF a, case_names same armed])
      case (same E)
      with idle i show ?thesis by (auto intro!: method_after_aux[OF same(1)] method_stay conn_inv_mono)
    next
      case (armed t)
      have "conn_inv c1 None (K + mset [(t, OpTimeout (cn_idle_timeout_ms c))])"
        using i idle(1) unfolding armed(2) by (auto simp: conn_inv_def conn_base_def conn_fd_def)
      with idle armed show ?thesis
        by (auto simp: conn_fd_def intro!: method_after_aux[OF armed(1), of c1] method_stay)
    qed
  qed
  then show ?thesis by (simp add: c_def)
qed

section \<open>Completions\<close>

lemma handleDataReceived_cases:
  assumes h: "handleDataReceived app data len c child w = (s', w')"
  obtains (drop) "s' = Live c child" "w' = w"
    | (close) "closeConnection c child w = (s', w')"
    | (refuse) code reason where "sendErrorAndClose app code reason c child w = (s', w')"
    | (process) "processHttpRequests app (c\<lparr>cn_request_buffer := cn_request_buffer c @ take (nat len) data\<rparr>) child w = (s', w')"
    | (cancel) ok u where "submitIdleTimeoutCancel c w = (ok, u)"
        "processHttpRequests app ((if ok then c\<lparr>cn_idle_cancel_pending := True\<rparr> else c)
           \<lparr>cn_request_buffer := cn_request_buffer c @ take (nat len) data\<rparr>) child u = (s', w')"
proof (cases "cn_client_fd c < 0 \<or> len \<le> 0")
  case True
  with h show ?thesis by (cases "cn_client_fd c < 0"; cases "len = 0") (simp_all add: handleDataReceived_def drop close)
next
  case False
  let ?new = "cn_request_buffer c @ take (nat len) data"
  show ?thesis
  proof (cases "length (cn_request_buffer c) + nat len > cn_max_request_size c")
    case True
    with False h refuse show ?thesis
      by (cases "find_str CRLF2 (cn_request_buffer c)") (simp_all add: handleDataReceived_def)
  next
    case fits: False
    obtain ok u where sc: "submitIdleTimeoutCancel c w = (ok, u)" by fastforce
    show ?thesis
    proof (cases "cn_active_idle_timeout_job c \<noteq> None \<and> \<not> cn_idle_cancel_pending c")
      case True
      with False fits h sc show ?thesis by (intro cancel[OF sc]) (cases ok; simp add: handleDataReceived_def Let_def)
    next
      case quiet: False
      with False fits h have "processHttpRequests app (c\<lparr>cn_request_buffer := ?new\<rparr>) child w = (s', w')"
        unfolding handleDataReceived_def by (simp only: if_False de_Morgan_conj not_less not_le Let_def split_conv) auto
      then show ?thesis by (rule process)
    qed
  qed
qed

lemma handleDataReceived_ok:
  assumes inv: "conn_inv c child K" and h: "handleDataReceived app data len c child w = (s', w')"
  shows "method_ok c child K w s' w'"
proof (cases rule: handleDataReceived_cases[OF h, case_names drop close refuse process cancel])
  case drop
  with inv show ?thesis by (simp add: method_stay)
next
  case close
  with inv show ?thesis by (auto simp: conn_inv_def intro: closeConnection_ok)
next
  case refuse
  with inv show ?thesis by (rule sendErrorAndClose_ok)
next
  case process
  let ?c = "c\<lparr>cn_request_buffer := cn_request_buffer c @ take (nat len) data\<rparr>"
  have s: "same_conn c ?c" by (simp add: same_conn_def)
  have "conn_inv ?c child K" using same_conn_inv[OF s _ inv] by simp
  from method_same[OF processHttpRequests_ok[OF this process] s] show ?thesis .
next
  case (cancel ok u)
  let ?c = "(if ok then c\<lparr>cn_idle_cancel_pending := True\<rparr> else c)\<lparr>cn_request_buffer := cn_request_buffer c @ take (nat len) data\<rparr>"
  obtain E where E: "aux_step w u E" using cancel(1) by (auto simp: submitIdleTimeoutCancel_def elim: submit_cancel_aux)
  have "conn_inv ?c child (K + mset E)"
    using conn_inv_mono[OF inv, of "mset E"] by (auto simp: conn_inv_def conn_base_def conn_fd_def)
  from processHttpRequests_ok[OF this cancel(2)] show ?thesis
    by (rule method_after_aux[OF E]) (simp_all add: conn_fd_def)
qed

lemma handleReadError_ok:
  assumes b: "conn_base (c\<lparr>cn_active_read_job := None\<rparr>) child K" and h: "handleReadError err c child w = (s', w')"
  shows "method_ok c child K w s' w'"
proof -
  let ?c = "c\<lparr>cn_active_read_job := None\<rparr>"
  have "conn_fd ?c \<ge> 0" using b by (simp add: conn_base_def)
  then have "\<not> (cn_client_fd c < 0 \<and> cn_deferred_close_fd c < 0)" by (auto simp: conn_fd_def split: if_splits)
  with h have "closeConnection ?c child w = (s', w')" by (simp add: handleReadError_def)
  from closeConnection_ok[OF b this] show ?thesis
    by (rule method_after_aux[OF aux_step_refl, of ?c child K, simplified]) (simp_all add: conn_fd_def)
qed

lemma handleIdleTimeout_ok:
  assumes inv: "conn_inv c child (add_mset (t, OpTimeout ms) K)" and h: "handleIdleTimeout t res c child w = (s', w')"
  shows "method_ok c child K w s' w'"
proof (cases "cn_active_idle_timeout_job c = Some t")
  case False
  then have "conn_inv c child K" using inv by (auto simp: conn_inv_def conn_base_def)
  with False h show ?thesis by (auto simp: handleIdleTimeout_def intro: method_stay)
next
  case True
  let ?c = "c\<lparr>cn_active_idle_timeout_job := None\<rparr>"
  have b: "conn_base ?c child K" using inv by (auto simp: conn_inv_def conn_base_def conn_fd_def)
  have fd: "conn_fd ?c = conn_fd c" by (simp add: conn_fd_def)
  have lift: "method_ok ?c child K w s' w' \<Longrightarrow> method_ok c child K w s' w'"
    using method_after_aux[OF aux_step_refl, of ?c child K w s' w' c] fd by simp
  have "\<not> (cn_client_fd c < 0 \<and> cn_deferred_close_fd c < 0)"
    using b by (auto simp: conn_base_def conn_fd_def split: if_splits)
  note open_fd = this
  show ?thesis
  proof (cases "res = - ECANCELED \<and> \<not> cn_close_pending c")
    case stay: True
    then have "s' = Live ?c child" "w' = w" using True h by (simp_all add: handleIdleTimeout_def)
    moreover have "conn_inv ?c child K" using b inv stay by (simp add: conn_inv_def)
    ultimately show ?thesis using method_stay[of ?c child K c w] fd by simp
  next
    case False
    then have "closeConnection ?c child w = (s', w')"
      using True h open_fd by (cases "res = - ECANCELED") (simp_all add: handleIdleTimeout_def)
    with closeConnection_ok[OF b] lift show ?thesis by blast
  qed
qed

section \<open>The world of one connection\<close>

text \<open>
  \<open>cw_kernel\<close> are the operations of the connection that the kernel holds. \<open>world_ok\<close> is relative to the
  ring \<open>w0\<close> as it was when the socket \<open>fd\<close> was handed to the new connection: since then every descriptor,
  pool object and in-flight count is accounted for.
\<close>

record cworld =
  cw_state :: conn_state
  cw_ring :: ring
  cw_kernel :: "(nat \<times> sqe_op) multiset"

definition ledger :: "int \<Rightarrow> ring \<Rightarrow> conn_state \<Rightarrow> nat multiset \<Rightarrow> nat \<Rightarrow> ring \<Rightarrow> bool" where
  "ledger fd w0 s J n w \<longleftrightarrow>
     keeps {# fd #} {#} 0 (w0\<lparr>srv_state := srv_state w\<rparr>) (state_fds s) (state_jobs s + J) n w"

definition is_conn :: "nat \<Rightarrow> conn_state \<Rightarrow> bool" where
  "is_conn cid s \<longleftrightarrow> (case s of Live c _ \<Rightarrow> cn_id c = cid | Freed \<Rightarrow> True)"

definition world_ok :: "nat \<Rightarrow> int \<Rightarrow> ring \<Rightarrow> cworld \<Rightarrow> bool" where
  "world_ok cid fd w0 W \<longleftrightarrow>
     ledger fd w0 (cw_state W) (aux_jobs (cw_kernel W)) (size (cw_kernel W)) (cw_ring W) \<and>
     traffic_ok (cw_state W) (cw_kernel W) \<and> state_inv (cw_state W) (cw_kernel W) \<and> is_conn cid (cw_state W)"

text \<open>The entries queued between two states of the ring.\<close>

definition queued :: "ring \<Rightarrow> ring \<Rightarrow> (nat \<times> sqe_op) multiset" where
  "queued w w' = mset (drop (length (sq w)) (sq w'))"

lemma queued_append: "sq w' = sq w @ E \<Longrightarrow> queued w w' = mset E"
  by (simp add: queued_def)

lemma queued_same: "sq w' = sq w \<Longrightarrow> queued w w' = {#}"
  by (simp add: queued_def)

text \<open>
  The result of a handler, finished the way \<^verbatim>\<open>Server::handleCompletion\<close> does: the count goes down on the last
  completion of the operation \<open>e\<close>, then the cleanup callback frees its job.
\<close>

definition finish :: "nat \<times> sqe_op \<Rightarrow> bool \<Rightarrow> bool \<Rightarrow> conn_state \<Rightarrow> ring \<Rightarrow> cworld \<Rightarrow> cworld" where
  "finish e cont clean s' w1 W =
     (let w2 = (if cont then w1 else retire w1);
          w3 = (if clean then pool_free (fst e) w2 else w2);
          K1 = (if cont then cw_kernel W else cw_kernel W - {# e #}) in
      \<lparr>cw_state = s', cw_ring = w3, cw_kernel = K1 + queued (cw_ring W) w1\<rparr>)"

text \<open>What one completion of a response operation may be.\<close>

fun resp_kernel_ok :: "response_child \<Rightarrow> cqe \<Rightarrow> bool" where
  "resp_kernel_ok (BodyWrite wj _) ce \<longleftrightarrow> \<not> cqe_more ce"
| "resp_kernel_ok (FileTransfer j child _) ce \<longleftrightarrow> child_kernel_ok child ce"

inductive conn_step :: "app \<Rightarrow> nat \<Rightarrow> cworld \<Rightarrow> cworld \<Rightarrow> bool" for app cid where
  Recv: "(j, OpRecvMultishot fd) \<in># cw_kernel W \<Longrightarrow>
     http_recv_completion app \<lparr>mr_id = j, mr_fd = fd, mr_handler = \<lparr>rh_connection = cid\<rparr>\<rparr> ce buffer
       (cw_state W) (cw_ring W) = (clean, s', w1) \<Longrightarrow>
     conn_step app cid W (finish (j, OpRecvMultishot fd) (cqe_more ce) clean s' w1 W)"
| Timer: "(t, OpTimeout ms) \<in># cw_kernel W \<Longrightarrow> \<not> cqe_more ce \<Longrightarrow>
     it_handleCompletion (IdleTimeoutJob_init t cid ms) ce (cw_state W) (cw_ring W) = (s', w1) \<Longrightarrow>
     conn_step app cid W (finish (t, OpTimeout ms) False True s' w1 W)"
| Cancel: "(i, OpCancel u) \<in># cw_kernel W \<Longrightarrow>
     conn_step app cid W (finish (i, OpCancel u) False True (cw_state W) (cw_ring W) W)"
| Response: "(j, op) \<in># cw_kernel W \<Longrightarrow> \<not> aux_op op \<Longrightarrow> cw_state W = Live c (Some r) \<Longrightarrow> resp_job r = j \<Longrightarrow>
     resp_kernel_ok r ce \<Longrightarrow> response_completion app c r ce (cw_ring W) = (s', w1) \<Longrightarrow>
     conn_step app cid W (finish (j, op) False False s' w1 W)"
| SweepRecv: "(j, OpRecvMultishot fd) \<in># cw_kernel W \<Longrightarrow>
     mr_requestShutdownCancel \<lparr>mr_id = j, mr_fd = fd, mr_handler = \<lparr>rh_connection = cid\<rparr>\<rparr> (cw_ring W) = w1 \<Longrightarrow>
     conn_step app cid W (W\<lparr>cw_ring := w1, cw_kernel := cw_kernel W + queued (cw_ring W) w1\<rparr>)"
| SweepTimer: "(t, OpTimeout ms) \<in># cw_kernel W \<Longrightarrow>
     it_requestShutdownCancel (IdleTimeoutJob_init t cid ms) (cw_ring W) = w1 \<Longrightarrow>
     conn_step app cid W (W\<lparr>cw_ring := w1, cw_kernel := cw_kernel W + queued (cw_ring W) w1\<rparr>)"
| Stop: "conn_step app cid W (W\<lparr>cw_ring := (cw_ring W)\<lparr>srv_state := st\<rparr>\<rparr>)"

section \<open>Preservation\<close>

lemma books_step:
  "ledger fd w0 s J n w \<Longrightarrow> keeps (state_fds s) (state_jobs s + J) n w (state_fds s') (state_jobs s' + J') n' w' \<Longrightarrow>
   ledger fd w0 s' J' n' w'"
  unfolding ledger_def by (metis keeps_def keeps_trans)

lemma books_free: "ledger fd w0 s (add_mset j J) n w \<Longrightarrow> ledger fd w0 s J n (pool_free j w)"
  by (erule books_step) (simp add: keeps_env)

lemma books_retire: "ledger fd w0 s J (Suc n) w \<Longrightarrow> ledger fd w0 s J n (retire w)"
  by (simp add: ledger_def keeps_def retire_def)

text \<open>
  A method of the connection, run on books that carry the objects \<open>J\<close> and \<open>n\<close> operations while \<open>K0\<close> stays in the
  kernel.
\<close>

lemma method_books:
  assumes led: "ledger fd w0 (Live c child) J n w" and t: "traffic_ok (Live c child) K0"
    and m: "method_ok c child K0 w s' w1"
  shows "ledger fd w0 s' (J + aux_jobs (queued w w1)) (n + size (queued w w1)) w1 \<and>
    traffic_ok s' (K0 + queued w w1) \<and> state_inv s' (K0 + queued w w1) \<and> is_conn (cn_id c) s' \<and>
    (\<exists>E. sq w1 = sq w @ E)"
proof -
  obtain E where E: "sq w1 = sq w @ E"
    "keeps (state_fds (Live c child)) (state_jobs (Live c child)) 0 w (state_fds s') (state_jobs s' + aux_jobs (mset E)) (length E) w1"
    "case child of None \<Rightarrow> traffic_ok s' (mset E) | Some r \<Rightarrow> (\<exists>c'. s' = Live c' (Some r)) \<and> (\<forall>e \<in> set E. aux_op (snd e))"
    "state_inv s' (K0 + mset E)" "case s' of Live c' _ \<Rightarrow> cn_id c' = cn_id c | Freed \<Rightarrow> True"
    using m by (auto simp: method_ok_def)
  have q: "queued w w1 = mset E" by (rule queued_append[OF E(1)])
  have "keeps (state_fds (Live c child)) (state_jobs (Live c child) + J) n w
      (state_fds s') (state_jobs s' + (J + aux_jobs (mset E))) (n + size (mset E)) w1"
    using keeps_frame[OF E(2), of "{#}" J n] by (simp add: ac_simps)
  with led have "ledger fd w0 s' (J + aux_jobs (mset E)) (n + size (mset E)) w1" by (rule books_step)
  moreover have "traffic_ok s' (K0 + mset E)"
  proof (cases child)
    case None
    then have k0: "\<forall>e \<in># K0. aux_op (snd e)" using t by auto
    then have "filter_mset (\<lambda>e. \<not> aux_op (snd e)) K0 = {#}" by (auto simp: filter_mset_eq_conv)
    with k0 E(3) None show ?thesis by (cases "(s', mset E)" rule: traffic_ok.cases) auto
  next
    case (Some r)
    then have e: "\<forall>e \<in> set E. aux_op (snd e)" using E(3) by simp
    then have "filter_mset (\<lambda>e. \<not> aux_op (snd e)) (mset E) = {#}" by (auto simp: filter_mset_eq_conv)
    with e E(3) Some t show ?thesis by auto
  qed
  ultimately show ?thesis using E q by (auto simp: is_conn_def split: conn_state.splits)
qed

lemma traffic_gone: "traffic_ok s K \<Longrightarrow> aux_op (snd e) \<Longrightarrow> K = add_mset e K0 \<Longrightarrow> traffic_ok s K0"
  by (cases "(s, K)" rule: traffic_ok.cases) auto

text \<open>While \<open>K\<close> is in the kernel, \<open>K0\<close> of which stays there.\<close>

lemma method_world:
  assumes led: "ledger fd w0 (Live c child) (aux_jobs K) (size K) w" and t: "traffic_ok (Live c child) K"
    and m: "method_ok c child K0 w s' w1" and K: "K = K0 \<or> (\<exists>e. aux_op (snd e) \<and> K = add_mset e K0)"
  shows "ledger fd w0 s' (aux_jobs (K + queued w w1)) (size (K + queued w w1)) w1 \<and>
    traffic_ok s' (K0 + queued w w1) \<and> state_inv s' (K0 + queued w w1) \<and> is_conn (cn_id c) s' \<and>
    (\<exists>E. sq w1 = sq w @ E)"
proof -
  have "traffic_ok (Live c child) K0" using K t traffic_gone[OF t] by auto
  from method_books[OF led this m] show ?thesis by simp
qed

lemma finish_simps [simp]:
  "cw_state (finish e cont clean s' w1 W) = s'"
  "cw_kernel (finish e cont clean s' w1 W) = (if cont then cw_kernel W else cw_kernel W - {# e #}) + queued (cw_ring W) w1"
  "cw_ring (finish e cont clean s' w1 W) =
     (let w2 = (if cont then w1 else retire w1) in if clean then pool_free (fst e) w2 else w2)"
  by (simp_all add: finish_def Let_def)

text \<open>The last completion of a receive, timer or cancel: its entry leaves the kernel and its job is freed.\<close>

lemma finish_aux:
  assumes "cw_kernel W = add_mset e K0" "aux_op (snd e)"
    and "ledger fd w0 s' (aux_jobs (cw_kernel W + Q)) (size (cw_kernel W + Q)) w1"
    and "traffic_ok s' (K0 + Q)" "state_inv s' (K0 + Q)" "is_conn cid s'" "Q = queued (cw_ring W) w1"
  shows "world_ok cid fd w0 (finish e False True s' w1 W)"
proof -
  have "ledger fd w0 s' (add_mset (fst e) (aux_jobs (K0 + Q))) (Suc (size (K0 + Q))) w1" using assms by simp
  from books_free[OF books_retire[OF this]] assms show ?thesis by (simp add: world_ok_def)
qed

text \<open>A completion that is not the last: nothing leaves the kernel.\<close>

lemma finish_more:
  assumes "ledger fd w0 s' (aux_jobs (cw_kernel W + Q)) (size (cw_kernel W + Q)) w1"
    and "traffic_ok s' (cw_kernel W + Q)" "state_inv s' (cw_kernel W + Q)" "is_conn cid s'" "Q = queued (cw_ring W) w1"
  shows "world_ok cid fd w0 (finish e True False s' w1 W)"
  using assms by (simp add: world_ok_def)

lemma base_without_recv:
  assumes "conn_inv c child K" "K = K0 \<or> (\<exists>j fd. K = add_mset (j, OpRecvMultishot fd) K0)"
  shows "conn_base (c\<lparr>cn_active_read_job := None\<rparr>) child K0"
  using assms by (auto simp: conn_inv_def conn_base_def conn_fd_def)

text \<open>The three callbacks of the receive handler.\<close>

lemma onError_world:
  assumes led: "ledger fd w0 s (aux_jobs K) (size K) w" and t: "traffic_ok s K" and i: "state_inv s K" "is_conn cid s"
    and K: "K = K0 \<or> (\<exists>j f. K = add_mset (j, OpRecvMultishot f) K0)"
    and h: "rh_onError \<lparr>rh_connection = cid\<rparr> err s w = (s', w1)"
  shows "ledger fd w0 s' (aux_jobs (K + queued w w1)) (size (K + queued w w1)) w1 \<and>
    traffic_ok s' (K0 + queued w w1) \<and> state_inv s' (K0 + queued w w1) \<and> is_conn cid s' \<and> (\<exists>E. sq w1 = sq w @ E)"
proof (cases s)
  case (Live c child)
  with i h have "handleReadError err c child w = (s', w1)" "cn_id c = cid" by (simp_all add: rh_onError_def is_conn_def)
  moreover have "conn_base (c\<lparr>cn_active_read_job := None\<rparr>) child K0" using base_without_recv i(1) K Live by simp
  ultimately have m: "method_ok c child K0 w s' w1" "cn_id c = cid" using handleReadError_ok by blast+
  have "K = K0 \<or> (\<exists>e. aux_op (snd e) \<and> K = add_mset e K0)" using K by auto
  from method_world[OF led[unfolded Live] t[unfolded Live] m(1) this] m(2) show ?thesis by simp
next
  case Freed
  with h have r: "s' = Freed" "w1 = w" by (simp_all add: rh_onError_def)
  have "\<forall>e \<in># K0. aux_op (snd e)" using t K Freed by auto
  with r led Freed show ?thesis by (simp add: queued_same is_conn_def)
qed

lemma onData_world:
  assumes led: "ledger fd w0 s (aux_jobs K) (size K) w" and t: "traffic_ok s K" and i: "state_inv s K" "is_conn cid s"
    and h: "rh_onDataToken app \<lparr>rh_connection = cid\<rparr> data s w = (s', w1)"
  shows "ledger fd w0 s' (aux_jobs (K + queued w w1)) (size (K + queued w w1)) w1 \<and>
    traffic_ok s' (K + queued w w1) \<and> state_inv s' (K + queued w w1) \<and> is_conn cid s' \<and> (\<exists>E. sq w1 = sq w @ E)"
proof (cases s)
  case (Live c child)
  with i h have "handleDataReceived app data (int (length data)) c child w = (s', w1)" "cn_id c = cid"
    by (simp_all add: rh_onDataToken_def is_conn_def)
  then have m: "method_ok c child K w s' w1" "cn_id c = cid" using handleDataReceived_ok i(1) Live by auto
  from method_world[OF led[unfolded Live] t[unfolded Live] m(1)] m(2) show ?thesis by simp
next
  case Freed
  with h have "s' = Freed" "w1 = w" by (simp_all add: rh_onDataToken_def)
  with led t i Freed show ?thesis by (simp add: queued_same)
qed

lemma queued_trans: "sq v = sq u @ D \<Longrightarrow> sq w = sq v @ E \<Longrightarrow> queued u w = queued u v + queued v w"
  by (simp add: queued_def)

lemma rearm_world:
  assumes "mr_rearm \<lparr>mr_id = j, mr_fd = f, mr_handler = h\<rparr> w = (ok, w1)"
  shows "queued w w1 = (if ok then {# (j, OpRecvMultishot f) #} else {#}) \<and> (\<exists>E. sq w1 = sq w @ E) \<and>
    (\<forall>F J n. keeps F J n w F J (if ok then Suc n else n) w1)"
  using assms keeps_trans[OF keeps_register[of _ _ _ w j "OpRecvMultishot f"] keeps_env(2)] keeps_register[of _ _ _ w j "OpRecvMultishot f"]
  by (cases rule: registerJob_cases[of j "OpRecvMultishot f" w])
     (auto simp: mr_rearm_def mr_prepareSqe_def queued_def ring_simps Let_def)


lemma recv_rejects:
  assumes "cqe_res ce \<le> 0 \<or> buffer = None"
  shows "http_recv_completion app j ce buffer s w =
    (\<not> cqe_more ce, rh_onError (mr_handler j) (if cqe_res ce \<le> 0 then cqe_res ce else - EINVAL) s w)"
  using assms by (cases "cqe_res ce \<le> 0"; cases buffer)
    (simp_all add: http_recv_completion_def mr_handleCompletion_def Let_def split_beta)

text \<open>
  The ways a completion of the receive goes: refused, data with more to come, or data and then the
  re-arming or, where that is not wanted or fails, the end of reading.
\<close>

definition delivered :: "cqe \<Rightarrow> string option \<Rightarrow> string" where
  "delivered ce buffer = (case buffer of None \<Rightarrow> [] | Some buf \<Rightarrow> take (nat (cqe_res ce)) buf)"

lemma http_recv_cases:
  assumes h: "http_recv_completion app j ce buffer s w = (clean, s', w1)"
  obtains (rejected) err where "cqe_res ce \<le> 0 \<or> buffer = None" "rh_onError (mr_handler j) err s w = (s', w1)"
      "clean \<longleftrightarrow> \<not> cqe_more ce"
  | (more) "cqe_more ce" "rh_onDataToken app (mr_handler j) (delivered ce buffer) s w = (s', w1)" "\<not> clean"
  | (rearmed) u where "\<not> cqe_more ce" "rh_onDataToken app (mr_handler j) (delivered ce buffer) s w = (s', u)"
      "mr_rearm j u = (True, w1)" "\<not> clean"
  | (ended) s1 u v where "\<not> cqe_more ce" "rh_onDataToken app (mr_handler j) (delivered ce buffer) s w = (s1, u)"
      "v = u \<or> mr_rearm j u = (False, v)" "rh_onError (mr_handler j) (- ECANCELED) s1 v = (s', w1)" "clean"
proof (cases "cqe_res ce \<le> 0 \<or> buffer = None")
  case True
  show ?thesis by (rule rejected[OF True]) (use h recv_rejects[OF True, of app j s w] in auto)
next
  case False
  then obtain buf where buf: "buffer = Some buf" "\<not> cqe_res ce \<le> 0" by auto
  obtain s1 u where d: "rh_onDataToken app (mr_handler j) (delivered ce buffer) s w = (s1, u)" by fastforce
  have d': "rh_onDataToken app (mr_handler j) (take (nat (cqe_res ce)) buf) s w = (s1, u)" using d buf by (simp add: delivered_def)
  obtain armed v where a: "(if rh_shouldRearmRecv (mr_handler j) s1 then mr_rearm j u else (False, u)) = (armed, v)" by fastforce
  show ?thesis
  proof (cases "cqe_more ce")
    case True
    with h buf d' more[OF True] d show ?thesis by (simp add: http_recv_completion_def mr_handleCompletion_def)
  next
    case final: False
    show ?thesis
    proof (cases armed)
      case True
      then have "mr_rearm j u = (True, v)" using a by (simp split: if_splits)
      with True h buf d d' a final rearmed show ?thesis by (simp add: http_recv_completion_def mr_handleCompletion_def)
    next
      case no: False
      obtain s2 x where er: "rh_onError (mr_handler j) (- ECANCELED) s1 v = (s2, x)" by fastforce
      have "v = u \<or> mr_rearm j u = (False, v)" using a no by (auto split: if_splits)
      with no h buf d d' a final er ended show ?thesis by (simp add: http_recv_completion_def mr_handleCompletion_def)
    qed
  qed
qed

text \<open>The data is handled; the receive is in the kernel again.\<close>

lemma recv_rearmed:
  assumes dw: "ledger fd w0 s' (aux_jobs (K + queued w u)) (size (K + queued w u)) u \<and>
      traffic_ok s' (K + queued w u) \<and> state_inv s' (K + queued w u) \<and> is_conn cid s' \<and> (\<exists>E. sq u = sq w @ E)"
    and K: "K = add_mset (j, OpRecvMultishot f) K0" and W: "cw_kernel W = K" "cw_ring W = w"
    and a: "mr_rearm \<lparr>mr_id = j, mr_fd = f, mr_handler = h\<rparr> u = (True, v)"
  shows "world_ok cid fd w0 (finish (j, OpRecvMultishot f) False False s' v W)"
proof -
  note av = rearm_world[OF a]
  obtain E D where E: "sq u = sq w @ E" "sq v = sq u @ D" using dw av by blast
  have q: "queued w v = add_mset (j, OpRecvMultishot f) (queued w u)" using queued_trans[OF E] av by simp
  have "ledger fd w0 s' (aux_jobs (K + queued w u)) (Suc (size (K + queued w u))) v"
    by (rule books_step[OF conjunct1[OF dw]]) (use av in simp)
  from books_retire[OF this] show ?thesis using dw q K W by (simp add: world_ok_def)
qed

text \<open>The data is handled and reading ends.\<close>

lemma recv_ended:
  assumes dw: "ledger fd w0 s1 (aux_jobs (K + queued w u)) (size (K + queued w u)) u \<and>
      traffic_ok s1 (K + queued w u) \<and> state_inv s1 (K + queued w u) \<and> is_conn cid s1 \<and> (\<exists>E. sq u = sq w @ E)"
    and K: "cw_kernel W = K" "K = add_mset (j, OpRecvMultishot f) K0" and w: "cw_ring W = w"
    and v: "v = u \<or> mr_rearm \<lparr>mr_id = j, mr_fd = f, mr_handler = \<lparr>rh_connection = cid\<rparr>\<rparr> u = (False, v)"
    and er: "rh_onError \<lparr>rh_connection = cid\<rparr> err s1 v = (s', w1)"
  shows "queued w w1 = queued w u + queued v w1 \<and> world_ok cid fd w0 (finish (j, OpRecvMultishot f) False True s' w1 W)"
proof -
  have av: "queued u v = {#}" "\<exists>D. sq v = sq u @ D" "\<And>F J n. keeps F J n u F J n v"
    using v rearm_world[of j f "\<lparr>rh_connection = cid\<rparr>" u False v] by (auto simp: queued_same)
  obtain E D where ED: "sq u = sq w @ E" "sq v = sq u @ D" using dw av(2) by blast
  have qv: "queued w v = queued w u" using queued_trans[OF ED] av(1) by simp
  have led: "ledger fd w0 s1 (aux_jobs (K + queued w u)) (size (K + queued w u)) v"
    by (rule books_step[OF conjunct1[OF dw]]) (rule av(3))
  note ew = onError_world[OF led _ _ _ _ er, of "K0 + queued w u"]
  obtain G where G: "sq w1 = sq v @ G" using ew dw K by auto
  have ev: "sq v = sq w @ E @ D" using ED by simp
  have q: "queued w w1 = queued w u + queued v w1" using queued_trans[OF ev G] qv by simp
  moreover have "world_ok cid fd w0 (finish (j, OpRecvMultishot f) False True s' w1 W)" using ew dw K q w
    by (intro finish_aux[of W "(j, OpRecvMultishot f)" K0 fd w0 s' "queued w w1" w1]) (auto simp: add.assoc)
  ultimately show ?thesis by simp
qed

lemma recv_step:
  assumes ok: "world_ok cid fd w0 W" and e: "(j, OpRecvMultishot f) \<in># cw_kernel W"
    and h: "http_recv_completion app \<lparr>mr_id = j, mr_fd = f, mr_handler = \<lparr>rh_connection = cid\<rparr>\<rparr> ce buffer
       (cw_state W) (cw_ring W) = (clean, s', w1)"
  shows "world_ok cid fd w0 (finish (j, OpRecvMultishot f) (cqe_more ce) clean s' w1 W)"
proof -
  let ?e = "(j, OpRecvMultishot f)" and ?K = "cw_kernel W" and ?s = "cw_state W" and ?w = "cw_ring W"
  define K0 where "K0 = ?K - {# ?e #}"
  have K: "?K = add_mset ?e K0" using e by (simp add: K0_def)
  have inv: "ledger fd w0 ?s (aux_jobs ?K) (size ?K) ?w" "traffic_ok ?s ?K" "state_inv ?s ?K" "is_conn cid ?s"
    using ok by (simp_all add: world_ok_def)
  show ?thesis
  proof (cases rule: http_recv_cases[OF h, simplified, case_names rejected more rearmed ended])
    case (rejected err)
    note er = rejected(2)
    show ?thesis
    proof (cases "cqe_more ce")
      case True
      with onError_world[OF inv _ er, of ?K] rejected show ?thesis by (auto intro: finish_more)
    next
      case False
      with onError_world[OF inv _ er, of K0] K rejected show ?thesis by (auto intro!: finish_aux[OF K])
    qed
  next
    case more
    with onData_world[OF inv more(2)] show ?thesis by (auto intro: finish_more)
  next
    case (rearmed u)
    with recv_rearmed[OF onData_world[OF inv rearmed(2)] K refl refl rearmed(3)] show ?thesis by simp
  next
    case (ended s1 u v)
    with recv_ended[OF onData_world[OF inv ended(2)] refl K refl ended(3,4)] show ?thesis by simp
  qed
qed

lemma timer_step:
  assumes ok: "world_ok cid fd w0 W" and e: "(t, OpTimeout ms) \<in># cw_kernel W"
    and h: "it_handleCompletion (IdleTimeoutJob_init t cid ms) ce (cw_state W) (cw_ring W) = (s', w1)"
  shows "world_ok cid fd w0 (finish (t, OpTimeout ms) False True s' w1 W)"
proof -
  let ?e = "(t, OpTimeout ms)" and ?K = "cw_kernel W" and ?w = "cw_ring W"
  define K0 where "K0 = ?K - {# ?e #}"
  have K: "?K = add_mset ?e K0" using e by (simp add: K0_def)
  have inv: "ledger fd w0 (cw_state W) (aux_jobs ?K) (size ?K) ?w" "traffic_ok (cw_state W) ?K" "state_inv (cw_state W) ?K"
    "is_conn cid (cw_state W)" using ok by (simp_all add: world_ok_def)
  show ?thesis
  proof (cases "cw_state W")
    case (Live c child)
    with inv h have "handleIdleTimeout t (cqe_res ce) c child ?w = (s', w1)" "cn_id c = cid"
      by (simp_all add: it_handleCompletion_def IdleTimeoutJob_init_def is_conn_def)
    then have m: "method_ok c child K0 ?w s' w1" "cn_id c = cid" using handleIdleTimeout_ok inv(3) Live K by auto
    from method_world[OF inv(1)[unfolded Live] inv(2)[unfolded Live] m(1)] K m(2) show ?thesis
      by (auto intro!: finish_aux[OF K])
  next
    case Freed
    with h have r: "s' = Freed" "w1 = ?w" by (simp_all add: it_handleCompletion_def)
    with inv Freed K show ?thesis by (auto simp: queued_same is_conn_def intro!: finish_aux[OF K, of _ _ _ "{#}"])
  qed
qed

lemma cancel_step:
  assumes ok: "world_ok cid fd w0 W" and e: "(i, OpCancel u) \<in># cw_kernel W"
  shows "world_ok cid fd w0 (finish (i, OpCancel u) False True (cw_state W) (cw_ring W) W)"
proof -
  let ?e = "(i, OpCancel u)" and ?K = "cw_kernel W"
  define K0 where "K0 = ?K - {# ?e #}"
  have K: "?K = add_mset ?e K0" using e by (simp add: K0_def)
  have "state_inv (cw_state W) K0"
    using ok K by (cases "cw_state W") (auto simp: world_ok_def conn_inv_def conn_base_def)
  with ok K traffic_gone[OF _ _ K, of "cw_state W"] show ?thesis
    by (intro finish_aux[OF K, of _ _ _ "{#}"]) (simp_all add: world_ok_def queued_same)
qed

lemma sweep_step:
  assumes ok: "world_ok cid fd w0 W" and s: "submit_cancel t (cw_ring W) = (b, w1)"
  shows "world_ok cid fd w0 (W\<lparr>cw_ring := w1, cw_kernel := cw_kernel W + queued (cw_ring W) w1\<rparr>)"
proof -
  obtain E where E: "aux_step (cw_ring W) w1 E" by (rule submit_cancel_aux[OF s])
  then have q: "queued (cw_ring W) w1 = mset E" by (simp add: aux_step_def queued_append)
  have "keeps (state_fds (cw_state W)) (state_jobs (cw_state W) + aux_jobs (cw_kernel W)) (size (cw_kernel W)) (cw_ring W)
     (state_fds (cw_state W)) (state_jobs (cw_state W) + aux_jobs (cw_kernel W) + aux_jobs (mset E)) (size (cw_kernel W) + length E) w1"
    using E by (simp add: aux_step_def)
  then have "ledger fd w0 (cw_state W) (aux_jobs (cw_kernel W + mset E)) (size (cw_kernel W + mset E)) w1"
    using ok by (auto simp: world_ok_def add.assoc elim: books_step)
  moreover have "state_inv (cw_state W) (cw_kernel W + mset E)"
    using ok conn_inv_mono by (cases "cw_state W") (auto simp: world_ok_def)
  moreover have "filter_mset (\<lambda>e. \<not> aux_op (snd e)) (mset E) = {#}" "\<forall>e \<in> set E. aux_op (snd e)"
    using E by (auto simp: aux_step_def filter_mset_eq_conv)
  then have "traffic_ok (cw_state W) (cw_kernel W + mset E)"
    using ok by (cases "(cw_state W, cw_kernel W)" rule: traffic_ok.cases) (auto simp: world_ok_def)
  ultimately show ?thesis using ok q by (simp add: world_ok_def)
qed


section \<open>Completions of the response\<close>

lemma callback_ok:
  assumes "may_send (c\<lparr>cn_response_in_flight := False\<rparr>) K" "cb \<noteq> NoCallback" "response_callback app ka cb c w = (s', w')"
  shows "method_ok (c\<lparr>cn_response_in_flight := False\<rparr>) None K w s' w'"
  using assms onResponseComplete_ok[of c K app ka w s' w'] closeConnection_ok[of "c\<lparr>cn_response_in_flight := False\<rparr>" None K w s' w']
  by (cases cb) (simp_all add: response_callback_def response_failed_def may_send_def)

text \<open>The last operation of a response: the callback runs on a connection with no response.\<close>

lemma callback_world:
  assumes led: "ledger fd w0 (Live c None) (G + aux_jobs K0) (Suc (size K0)) w" and aux: "\<forall>e \<in># K0. aux_op (snd e)"
    and m: "may_send (c\<lparr>cn_response_in_flight := False\<rparr>) K0" and cb: "cb \<noteq> NoCallback"
    and h: "response_callback app ka cb c w = (s', w1)"
  shows "ledger fd w0 s' (G + aux_jobs (K0 + queued w w1)) (Suc (size (K0 + queued w w1))) w1 \<and>
    traffic_ok s' (K0 + queued w w1) \<and> state_inv s' (K0 + queued w w1) \<and> is_conn (cn_id c) s' \<and>
    (\<exists>E. sq w1 = sq w @ E)"
proof -
  let ?c = "c\<lparr>cn_response_in_flight := False\<rparr>"
  have "ledger fd w0 (Live ?c None) (G + aux_jobs K0) (Suc (size K0)) w"
    using led by (simp add: ledger_def) (simp add: conn_fd_def split: if_splits)
  from method_books[OF this _ callback_ok[OF m cb h]] aux show ?thesis by (simp add: add.assoc)
qed

lemma may_send_ended:
  assumes "conn_inv c (Some r) (add_mset e K0)" "\<not> aux_op (snd e)"
  shows "may_send (c\<lparr>cn_response_in_flight := False\<rparr>) K0"
  using assms by (auto simp: may_send_def conn_inv_def conn_base_def conn_fd_def)

text \<open>A response that goes on: the next operations replace the one that completed.\<close>

lemma response_goes_on:
  assumes ok: "world_ok cid fd w0 W" and K: "cw_kernel W = add_mset e K0" "\<not> aux_op (snd e)"
    and s: "cw_state W = Live c (Some r)" and r': "resp_inv r'"
    and E: "sq w1 = sq (cw_ring W) @ E" "\<forall>e \<in> set E. fst e = resp_job r' \<and> \<not> aux_op (snd e)"
      "length E + resp_ops r = Suc (resp_ops r')"
    and k: "keeps (resp_fds r) (resp_jobs r) (resp_ops r) (cw_ring W) (resp_fds r') (resp_jobs r') (Suc (resp_ops r')) w1"
    and same: "resp_job r' = resp_job r \<or> resp_ops r = 1"
  shows "world_ok cid fd w0 (finish e False False (Live c (Some r')) w1 W)"
proof -
  let ?K1 = "K0 + mset E"
  have q: "queued (cw_ring W) w1 = mset E" by (rule queued_append[OF E(1)])
  have led: "ledger fd w0 (Live c (Some r)) (aux_jobs (cw_kernel W)) (size (cw_kernel W)) (cw_ring W)"
    and t: "traffic_ok (Live c (Some r)) (cw_kernel W)" and i: "conn_inv c (Some r) (cw_kernel W)" and cid: "cn_id c = cid"
    using ok s by (simp_all add: world_ok_def is_conn_def)
  have f: "filter_mset (\<lambda>e. \<not> aux_op (snd e)) (mset E) = mset E" "filter_mset (\<lambda>e. aux_op (snd e)) (mset E) = {#}"
    using E(2) by (auto simp: filter_mset_eq_conv)
  then have aj: "aux_jobs (mset E) = {#}" by (simp add: aux_jobs_def)
  have n: "size K0 + length E = (Suc (size K0) - resp_ops r) + resp_ops r'" "resp_ops r \<le> Suc (size K0)"
    using t K E(3) size_filter_mset_lesseq[of "\<lambda>e. \<not> aux_op (snd e)" "add_mset e K0"] by auto
  have "keeps (resp_fds r + {# conn_fd c #}) (resp_jobs r + ({# cn_id c #} + aux_jobs K0)) (resp_ops r + (Suc (size K0) - resp_ops r)) (cw_ring W)
      (resp_fds r' + {# conn_fd c #}) (resp_jobs r' + ({# cn_id c #} + aux_jobs K0)) (Suc (resp_ops r') + (Suc (size K0) - resp_ops r)) w1"
    by (rule keeps_frame[OF k])
  then have "keeps (state_fds (Live c (Some r))) (state_jobs (Live c (Some r)) + aux_jobs (cw_kernel W)) (size (cw_kernel W)) (cw_ring W)
      (state_fds (Live c (Some r'))) (state_jobs (Live c (Some r')) + aux_jobs ?K1) (Suc (size ?K1)) w1"
    using K n by (simp add: aj ac_simps)
  from books_retire[OF books_step[OF led this]] have "ledger fd w0 (Live c (Some r')) (aux_jobs ?K1) (size ?K1) (retire w1)" .
  moreover have "traffic_ok (Live c (Some r')) ?K1"
  proof -
    have sz: "size (filter_mset (\<lambda>e. \<not> aux_op (snd e)) K0) + 1 = resp_ops r" using t K by simp
    then have "resp_ops r = 1 \<Longrightarrow> filter_mset (\<lambda>e. \<not> aux_op (snd e)) K0 = {#}" by simp
    then have "\<forall>e \<in># K0. \<not> aux_op (snd e) \<longrightarrow> fst e = resp_job r'" using same t K by (auto simp: filter_mset_eq_conv)
    then show ?thesis using E sz f by auto
  qed
  moreover have "conn_inv c (Some r') ?K1"
    using i K r' by (auto simp: conn_inv_def conn_base_def)
  ultimately show ?thesis using K q cid by (simp add: world_ok_def is_conn_def)
qed


text \<open>A file transfer with two splices in the kernel is not over, and stays with the same job.\<close>

lemma linked_goes_on:
  assumes "fj_inv j child" "child_kernel_ok child c" "fj_child_completion j child c w = (r, w')" "child_ops child \<noteq> 1"
  shows "\<exists>j' child'. r = FileRunning j' child' \<and> child_job child' = child_job child"
proof (cases child)
  case (BodySplice sj)
  obtain r1 w1 where h: "sj_handleCompletion sj c w = (r1, w1)" by fastforce
  have "step_ok (sj_pending_operations sj - 1) sj w r1 w1" using sj_handle_ok[OF _ _ h] assms BodySplice by simp
  moreover have "sj_pending_operations sj - 1 \<noteq> 0" using assms BodySplice by (auto simp: sj_inv_def)
  ultimately obtain sj' where "r1 = Pending sj'" "sj_id sj' = sj_id sj" by (cases r1) (auto simp: step_ok_def)
  with assms(3) BodySplice h show ?thesis by (auto simp: fj_child_completion_def)
qed (use assms in auto)

lemma callback_finish:
  assumes ok: "world_ok cid fd w0 W" and K: "cw_kernel W = add_mset e K0" "\<not> aux_op (snd e)"
    and s: "cw_state W = Live c (Some r)" and one: "resp_ops r = 1" and q: "quiet (cw_ring W) u"
    and k: "keeps (resp_fds r) (resp_jobs r) 1 (cw_ring W) {#} G 1 u"
    and cb: "cb \<noteq> NoCallback" "response_callback app ka cb c u = (s', w1)"
    and w2: "\<And>J n. ledger fd w0 s' (G + J) n w1 \<Longrightarrow> ledger fd w0 s' J n w2" "sq w2 = sq w1"
  shows "world_ok cid fd w0 (finish e False False s' w2 W)"
proof -
  have led: "ledger fd w0 (Live c (Some r)) (aux_jobs (cw_kernel W)) (size (cw_kernel W)) (cw_ring W)"
    and t: "traffic_ok (Live c (Some r)) (cw_kernel W)" and i: "conn_inv c (Some r) (cw_kernel W)" and cid: "cn_id c = cid"
    using ok s by (simp_all add: world_ok_def is_conn_def)
  have "filter_mset (\<lambda>e. \<not> aux_op (snd e)) K0 = {#}" using t K one by simp
  then have aux: "\<forall>e \<in># K0. aux_op (snd e)" by (auto simp: filter_mset_eq_conv)
  have "keeps (resp_fds r + {# conn_fd c #}) (resp_jobs r + ({# cn_id c #} + aux_jobs K0)) (1 + size K0) (cw_ring W)
      ({#} + {# conn_fd c #}) (G + ({# cn_id c #} + aux_jobs K0)) (1 + size K0) u"
    by (rule keeps_frame[OF k])
  then have "keeps (state_fds (Live c (Some r))) (state_jobs (Live c (Some r)) + aux_jobs (cw_kernel W)) (size (cw_kernel W)) (cw_ring W)
      (state_fds (Live c None)) (state_jobs (Live c None) + (G + aux_jobs K0)) (Suc (size K0)) u"
    using K by (simp add: ac_simps)
  note cw = callback_world[OF books_step[OF led this] aux may_send_ended[OF i[unfolded K(1)] K(2)] cb]
  have "ledger fd w0 s' (aux_jobs (K0 + queued u w1)) (Suc (size (K0 + queued u w1))) w2" using w2(1) cw by blast
  from books_retire[OF this] cw K cid w2(2) q show ?thesis by (simp add: world_ok_def queued_def quiet_def)
qed

lemma body_response_step:
  assumes ok: "world_ok cid fd w0 W" and e: "(j, op) \<in># cw_kernel W" "\<not> aux_op op" and s: "cw_state W = Live c (Some r)"
    and h: "response_completion app c r ce (cw_ring W) = (s', w1)"
    and BodyWrite: "r = BodyWrite wj ka"
  shows "world_ok cid fd w0 (finish (j, op) False False s' w1 W)"
proof -
  define K0 where "K0 = cw_kernel W - {# (j, op) #}"
  have K: "cw_kernel W = add_mset (j, op) K0" "\<not> aux_op (snd (j, op))" using e by (simp_all add: K0_def)
  have inv: "resp_inv r" using ok s by (simp add: world_ok_def conn_inv_def conn_base_def)
  obtain r1 u where hc: "wj_handleCompletion wj ce (cw_ring W) = (r1, u)" by fastforce
  note k = keeps_write_completion[OF hc, of "{#}" "{#}" 1] and q = queues_write[OF hc]
  have cb: "wj_on_complete wj" "wj_on_error wj" using inv BodyWrite by simp_all
  note cb = write_completion_cb[OF hc cb]
  show ?thesis
  proof (cases r1)
    case (Pending wj')
    with h hc BodyWrite have r: "s' = Live c (Some (BodyWrite wj' ka))" "w1 = u" by (simp_all add: response_completion_def)
    obtain E where E: "sq u = sq (cw_ring W) @ E" "in_flight u = in_flight (cw_ring W) + int (length E)"
      "\<forall>e \<in> set E. fst e = wj_id wj \<and> \<not> aux_op (snd e)" using q by (auto simp: queues_def)
    moreover have "length E = 1" using k Pending E(2) by (simp add: keeps_def write_ops_def)
    ultimately show ?thesis unfolding r using k Pending cb BodyWrite
      by (intro response_goes_on[OF ok K s, of "BodyWrite wj' ka" _ E]) (auto simp: write_jobs_def write_ops_def)
  next
    case (Cleanup b)
    obtain w2 where r: "response_callback app ka b c u = (s', w2)" "w1 = pool_free (wj_id wj) w2"
      using h hc BodyWrite Cleanup by (auto simp: response_completion_def split: prod.splits)
    show ?thesis unfolding r using r(1) cb k q Cleanup BodyWrite
      by (intro callback_finish[OF ok K s, where G = "{# wj_id wj #}" and u = u and cb = b and ka = ka and app = app])
         (auto simp: write_jobs_def write_ops_def ring_simps intro: books_free)
  next
    case (Abandoned b)
    have r: "response_callback app ka b c u = (s', w1)"
      using h hc BodyWrite Abandoned by (simp add: response_completion_def)
    show ?thesis using r cb k q Abandoned BodyWrite
      by (intro callback_finish[OF ok K s, where G = "{#}" and u = u and cb = b and ka = ka and app = app])
         (auto simp: write_jobs_def write_ops_def)
  qed
qed

lemma file_response_step:
  assumes ok: "world_ok cid fd w0 W" and e: "(j, op) \<in># cw_kernel W" "\<not> aux_op op" and s: "cw_state W = Live c (Some r)"
    and ker: "resp_kernel_ok r ce" and h: "response_completion app c r ce (cw_ring W) = (s', w1)"
    and FileTransfer: "r = FileTransfer fj child ka"
  shows "world_ok cid fd w0 (finish (j, op) False False s' w1 W)"
proof -
  define K0 where "K0 = cw_kernel W - {# (j, op) #}"
  have K: "cw_kernel W = add_mset (j, op) K0" "\<not> aux_op (snd (j, op))" using e by (simp_all add: K0_def)
  have inv: "resp_inv r" using ok s by (simp add: world_ok_def conn_inv_def conn_base_def)
  have fi: "fj_inv fj child" "fj_on_complete fj" "fj_on_error fj" "child_kernel_ok child ce" using inv ker FileTransfer by simp_all
  obtain r1 u where hc: "fj_child_completion fj child ce (cw_ring W) = (r1, u)" by fastforce
  note st = child_completion_step[OF fi(1,4), of "cw_ring W", unfolded hc fst_conv snd_conv]
  have pos: "0 < child_ops child" by (rule child_ops_pos[OF fi(1)])
  note q = file_queues_child[OF fi(1,4) hc]
  have k: "keeps (resp_fds r) (resp_jobs r) (resp_ops r) (cw_ring W) (file_fds r1) (file_jobs r1) (Suc (file_ops r1)) u"
    using keeps_frame[OF conjunct2[OF st], of "{#}" "{#}" 1] pos FileTransfer by simp
  show ?thesis
  proof (cases r1)
    case (FileRunning fj' child')
    with h hc FileTransfer have r: "s' = Live c (Some (FileTransfer fj' child' ka))" "w1 = u"
      by (simp_all add: response_completion_def)
    obtain E where E: "sq u = sq (cw_ring W) @ E" "in_flight u = in_flight (cw_ring W) + int (length E)"
      "\<forall>e \<in> set E. fst e = child_job child' \<and> \<not> aux_op (snd e)" using q FileRunning by (auto simp: file_queues_def queues_def)
    moreover have "length E + child_ops child = Suc (child_ops child')"
      using k FileRunning FileTransfer E(2) by (simp add: keeps_def)
    moreover have "child_job child' = child_job child \<or> child_ops child = 1"
      using linked_goes_on[OF fi(1,4) hc] FileRunning by auto
    moreover have "resp_inv (FileTransfer fj' child' ka)" using st fi FileRunning by (simp add: file_reports_def)
    ultimately show ?thesis unfolding r using k FileRunning FileTransfer
      by (intro response_goes_on[OF ok K s, of "FileTransfer fj' child' ka" _ E]) auto
  next
    case (FileDone b)
    have "response_callback app ka b c u = (s', w1)" using h hc FileTransfer FileDone by (simp add: response_completion_def)
    moreover have "b \<noteq> NoCallback" using st fi FileDone by (auto simp: file_reports_def fj_tell_error_def fj_tell_complete_def)
    moreover have "child_ops child = 1" using linked_goes_on[OF fi(1,4) hc] FileDone by auto
    moreover have "quiet (cw_ring W) u" using q FileDone by (simp add: file_queues_def)
    ultimately show ?thesis using k FileDone FileTransfer
      by (intro callback_finish[OF ok K s, where G = "{#}" and u = u and cb = b and ka = ka and app = app]) auto
  qed
qed

lemma response_step:
  assumes ok: "world_ok cid fd w0 W" and e: "(j, op) \<in># cw_kernel W" "\<not> aux_op op" and s: "cw_state W = Live c (Some r)"
    and ker: "resp_kernel_ok r ce" and h: "response_completion app c r ce (cw_ring W) = (s', w1)"
  shows "world_ok cid fd w0 (finish (j, op) False False s' w1 W)"
  using body_response_step[OF ok e s h] file_response_step[OF ok e s ker h] by (cases r) blast+

section \<open>Every reachable world\<close>

lemma stop_step: "world_ok cid fd w0 W \<Longrightarrow> world_ok cid fd w0 (W\<lparr>cw_ring := (cw_ring W)\<lparr>srv_state := st\<rparr>\<rparr>)"
  by (simp add: world_ok_def ledger_def keeps_def)

lemma conn_step_ok:
  assumes "conn_step app cid W W'" "world_ok cid fd w0 W"
  shows "world_ok cid fd w0 W'"
  using assms(1)
proof cases
  case (SweepRecv j f w1)
  obtain b where "submit_cancel j (cw_ring W) = (b, w1)" using SweepRecv(3) by (cases "submit_cancel j (cw_ring W)") (simp add: mr_requestShutdownCancel_def)
  from sweep_step[OF assms(2) this] show ?thesis using SweepRecv(1) by simp
next
  case (SweepTimer t ms w1)
  obtain b where "submit_cancel t (cw_ring W) = (b, w1)"
    using SweepTimer(3) by (cases "submit_cancel t (cw_ring W)") (simp add: it_requestShutdownCancel_def IdleTimeoutJob_init_def)
  from sweep_step[OF assms(2) this] show ?thesis using SweepTimer(1) by simp
next
  case Recv
  then show ?thesis using recv_step[OF assms(2)] by simp
next
  case Timer
  then show ?thesis using timer_step[OF assms(2)] by simp
next
  case Cancel
  then show ?thesis using cancel_step[OF assms(2)] by simp
next
  case Response
  then show ?thesis using response_step[OF assms(2)] by simp
next
  case Stop
  then show ?thesis using stop_step[OF assms(2)] by simp
qed

interpretation conn: step_invariant "conn_step app cid" "world_ok cid fd w0" for app cid fd w0
  by unfold_locales (rule conn_step_ok)

text \<open>The first world: what \<^verbatim>\<open>createConnectionHandler\<close> leaves behind, if the receive could be armed.\<close>

definition first_world :: "ring \<Rightarrow> conn \<Rightarrow> ring \<Rightarrow> cworld" where
  "first_world w0 c w1 = \<lparr>cw_state = Live c None, cw_ring = w1, cw_kernel = queued w0 w1\<rparr>"

lemma startReading_alloc:
  assumes "\<not> cn_reading_active c" "0 \<le> cn_client_fd c"
  shows "startReading c w =
     (case alloc_submit (\<lambda>_. OpRecvMultishot (cn_client_fd c)) w of
        (None, w') \<Rightarrow> (c\<lparr>cn_reading_active := False\<rparr>, w')
      | (Some r, w') \<Rightarrow> armIdleTimeout (c\<lparr>cn_reading_active := True, cn_active_read_job := Some r\<rparr>) w')"
  using assms by (auto simp: startReading_def alloc_submit_def Let_def split: prod.splits option.splits if_splits)

lemma armIdleTimeout_step:
  assumes "armIdleTimeout c w = (c', w')" "conn_inv c None K" "\<not> cn_close_pending c"
  obtains E where "aux_step w w' E" "conn_inv c' None (K + mset E)" "cn_id c' = cn_id c" "conn_fd c' = conn_fd c"
proof (cases rule: armIdleTimeout_aux[OF assms(1), case_names same armed])
  case (same E)
  then show ?thesis using that[of E] conn_inv_mono[OF assms(2)] by simp
next
  case (armed t)
  have "conn_base c' None (K + mset [(t, OpTimeout (cn_idle_timeout_ms c))])"
    using conn_base_mono[of c None K "{# (t, OpTimeout (cn_idle_timeout_ms c)) #}"] assms(2)
    unfolding armed(2) by (auto simp: conn_inv_def conn_base_def conn_fd_def)
  with assms(2,3) have "conn_inv c' None (K + mset [(t, OpTimeout (cn_idle_timeout_ms c))])"
    unfolding armed(2) by (simp add: conn_inv_def)
  then show ?thesis by (rule that[OF armed(1)]) (simp_all add: armed(2) conn_fd_def)
qed

text \<open>A connection that reads: allocated, its receive armed, then its timer.\<close>

lemma accepted_cases:
  assumes new: "createConnectionHandler idle_ms fd w0 = (Live c None, w1)" and fd: "0 \<le> fd" and armed: "cn_active_read_job c \<noteq> None"
  obtains i u r v c1 where "pool_alloc w0 = (Some i, u)" "alloc_submit (\<lambda>_. OpRecvMultishot fd) u = (Some r, v)"
    "c1 = (HttpConnectionJob_init i fd (1024 * 1024) idle_ms)\<lparr>cn_reading_active := True, cn_active_read_job := Some r\<rparr>"
    "armIdleTimeout c1 v = (c, w1)"
proof -
  obtain i u where a0: "pool_alloc w0 = (Some i, u)" "startReading (HttpConnectionJob_init i fd (1024 * 1024) idle_ms) u = (c, w1)"
    using new by (auto simp: createConnectionHandler_def conn_start_def split: prod.splits option.splits)
  define c0 where "c0 = HttpConnectionJob_init i fd (1024 * 1024) idle_ms"
  note a = a0[folded c0_def]
  have c0: "\<not> cn_reading_active c0" "cn_client_fd c0 = fd" "cn_active_read_job c0 = None"
    by (simp_all add: c0_def HttpConnectionJob_init_def)
  obtain ro v where v: "alloc_submit (\<lambda>_. OpRecvMultishot fd) u = (ro, v)" by fastforce
  note st = startReading_alloc[OF c0(1), of u, unfolded c0(2), OF fd, unfolded v]
  have "ro \<noteq> None" using st a(2) armed c0(3) by (cases ro) auto
  then obtain r where r: "ro = Some r" by blast
  then have "armIdleTimeout (c0\<lparr>cn_reading_active := True, cn_active_read_job := Some r\<rparr>) v = (c, w1)" using st a(2) by simp
  from that[OF a(1) v[unfolded r] _ this] show ?thesis by (simp add: c0_def)
qed

lemma first_world_ok:
  assumes new: "createConnectionHandler idle_ms fd w0 = (Live c None, w1)" and fd: "0 \<le> fd" and armed: "cn_active_read_job c \<noteq> None"
  shows "world_ok (cn_id c) fd w0 (first_world w0 c w1)"
proof -
  obtain i u r v c1 where a: "pool_alloc w0 = (Some i, u)" "alloc_submit (\<lambda>_. OpRecvMultishot fd) u = (Some r, v)"
      "c1 = (HttpConnectionJob_init i fd (1024 * 1024) idle_ms)\<lparr>cn_reading_active := True, cn_active_read_job := Some r\<rparr>"
      "armIdleTimeout c1 v = (c, w1)"
    by (rule accepted_cases[OF assms])
  have s1: "aux_step u v [(r, OpRecvMultishot fd)]" using alloc_submit_aux[OF a(2)] by simp
  have i1: "conn_inv c1 None {# (r, OpRecvMultishot fd) #}"
    using fd by (simp add: conn_inv_def conn_base_def conn_fd_def a(3) HttpConnectionJob_init_def)
  have "\<not> cn_close_pending c1" by (simp add: a(3) HttpConnectionJob_init_def)
  from armIdleTimeout_step[OF a(4) i1 this] obtain E where E: "aux_step v w1 E" "conn_inv c None ({# (r, OpRecvMultishot fd) #} + mset E)"
      "cn_id c = cn_id c1" "conn_fd c = conn_fd c1"
    by metis
  have i: "cn_id c = i" "conn_fd c = fd" using E(3,4) by (simp_all add: conn_fd_def a(3) HttpConnectionJob_init_def)
  note s = aux_step_trans[OF s1 E(1)]
  have u: "sq u = sq w0" "srv_state u = srv_state w0" using pool_alloc_simps(2,6)[of w0] a(1) by simp_all
  have q: "queued w0 w1 = mset ((r, OpRecvMultishot fd) # E)" using s u by (simp add: aux_step_def queued_append)
  have "keeps {# fd #} {#} 0 w0 {# fd #} {# i #} 0 u" using keeps_alloc[of "{# fd #}" "{#}" 0 w0] a(1) by simp
  moreover have "keeps {# fd #} {# i #} 0 u {# fd #} ({# i #} + aux_jobs (queued w0 w1)) (0 + size (queued w0 w1)) w1"
    using s unfolding q aux_step_def by (metis append_Cons append_Nil size_mset)
  ultimately have k: "keeps {# fd #} {#} 0 w0 {# fd #} ({# i #} + aux_jobs (queued w0 w1)) (size (queued w0 w1)) w1"
    using keeps_trans by fastforce
  then have "srv_state w1 = srv_state w0" by (simp add: keeps_def)
  then have "w0\<lparr>srv_state := srv_state w1\<rparr> = w0" by simp
  with k have "ledger fd w0 (Live c None) (aux_jobs (queued w0 w1)) (size (queued w0 w1)) w1" using i by (simp add: ledger_def)
  moreover have "\<forall>e \<in># queued w0 w1. aux_op (snd e)" using s unfolding q aux_step_def by simp
  moreover have "conn_inv c None (queued w0 w1)" using E(2) unfolding q by simp
  ultimately show ?thesis by (simp add: world_ok_def first_world_def is_conn_def)
qed

section \<open>The worlds of a connection\<close>

text \<open>Every world that a connection handed the socket \<open>fd\<close> in the ring \<open>w0\<close> can reach.\<close>

inductive connection_run :: "app \<Rightarrow> nat \<Rightarrow> int \<Rightarrow> ring \<Rightarrow> nat \<Rightarrow> cworld \<Rightarrow> bool" for app idle_ms fd w0 where
  Accepted: "createConnectionHandler idle_ms fd w0 = (Live c None, w1) \<Longrightarrow> 0 \<le> fd \<Longrightarrow> cn_active_read_job c \<noteq> None \<Longrightarrow>
     connection_run app idle_ms fd w0 (cn_id c) (first_world w0 c w1)"
| Stepped: "connection_run app idle_ms fd w0 cid W \<Longrightarrow> conn_step app cid W W' \<Longrightarrow>
     connection_run app idle_ms fd w0 cid W'"

lemma run_ok: "connection_run app idle_ms fd w0 cid W \<Longrightarrow> world_ok cid fd w0 W"
  by (induction rule: connection_run.induct) (auto intro: first_world_ok conn.preserved)

lemma count_issued: "count (issued n) i = (if i < n then 1 else 0)"
  by (induction n) auto

text \<open>
  With an empty log at the start: what is owned was issued once and is not freed.
\<close>

lemma owned_not_freed:
  assumes "mset fr + own + issued m = issued n" "i \<in># own"
  shows "i \<notin> set fr"
proof
  assume "i \<in> set fr"
  then have "count (mset fr) i \<ge> 1" by (metis One_nat_def Suc_leI count_greater_zero_iff set_mset_mset)
  moreover have "count own i \<ge> 1" using assms(2) by (simp add: Suc_leI)
  moreover have "count (mset fr) i + count own i + count (issued m) i = count (issued n) i"
    using arg_cong[OF assms(1), of "\<lambda>M. count M i"] by simp
  moreover have "count (issued n) i \<le> 1" by (simp add: count_issued)
  ultimately show False by linarith
qed

lemma freed_once:
  assumes "mset fr + own + issued m = issued n"
  shows "distinct fr"
proof -
  have "count (mset fr) i \<le> 1" for i
  proof -
    have "count (mset fr) i + count own i + count (issued m) i = count (issued n) i"
      using arg_cong[OF assms, of "\<lambda>M. count M i"] by simp
    moreover have "count (issued n) i \<le> 1" by (simp add: count_issued)
    ultimately show ?thesis by linarith
  qed
  then have "\<forall>i. count (mset fr) i = (if i \<in> set fr then 1 else 0)"
    by (metis count_eq_zero_iff le_antisym less_one linorder_not_less set_mset_mset)
  then show ?thesis by (simp add: distinct_count_atmost_1)
qed

lemma kernel_job_owned:
  assumes "traffic_ok s K" "(j, op) \<in># K"
  shows "j \<in># state_jobs s + aux_jobs K"
proof (cases "aux_op op")
  case True
  with assms(2) show ?thesis by (force simp: aux_jobs_def)
next
  case False
  with assms obtain c r where r: "s = Live c (Some r)" "j = resp_job r"
    by (cases "(s, K)" rule: traffic_ok.cases) auto
  then show ?thesis by (cases r) auto
qed

section \<open>Properties\<close>

text \<open>
  C3. The books of a connection. In every world a connection can reach, whatever the kernel and the pools
  answer and in whatever order completions arrive: the in-flight count of the ring has grown by exactly the
  operations the connection has in the kernel; the descriptors opened since the accept, and the socket
  itself, are each either owned by the connection or closed once; and every pool object allocated since is either
  owned by the connection or by an operation in the kernel, or was freed once.
\<close>

theorem connection_accounting:
  assumes "connection_run app idle_ms fd w0 cid W"
  shows "in_flight (cw_ring W) = in_flight w0 + int (size (cw_kernel W)) \<and>
    mset (closed (cw_ring W)) + state_fds (cw_state W) + mset (opened w0) =
      mset (closed w0) + {# fd #} + mset (opened (cw_ring W)) \<and>
    mset (freed (cw_ring W)) + (state_jobs (cw_state W) + aux_jobs (cw_kernel W)) + issued (next_id w0) =
      mset (freed w0) + issued (next_id (cw_ring W))"
  using run_ok[OF assms] by (simp add: world_ok_def ledger_def keeps_def)

text \<open>
  C4. No use after free, no double free. With the log of freed objects started at the accept, in every
  world a connection can reach no object is in the log twice, and the job of every operation the kernel
  still holds, whose completion will be delivered to it, is not in it; nor is the connection while it lives.
\<close>

theorem no_use_after_free:
  assumes "connection_run app idle_ms fd w0 cid W" "freed w0 = []"
  shows "distinct (freed (cw_ring W)) \<and> (\<forall>(j, op) \<in># cw_kernel W. j \<notin> set (freed (cw_ring W))) \<and>
    (cw_state W \<noteq> Freed \<longrightarrow> cid \<notin> set (freed (cw_ring W)))"
proof -
  note ok = run_ok[OF assms(1), unfolded world_ok_def]
  let ?own = "state_jobs (cw_state W) + aux_jobs (cw_kernel W)"
  have b: "mset (freed (cw_ring W)) + ?own + issued (next_id w0) = issued (next_id (cw_ring W))"
    using ok assms(2) by (simp add: ledger_def keeps_def)
  have "cw_state W \<noteq> Freed \<Longrightarrow> cid \<in># ?own"
    using ok by (cases "cw_state W" rule: state_jobs.cases) (auto simp: is_conn_def)
  then show ?thesis using freed_once[OF b] owned_not_freed[OF b] kernel_job_owned ok by fast
qed

text \<open>
  C6. Responses do not interleave. In every world a connection can reach, the writes and splices that the kernel
  holds for it are all operations of one response, the one the connection records as in flight: one for a write,
  at most the two linked legs for a file.
\<close>

theorem responses_serialized:
  assumes "connection_run app idle_ms fd w0 cid W" "(j, op) \<in># cw_kernel W" "\<not> aux_op op"
  shows "\<exists>c r. cw_state W = Live c (Some r) \<and> cn_response_in_flight c \<and> j = resp_job r \<and>
    size (filter_mset (\<lambda>e. \<not> aux_op (snd e)) (cw_kernel W)) = resp_ops r \<and> resp_ops r \<le> 2"
proof -
  note ok = run_ok[OF assms(1), unfolded world_ok_def]
  then obtain c r where r: "cw_state W = Live c (Some r)" "j = resp_job r"
      "size (filter_mset (\<lambda>e. \<not> aux_op (snd e)) (cw_kernel W)) = resp_ops r"
    using assms(2,3) by (cases "(cw_state W, cw_kernel W)" rule: traffic_ok.cases) auto
  have c: "cn_response_in_flight c" "resp_inv r" using ok r(1) by (simp_all add: conn_inv_def conn_base_def)
  have "child_ops child \<le> 2" if "fj_inv fj child" for fj child
    using that by (cases child) (auto simp: sj_inv_def)
  then have "resp_ops r \<le> 2" using c(2) by (cases r) auto
  with r c show ?thesis by simp
qed


section \<open>A run\<close>

text \<open>
  A connection on a ring where everything succeeds: it is accepted, receives a request that is not HTTP, and has
  the 400 response on the wire.
\<close>

definition calm_ring :: ring where
  "calm_ring = \<lparr>ora = (\<lambda>_. 0), tick = 0, in_flight = 0, sq = [], srv_state = Running, next_id = 1, freed = [], opened = [], closed = []\<rparr>"

definition demo_app :: app where
  "demo_app = \<lparr>gmtime = (\<lambda>_. None), respond = (\<lambda>_. HttpResponse_init)\<rparr>"

definition demo_conn :: conn where
  "demo_conn = (HttpConnectionJob_init 1 7 (1024 * 1024) 5000)
     \<lparr>cn_reading_active := True, cn_active_read_job := Some 2, cn_active_idle_timeout_job := Some 3\<rparr>"

definition demo_start :: cworld where
  "demo_start = first_world calm_ring demo_conn (snd (createConnectionHandler 5000 7 calm_ring))"

definition demo_recv :: "bool \<times> conn_state \<times> ring" where
  "demo_recv = http_recv_completion demo_app \<lparr>mr_id = 2, mr_fd = 7, mr_handler = \<lparr>rh_connection = 1\<rparr>\<rparr>
     \<lparr>cqe_job = Some 2, cqe_res = 5, cqe_more = True, cqe_buf = 0\<rparr> (Some (CHR ''X'' # CRLF @ CRLF)) (cw_state demo_start) (cw_ring demo_start)"

definition demo_world :: cworld where
  "demo_world = finish (2, OpRecvMultishot 7) True False (fst (snd demo_recv)) (snd (snd demo_recv)) demo_start"

lemmas accept_eval = createConnectionHandler_def conn_start_def startReading_def armIdleTimeout_def HttpConnectionJob_init_def
  pool_alloc_def registerJob_def submit_def ask_def calm_ring_def

lemma demo_accepted: "createConnectionHandler 5000 7 calm_ring = (Live demo_conn None, cw_ring demo_start)"
proof -
  have "fst (createConnectionHandler 5000 7 calm_ring) = Live demo_conn None"
    by (simp add: demo_conn_def accept_eval)
  then show ?thesis by (simp add: prod_eq_iff demo_start_def first_world_def)
qed

lemma demo_kernel: "cw_kernel demo_start = {# (2, OpRecvMultishot 7), (3, OpTimeout 5000) #}"
proof -
  have "sq (snd (createConnectionHandler 5000 7 calm_ring)) = [(2, OpRecvMultishot 7), (3, OpTimeout 5000)]" "sq calm_ring = []"
    by (simp_all add: accept_eval)
  then show ?thesis by (simp add: demo_start_def first_world_def queued_def)
qed

lemma demo_bad: "parse_request (CHR ''X'' # CRLF @ CRLF) empty_request = (BadRequest, empty_request, 0)"
  by code_simp

lemma disposition_file_path: "file_path (snd (state_disposition c response w)) = file_path response"
  by (simp add: state_disposition_def setHeader_def Let_def)

lemma error_sent:
  assumes "0 \<le> cn_client_fd c" "\<not> cn_response_in_flight c" "ora w = (\<lambda>_. 0)"
  shows "\<exists>c' wj w' d. sendErrorAndClose app code reason c child w = (Live c' (Some (BodyWrite wj False)), w') \<and>
    sq w' = sq w @ [(next_id w, OpWrite (cn_client_fd c) d)]"
proof -
  let ?c = "c\<lparr>cn_keep_alive := False, cn_advertise_keep_alive := False, cn_request_buffer := []\<rparr>"
  let ?r = "setBody reason (setHeader ''content-type'' ''text/plain'' (setStatus code reason HttpResponse_init))"
  obtain c1 r where d: "state_disposition ?c ?r w = (c1, r)" by fastforce
  have r: "file_path r = []"
    using disposition_file_path[of ?c ?r w] d by (simp add: setBody_def setHeader_def setStatus_def HttpResponse_init_def Let_def)
  have k: "cn_keep_alive c1 = False" "cn_client_fd c1 = cn_client_fd c"
    using d by (auto simp: state_disposition_def Let_def split: if_splits)
  show ?thesis
    using assms d r k
    by (simp add: sendErrorAndClose_def sendResponse_def createFromPoolWithOwnedData_def WriteJob_init_def wj_start_def submitWrite_def
        wj_prepareSqe_def pool_alloc_def registerJob_def submit_def ask_def Let_def)
qed

lemma demo_response:
  "\<exists>c' wj w' d. demo_recv = (False, Live c' (Some (BodyWrite wj False)), w') \<and>
     sq w' = sq (cw_ring demo_start) @ [(4, OpCancel 3), (5, OpWrite 7 d)]"
proof -
  have w: "cw_state demo_start = Live demo_conn None" "ora (cw_ring demo_start) = (\<lambda>_. 0)" "next_id (cw_ring demo_start) = 4"
    by (simp_all add: demo_start_def first_world_def accept_eval)
  define c where "c = demo_conn\<lparr>cn_idle_cancel_pending := True, cn_request_buffer := CHR ''X'' # CRLF @ CRLF\<rparr>"
  define w1 where "w1 = snd (submit_cancel 3 (cw_ring demo_start))"
  have w1: "submit_cancel 3 (cw_ring demo_start) = (True, w1)" "ora w1 = (\<lambda>_. 0)" "next_id w1 = 5"
     "sq w1 = sq (cw_ring demo_start) @ [(4, OpCancel 3)]"
    using w by (simp_all add: w1_def submit_cancel_def cancel_prepareSqe_def pool_alloc_def registerJob_def submit_def ask_def Let_def)
  have "rh_onDataToken demo_app \<lparr>rh_connection = 1\<rparr> (CHR ''X'' # CRLF @ CRLF) (Live demo_conn None) (cw_ring demo_start) =
      processHttpRequests demo_app c None w1"
    using w1(1) by (simp add: rh_onDataToken_def handleDataReceived_def submitIdleTimeoutCancel_def demo_conn_def HttpConnectionJob_init_def c_def)
  also have "\<dots> = sendErrorAndClose demo_app 400 ''Bad Request'' c None w1"
    using demo_bad by (simp add: processHttpRequests_def c_def demo_conn_def HttpConnectionJob_init_def)
  finally have "demo_recv = (False, sendErrorAndClose demo_app 400 ''Bad Request'' c None w1)"
    by (simp add: demo_recv_def http_recv_completion_def mr_handleCompletion_def w(1) split_beta)
  moreover obtain c' wj w' d where "sendErrorAndClose demo_app 400 ''Bad Request'' c None w1 = (Live c' (Some (BodyWrite wj False)), w')"
      "sq w' = sq w1 @ [(next_id w1, OpWrite 7 d)]"
    using error_sent[of c w1 demo_app 400 "''Bad Request''" None] w1(2) by (auto simp: c_def demo_conn_def HttpConnectionJob_init_def)
  ultimately show ?thesis using w1 by auto
qed

lemma demo_runs: "connection_run demo_app 5000 7 calm_ring 1 demo_world"
proof -
  have "connection_run demo_app 5000 7 calm_ring 1 demo_start"
    using connection_run.Accepted[OF demo_accepted, of demo_app]
    by (simp add: demo_start_def first_world_def demo_conn_def HttpConnectionJob_init_def)
  note start = this
  have "fst demo_recv = False" using demo_response by (metis fst_conv)
  then have "demo_recv = (False, fst (snd demo_recv), snd (snd demo_recv))" by (simp add: prod_eq_iff)
  moreover have "(2, OpRecvMultishot 7) \<in># cw_kernel demo_start" by (simp add: demo_kernel)
  ultimately have "conn_step demo_app 1 demo_start demo_world"
    unfolding demo_world_def using conn_step.Recv[OF _ demo_recv_def[symmetric, THEN trans]] by fastforce
  with start show ?thesis by (rule connection_run.Stepped)
qed

lemma demo_in_kernel:
  "\<exists>d. cw_kernel demo_world = {# (2, OpRecvMultishot 7), (3, OpTimeout 5000), (4, OpCancel 3), (5, OpWrite 7 d) #}"
proof -
  obtain d where "sq (snd (snd demo_recv)) = sq (cw_ring demo_start) @ [(4, OpCancel 3), (5, OpWrite 7 d)]"
    using demo_response by (metis snd_conv)
  then have "cw_kernel demo_world = cw_kernel demo_start + {# (4, OpCancel 3), (5, OpWrite 7 d) #}"
    by (simp add: demo_world_def queued_append)
  then show ?thesis by (auto simp: demo_kernel add_mset_commute)
qed


theorem connection_accounting_witness:
  "connection_run demo_app 5000 7 calm_ring 1 demo_world \<and> in_flight (cw_ring demo_world) = 4 \<and>
   mset (closed (cw_ring demo_world)) + state_fds (cw_state demo_world) = {# 7 #} + mset (opened (cw_ring demo_world))"
proof -
  obtain d where "cw_kernel demo_world = {# (2, OpRecvMultishot 7), (3, OpTimeout 5000), (4, OpCancel 3), (5, OpWrite 7 d) #}"
    using demo_in_kernel by blast
  then show ?thesis using connection_accounting[OF demo_runs] demo_runs by (simp add: calm_ring_def)
qed

theorem no_use_after_free_witness:
  "connection_run demo_app 5000 7 calm_ring 1 demo_world \<and> freed calm_ring = [] \<and>
   2 \<notin> set (freed (cw_ring demo_world)) \<and> 3 \<notin> set (freed (cw_ring demo_world))"
proof -
  obtain d where k: "cw_kernel demo_world = {# (2, OpRecvMultishot 7), (3, OpTimeout 5000), (4, OpCancel 3), (5, OpWrite 7 d) #}"
    using demo_in_kernel by blast
  have "freed calm_ring = []" by (simp add: calm_ring_def)
  with no_use_after_free[OF demo_runs this] demo_runs show ?thesis unfolding k by simp
qed

theorem responses_serialized_witness:
  "connection_run demo_app 5000 7 calm_ring 1 demo_world \<and> (\<exists>c r. cw_state demo_world = Live c (Some r) \<and> resp_job r = 5)"
proof -
  obtain d where "cw_kernel demo_world = {# (2, OpRecvMultishot 7), (3, OpTimeout 5000), (4, OpCancel 3), (5, OpWrite 7 d) #}"
    using demo_in_kernel by blast
  then have "(5, OpWrite 7 d) \<in># cw_kernel demo_world" by simp
  from responses_serialized[OF demo_runs this] demo_runs show ?thesis by auto
qed

end
