(* ===== verification/Connection_Balance.thy ===== *)
theory Connection_Balance
  imports Connection_Life
begin

text \<open>
  Every handler of a connection, and every method it calls, adds to the in-flight count of the ring exactly what
  it puts on the submission queue, whatever state it is called in. The event loop relies on it: Ring\_Server
  states it as the contract of the jobs it serves, and Server\_Dispatch discharges that contract with these
  lemmas.
\<close>

section \<open>Every handler queues what it counts\<close>

named_theorems balanced_laws \<open>the in-flight count grows with the submission queue\<close>

lemma queues_balanced: "queues j w w' \<Longrightarrow> balanced w w'"
  by (auto simp: queues_def balanced_def)

lemma quiet_balanced: "quiet w w' \<Longrightarrow> balanced w w'"
  by (auto simp: quiet_def balanced_def)

lemma file_queues_balanced: "file_queues w r w' \<Longrightarrow> balanced w w'"
  by (auto simp: file_queues_def queues_balanced quiet_balanced split: file_result.splits)

lemma balanced_right [simp]:
  "balanced w (pool_free i v) = balanced w v" "balanced w (close_fd f v) = balanced w v"
  "balanced w (snd (submit v)) = balanced w v" "balanced w (snd (ask v)) = balanced w v"
  by (simp_all add: balanced_def ring_simps)

lemma balanced_alloc_submit: "balanced w (snd (alloc_submit op w))"
proof -
  obtain a w1 where a: "pool_alloc w = (a, w1)" by fastforce
  then have b: "balanced w w1" by (metis balanced_env(3) snd_conv)
  show ?thesis
  proof (cases a)
    case None
    with a b show ?thesis by (simp add: alloc_submit_def)
  next
    case (Some i)
    obtain ok w2 where r: "registerJob i (op i) w1 = (ok, w2)" by fastforce
    then have "balanced w1 w2" by (metis balanced_register snd_conv)
    with b have "balanced w w2" by (rule balanced_trans)
    with a Some r show ?thesis
      by (cases ok) (auto simp: alloc_submit_def intro: balanced_trans)
  qed
qed

lemma balanced_cancel [balanced_laws]:
  "submit_cancel t w = (b, w') \<Longrightarrow> balanced w w'"
  "submitIdleTimeoutCancel c w = (b, w') \<Longrightarrow> balanced w w'" "submitRecvCancel c w = (b, w') \<Longrightarrow> balanced w w'"
  using balanced_submit_cancel by (metis snd_conv submitIdleTimeoutCancel_def submitRecvCancel_def)+

lemma balanced_arm [balanced_laws]: "armIdleTimeout c w = (c', w') \<Longrightarrow> balanced w w'"
  using balanced_alloc_submit[of w "\<lambda>_. OpTimeout (cn_idle_timeout_ms c)"]
  by (auto simp: armIdleTimeout_alloc split: if_splits prod.splits option.splits)

lemma balanced_startReading [balanced_laws]: "startReading c w = (c', w') \<Longrightarrow> balanced w w'"
  using balanced_alloc_submit[of w "\<lambda>_. OpRecvMultishot (cn_client_fd c)"]
  by (cases "\<not> cn_reading_active c \<and> 0 \<le> cn_client_fd c")
     (auto simp: startReading_alloc, auto simp: startReading_def split: prod.splits option.splits intro: balanced_trans balanced_arm)

lemma balanced_new [balanced_laws]: "createConnectionHandler ms fd w = (s, w') \<Longrightarrow> balanced w w'"
  using balanced_env(3)[of w]
  by (auto simp: createConnectionHandler_def conn_start_def split: prod.splits option.splits intro: balanced_trans balanced_startReading)

lemma balanced_legs [balanced_laws]:
  "close_idle_leg c w = (c', w') \<Longrightarrow> balanced w w'" "close_recv_leg c w = (c', w') \<Longrightarrow> balanced w w'"
  by (auto simp: close_idle_leg_def close_recv_leg_def Let_def split: if_splits prod.splits intro: balanced_laws)

lemma balanced_close [balanced_laws]: "closeConnection c child w = (s, w') \<Longrightarrow> balanced w w'"
  by (auto simp: closeConnection_def Let_def split: if_splits prod.splits dest!: balanced_laws intro: balanced_trans)

lemma balanced_failed [balanced_laws]: "response_failed c w = (s, w') \<Longrightarrow> balanced w w'"
  by (auto simp: response_failed_def intro: balanced_laws)

lemma balanced_jobs [balanced_laws]:
  "createFromPoolWithOwnedData fd data len hc he w = (wj, w') \<Longrightarrow> balanced w w'"
  "wj_start j w = (r, w') \<Longrightarrow> balanced w w'" "wj_handleCompletion j ce w = (r, w') \<Longrightarrow> balanced w w'"
  "fj_createFromPool fd path res hc he w = (fj, w') \<Longrightarrow> balanced w w'"
  "fj_start gm f w = (x, w') \<Longrightarrow> balanced w w'"
  by (auto simp: fj_createFromPool_def intro: quiet_balanced quiet_created)
     (blast dest: queues_write_start queues_write file_queues_start intro: queues_balanced file_queues_balanced)+

lemma balanced_child [balanced_laws]:
  assumes "fj_child_completion j child ce w = (r, w')"
  shows "balanced w w'"
proof -
  have hb: "balanced u v" if "fj_header_callback j cb u = (x, v)" for cb u x v
    using that file_queues_callbacks(1)[of cb j u x v] by (cases "cb = NoCallback") (auto simp: fj_header_callback_def intro: file_queues_balanced)
  have eb: "balanced u v" if "fj_error_callback j cb u = (x, v)" for cb u x v
    using that file_queues_callbacks(2)[of cb j u x v] by (cases "cb = NoCallback") (auto simp: fj_error_callback_def intro: file_queues_balanced)
  have sb: "balanced u v" if "fj_splice_callback j cb u = (x, v)" for cb u x v
    using that queues_splice_callback[of cb j u x v] by (cases "cb = NoCallback") (auto simp: fj_splice_callback_def intro: file_queues_balanced)
  have sc: "balanced u (sj_cleanup sj v) = balanced u v" for u sj v by (simp add: sj_cleanup_def Let_def)
  show ?thesis
  proof (cases child)
    case (HeaderWrite wj)
    obtain r1 w1 where h: "wj_handleCompletion wj ce w = (r1, w1)" by fastforce
    with assms HeaderWrite balanced_jobs(3)[OF h] show ?thesis
      by (cases r1) (auto simp: fj_child_completion_def split: prod.splits dest: hb intro: balanced_trans)
  next
    case (ErrorWrite wj)
    obtain r1 w1 where h: "wj_handleCompletion wj ce w = (r1, w1)" by fastforce
    with assms ErrorWrite balanced_jobs(3)[OF h] show ?thesis
      by (cases r1) (auto simp: fj_child_completion_def split: prod.splits dest: eb intro: balanced_trans)
  next
    case (BodySplice sj)
    obtain r1 w1 where h: "sj_handleCompletion sj ce w = (r1, w1)" by fastforce
    with assms BodySplice queues_balanced[OF queues_splice[OF h]] show ?thesis
      by (cases r1) (auto simp: fj_child_completion_def sc split: prod.splits dest!: sb intro: balanced_trans)
  qed
qed

lemma balanced_sendFile [balanced_laws]:
  assumes "sendFileResponse app c response w = (s, w')"
  shows "balanced w w'"
proof -
  define c1 where "c1 = c\<lparr>cn_response_in_flight := True, cn_pending_range := None\<rparr>"
  obtain jo w1 where cr: "fj_createFromPool (cn_client_fd c1) (file_path response) response True True w = (jo, w1)" by fastforce
  note b = balanced_jobs(4)[OF cr]
  show ?thesis
  proof (cases jo)
    case None
    with assms cr have "response_failed c1 w1 = (s, w')" by (simp add: sendFileResponse_def c1_def[symmetric] Let_def)
    with b balanced_failed show ?thesis by (blast intro: balanced_trans)
  next
    case (Some j)
    obtain r w2 where st: "fj_start (gmtime app) (case cn_pending_range c of None \<Rightarrow> j | Some spec \<Rightarrow> requestRange spec j) w1 = (r, w2)"
      by fastforce
    have b2: "balanced w w2" using b balanced_jobs(5)[OF st] by (rule balanced_trans)
    have "w' = w2 \<or> response_failed c1 w2 = (s, w')"
      using assms cr Some st by (cases r) (simp_all add: sendFileResponse_def c1_def[symmetric] Let_def)
    with b2 balanced_failed show ?thesis by (blast intro: balanced_trans)
  qed
qed

lemma balanced_send [balanced_laws]:
  assumes "sendResponse app c response0 w = (s, w')"
  shows "balanced w w'"
proof -
  obtain c1 response where d: "state_disposition c response0 w = (c1, response)" by fastforce
  define str where "str = body_response (cn_keep_alive c1) response"
  define c2 where "c2 = c1\<lparr>cn_response_in_flight := True\<rparr>"
  obtain wjo w1 where cr: "createFromPoolWithOwnedData (cn_client_fd c2) str (length str) True True w = (wjo, w1)" by fastforce
  note b = balanced_jobs(1)[OF cr]
  show ?thesis
  proof (cases "file_path response = []")
    case False
    with assms d have "sendFileResponse app c1 response w = (s, w')" by (simp add: sendResponse_def)
    then show ?thesis by (rule balanced_sendFile)
  next
    case True
    show ?thesis
    proof (cases wjo)
      case None
      with assms d True cr have "response_failed c2 w1 = (s, w')"
        by (simp add: sendResponse_def str_def[symmetric] c2_def[symmetric] Let_def)
      with b balanced_failed show ?thesis by (blast intro: balanced_trans)
    next
      case (Some wj)
      obtain r w2 where st: "wj_start wj w1 = (r, w2)" by fastforce
      have b2: "balanced w w2" using b balanced_jobs(2)[OF st] by (rule balanced_trans)
      have "w' = w2 \<or> response_failed c2 w2 = (s, w')"
        using assms d True cr Some st by (cases r) (simp_all add: sendResponse_def str_def[symmetric] c2_def[symmetric] Let_def)
      with b2 balanced_failed show ?thesis by (blast intro: balanced_trans)
    qed
  qed
qed


lemma balanced_error [balanced_laws]: "sendErrorAndClose app code reason c child w = (s, w') \<Longrightarrow> balanced w w'"
  by (cases "cn_client_fd c < 0 \<or> cn_response_in_flight c") (auto simp: sendErrorAndClose_def dest: balanced_laws)

lemma balanced_process [balanced_laws]:
  assumes "processHttpRequests app c child w = (s, w')"
  shows "balanced w w'"
  by (rule processHttpRequests_cases[OF assms]) (auto simp: handleHttpRequest_def dest: balanced_laws)

lemma balanced_complete [balanced_laws]:
  assumes "onResponseComplete app ka c w = (s, w')"
  shows "balanced w w'"
proof -
  let ?c = "c\<lparr>cn_response_in_flight := False\<rparr>"
  obtain c1 w1 where a: "armIdleTimeout ?c w = (c1, w1)" by fastforce
  have "closeConnection ?c None w = (s, w') \<or> processHttpRequests app ?c None w = (s, w') \<or> w' = w1"
    using assms a by (auto simp: onResponseComplete_def continueReading_def Let_def split: if_splits)
  with a show ?thesis by (blast dest: balanced_laws)
qed

lemma balanced_callback [balanced_laws]: "response_callback app ka cb c w = (s, w') \<Longrightarrow> balanced w w'"
  by (cases cb) (auto simp: response_callback_def dest: balanced_laws)

lemma balanced_data [balanced_laws]:
  assumes "handleDataReceived app data len c child w = (s, w')"
  shows "balanced w w'"
  by (rule handleDataReceived_cases[OF assms]) (auto dest: balanced_laws intro: balanced_trans)

lemma balanced_callbacks [balanced_laws]:
  "rh_onError h err s w = (s', w') \<Longrightarrow> balanced w w'" "rh_onDataToken app h data s w = (s', w') \<Longrightarrow> balanced w w'"
  "it_handleCompletion t ce s w = (s', w') \<Longrightarrow> balanced w w'"
  by (auto simp: rh_onError_def handleReadError_def rh_onDataToken_def it_handleCompletion_def handleIdleTimeout_def Let_def
      split: conn_state.splits if_splits dest: balanced_laws)

lemma balanced_rearm [balanced_laws]: "mr_rearm j w = (b, w') \<Longrightarrow> balanced w w'"
  using balanced_register[of w "mr_id j" "mr_prepareSqe j"] by (auto simp: mr_rearm_def split: prod.splits if_splits)

lemma balanced_recv [balanced_laws]:
  assumes "http_recv_completion app j ce buffer s w = (clean, s', w')"
  shows "balanced w w'"
proof (cases "cqe_res ce \<le> 0 \<or> buffer = None")
  case True
  with assms recv_rejects[OF True] show ?thesis by (auto dest: balanced_laws)
next
  case False
  then obtain buf where buf: "buffer = Some buf" "\<not> cqe_res ce \<le> 0" by auto
  obtain s1 u where d: "rh_onDataToken app (mr_handler j) (take (nat (cqe_res ce)) buf) s w = (s1, u)" by fastforce
  obtain armed v where a: "(if rh_shouldRearmRecv (mr_handler j) s1 then mr_rearm j u else (False, u)) = (armed, v)" by fastforce
  obtain s2 x where e: "rh_onError (mr_handler j) (- ECANCELED) s1 v = (s2, x)" by fastforce
  have "balanced w u" "balanced u v" "balanced v x" using d a e by (auto dest: balanced_laws split: if_splits)
  moreover have "w' = u \<or> w' = v \<or> w' = x"
    using assms buf d a e by (simp add: http_recv_completion_def mr_handleCompletion_def split: if_splits)
  ultimately show ?thesis by (blast intro: balanced_trans)
qed

lemma balanced_response [balanced_laws]:
  assumes "response_completion app c r ce w = (s, w')"
  shows "balanced w w'"
proof (cases r)
  case (BodyWrite wj ka)
  obtain r1 w1 where h: "wj_handleCompletion wj ce w = (r1, w1)" by fastforce
  with assms BodyWrite balanced_jobs(3)[OF h] show ?thesis
    by (cases r1) (auto simp: response_completion_def split: prod.splits dest!: balanced_callback intro: balanced_trans)
next
  case (FileTransfer j child ka)
  obtain r1 w1 where h: "fj_child_completion j child ce w = (r1, w1)" by fastforce
  with assms FileTransfer balanced_child[OF h] show ?thesis
    by (cases r1) (auto simp: response_completion_def dest!: balanced_callback intro: balanced_trans)
qed

end
