(* ===== verification/Single_Ring_Server.thy ===== *)
theory Single_Ring_Server
  imports Accept_Job Ktls_Job Connection_Balance
begin

text \<open>
  The HTTP server of one ring: the class \<^verbatim>\<open>SingleRingHttpServer\<close> of \<^verbatim>\<open>src/http/SingleRingHttpServer.cpp\<close>. \<open>http_server\<close> are its
  members; \<open>site\<close> adds what lives on its ring, the accept jobs, the handshakes, and the connections with
  the operations the kernel holds for each. The two hooks it gives to the event loop are \<open>startAccepting\<close> and
  \<open>shutdown_sweep\<close>.
\<close>

section \<open>Ports and listening sockets\<close>

definition port_isValid :: "int \<Rightarrow> bool" where
  "port_isValid port \<longleftrightarrow> port \<ge> 0 \<and> port \<le> 65535"

text \<open>
  The socket calls are answered by the environment: a negative answer is a failure, and for
  \<^verbatim>\<open>inet_pton\<close> zero is one too. Every path that fails after the socket exists closes it.
\<close>

definition createServerSocket :: "int \<Rightarrow> ring \<Rightarrow> int \<times> ring" where
  "createServerSocket port w =
     (if port < 0 \<or> port > 65535 then (- 1, w)
      else let (socket_fd, w0) = ask w; w1 = open_fd socket_fd w0 in
        if socket_fd < 0 then (- 1, w1)
        else let (reuseaddr, w2) = ask w1 in
          if reuseaddr < 0 then (- 1, close_fd socket_fd w2)
          else let (reuseport, w3) = ask w2 in
            if reuseport < 0 then (- 1, close_fd socket_fd w3)
            else let (inet_result, w4) = ask w3 in
              if inet_result = 0 then (- 1, close_fd socket_fd w4)
              else if inet_result < 0 then (- 1, close_fd socket_fd w4)
              else let (bound, w5) = ask w4 in
                if bound < 0 then (- 1, close_fd socket_fd w5)
                else let (listening, w6) = ask w5 in
                  if listening < 0 then (- 1, close_fd socket_fd w6) else (socket_fd, w6))"

section \<open>The server\<close>

record 'rx http_server =
  hs_router :: "'rx Route list"
  hs_server_fd :: int
  hs_running :: bool
  hs_accept_job :: "nat option"
  hs_ktls_enabled :: bool
  hs_ssl_ctx :: "nat option"
  hs_owns_ssl_ctx :: bool
  hs_ktls_handshake_timeout_ms :: nat
  hs_idle_timeout_ms :: nat
  hs_hooks_installed :: bool

definition SingleRingHttpServer_init :: "'rx http_server" where
  "SingleRingHttpServer_init =
     \<lparr>hs_router = [], hs_server_fd = - 1, hs_running = False, hs_accept_job = None, hs_ktls_enabled = False,
      hs_ssl_ctx = None, hs_owns_ssl_ctx = True, hs_ktls_handshake_timeout_ms = 5000, hs_idle_timeout_ms = 60000,
      hs_hooks_installed = False\<rparr>"

definition hs_routesStillAccepted :: "'rx http_server \<Rightarrow> bool" where
  "hs_routesStillAccepted s \<longleftrightarrow> \<not> hs_running s"

text \<open>A route whose pattern does not compile throws (None), like \<open>addRoute\<close> of the router.\<close>

definition hs_addRoute ::
  "(string \<Rightarrow> 'rx option) \<Rightarrow> string \<Rightarrow> string \<Rightarrow> HttpHandler option \<Rightarrow> 'rx http_server \<Rightarrow> 'rx http_server option" where
  "hs_addRoute regex meth pathRegex h s =
     (if \<not> hs_routesStillAccepted s then Some s
      else (case addRoute regex meth pathRegex h (hs_router s) of
              None \<Rightarrow> None | Some routes \<Rightarrow> Some (s\<lparr>hs_router := routes\<rparr>)))"

definition hs_addRouteWithCaptures ::
  "(string \<Rightarrow> 'rx option) \<Rightarrow> string \<Rightarrow> string \<Rightarrow> HttpHandlerWithCaptures option \<Rightarrow> 'rx http_server \<Rightarrow> 'rx http_server option" where
  "hs_addRouteWithCaptures regex meth pathRegex h s =
     (if \<not> hs_routesStillAccepted s then Some s
      else (case addRouteWithCaptures regex meth pathRegex h (hs_router s) of
              None \<Rightarrow> None | Some routes \<Rightarrow> Some (s\<lparr>hs_router := routes\<rparr>)))"

definition installRingLocalHooks :: "'rx http_server \<Rightarrow> 'rx http_server" where
  "installRingLocalHooks s = s\<lparr>hs_hooks_installed := True\<rparr>"

definition hs_listen :: "int \<Rightarrow> 'rx http_server \<Rightarrow> ring \<Rightarrow> bool \<times> 'rx http_server \<times> ring" where
  "hs_listen port s w =
     (if hs_running s then (False, s, w)
      else if \<not> port_isValid port then (False, s, w)
      else let (fd, w1) = createServerSocket port w; s1 = s\<lparr>hs_server_fd := fd\<rparr> in
        if fd < 0 then (False, s1, w1)
        else (True, installRingLocalHooks (s1\<lparr>hs_running := True, hs_ktls_enabled := False\<rparr>), w1))"

text \<open>\<^verbatim>\<open>KTLSContextHelper::createServerContext\<close>: a context, or null for a negative answer.\<close>

definition createServerContext :: "ring \<Rightarrow> nat option \<times> ring" where
  "createServerContext w = (let (a, w1) = ask w in (if a < 0 then None else Some (nat a), w1))"

definition hs_listenKTLS :: "int \<Rightarrow> 'rx http_server \<Rightarrow> ring \<Rightarrow> bool \<times> 'rx http_server \<times> ring" where
  "hs_listenKTLS port s w =
     (if hs_running s then (False, s, w)
      else if \<not> port_isValid port then (False, s, w)
      else let (ctx, w1) = createServerContext w; s1 = s\<lparr>hs_ssl_ctx := ctx\<rparr> in
        (case ctx of
           None \<Rightarrow> (False, s1, w1)
         | Some _ \<Rightarrow>
             let (fd, w2) = createServerSocket port w1; s2 = s1\<lparr>hs_server_fd := fd\<rparr> in
             if fd < 0 then (False, s2\<lparr>hs_ssl_ctx := None\<rparr>, w2)
             else (True, installRingLocalHooks (s2\<lparr>hs_running := True, hs_ktls_enabled := True\<rparr>), w2)))"

definition hs_listenOnFd :: "int \<Rightarrow> bool \<Rightarrow> 'rx http_server \<Rightarrow> 'rx http_server" where
  "hs_listenOnFd server_fd use_ktls s =
     installRingLocalHooks (s\<lparr>hs_server_fd := server_fd, hs_running := True, hs_ktls_enabled := use_ktls\<rparr>)"

definition hs_setRouter :: "'rx Route list \<Rightarrow> 'rx http_server \<Rightarrow> 'rx http_server" where
  "hs_setRouter router s = s\<lparr>hs_router := copy_routes router\<rparr>"

definition hs_setKTLSContext :: "nat option \<Rightarrow> bool \<Rightarrow> 'rx http_server \<Rightarrow> 'rx http_server" where
  "hs_setKTLSContext ssl_ctx take_ownership s = s\<lparr>hs_ssl_ctx := ssl_ctx, hs_owns_ssl_ctx := take_ownership\<rparr>"

definition hs_stop :: "'rx http_server \<Rightarrow> ring \<Rightarrow> 'rx http_server \<times> ring" where
  "hs_stop s w =
     (if \<not> hs_running s then (s, w)
      else let s1 = s\<lparr>hs_running := False\<rparr> in
        if hs_server_fd s1 \<ge> 0 then (s1\<lparr>hs_server_fd := - 1\<rparr>, close_fd (hs_server_fd s1) w) else (s1, w))"

section \<open>What lives on the ring\<close>

text \<open>
  A connection with the operations the kernel holds for it, and a handshake. \<open>st_input\<close> is what the
  kernel has put into the receive buffers, one answer per receive completion, None for a buffer number
  out of range.
\<close>

record cslot =
  cs_id :: nat
  cs_state :: conn_state
  cs_kernel :: "(nat \<times> sqe_op) list"

record 'rx site =
  st_http :: "'rx http_server"
  st_accepts :: "AcceptJob list"
  st_ktls :: "KTLSJob list"
  st_conns :: "cslot list"
  st_cancels :: "nat list"
  st_input :: "nat \<Rightarrow> string option"
  st_received :: nat

definition queued_list :: "ring \<Rightarrow> ring \<Rightarrow> (nat \<times> sqe_op) list" where
  "queued_list w w' = drop (length (sq w)) (sq w')"

definition startAccepting :: "'rx site \<Rightarrow> ring \<Rightarrow> 'rx site \<times> ring" where
  "startAccepting s w =
     (let h = st_http s in
      if \<not> hs_running h then (s, w)
      else (case aj_create (hs_server_fd h) True True w of
              (None, w1) \<Rightarrow> (s, w1)
            | (Some job, w1) \<Rightarrow>
                let (sqe, w2) = registerJob (aj_id job) (aj_prepareSqe job) w1 in
                if sqe then
                  (s\<lparr>st_http := h\<lparr>hs_accept_job := Some (aj_id job)\<rparr>, st_accepts := st_accepts s @ [bindOwnerSlot job]\<rparr>,
                   snd (submit w2))
                else (s, aj_freePoolAllocated (Some job) w2)))"

text \<open>The error callback of the accept job.\<close>

definition accept_error :: "int \<Rightarrow> 'rx site \<Rightarrow> ring \<Rightarrow> 'rx site \<times> ring" where
  "accept_error err s w = (if hs_running (st_http s) then startAccepting s w else (s, w))"

text \<open>
  \<open>createConnectionHandler\<close> on the site. A connection whose first receive could not be armed has no operation in the
  kernel; it stays in the list.
\<close>

definition site_connect :: "int \<Rightarrow> 'rx site \<Rightarrow> ring \<Rightarrow> 'rx site \<times> ring" where
  "site_connect client_fd s w =
     (case createConnectionHandler (hs_idle_timeout_ms (st_http s)) client_fd w of
        (Live c child, w1) \<Rightarrow>
          (s\<lparr>st_conns := st_conns s @ [\<lparr>cs_id = cn_id c, cs_state = Live c child, cs_kernel = queued_list w w1\<rparr>]\<rparr>, w1)
      | (Freed, w1) \<Rightarrow> (s, w1))"

definition handleKTLSReady :: "int \<Rightarrow> 'rx site \<Rightarrow> ring \<Rightarrow> 'rx site \<times> ring" where
  "handleKTLSReady client_fd s w = site_connect client_fd s w"

definition handleKTLSError :: "int \<Rightarrow> int \<Rightarrow> 'rx site \<Rightarrow> ring \<Rightarrow> 'rx site \<times> ring" where
  "handleKTLSError client_fd err s w = (s, close_fd client_fd w)"

fun ktls_callback :: "job_cb \<Rightarrow> 'rx site \<Rightarrow> ring \<Rightarrow> 'rx site \<times> ring" where
  "ktls_callback NoCallback s w = (s, w)"
| "ktls_callback (OnComplete fd _) s w = handleKTLSReady fd s w"
| "ktls_callback (OnError fd err) s w = handleKTLSError fd err s w"

definition handleNewConnection :: "int \<Rightarrow> 'rx site \<Rightarrow> ring \<Rightarrow> 'rx site \<times> ring" where
  "handleNewConnection client_fd s w =
     (if hs_ktls_enabled (st_http s) then
        (case pool_alloc w of
           (None, w1) \<Rightarrow> (s, close_fd client_fd w1)
         | (Some i, w1) \<Rightarrow>
             let (sqe, w2) = registerJob i OpNop w1 in
             if sqe then
               let (j, cb, w3) = kj_prepareSqe (KTLSJob_init i client_fd (hs_ssl_ctx (st_http s) \<noteq> None)
                                   (hs_ktls_handshake_timeout_ms (st_http s))) w2;
                   (s1, w4) = ktls_callback cb s w3 in
               (s1\<lparr>st_ktls := st_ktls s1 @ [j]\<rparr>, snd (submit w4))
             else (s, close_fd client_fd (pool_free i w2)))
      else site_connect client_fd s w)"

section \<open>Completions\<close>

text \<open>
  The user data of a completion is the job; \<^verbatim>\<open>job->handleCompletion\<close> is here a search for the job among
  everything that lives on the ring, and a call of its handler. The flag is the returned cleanup callback.
\<close>

definition upd_accept_job :: "(nat option \<Rightarrow> nat option) \<Rightarrow> 'rx site \<Rightarrow> 'rx site" where
  "upd_accept_job f s = s\<lparr>st_http := (st_http s)\<lparr>hs_accept_job := f (hs_accept_job (st_http s))\<rparr>\<rparr>"

definition accept_completion :: "AcceptJob \<Rightarrow> cqe \<Rightarrow> 'rx site \<Rightarrow> ring \<Rightarrow> bool \<times> 'rx site \<times> ring" where
  "accept_completion j ce s w =
     (let (clean, s1, w1) = aj_handleCompletion handleNewConnection accept_error upd_accept_job j ce s w in
      (clean, if clean then s1\<lparr>st_accepts := remove1 j (st_accepts s1)\<rparr> else s1, w1))"

definition ktls_completion :: "KTLSJob \<Rightarrow> cqe \<Rightarrow> 'rx site \<Rightarrow> ring \<Rightarrow> bool \<times> 'rx site \<times> ring" where
  "ktls_completion j ce s w =
     (let (j', cb, clean, w1) = kj_handleCompletion j ce w;
          s1 = s\<lparr>st_ktls := (if clean then remove1 j (st_ktls s) else remove1 j (st_ktls s) @ [j'])\<rparr>;
          (s2, w2) = ktls_callback cb s1 w1 in
      (clean, s2, w2))"

definition conn_completion ::
  "app \<Rightarrow> nat \<Rightarrow> sqe_op \<Rightarrow> cqe \<Rightarrow> string option \<Rightarrow> cslot \<Rightarrow> ring \<Rightarrow> bool \<times> conn_state \<times> ring" where
  "conn_completion app job op ce payload sl w =
     (case op of
        OpRecvMultishot fd \<Rightarrow>
          http_recv_completion app \<lparr>mr_id = job, mr_fd = fd, mr_handler = \<lparr>rh_connection = cs_id sl\<rparr>\<rparr> ce payload (cs_state sl) w
      | OpTimeout ms \<Rightarrow>
          let (s', w1) = it_handleCompletion (IdleTimeoutJob_init job (cs_id sl) ms) ce (cs_state sl) w in (True, s', w1)
      | OpCancel _ \<Rightarrow> (True, cs_state sl, w)
      | _ \<Rightarrow>
          (case cs_state sl of
             Live c (Some r) \<Rightarrow> let (s', w1) = response_completion app c r ce w in (False, s', w1)
           | s' \<Rightarrow> (False, s', w)))"

fun conns_completion ::
  "app \<Rightarrow> nat \<Rightarrow> cqe \<Rightarrow> string option \<Rightarrow> cslot list \<Rightarrow> ring \<Rightarrow> bool \<times> cslot list \<times> ring" where
  "conns_completion app job ce payload [] w = (False, [], w)"
| "conns_completion app job ce payload (sl # sls) w =
     (case find (\<lambda>e. fst e = job) (cs_kernel sl) of
        Some (j, op) \<Rightarrow>
          let (clean, s', w1) = conn_completion app j op ce payload sl w;
              K = (if cqe_more ce then cs_kernel sl else remove1 (j, op) (cs_kernel sl)) in
          (clean, sl\<lparr>cs_state := s', cs_kernel := K @ queued_list w w1\<rparr> # sls, w1)
      | None \<Rightarrow>
          let (clean, sls', w1) = conns_completion app job ce payload sls w in (clean, sl # sls', w1))"

definition site_handle :: "app \<Rightarrow> nat \<Rightarrow> cqe \<Rightarrow> 'rx site \<Rightarrow> ring \<Rightarrow> bool \<times> 'rx site \<times> ring" where
  "site_handle app job ce s w =
     (case find (\<lambda>j. aj_id j = job) (st_accepts s) of
        Some j \<Rightarrow> accept_completion j ce s w
      | None \<Rightarrow>
          (case find (\<lambda>j. kj_id j = job) (st_ktls s) of
             Some j \<Rightarrow> ktls_completion j ce s w
           | None \<Rightarrow>
               if job \<in> set (st_cancels s) then (True, s\<lparr>st_cancels := remove1 job (st_cancels s)\<rparr>, w)
               else let (clean, conns, w1) = conns_completion app job ce (st_input s (st_received s)) (st_conns s) w in
                 (clean, s\<lparr>st_conns := conns, st_received := st_received s + 1\<rparr>, w1)))"

text \<open>Every cleanup callback returns the job to its pool.\<close>

definition site_cleanup :: "nat \<Rightarrow> 'rx site \<Rightarrow> ring \<Rightarrow> 'rx site \<times> ring" where
  "site_cleanup job s w = (s, pool_free job w)"

section \<open>The shutdown sweep\<close>

fun cancel_entry :: "nat \<Rightarrow> bool \<Rightarrow> nat \<times> sqe_op \<Rightarrow> ring \<Rightarrow> ring" where
  "cancel_entry cid timers (j, OpRecvMultishot fd) w =
     (if timers then w else mr_requestShutdownCancel \<lparr>mr_id = j, mr_fd = fd, mr_handler = \<lparr>rh_connection = cid\<rparr>\<rparr> w)"
| "cancel_entry cid timers (j, OpTimeout ms) w =
     (if timers then it_requestShutdownCancel (IdleTimeoutJob_init j cid ms) w else w)"
| "cancel_entry cid timers e w = w"

fun cancel_entries :: "nat \<Rightarrow> bool \<Rightarrow> (nat \<times> sqe_op) list \<Rightarrow> ring \<Rightarrow> ring" where
  "cancel_entries cid timers [] w = w"
| "cancel_entries cid timers (e # es) w = cancel_entries cid timers es (cancel_entry cid timers e w)"

fun sweep_slots :: "bool \<Rightarrow> cslot list \<Rightarrow> ring \<Rightarrow> cslot list \<times> ring" where
  "sweep_slots timers [] w = ([], w)"
| "sweep_slots timers (sl # sls) w =
     (let w1 = cancel_entries (cs_id sl) timers (cs_kernel sl) w;
          (sls', w2) = sweep_slots timers sls w1 in
      (sl\<lparr>cs_kernel := cs_kernel sl @ queued_list w w1\<rparr> # sls', w2))"

definition shutdown_sweep :: "'rx site \<Rightarrow> ring \<Rightarrow> 'rx site \<times> ring" where
  "shutdown_sweep s w =
     (let (conns1, w1) = sweep_slots False (st_conns s) w;
          (conns2, w2) = sweep_slots True conns1 w1;
          s2 = s\<lparr>st_conns := conns2\<rparr> in
      (case hs_accept_job (st_http s2) of
         None \<Rightarrow> (s2, w2)
       | Some i \<Rightarrow>
           let w3 = aj_requestShutdownCancel i w2 in
           (s2\<lparr>st_http := (st_http s2)\<lparr>hs_accept_job := None\<rparr>, st_cancels := st_cancels s2 @ map fst (queued_list w2 w3)\<rparr>, w3)))"

section \<open>The event loop serves the site\<close>

lemma balanced_poolalloc [balanced_laws]: "pool_alloc w = (a, w') \<Longrightarrow> balanced w w'"
  by (metis balanced_env(3) snd_conv)

lemma balanced_reg [balanced_laws]: "registerJob j op w = (ok, w') \<Longrightarrow> balanced w w'"
  by (metis balanced_register snd_conv)

lemma balanced_startAccepting [balanced_laws]: "startAccepting s w = (s', w') \<Longrightarrow> balanced w w'"
  by (auto simp: startAccepting_def aj_create_def aj_freePoolAllocated_def Let_def
      split: if_splits prod.splits option.splits dest!: balanced_laws intro: balanced_trans)

lemma balanced_accept_error: "balanced_cb accept_error"
  using balanced_startAccepting[OF prod.collapse[symmetric]] by (auto simp: balanced_cb_def accept_error_def)

lemma balanced_connect [balanced_laws]: "site_connect fd s w = (s', w') \<Longrightarrow> balanced w w'"
  by (auto simp: site_connect_def split: prod.splits conn_state.splits dest!: balanced_new)

lemma balanced_ktls_callback [balanced_laws]: "ktls_callback cb s w = (s', w') \<Longrightarrow> balanced w w'"
  by (cases cb) (auto simp: handleKTLSReady_def handleKTLSError_def dest: balanced_laws)

lemma same_books_balanced: "same_books w w' \<Longrightarrow> balanced w w'"
  by (simp add: same_books_def balanced_def)

lemma balanced_kj_prepare [balanced_laws]:
  assumes "kj_prepareSqe j w = (j', cb, w')"
  shows "balanced w w'"
proof -
  obtain ok j1 w1 where i: "(if kj_ssl_initialized j then (True, j, w) else initializeSSL j w) = (ok, j1, w1)" by (metis prod.collapse)
  have b1: "balanced w w1" using i same_books_balanced[OF same_books_ssl(1)[of j w ok j1 w1]] by (auto split: if_splits)
  obtain a w2 where a: "SSL_accept w1 = (a, w2)" by fastforce
  have b2: "balanced w w2" using b1 same_books_balanced[OF same_books_ssl(3)[OF a]] by (rule balanced_trans)
  obtain ok3 j3 cb3 w3 where c: "completeHandshake j1 w2 = (ok3, j3, cb3, w3)" by (metis prod.collapse)
  then have "balanced w2 w3" using completeHandshake_ok by (auto simp: kj_step_ok_def)
  with b2 have b3: "balanced w w3" by (rule balanced_trans)
  have "w' = w1 \<or> w' = w2 \<or> w' = w3"
    using assms i a c by (cases ok; cases a) (auto simp: kj_prepareSqe_def Let_def split: if_splits)
  with b1 b2 b3 show ?thesis by auto
qed


lemma balanced_kj_step [balanced_laws]:
  assumes "performHandshakeStep j w = (ok, j', cb, w')"
  shows "balanced w w'"
proof (cases "isStopping w \<or> isAborting w")
  case True
  with assms show ?thesis by (auto simp: performHandshakeStep_def)
next
  case False
  obtain ok1 j1 w1 where i: "(if kj_ssl_initialized j then (True, j, w) else initializeSSL j w) = (ok1, j1, w1)" by (metis prod.collapse)
  have b1: "balanced w w1" using i same_books_balanced[OF same_books_ssl(1)[of j w ok1 j1 w1]] by (auto split: if_splits)
  obtain a w2 where a: "SSL_accept w1 = (a, w2)" by fastforce
  have b2: "balanced w w2" using b1 same_books_balanced[OF same_books_ssl(3)[OF a]] by (rule balanced_trans)
  show ?thesis
  proof (cases "\<not> ok1")
    case True
    with assms False i b1 show ?thesis by (auto simp: performHandshakeStep_def)
  next
    case ok: False
    show ?thesis
    proof (cases a)
      case None
      with assms False i ok a have "completeHandshake j1 w2 = (ok, j', cb, w')" by (simp add: performHandshakeStep_def)
      from completeHandshake_ok[OF this] b2 show ?thesis by (auto simp: kj_step_ok_def intro: balanced_trans)
    next
      case (Some e)
      obtain ev j3 cb3 w3 where p: "submitPollOperation ev (j1\<lparr>kj_last_ssl_error := e\<rparr>) w2 = (j3, cb3, w3)" and w': "w' = w2 \<or> w' = w3"
        using assms False i ok a Some
        by (cases "e = SSL_ERROR_WANT_READ"; cases "submitPollOperation (if e = SSL_ERROR_WANT_READ then POLLIN else POLLOUT) (j1\<lparr>kj_last_ssl_error := e\<rparr>) w2")
           (auto simp: performHandshakeStep_def Let_def split: if_splits prod.splits)
      from submitPollOperation_ok[OF p] b2 w' show ?thesis by (auto simp: kj_step_ok_def intro: balanced_trans)
    qed
  qed
qed

lemma balanced_kj_handle [balanced_laws]: "kj_handleCompletion j c w = (j', cb, clean, w') \<Longrightarrow> balanced w w'"
  by (auto simp: kj_handleCompletion_def Let_def split: if_splits prod.splits dest: balanced_laws)

lemma balanced_newConnection [balanced_laws]: "handleNewConnection fd s w = (s', w') \<Longrightarrow> balanced w w'"
  by (auto simp: handleNewConnection_def Let_def split: if_splits prod.splits option.splits dest!: balanced_laws)
     (meson balanced_trans)+

lemma balanced_newConnection_cb: "balanced_cb handleNewConnection"
  unfolding balanced_cb_def by (intro allI balanced_newConnection[OF prod.collapse[symmetric]])

lemma balanced_accept_completion [balanced_laws]: "accept_completion j ce s w = (b, s', w') \<Longrightarrow> balanced w w'"
  by (auto simp: accept_completion_def split: prod.splits
      dest!: accept_balanced[OF balanced_accept_error balanced_newConnection_cb])

lemma balanced_ktls_completion [balanced_laws]: "ktls_completion j ce s w = (b, s', w') \<Longrightarrow> balanced w w'"
  by (auto simp: ktls_completion_def Let_def split: prod.splits dest!: balanced_kj_handle balanced_ktls_callback intro: balanced_trans)

lemma balanced_conn_completion [balanced_laws]:
  "conn_completion app job op ce payload sl w = (b, s', w') \<Longrightarrow> balanced w w'"
  by (cases op) (auto simp: conn_completion_def split: prod.splits conn_state.splits option.splits dest: balanced_laws)

lemma balanced_conns [balanced_laws]:
  "conns_completion app job ce payload sls w = (b, sls', w') \<Longrightarrow> balanced w w'"
  by (induction sls arbitrary: sls') (auto simp: Let_def split: option.splits prod.splits dest: balanced_conn_completion)

lemma balanced_handle: "site_handle app job ce s w = (b, s', w') \<Longrightarrow> balanced w w'"
  by (auto simp: site_handle_def Let_def split: option.splits if_splits prod.splits dest: balanced_laws)

lemma balanced_cancel_entry: "balanced w (cancel_entry cid timers e w)"
  using balanced_submit_cancel[of w "fst e"]
  by (cases "(cid, timers, e, w)" rule: cancel_entry.cases)
     (simp_all add: mr_requestShutdownCancel_def it_requestShutdownCancel_def IdleTimeoutJob_init_def)

lemma balanced_cancel_entries: "balanced w (cancel_entries cid timers es w)"
  by (induction es arbitrary: w) (auto intro: balanced_trans balanced_cancel_entry)

lemma balanced_sweep_slots: "sweep_slots timers sls w = (sls', w') \<Longrightarrow> balanced w w'"
  by (induction sls arbitrary: w sls')
     (auto simp: Let_def split: prod.splits intro: balanced_trans[OF balanced_cancel_entries])

lemma balanced_sweep: "balanced w (snd (shutdown_sweep s w))"
proof -
  obtain c1 w1 where 1: "sweep_slots False (st_conns s) w = (c1, w1)" by fastforce
  obtain c2 w2 where 2: "sweep_slots True c1 w1 = (c2, w2)" by fastforce
  have "balanced w w2" using balanced_sweep_slots[OF 1] balanced_sweep_slots[OF 2] by (rule balanced_trans)
  then show ?thesis using 1 2 balanced_submit_cancel[of w2]
    by (auto simp: shutdown_sweep_def aj_requestShutdownCancel_def Let_def split: option.splits intro: balanced_trans)
qed

interpretation ring_site: ring_jobs "site_handle app" site_cleanup shutdown_sweep for app
proof unfold_locales
  show "balanced w (snd (snd (site_handle app job c s w)))" for w job c and s :: "'a site"
    by (metis balanced_handle prod.collapse)
qed (simp_all add: site_cleanup_def balanced_sweep)

section \<open>Listening sockets\<close>

lemma createServerSocket_keeps:
  assumes "createServerSocket port w = (fd, w')"
  shows "keeps F J n w (if fd \<ge> 0 then add_mset fd F else F) J n w' \<and> sq w' = sq w \<and> (fd < 0 \<longrightarrow> fd = - 1)"
  using assms
  by (auto simp: createServerSocket_def ask_def open_fd_def close_fd_def keeps_def Let_def split: if_splits)

lemma createServerContext_keeps: "createServerContext w = (c, w') \<Longrightarrow> keeps F J n w F J n w' \<and> sq w' = sq w"
  by (auto simp: createServerContext_def ask_def keeps_def)

lemma stop_keeps:
  assumes "hs_running s" "hs_server_fd s \<ge> 0" "hs_stop s w = (s', w')"
  shows "keeps {# hs_server_fd s #} {#} 0 w {#} {#} 0 w' \<and> \<not> hs_running s' \<and> hs_server_fd s' = - 1"
  using assms keeps_env(4)[of "hs_server_fd s" "{#}" "{#}" 0 w] by (auto simp: hs_stop_def)

section \<open>The accept\<close>

lemma startAccepting_calm:
  assumes "hs_running (st_http s)" "ora w = (\<lambda>_. 0)"
  shows "startAccepting s w =
    (s\<lparr>st_http := (st_http s)\<lparr>hs_accept_job := Some (next_id w)\<rparr>,
       st_accepts := st_accepts s @ [\<lparr>aj_id = next_id w, aj_server_fd = hs_server_fd (st_http s), aj_owner_bound = True,
         aj_on_connection = True, aj_on_error = True\<rparr>]\<rparr>,
     w\<lparr>tick := tick w + 3, next_id := next_id w + 1, in_flight := in_flight w + 1,
       sq := sq w @ [(next_id w, OpAccept (hs_server_fd (st_http s)))]\<rparr>)"
  using assms
  by (simp add: startAccepting_def aj_create_def AcceptJob_init_def aj_prepareSqe_def bindOwnerSlot_def pool_alloc_def
      registerJob_def submit_def ask_def Let_def)

section \<open>The loop\<close>

lemma run_loop_suffix: "run_loop h c sw wks s = Some (s', wks') \<Longrightarrow> set wks' \<subseteq> set wks"
proof (induction wks arbitrary: s)
  case Nil
  then show ?case by (simp add: run_loop.simps[of _ _ _ "[]"] split: if_splits)
next
  case (Cons wk wks)
  then show ?case by (auto simp: run_loop.simps[of _ _ _ "wk # wks"] split: if_splits)
qed

lemma run_loop_stopped: "run_loop h c sw wks s = Some (s', wks') \<Longrightarrow> srv_state (ring_of s') \<noteq> Running"
proof (induction wks arbitrary: s)
  case Nil
  then show ?case by (auto simp: run_loop.simps[of _ _ _ "[]"] split: if_splits)
next
  case (Cons wk wks)
  then show ?case by (auto simp: run_loop.simps[of _ _ _ "wk # wks"] split: if_splits)
qed

section \<open>Properties\<close>

text \<open>
  Listening sockets. \<^verbatim>\<open>listen\<close> on a server that is not running refuses a port that is not one, and whatever the socket
  calls answer, a listen that fails leaves no socket open, one that succeeds leaves exactly the server's, and \<^verbatim>\<open>stop\<close> closes
  that one; a second \<^verbatim>\<open>stop\<close> does nothing.
\<close>

lemma listen_socket_ownership:
  assumes "hs_listen port s w = (ok, s', w')" "\<not> hs_running s"
  shows "(ok \<longrightarrow> 0 \<le> port \<and> port \<le> 65535 \<and> hs_hooks_installed s') \<and> hs_running s' = ok \<and>
    keeps {#} {#} 0 w (if ok then {# hs_server_fd s' #} else {#}) {#} 0 w' \<and>
    (\<forall>s2 w2. hs_stop s' w' = (s2, w2) \<longrightarrow> keeps {#} {#} 0 w {#} {#} 0 w2 \<and> \<not> hs_running s2 \<and> hs_stop s2 w2 = (s2, w2))"
proof -
  obtain fd w1 where c: "createServerSocket port w = (fd, w1)" by fastforce
  note k = createServerSocket_keeps[OF c, of "{#}" "{#}" 0]
  consider (refused) "\<not> port_isValid port" "\<not> ok" "s' = s" "w' = w"
    | (failed) "fd < 0" "\<not> ok" "s' = s\<lparr>hs_server_fd := fd\<rparr>" "w' = w1"
    | (listening) "port_isValid port" "fd \<ge> 0" "ok" "w' = w1"
        "s' = installRingLocalHooks (s\<lparr>hs_server_fd := fd, hs_running := True, hs_ktls_enabled := False\<rparr>)"
    using assms c by (auto simp: hs_listen_def Let_def split: if_splits)
  then show ?thesis
  proof cases
    case refused
    with assms(2) show ?thesis by (simp add: hs_stop_def)
  next
    case failed
    with assms(2) k show ?thesis by (simp add: hs_stop_def)
  next
    case listening
    let ?f = "{# fd #}"
    have k1: "keeps {#} {#} 0 w ?f {#} 0 w1" using k listening(2) by simp
    have s': "hs_running s'" "hs_server_fd s' = fd" "hs_hooks_installed s'" using listening(5) by (simp_all add: installRingLocalHooks_def)
    have "keeps {#} {#} 0 w {#} {#} 0 w2 \<and> \<not> hs_running s2 \<and> hs_stop s2 w2 = (s2, w2)" if "hs_stop s' w' = (s2, w2)" for s2 w2
    proof -
      from stop_keeps[OF s'(1) _ that] s'(2) listening(2,4)
      have "keeps {# fd #} {#} 0 w1 {#} {#} 0 w2" "\<not> hs_running s2" by simp_all
      with keeps_trans[OF k1] show ?thesis by (simp add: hs_stop_def)
    qed
    with s' k1 listening show ?thesis by (simp add: port_isValid_def)
  qed
qed

text \<open>
  An accept that runs out of descriptors is armed twice. On a running server whose pool and ring have room, when the accept completes
  with EMFILE, its error callback arms a second accept job and then the first arms itself again; the server tracks only
  the second. The sweep of a later shutdown cancels that one and not the first, whose operation stays in flight.
\<close>

lemma accept_armed_twice:
  assumes "hs_running (st_http s)" "aj_on_error j" "aj_id j < next_id w" "ora w = (\<lambda>_. 0)" "\<not> isStopping w" "\<not> isAborting w"
    and "cqe_res ce = - EMFILE" "accept_completion j ce s w = (clean, s', w')" "st_conns s = []"
    and "shutdown_sweep s' w' = (s'', w'')"
  shows "\<not> clean \<and> hs_accept_job (st_http s') = Some (next_id w) \<and>
    queued_list w w' = [(next_id w, OpAccept (hs_server_fd (st_http s))), (aj_id j, OpAccept (aj_server_fd j))] \<and>
    map snd (queued_list w' w'') = [OpCancel (next_id w)] \<and> OpCancel (aj_id j) \<notin> snd ` set (queued_list w' w'')"
proof -
  let ?h = "st_http s"
  obtain s1 w1 where sw: "startAccepting s w = (s1, w1)" by fastforce
  have w1: "w1 = w\<lparr>tick := tick w + 3, next_id := next_id w + 1, in_flight := in_flight w + 1,
       sq := sq w @ [(next_id w, OpAccept (hs_server_fd ?h))]\<rparr>" and s1: "hs_accept_job (st_http s1) = Some (next_id w)" "st_conns s1 = []"
    using sw startAccepting_calm[OF assms(1,4)] assms(9) by auto
  have "accept_completion j ce s w = (let (s2, w2) = resubmitAccept accept_error j s1 w1 in (False, s2, w2))"
    using assms(1,2,5-7) sw
    by (simp add: accept_completion_def aj_handleCompletion_def accept_error_def EMFILE_def Let_def split: prod.splits)
  moreover have "resubmitAccept accept_error j s1 w1 =
      (s1, w1\<lparr>tick := tick w1 + 2, in_flight := in_flight w1 + 1, sq := sq w1 @ [(aj_id j, OpAccept (aj_server_fd j))]\<rparr>)"
    using assms(4-6) unfolding w1
    by (simp add: resubmitAccept_def aj_prepareSqe_def isStopping_def isAborting_def registerJob_def submit_def ask_def Let_def)
  ultimately have r: "\<not> clean" "s' = s1"
    "w' = w1\<lparr>tick := tick w1 + 2, in_flight := in_flight w1 + 1, sq := sq w1 @ [(aj_id j, OpAccept (aj_server_fd j))]\<rparr>"
    using assms(8) by simp_all
  have "sq (snd (submit_cancel (next_id w) w')) = sq w' @ [(next_id w', OpCancel (next_id w))]"
    using assms(4) unfolding r(3) w1
    by (simp add: submit_cancel_def cancel_prepareSqe_def pool_alloc_def registerJob_def submit_def ask_def Let_def)
  then have "map snd (queued_list w' w'') = [OpCancel (next_id w)]"
    using assms(10) s1 unfolding r(2) by (auto simp: shutdown_sweep_def aj_requestShutdownCancel_def queued_list_def)
  moreover have "queued_list w w' = [(next_id w, OpAccept (hs_server_fd ?h)), (aj_id j, OpAccept (aj_server_fd j))]"
    unfolding r(3) w1 by (simp add: queued_list_def)
  moreover from calculation(1) have "snd ` set (queued_list w' w'') = {OpCancel (next_id w)}"
    by (metis list.set_map list.simps(15) empty_set)
  ultimately show ?thesis using r s1 assms(3) by auto
qed



section \<open>Witnesses\<close>

definition demo_site :: "unit site" where
  "demo_site = \<lparr>st_http = SingleRingHttpServer_init\<lparr>hs_server_fd := 5, hs_running := True, hs_accept_job := Some 1\<rparr>,
     st_accepts = [\<lparr>aj_id = 1, aj_server_fd = 5, aj_owner_bound = True, aj_on_connection = True, aj_on_error = True\<rparr>],
     st_ktls = [], st_conns = [], st_cancels = [], st_input = (\<lambda>_. None), st_received = 0\<rparr>"

definition armed_ring :: ring where
  "armed_ring = \<lparr>ora = (\<lambda>_. 0), tick = 3, in_flight = 1, sq = [(1, OpAccept 5)], srv_state = Running, next_id = 2, freed = [], opened = [5], closed = []\<rparr>"

definition listen_ring :: ring where
  "listen_ring = \<lparr>ora = (\<lambda>n. if n = 0 then 5 else 1), tick = 0, in_flight = 0, sq = [], srv_state = Running, next_id = 1, freed = [], opened = [], closed = []\<rparr>"

definition idle_site :: "unit site" where
  "idle_site = demo_site\<lparr>st_http := SingleRingHttpServer_init, st_accepts := []\<rparr>"

definition stopped_server :: "unit site server" where
  "stopped_server = \<lparr>ring_of = armed_ring\<lparr>srv_state := Stopping, in_flight := 0\<rparr>, jobs_of = idle_site, stop_signal = None,
     poll_armed = False, loop_running = False, initialized = True\<rparr>"


end
