(* ===== verification/Buffer_Ring.thy ===== *)
theory Buffer_Ring
  imports Cdv_Prelude Step_Systems "HOL-Library.Multiset"
begin

text \<open>
  The receive buffers of a ring: \<^verbatim>\<open>include/caduvelox/ring_buffer/BufferRingLimits.hpp\<close>, \<^verbatim>\<open>BufferRingCoordinator\<close> and
  \<^verbatim>\<open>ProvidedBufferToken\<close>. Addresses, sizes and counts keep their widths (\<^verbatim>\<open>size_t\<close> is 64 bits, \<^verbatim>\<open>unsigned\<close> 32), so
  the products wrap where the code's do.

  What the coordinator does to the kernel is a log of calls; \<open>published\<close> reads off such a log
  what it has handed over, as \<^verbatim>\<open>io_uring_buf_ring_add(3)\<close> and \<^verbatim>\<open>io_uring_buf_ring_advance(3)\<close> document it: an add writes an entry at an offset from
  the tail, an advance makes that many entries visible.
\<close>

unbundle bit_operations_syntax

section \<open>Limits\<close>

definition MAX_BUFFER_RING_ENTRIES :: u32 where "MAX_BUFFER_RING_ENTRIES = 32768"
definition MAX_QUEUE_DEPTH :: u32 where "MAX_QUEUE_DEPTH = 32768"
definition MAX_BUFFER_SIZE :: u64 where "MAX_BUFFER_SIZE = 4294967295"

definition isValidBufferRingCount :: "u32 \<Rightarrow> bool" where
  "isValidBufferRingCount n \<longleftrightarrow> n \<noteq> 0 \<and> n AND (n - 1) = 0 \<and> n \<le> MAX_BUFFER_RING_ENTRIES"

definition isValidBufferSize :: "u64 \<Rightarrow> bool" where
  "isValidBufferSize n \<longleftrightarrow> n \<noteq> 0 \<and> n \<le> MAX_BUFFER_SIZE"

definition isValidQueueDepth :: "u32 \<Rightarrow> bool" where
  "isValidQueueDepth n \<longleftrightarrow> n \<ge> 1 \<and> n \<le> MAX_QUEUE_DEPTH"

section \<open>The coordinator\<close>

text \<open>Calls to the kernel, and how the last one ended. A block is the address mmap returned.\<close>

datatype br_call =
    Mmap u64
  | Munmap u64 u64
  | SetupBufRing u32 u32
  | FreeBufRing u32 u32
  | BufAdd u64 u32 "16 word" u32 u32
  | BufAdvance u32

record BufferRingCoordinator =
  bc_buf_count :: u32
  bc_buf_size :: u64
  bc_buf_group_id :: u32
  bc_ring :: bool
  bc_buffer_ring :: bool
  bc_buffer_block :: "u64 option"
  bc_buffer_ring_mask :: u32
  bc_last_error :: string

definition BufferRingCoordinator_init :: "u32 \<Rightarrow> u64 \<Rightarrow> u32 \<Rightarrow> BufferRingCoordinator" where
  "BufferRingCoordinator_init buf_count buf_size buf_group_id =
     \<lparr>bc_buf_count = buf_count, bc_buf_size = buf_size, bc_buf_group_id = buf_group_id, bc_ring = False, bc_buffer_ring = False,
      bc_buffer_block = None, bc_buffer_ring_mask = 0, bc_last_error = []\<rparr>"

definition total_size :: "BufferRingCoordinator \<Rightarrow> u64" where
  "total_size c = ucast (bc_buf_count c) * bc_buf_size c"

definition cleanupBufferRing :: "BufferRingCoordinator \<Rightarrow> br_call list \<Rightarrow> BufferRingCoordinator \<times> br_call list" where
  "cleanupBufferRing c k =
     (let (c1, k1) = (if bc_buffer_ring c \<and> bc_ring c
            then (c\<lparr>bc_buffer_ring := False\<rparr>, k @ [FreeBufRing (bc_buf_count c) (bc_buf_group_id c)]) else (c, k));
          (c2, k2) = (case bc_buffer_block c1 of
              None \<Rightarrow> (c1, k1)
            | Some block \<Rightarrow> (c1\<lparr>bc_buffer_block := None\<rparr>, k1 @ [Munmap block (total_size c1)])) in
      (c2\<lparr>bc_buf_count := 0, bc_ring := False\<rparr>, k2))"

text \<open>The loop that adds buffer \<open>i\<close> to the last: \<open>n\<close> is what is left of it.\<close>

fun add_buffers :: "nat \<Rightarrow> u32 \<Rightarrow> u64 \<Rightarrow> BufferRingCoordinator \<Rightarrow> br_call list" where
  "add_buffers 0 i block c = []"
| "add_buffers (Suc n) i block c =
     BufAdd (block + ucast i * bc_buf_size c) (ucast (bc_buf_size c)) (ucast i) (bc_buffer_ring_mask c) i # add_buffers n (i + 1) block c"

definition EINVAL_errno :: int where "EINVAL_errno = 22"

text \<open>
  \<open>mmap_answer\<close> is the block, or the errno for \<^verbatim>\<open>MAP_FAILED\<close>; \<open>(br, err)\<close> is whether \<^verbatim>\<open>io_uring_setup_buf_ring\<close> returned a ring,
  and its error.
\<close>

definition setupBufferRing ::
  "(int \<Rightarrow> string) \<Rightarrow> int + u64 \<Rightarrow> bool \<times> int \<Rightarrow> BufferRingCoordinator \<Rightarrow> br_call list \<Rightarrow> bool \<times> BufferRingCoordinator \<times> br_call list" where
  "setupBufferRing strerror mmap_answer setup_answer c k =
     (if bc_buffer_ring c then (True, c, k)
      else let c1 = c\<lparr>bc_ring := True\<rparr>; k1 = k @ [Mmap (total_size c1)] in
        (case mmap_answer of
           Inl errno \<Rightarrow>
             (False, c1\<lparr>bc_last_error := ''could not allocate '' @ to_string (uint (bc_buf_count c1)) @ '' buffers of '' @
                to_string (uint (bc_buf_size c1)) @ '' bytes: '' @ strerror errno, bc_buffer_block := None\<rparr>, k1)
         | Inr block \<Rightarrow>
             let c2 = c1\<lparr>bc_buffer_block := Some block, bc_buffer_ring_mask := bc_buf_count c1 - 1\<rparr>;
                 k2 = k1 @ [SetupBufRing (bc_buf_count c2) (bc_buf_group_id c2)];
                 (br, err) = setup_answer; c3 = c2\<lparr>bc_buffer_ring := br\<rparr> in
             if \<not> br \<or> err \<noteq> 0 then
               let e1 = ''io_uring_setup_buf_ring('' @ to_string (uint (bc_buf_count c3)) @ '' entries) failed: '' @ strerror (- err);
                   e2 = (if err = - EINVAL_errno then e1 @ '' (provided-buffer rings need Linux 5.19 or later)'' else e1);
                   (c4, k4) = cleanupBufferRing (c3\<lparr>bc_last_error := e2\<rparr>) k2 in
               (False, c4, k4)
             else (True, c3, k2 @ add_buffers (unat (bc_buf_count c3)) 0 block c3 @ [BufAdvance (bc_buf_count c3)])))"

definition hasBufferRing :: "BufferRingCoordinator \<Rightarrow> bool" where
  "hasBufferRing c = bc_buffer_ring c"

definition getBufferGroupId :: "BufferRingCoordinator \<Rightarrow> u32" where
  "getBufferGroupId c = bc_buf_group_id c"

definition getBufferPtr :: "u32 \<Rightarrow> BufferRingCoordinator \<Rightarrow> u64 option" where
  "getBufferPtr buffer_id c =
     (case bc_buffer_block c of
        None \<Rightarrow> None
      | Some block \<Rightarrow> if buffer_id \<ge> bc_buf_count c then None else Some (block + ucast buffer_id * bc_buf_size c))"

definition getBufferSize :: "BufferRingCoordinator \<Rightarrow> u64" where
  "getBufferSize c = bc_buf_size c"

definition recycleBuffer :: "u32 \<Rightarrow> BufferRingCoordinator \<Rightarrow> br_call list \<Rightarrow> br_call list" where
  "recycleBuffer buffer_id c k =
     (if \<not> bc_buffer_ring c \<or> bc_buffer_block c = None then k
      else (case getBufferPtr buffer_id c of
              None \<Rightarrow> k
            | Some base \<Rightarrow> k @ [BufAdd base (ucast (bc_buf_size c)) (ucast buffer_id) (bc_buffer_ring_mask c) 0, BufAdvance 1]))"

section \<open>Tokens\<close>

record ProvidedBufferToken =
  pt_coordinator :: bool
  pt_buf_id :: u32
  pt_data :: "u64 option"
  pt_size :: u64

definition ProvidedBufferToken_init :: "bool \<Rightarrow> u32 \<Rightarrow> u64 option \<Rightarrow> u64 \<Rightarrow> ProvidedBufferToken" where
  "ProvidedBufferToken_init coordinator buf_id data n = \<lparr>pt_coordinator = coordinator, pt_buf_id = buf_id, pt_data = data, pt_size = n\<rparr>"

definition token_destroy :: "ProvidedBufferToken \<Rightarrow> BufferRingCoordinator \<Rightarrow> br_call list \<Rightarrow> br_call list" where
  "token_destroy t c k = (if pt_data t \<noteq> None \<and> pt_coordinator t then recycleBuffer (pt_buf_id t) c k else k)"

text \<open>Both moves return the token that took over and what is left of the one moved from.\<close>

definition token_move :: "ProvidedBufferToken \<Rightarrow> ProvidedBufferToken \<times> ProvidedBufferToken" where
  "token_move other = (other, other\<lparr>pt_data := None\<rparr>)"

definition token_move_assign ::
  "ProvidedBufferToken \<Rightarrow> ProvidedBufferToken \<Rightarrow> BufferRingCoordinator \<Rightarrow> br_call list \<Rightarrow>
   ProvidedBufferToken \<times> ProvidedBufferToken \<times> br_call list" where
  "token_move_assign this other c k =
     (let k1 = (if pt_data this \<noteq> None \<and> pt_coordinator this then recycleBuffer (pt_buf_id this) c k else k) in
      (other, other\<lparr>pt_data := None\<rparr>, k1))"

definition token_valid :: "ProvidedBufferToken \<Rightarrow> bool" where
  "token_valid t \<longleftrightarrow> pt_data t \<noteq> None"

definition token_invalidate :: "ProvidedBufferToken \<Rightarrow> ProvidedBufferToken" where
  "token_invalidate t = t\<lparr>pt_data := None\<rparr>"

section \<open>Powers of two\<close>

lemma power_of_two_nat: "0 < m \<Longrightarrow> (m AND (m - 1) = 0) = (\<exists>k. m = 2 ^ k)" for m :: nat
proof (induction m rule: less_induct)
  case (less m)
  show ?case
  proof (cases "even m")
    case True
    then obtain a where a: "m = 2 * a" "0 < a" using less.prems by auto
    have "(2 * a - 1) div 2 = a - 1" "even m" using a by auto
    then have "m AND (m - 1) = 2 * (a AND (a - 1))"
      unfolding a by (subst and_rec) (simp only: nonzero_mult_div_cancel_left, simp)
    moreover have "(a AND (a - 1) = 0) = (\<exists>k. a = 2 ^ k)" using less.IH[of a] a by simp
    moreover have "(\<exists>k. 2 * a = 2 ^ k) = (\<exists>k. a = 2 ^ k)"
    proof
      assume "\<exists>k. 2 * a = 2 ^ k"
      then obtain k where k: "2 * a = 2 ^ k" by blast
      then show "\<exists>k. a = 2 ^ k" by (cases k) auto
    qed (metis power_Suc)
    ultimately show ?thesis using a by simp
  next
    case False
    then obtain a where a: "m = 2 * a + 1" by (metis oddE)
    have "m AND (m - 1) = 2 * a"
      unfolding a by (subst and_rec) simp
    moreover have "(\<exists>k. 2 * a + 1 = 2 ^ k) = (a = 0)"
    proof
      assume "\<exists>k. 2 * a + 1 = 2 ^ k"
      then obtain k where k: "2 * a + 1 = 2 ^ k" by blast
      then show "a = 0" by (cases k) (auto, presburger)
    qed (auto intro: exI[of _ 0])
    ultimately show ?thesis using a by auto
  qed
qed

lemma isValidBufferRingCount_iff: "isValidBufferRingCount n \<longleftrightarrow> (\<exists>k. k \<le> 15 \<and> unat n = 2 ^ k)"
proof (cases "n = 0")
  case False
  then have "0 < unat n" by (simp add: unat_gt_0)
  moreover have "unat (n AND (n - 1)) = unat n AND (unat n - 1)"
    using False by (simp add: unsigned_and_eq unat_minus_one)
  ultimately have "n AND (n - 1) = 0 \<longleftrightarrow> (\<exists>k. unat n = 2 ^ k)"
    using power_of_two_nat by (metis unat_eq_zero)
  moreover have "n \<le> MAX_BUFFER_RING_ENTRIES \<longleftrightarrow> unat n \<le> 2 ^ 15"
    by (simp add: MAX_BUFFER_RING_ENTRIES_def word_le_nat_alt)
  moreover have "(2 :: nat) ^ k \<le> 2 ^ 15 \<longleftrightarrow> k \<le> 15" for k by (simp only: power_increasing_iff one_less_numeral_iff semiring_norm)
  ultimately show ?thesis using False unfolding isValidBufferRingCount_def by metis
qed (simp add: isValidBufferRingCount_def)

text \<open>
  The bit trick of \<^verbatim>\<open>isValidBufferRingCount\<close> accepts exactly what the kernel does, the powers of two from 1 to 32768.
\<close>

lemma isValidBufferRingCount_power: "isValidBufferRingCount n \<longleftrightarrow> (\<exists>k. k \<le> 15 \<and> unat n = 2 ^ k)"
  by (rule isValidBufferRingCount_iff)

section \<open>What the kernel has been handed\<close>

type_synonym buf_entry = "u64 \<times> u32 \<times> 16 word"

definition visible :: "nat \<Rightarrow> (nat \<times> buf_entry) list \<Rightarrow> buf_entry list" where
  "visible n pend = concat (map (\<lambda>i. map snd (filter (\<lambda>e. fst e = i) pend)) [0..<n])"

fun br_effect :: "br_call \<Rightarrow> (nat \<times> buf_entry) list \<times> buf_entry list \<Rightarrow> (nat \<times> buf_entry) list \<times> buf_entry list" where
  "br_effect (BufAdd base len bid msk off) (pend, out) = (pend @ [(unat off, (base, len, bid))], out)"
| "br_effect (BufAdvance n) (pend, out) = ([], out @ visible (unat n) pend)"
| "br_effect _ (pend, out) = (pend, out)"

definition published :: "br_call list \<Rightarrow> buf_entry list" where
  "published k = snd (fold br_effect k ([], []))"

text \<open>Every add has been followed by its advance.\<close>

definition settled :: "br_call list \<Rightarrow> bool" where
  "settled k \<longleftrightarrow> fst (fold br_effect k ([], [])) = []"

lemma published_append:
  assumes "settled k"
  shows "published (k @ k') = published k @ published k'" "settled (k @ k') = settled k'"
proof -
  have shift: "fold br_effect k' (p, out @ o2) = (fst (fold br_effect k' (p, o2)), out @ snd (fold br_effect k' (p, o2)))" for p out o2
  proof (induction k' arbitrary: p o2)
    case (Cons x xs)
    then show ?case by (cases x) simp_all
  qed simp
  have "fold br_effect k ([], []) = ([], published k)" using assms by (simp add: settled_def published_def prod_eq_iff)
  then have "fold br_effect (k @ k') ([], []) = fold br_effect k' ([], published k @ [])" by simp
  also have "\<dots> = (fst (fold br_effect k' ([], [])), published k @ published k')" unfolding shift published_def ..
  finally show "published (k @ k') = published k @ published k'" "settled (k @ k') = settled k'"
    by (simp_all add: published_def settled_def)
qed

text \<open>Buffer \<open>i\<close> of a block.\<close>

definition nth_buf :: "u64 \<Rightarrow> u64 \<Rightarrow> nat \<Rightarrow> buf_entry" where
  "nth_buf block bsize i = (block + of_nat i * bsize, ucast bsize, of_nat i)"

lemma ucast_of_nat_small:
  "i < 2 ^ 32 \<Longrightarrow> ucast (of_nat i :: u32) = (of_nat i :: u64)" "i < 2 ^ 16 \<Longrightarrow> ucast (of_nat i :: u32) = (of_nat i :: 16 word)"
  by (simp_all add: word_unat_eq_iff unat_of_nat unsigned_ucast_eq take_bit_nat_eq_self)

lemma add_buffers_effect:
  assumes "i + n \<le> 2 ^ 16"
  shows "fold br_effect (add_buffers n (of_nat i) block c) (pend, out) =
    (pend @ map (\<lambda>j. (j, nth_buf block (bc_buf_size c) j)) [i..<i + n], out)"
  using assms
proof (induction n arbitrary: i pend)
  case (Suc n)
  have i: "i < 2 ^ 16" "i < 2 ^ 32" using Suc.prems by simp_all
  have "unat (of_nat i :: u32) = i" using i by (simp add: unat_of_nat)
  with Suc.IH[of "Suc i" "pend @ [(i, nth_buf block (bc_buf_size c) i)]"] Suc.prems i show ?case
    by (simp add: nth_buf_def ucast_of_nat_small upt_rec[of i] add.commute)
qed simp

lemma visible_all: "visible n (map (\<lambda>j. (j, f j)) [0..<n]) = map f [0..<n]"
proof -
  have "map snd (filter (\<lambda>e. fst e = i) (map (\<lambda>j. (j, f j)) [0..<n])) = [f i]" if "i < n" for i
  proof -
    have "filter (\<lambda>j. j = i) [0..<n] = [i]" using that by (induction n) (auto simp: less_Suc_eq)
    then show ?thesis by (simp add: filter_map comp_def)
  qed
  then have "visible n (map (\<lambda>j. (j, f j)) [0..<n]) = concat (map (\<lambda>i. [f i]) [0..<n])"
    unfolding visible_def by (intro arg_cong[of _ _ concat] map_cong) auto
  then show ?thesis by simp
qed

lemma published_setup:
  assumes "unat (bc_buf_count c) \<le> 2 ^ 15"
  shows "published (add_buffers (unat (bc_buf_count c)) 0 block c @ [BufAdvance (bc_buf_count c)]) =
      map (nth_buf block (bc_buf_size c)) [0..<unat (bc_buf_count c)]"
    "settled (add_buffers (unat (bc_buf_count c)) 0 block c @ [BufAdvance (bc_buf_count c)])"
  using add_buffers_effect[of 0 "unat (bc_buf_count c)" block c "[]" "[]"] assms visible_all
  by (simp_all add: published_def settled_def)

section \<open>Every buffer lies in its block\<close>

lemma valid_count_bound: "isValidBufferRingCount n \<Longrightarrow> unat n \<le> 2 ^ 15 \<and> 0 < unat n"
  by (auto simp: isValidBufferRingCount_def MAX_BUFFER_RING_ENTRIES_def word_le_nat_alt unat_gt_0)

lemma valid_size_bound: "isValidBufferSize n \<Longrightarrow> unat n < 2 ^ 32 \<and> 0 < unat n"
  by (auto simp: isValidBufferSize_def MAX_BUFFER_SIZE_def word_le_nat_alt unat_gt_0)

lemma ring_bytes_bound:
  assumes "isValidBufferRingCount n" "isValidBufferSize sz"
  shows "unat n * unat sz < 2 ^ 64"
proof -
  have "unat n * unat sz \<le> 2 ^ 15 * 2 ^ 32" using valid_count_bound[OF assms(1)] valid_size_bound[OF assms(2)] by (intro mult_le_mono) auto
  then show ?thesis by simp
qed

lemma total_size_exact:
  assumes "isValidBufferRingCount (bc_buf_count c)" "isValidBufferSize (bc_buf_size c)"
  shows "unat (total_size c) = unat (bc_buf_count c) * unat (bc_buf_size c)"
proof -
  have "unat (ucast (bc_buf_count c) :: u64) = unat (bc_buf_count c)"
    using valid_count_bound[OF assms(1)] by (simp add: unsigned_ucast_eq take_bit_nat_eq_self)
  then show ?thesis using ring_bytes_bound[OF assms] by (simp add: total_size_def unat_word_ariths)
qed

text \<open>A coordinator that is set up on a block the address space has room for, as every mapping does.\<close>

definition ready :: "u64 \<Rightarrow> BufferRingCoordinator \<Rightarrow> bool" where
  "ready block c \<longleftrightarrow> isValidBufferRingCount (bc_buf_count c) \<and> isValidBufferSize (bc_buf_size c) \<and> bc_buffer_ring c \<and> bc_ring c \<and>
     bc_buffer_block c = Some block \<and> unat block + unat (total_size c) \<le> 2 ^ 64"

lemma buffer_address:
  assumes "ready block c" "i < unat (bc_buf_count c)"
  shows "unat (block + of_nat i * bc_buf_size c) = unat block + i * unat (bc_buf_size c)"
    "unat block + i * unat (bc_buf_size c) + unat (bc_buf_size c) \<le> unat block + unat (total_size c)"
proof -
  let ?n = "unat (bc_buf_count c)" and ?s = "unat (bc_buf_size c)"
  have t: "unat (total_size c) = ?n * ?s" using assms(1) total_size_exact by (simp add: ready_def)
  have le: "Suc i * ?s \<le> ?n * ?s" using assms(2) by (intro mult_le_mono1) simp
  then show "unat block + i * ?s + ?s \<le> unat block + unat (total_size c)" unfolding t by simp
  have s0: "0 < ?s" using assms(1) valid_size_bound by (simp add: ready_def)
  have lt: "unat block + i * ?s < 2 ^ 64" using le s0 assms(1) unfolding ready_def t by (simp only: mult_Suc) linarith
  have "i < 2 ^ 64" using assms valid_count_bound[of "bc_buf_count c"] by (simp add: ready_def)
  then have "unat (of_nat i * bc_buf_size c) = i * ?s" using lt by (simp add: unat_word_ariths unat_of_nat)
  then show "unat (block + of_nat i * bc_buf_size c) = unat block + i * ?s" using lt by (simp add: unat_word_ariths)
qed

lemma getBufferPtr_ready:
  assumes "ready block c"
  shows "getBufferPtr b c = (if unat b < unat (bc_buf_count c) then Some (block + of_nat (unat b) * bc_buf_size c) else None)"
proof -
  have "ucast b = (of_nat (unat b) :: u64)" by (simp add: word_unat_eq_iff unat_of_nat unsigned_ucast_eq)
  then show ?thesis using assms by (simp add: getBufferPtr_def ready_def word_le_nat_alt)
qed

lemma nth_buf_exact:
  assumes "ready block c" "i < unat (bc_buf_count c)" "nth_buf block (bc_buf_size c) i = (a, len, bid)"
  shows "unat a = unat block + i * unat (bc_buf_size c)" "unat len = unat (bc_buf_size c)" "unat bid = i"
    "getBufferPtr (of_nat i) c = Some a"
proof -
  have v: "unat (bc_buf_count c) \<le> 2 ^ 15" "unat (bc_buf_size c) < 2 ^ 32"
    using assms(1) valid_count_bound valid_size_bound by (auto simp: ready_def)
  then have i: "i < 2 ^ 16" "i < 2 ^ 32" using assms(2) by simp_all
  then have u: "unat (of_nat i :: u32) = i" by (simp add: unat_of_nat)
  show "unat a = unat block + i * unat (bc_buf_size c)" using buffer_address(1)[OF assms(1,2)] assms(3) by (auto simp: nth_buf_def)
  show "unat len = unat (bc_buf_size c)" using assms(3) v(2) by (auto simp: nth_buf_def unsigned_ucast_eq take_bit_nat_eq_self)
  show "unat bid = i" using assms(3) i by (auto simp: nth_buf_def unat_of_nat)
  show "getBufferPtr (of_nat i) c = Some a" using assms getBufferPtr_ready[OF assms(1), of "of_nat i"] u by (simp add: nth_buf_def)
qed

lemma setup_outcome:
  assumes "setupBufferRing strerror ma sa (BufferRingCoordinator_init n sz g) [] = (ok, c, k)"
  obtains (ready) b where "ma = Inr b" "sa = (True, 0)" "ok" "bc_buf_count c = n" "bc_buf_size c = sz" "bc_buffer_ring c" "bc_ring c"
      "bc_buffer_block c = Some b" "k = [Mmap (ucast n * sz), SetupBufRing n g] @ add_buffers (unat n) 0 b c @ [BufAdvance n]"
  | (failed) "\<not> (\<exists>b. ma = Inr b \<and> sa = (True, 0))" "\<not> ok" "bc_buffer_block c = None" "\<not> bc_buffer_ring c"
      "k = [Mmap (ucast n * sz)] @ (case ma of Inl _ \<Rightarrow> []
        | Inr b \<Rightarrow> [SetupBufRing n g] @ (if fst sa then [FreeBufRing n g] else []) @ [Munmap b (ucast n * sz)])"
proof (cases ma)
  case (Inl e)
  with assms show ?thesis by (intro failed) (auto simp: setupBufferRing_def BufferRingCoordinator_init_def total_size_def Let_def)
next
  case (Inr b)
  show ?thesis
  proof (cases "sa = (True, 0)")
    case True
    with assms Inr show ?thesis
      by (intro ready[of b]) (auto simp: setupBufferRing_def BufferRingCoordinator_init_def total_size_def Let_def)
  next
    case False
    with assms Inr show ?thesis
      by (cases sa, intro failed)
        (auto simp: setupBufferRing_def cleanupBufferRing_def BufferRingCoordinator_init_def total_size_def Let_def split: if_splits)
  qed
qed


section \<open>Who owns a buffer\<close>

text \<open>
  Buffers go round between the kernel and the tokens. \<open>b_tokens\<close> are the tokens that exist, by the variable that holds each; \<open>b_filled\<close> lists the buffers
  the kernel has given back in a completion, so the ones it holds are those handed over less these. \<open>b_lost\<close> lists those whose token was invalidated: they are never
  given back (no caller does that).
\<close>

record bufs =
  b_coord :: BufferRingCoordinator
  b_calls :: "br_call list"
  b_filled :: "nat list"
  b_tokens :: "nat \<Rightarrow> ProvidedBufferToken option"
  b_lost :: "nat list"

definition entry_id :: "buf_entry \<Rightarrow> nat" where
  "entry_id e = unat (snd (snd e))"

definition kernel_bufs :: "bufs \<Rightarrow> nat multiset" where
  "kernel_bufs s = mset (map entry_id (published (b_calls s))) - mset (b_filled s)"

inductive buf_step :: "bufs \<Rightarrow> bufs \<Rightarrow> bool" where
  Fill: "b \<in># kernel_bufs s \<Longrightarrow> b_tokens s v = None \<Longrightarrow> getBufferPtr (of_nat b) (b_coord s) = Some p \<Longrightarrow>
     buf_step s (s\<lparr>b_filled := b_filled s @ [b],
       b_tokens := (b_tokens s)(v \<mapsto> ProvidedBufferToken_init True (of_nat b) (Some p) n)\<rparr>)"
| Destroy: "b_tokens s v = Some t \<Longrightarrow>
     buf_step s (s\<lparr>b_tokens := (b_tokens s)(v := None), b_calls := token_destroy t (b_coord s) (b_calls s)\<rparr>)"
| Move: "b_tokens s v = Some t \<Longrightarrow> b_tokens s v' = None \<Longrightarrow> token_move t = (t1, t2) \<Longrightarrow>
     buf_step s (s\<lparr>b_tokens := (b_tokens s)(v' \<mapsto> t1, v \<mapsto> t2)\<rparr>)"
| Assign: "b_tokens s v = Some t \<Longrightarrow> b_tokens s v' = Some t' \<Longrightarrow> v \<noteq> v' \<Longrightarrow>
     token_move_assign t t' (b_coord s) (b_calls s) = (t1, t2, k) \<Longrightarrow>
     buf_step s (s\<lparr>b_tokens := (b_tokens s)(v \<mapsto> t1, v' \<mapsto> t2), b_calls := k\<rparr>)"
| Invalidate: "b_tokens s v = Some t \<Longrightarrow>
     buf_step s (s\<lparr>b_tokens := (b_tokens s)(v \<mapsto> token_invalidate t),
       b_lost := b_lost s @ (if token_valid t then [unat (pt_buf_id t)] else [])\<rparr>)"

definition owns :: "ProvidedBufferToken option \<Rightarrow> nat \<Rightarrow> bool" where
  "owns x b \<longleftrightarrow> (case x of None \<Rightarrow> False | Some t \<Rightarrow> token_valid t \<and> unat (pt_buf_id t) = b)"

definition owners :: "(nat \<Rightarrow> ProvidedBufferToken option) \<Rightarrow> nat \<Rightarrow> nat set" where
  "owners m b = {v. owns (m v) b}"

lemma owns_simps [simp]: "\<not> owns None b" "owns (Some t) b \<longleftrightarrow> token_valid t \<and> unat (pt_buf_id t) = b"
  by (simp_all add: owns_def)

lemma finite_owners: "finite (dom m) \<Longrightarrow> finite (owners m b)"
  by (rule finite_subset[of _ "dom m"]) (auto simp: owners_def owns_def split: option.splits)

text \<open>Writing a variable moves at most one owner.\<close>

lemma card_owners_update:
  assumes "finite (dom m)"
  shows "card (owners (m(v := x)) b) + (if owns (m v) b then 1 else 0) = card (owners m b) + (if owns x b then 1 else 0)"
proof -
  note f = finite_owners[OF assms, of b]
  have u: "owners (m(v := x)) b = (if owns x b then insert v (owners m b - {v}) else owners m b - {v})"
    by (auto simp: owners_def)
  have "card (owners m b - {v}) + (if owns (m v) b then 1 else 0) = card (owners m b)"
    using f card_Suc_Diff1[OF f, of v] by (auto simp: owners_def)
  moreover have "v \<notin> owners m b - {v}" by simp
  ultimately show ?thesis using f unfolding u by (simp del: insert_Diff_single)
qed

text \<open>In how many places buffer \<open>b\<close> is.\<close>

definition places :: "bufs \<Rightarrow> nat \<Rightarrow> nat" where
  "places s b = count (kernel_bufs s) b + card (owners (b_tokens s) b) + count_list (b_lost s) b"

definition bufs_inv :: "u64 \<Rightarrow> bufs \<Rightarrow> bool" where
  "bufs_inv block s \<longleftrightarrow> ready block (b_coord s) \<and> settled (b_calls s) \<and> finite (dom (b_tokens s)) \<and>
     mset (b_filled s) \<subseteq># mset (map entry_id (published (b_calls s))) \<and>
     set (published (b_calls s)) \<subseteq> nth_buf block (bc_buf_size (b_coord s)) ` {..<unat (bc_buf_count (b_coord s))} \<and>
     (\<forall>b < unat (bc_buf_count (b_coord s)). places s b = 1) \<and>
     (\<forall>v t. b_tokens s v = Some t \<and> token_valid t \<longrightarrow>
        pt_coordinator t \<and> unat (pt_buf_id t) < unat (bc_buf_count (b_coord s)) \<and> pt_data t = getBufferPtr (pt_buf_id t) (b_coord s))"

lemma recycle_publishes:
  assumes "ready block c" "unat b < unat (bc_buf_count c)" "settled k"
  shows "published (recycleBuffer b c k) = published k @ [nth_buf block (bc_buf_size c) (unat b)]" "settled (recycleBuffer b c k)"
proof -
  let ?add = "[BufAdd (block + of_nat (unat b) * bc_buf_size c) (ucast (bc_buf_size c)) (ucast b) (bc_buffer_ring_mask c) 0, BufAdvance 1]"
  have r: "recycleBuffer b c k = k @ ?add" using assms(1,2) getBufferPtr_ready[OF assms(1), of b] by (simp add: recycleBuffer_def ready_def)
  have "(ucast b :: 16 word) = of_nat (unat b)"
    using ucast_of_nat_small(2)[of "unat b"] assms valid_count_bound[of "bc_buf_count c"] by (simp add: ready_def)
  then have "published ?add = [nth_buf block (bc_buf_size c) (unat b)]" "settled ?add"
    by (simp_all add: published_def settled_def visible_def nth_buf_def)
  with published_append[OF assms(3), of ?add] show "published (recycleBuffer b c k) = published k @ [nth_buf block (bc_buf_size c) (unat b)]" "settled (recycleBuffer b c k)"
    unfolding r by simp_all
qed

lemma entry_id_nth_buf: "i < 2 ^ 16 \<Longrightarrow> entry_id (nth_buf block bsize i) = i"
  by (simp add: entry_id_def nth_buf_def unat_of_nat)

text \<open>A token that gives its buffer back, in its destructor or when it is assigned to.\<close>

lemma give_back:
  assumes "bufs_inv block s" "b_tokens s v = Some t"
    and "k = (if pt_data t \<noteq> None \<and> pt_coordinator t then recycleBuffer (pt_buf_id t) (b_coord s) (b_calls s) else b_calls s)"
  shows "settled k" "mset (b_filled s) \<subseteq># mset (map entry_id (published k))"
    "set (published k) \<subseteq> nth_buf block (bc_buf_size (b_coord s)) ` {..<unat (bc_buf_count (b_coord s))}"
    "count (mset (map entry_id (published k)) - mset (b_filled s)) b = count (kernel_bufs s) b + (if owns (Some t) b then 1 else 0)"
proof -
  let ?c = "b_coord s" and ?i = "unat (pt_buf_id t)"
  note inv = assms(1)[unfolded bufs_inv_def]
  have t: "token_valid t \<Longrightarrow> pt_coordinator t \<and> ?i < unat (bc_buf_count ?c)" using inv assms(2) by blast
  then have k: "settled k \<and> published k = published (b_calls s) @ (if token_valid t then [nth_buf block (bc_buf_size ?c) ?i] else [])"
    using recycle_publishes[of block ?c "pt_buf_id t" "b_calls s"] inv assms(3) by (auto simp: token_valid_def)
  then show "settled k" "set (published k) \<subseteq> nth_buf block (bc_buf_size ?c) ` {..<unat (bc_buf_count ?c)}" using inv t by auto
  have "?i < 2 ^ 16" if "token_valid t" using t[OF that] inv valid_count_bound[of "bc_buf_count ?c"] by (auto simp: ready_def)
  then have m: "mset (map entry_id (published k)) = mset (map entry_id (published (b_calls s))) + (if token_valid t then {#?i#} else {#})"
    using k entry_id_nth_buf by simp
  have f: "mset (b_filled s) \<subseteq># mset (map entry_id (published (b_calls s)))" using inv by simp
  then show "mset (b_filled s) \<subseteq># mset (map entry_id (published k))" unfolding m by (simp add: subset_mset.add_increasing2)
  have "count (mset (b_filled s)) b \<le> count (mset (map entry_id (published (b_calls s)))) b" using f by (rule mset_subset_eq_count)
  then show "count (mset (map entry_id (published k)) - mset (b_filled s)) b = count (kernel_bufs s) b + (if owns (Some t) b then 1 else 0)"
    unfolding m kernel_bufs_def count_diff by simp
qed

lemma kernel_buf_bound:
  assumes "bufs_inv block s" "b \<in># kernel_bufs s"
  shows "b < unat (bc_buf_count (b_coord s))" "unat (of_nat b :: u32) = b"
proof -
  note inv = assms(1)[unfolded bufs_inv_def]
  have n: "unat (bc_buf_count (b_coord s)) \<le> 2 ^ 15" using inv valid_count_bound by (simp add: ready_def)
  have "b \<in># mset (map entry_id (published (b_calls s)))" using assms(2) in_diffD unfolding kernel_bufs_def by metis
  then obtain e where e: "e \<in> set (published (b_calls s))" "b = entry_id e" by auto
  then obtain i where "e = nth_buf block (bc_buf_size (b_coord s)) i" "i < unat (bc_buf_count (b_coord s))" using inv by auto
  with e n show "b < unat (bc_buf_count (b_coord s))" by (simp add: entry_id_nth_buf)
  with n show "unat (of_nat b :: u32) = b" by (simp add: unat_of_nat)
qed

lemma moved_owns: "owns (Some (t\<lparr>pt_data := None\<rparr>)) b = False" "owns (Some (token_invalidate t)) b = False"
  by (simp_all add: token_valid_def token_invalidate_def)

lemma buf_step_places:
  assumes "buf_step s s'" "bufs_inv block s"
  shows "places s' b = places s b"
proof -
  let ?m = "b_tokens s"
  note inv = assms(2)[unfolded bufs_inv_def]
  have f: "finite (dom ?m)" using inv by simp
  have f1: "finite (dom (?m(v := x)))" for v x by (rule finite_subset[of _ "insert v (dom ?m)"]) (use f in auto)
  from assms(1) show ?thesis
  proof cases
    case (Fill a v p n)
    let ?t = "ProvidedBufferToken_init True (of_nat a) (Some p) n"
    have "owns (Some ?t) b = (a = b)" using kernel_buf_bound(2)[OF assms(2) Fill(2)] by (simp add: ProvidedBufferToken_init_def token_valid_def)
    with card_owners_update[OF f, of v "Some ?t" b] have o: "card (owners (?m(v \<mapsto> ?t)) b) = card (owners ?m b) + (if a = b then 1 else 0)"
      using Fill(3) by simp
    have "kernel_bufs s' = kernel_bufs s - {#a#}" unfolding Fill(1) by (simp add: kernel_bufs_def diff_diff_add_mset)
    then have "count (kernel_bufs s') b + (if a = b then 1 else 0) = count (kernel_bufs s) b"
      using Fill(2) by (auto simp: count_greater_zero_iff[symmetric] simp del: count_greater_zero_iff)
    then show ?thesis using o unfolding Fill(1) by (simp add: places_def)
  next
    case (Destroy v t)
    have k: "count (kernel_bufs s') b = count (kernel_bufs s) b + (if owns (Some t) b then 1 else 0)"
      using give_back(4)[OF assms(2) Destroy(2) refl, of b] unfolding Destroy(1) by (simp add: kernel_bufs_def token_destroy_def)
    then show ?thesis using card_owners_update[OF f, of v None b] Destroy(2) unfolding Destroy(1) by (simp add: places_def)
  next
    case (Move v t v' t1 t2)
    have "v \<noteq> v'" using Move(2,3) by auto
    moreover have "t1 = t" "t2 = t\<lparr>pt_data := None\<rparr>" using Move(4) by (auto simp: token_move_def)
    ultimately show ?thesis
      using card_owners_update[OF f, of v' "Some t" b] card_owners_update[OF f1[of v' "Some t"], of v "Some (t\<lparr>pt_data := None\<rparr>)" b] Move(2,3)
      unfolding Move(1) by (simp add: places_def kernel_bufs_def moved_owns del: owns_simps(2))
  next
    case (Assign v t v' t' t1 t2 k)
    have a: "t1 = t'" "t2 = t'\<lparr>pt_data := None\<rparr>"
      "k = (if pt_data t \<noteq> None \<and> pt_coordinator t then recycleBuffer (pt_buf_id t) (b_coord s) (b_calls s) else b_calls s)"
      using Assign(5) by (auto simp: token_move_assign_def Let_def)
    have "count (kernel_bufs s') b = count (kernel_bufs s) b + (if owns (Some t) b then 1 else 0)"
      using give_back(4)[OF assms(2) Assign(2) a(3), of b] unfolding Assign(1) by (simp add: kernel_bufs_def)
    then show ?thesis
      using card_owners_update[OF f, of v "Some t'" b] card_owners_update[OF f1[of v "Some t'"], of v' "Some (t'\<lparr>pt_data := None\<rparr>)" b] Assign(2-4)
      unfolding Assign(1) a(1,2) by (simp add: places_def moved_owns del: owns_simps(2))
  next
    case (Invalidate v t)
    have "\<not> token_valid (token_invalidate t)" by (simp add: token_valid_def token_invalidate_def)
    then show ?thesis using card_owners_update[OF f, of v "Some (token_invalidate t)" b] Invalidate(2)
      unfolding Invalidate(1) by (auto simp: places_def kernel_bufs_def)
  qed
qed

lemma buf_step_inv:
  assumes "buf_step s s'" "bufs_inv block s"
  shows "bufs_inv block s'"
proof -
  let ?m = "b_tokens s"
  note inv = assms(2)[unfolded bufs_inv_def]
  have f1: "finite (dom (?m(v := x)))" for v x by (rule finite_subset[of _ "insert v (dom ?m)"]) (use inv in auto)
  have f2: "finite (dom (?m(v := x, v' := x')))" for v x v' x' by (rule finite_subset[of _ "insert v' (insert v (dom ?m))"]) (use inv in auto)
  have c: "b_coord s' = b_coord s" using assms(1) by cases simp_all
  have p: "\<forall>b < unat (bc_buf_count (b_coord s')). places s' b = 1" using buf_step_places[OF assms] inv c by simp
  from assms(1) show ?thesis
  proof cases
    case (Fill a v q n)
    let ?P = "mset (map entry_id (published (b_calls s)))" and ?F = "mset (b_filled s)"
    have "?F \<subseteq># ?P" "{#a#} \<subseteq># ?P - ?F" using inv Fill(2) by (simp_all add: kernel_bufs_def)
    then have "{#a#} + ?F \<subseteq># ?P" by (simp only: subset_mset.le_diff_conv2)
    then show ?thesis
      using inv p kernel_buf_bound[OF assms(2) Fill(2)] Fill(4) f1[of v] unfolding Fill(1)
      by (auto simp: bufs_inv_def ProvidedBufferToken_init_def)
  next
    case (Destroy v t)
    note g = give_back[OF assms(2) Destroy(2) refl, folded token_destroy_def]
    show ?thesis using inv p g(1-3) f1[of v None] unfolding Destroy(1) by (auto simp: bufs_inv_def)
  next
    case (Move v t v' t1 t2)
    then show ?thesis using inv p f2[of v' "Some t1" v "Some t2"] unfolding Move(1)
      by (auto simp: bufs_inv_def token_move_def token_valid_def split: if_splits)
  next
    case (Assign v t v' t' t1 t2 k)
    have a: "t1 = t'" "t2 = t'\<lparr>pt_data := None\<rparr>"
      "k = (if pt_data t \<noteq> None \<and> pt_coordinator t then recycleBuffer (pt_buf_id t) (b_coord s) (b_calls s) else b_calls s)"
      using Assign(5) by (auto simp: token_move_assign_def Let_def)
    note g = give_back[OF assms(2) Assign(2) a(3)]
    have "\<not> token_valid t2" unfolding a(2) by (simp add: token_valid_def)
    then show ?thesis using inv p g(1-3) f2[of v "Some t1" v' "Some t2"] Assign(3) unfolding Assign(1) a(1)
      by (auto simp: bufs_inv_def)
  next
    case (Invalidate v t)
    then show ?thesis using inv p f1[of v] unfolding Invalidate(1) by (auto simp: bufs_inv_def token_invalidate_def token_valid_def)
  qed
qed

interpretation bufs: step_invariant buf_step "bufs_inv block" for block
  by unfold_locales (rule buf_step_inv)

lemma setup_bufs_inv:
  assumes "isValidBufferRingCount n" "isValidBufferSize sz" "unat b + unat (ucast n * sz) \<le> 2 ^ 64"
    and "setupBufferRing strerror (Inr b) (True, 0) (BufferRingCoordinator_init n sz g) [] = (ok, c, k)"
  shows "bufs_inv b \<lparr>b_coord = c, b_calls = k, b_filled = [], b_tokens = (\<lambda>_. None), b_lost = []\<rparr>" "bc_buf_count c = n" "bc_buf_size c = sz"
proof -
  have o: "bc_buf_count c = n" "bc_buf_size c = sz" "bc_buffer_ring c" "bc_ring c" "bc_buffer_block c = Some b"
      "k = [Mmap (ucast n * sz), SetupBufRing n g] @ add_buffers (unat n) 0 b c @ [BufAdvance n]"
    using setup_outcome[OF assms(4)] by auto
  then show "bc_buf_count c = n" "bc_buf_size c = sz" by simp_all
  have r: "ready b c" using o assms(1-3) by (simp add: ready_def total_size_def)
  have "settled [Mmap (ucast n * sz), SetupBufRing n g]" "published [Mmap (ucast n * sz), SetupBufRing n g] = []"
    by (simp_all add: settled_def published_def)
  with published_setup[of c b] valid_count_bound[OF assms(1)] o(1,2)
  have p: "published k = map (nth_buf b sz) [0..<unat n]" "settled k"
    by (simp_all only: o(6) published_append append_Nil)
  have "map entry_id (published k) = [0..<unat n]"
    using valid_count_bound[OF assms(1)] unfolding p(1) map_map by (intro map_idI) (simp add: entry_id_nth_buf)
  then have "mset (map entry_id (published k)) = mset_set {..<unat n}" by (simp add: mset_upt lessThan_atLeast0)
  then show "bufs_inv b \<lparr>b_coord = c, b_calls = k, b_filled = [], b_tokens = (\<lambda>_. None), b_lost = []\<rparr>"
    using r p o(1,2) by (auto simp: bufs_inv_def places_def kernel_bufs_def owners_def)
qed

lemma owners_le_1: "finite (dom m) \<Longrightarrow> card (owners m b) \<le> 1 \<Longrightarrow> v \<in> owners m b \<Longrightarrow> v' \<in> owners m b \<Longrightarrow> v = v'"
  using card_le_Suc0_iff_eq[OF finite_owners[of m b]] by auto

text \<open>
  C30. Each receive buffer has one owner. After a successful set-up, whatever completions, moves, assignments and destructions follow, each buffer is in
  exactly one place: with the kernel, in one valid token, or with an invalidated one. So two valid tokens never
  see the same buffer, the kernel never fills one that a token still reads, no buffer is given back twice, and what a token reads is its
  buffer's own slice of the block.
\<close>

theorem buffer_single_owner:
  assumes "isValidBufferRingCount n" "isValidBufferSize sz" "unat b + unat (ucast n * sz) \<le> 2 ^ 64"
    and "setupBufferRing strerror (Inr b) (True, 0) (BufferRingCoordinator_init n sz g) [] = (ok, c, k)"
    and "buf_step\<^sup>*\<^sup>* \<lparr>b_coord = c, b_calls = k, b_filled = [], b_tokens = (\<lambda>_. None), b_lost = []\<rparr> s"
  shows "(\<forall>i. i < unat n \<longrightarrow> count (kernel_bufs s) i + card (owners (b_tokens s) i) + count_list (b_lost s) i = 1) \<and>
    (\<forall>v t. b_tokens s v = Some t \<and> token_valid t \<longrightarrow>
       unat (pt_buf_id t) \<notin># kernel_bufs s \<and> (\<forall>v' t'. b_tokens s v' = Some t' \<and> token_valid t' \<and> pt_buf_id t' = pt_buf_id t \<longrightarrow> v' = v) \<and>
       (\<exists>a. pt_data t = Some a \<and> unat a = unat b + unat (pt_buf_id t) * unat sz \<and> unat a + unat sz \<le> unat b + unat n * unat sz))"
proof (intro conjI allI impI; (elim conjE)?)
  note init = setup_bufs_inv[OF assms(1-4)]
  have inv: "bufs_inv b s" using bufs.reachable[OF assms(5) init(1)] .
  have "b_coord s' = b_coord s0" if "buf_step\<^sup>*\<^sup>* s0 s'" for s0 s'
    using that by (induction rule: rtranclp_induct) (auto elim: buf_step.cases)
  from this[OF assms(5)] have c: "b_coord s = c" by simp
  note i = inv[unfolded bufs_inv_def c init(2,3)]
  show pl: "count (kernel_bufs s) i + card (owners (b_tokens s) i) + count_list (b_lost s) i = 1" if "i < unat n" for i
    using i that by (simp add: places_def)
  fix v t
  assume t: "b_tokens s v = Some t" "token_valid t"
  let ?b = "unat (pt_buf_id t)"
  have b: "?b < unat n" "pt_data t = getBufferPtr (pt_buf_id t) c" using i t by blast+
  have f: "finite (dom (b_tokens s))" and o: "v \<in> owners (b_tokens s) ?b" using i t by (simp_all add: owners_def)
  then have "card (owners (b_tokens s) ?b) > 0" using finite_owners[OF f] by (auto simp: card_gt_0_iff)
  with pl[OF b(1)] have "count (kernel_bufs s) ?b = 0" and c1: "card (owners (b_tokens s) ?b) \<le> 1" by linarith+
  then show "?b \<notin># kernel_bufs s" by (simp add: not_in_iff)
  show "v' = v" if "b_tokens s v' = Some t'" "token_valid t'" "pt_buf_id t' = pt_buf_id t" for v' t'
    using owners_le_1[OF f c1 _ o] that by (simp add: owners_def)
  have r: "ready b c" using i by simp
  then show "\<exists>a. pt_data t = Some a \<and> unat a = unat b + ?b * unat sz \<and> unat a + unat sz \<le> unat b + unat n * unat sz"
    using b getBufferPtr_ready[OF r, of "pt_buf_id t"] buffer_address[OF r, of ?b] init(2,3) total_size_exact[of c] by (simp add: ready_def)
qed

section \<open>Witnesses\<close>

text \<open>Two buffers of 16 bytes at address 4096; the kernel fills the second.\<close>

definition demo_setup :: "bool \<times> BufferRingCoordinator \<times> br_call list" where
  "demo_setup = setupBufferRing (\<lambda>_. []) (Inr 4096) (True, 0) (BufferRingCoordinator_init 2 16 1) []"

definition demo_bufs :: bufs where
  "demo_bufs = \<lparr>b_coord = fst (snd demo_setup), b_calls = snd (snd demo_setup), b_filled = [], b_tokens = (\<lambda>_. None), b_lost = []\<rparr>"

definition demo_filled :: bufs where
  "demo_filled = demo_bufs\<lparr>b_filled := [1], b_tokens := [0 \<mapsto> ProvidedBufferToken_init True 1 (Some 4112) 5]\<rparr>"

lemma demo_setup_result: "setupBufferRing (\<lambda>_. []) (Inr 4096) (True, 0) (BufferRingCoordinator_init 2 16 1) [] =
    (fst demo_setup, fst (snd demo_setup), snd (snd demo_setup))"
  by (simp add: demo_setup_def)

lemma demo_ptr: "getBufferPtr 1 (fst (snd demo_setup)) = Some 4112"
  by (simp add: demo_setup_def setupBufferRing_def BufferRingCoordinator_init_def getBufferPtr_def Let_def word_le_nat_alt)


theorem buffer_single_owner_witness:
  "count (kernel_bufs demo_filled) 0 + card (owners (b_tokens demo_filled) 0) + count_list (b_lost demo_filled) 0 = 1 \<and> 1 \<notin># kernel_bufs demo_filled"
proof -
  have v: "isValidBufferRingCount 2" "isValidBufferSize 16" by (simp_all add: isValidBufferRingCount_def isValidBufferSize_def MAX_BUFFER_RING_ENTRIES_def MAX_BUFFER_SIZE_def)
  have a: "unat (4096 :: u64) + unat (ucast (2 :: u32) * 16 :: u64) \<le> 2 ^ 64" by simp
  have p: "getBufferPtr (of_nat 1) (b_coord demo_bufs) = Some 4112" by (simp add: demo_bufs_def demo_ptr)
  have "bufs_inv 4096 demo_bufs" using setup_bufs_inv(1)[OF v a demo_setup_result] by (simp add: demo_bufs_def)
  then have "places demo_bufs 1 = 1" using setup_bufs_inv(2)[OF v a demo_setup_result] by (simp add: bufs_inv_def demo_bufs_def)
  then have "1 \<in># kernel_bufs demo_bufs"
    by (simp add: places_def demo_bufs_def owners_def count_greater_zero_iff[symmetric] del: count_greater_zero_iff)
  from Fill[OF this _ p, of 0 5] have "buf_step demo_bufs demo_filled" by (simp add: demo_filled_def demo_bufs_def)
  then have "buf_step\<^sup>*\<^sup>* demo_bufs demo_filled" by simp
  note r = buffer_single_owner[OF v a demo_setup_result this[unfolded demo_bufs_def]]
  let ?t = "ProvidedBufferToken_init True 1 (Some 4112) 5"
  have "b_tokens demo_filled 0 = Some ?t \<and> token_valid ?t" "pt_buf_id ?t = 1"
    by (simp_all add: demo_filled_def ProvidedBufferToken_init_def token_valid_def)
  with r have "unat (1 :: u32) \<notin># kernel_bufs demo_filled" by metis
  with conjunct1[OF r] show ?thesis by simp
qed

end
