(* ===== verification/Server_Setup.thy ===== *)
theory Server_Setup
  imports Ring_Server Buffer_Ring
begin

text \<open>
  Setting a ring up and taking it down: \<^verbatim>\<open>include/caduvelox/ServerConfig.hpp\<close>, \<^verbatim>\<open>include/caduvelox/util/EventFd.hpp\<close>, and of \<^verbatim>\<open>src/Server.cpp\<close> the
  constructor, \<^verbatim>\<open>init\<close> with \<^verbatim>\<open>ignoreSigPipeOnce\<close>, \<^verbatim>\<open>stop\<close> and the destructor. The record \<open>Server\<close> holds the members these touch; the event loop
  itself is in Ring\_Server. An exception is the left side of a sum.
\<close>

section \<open>Configuration\<close>

record ServerConfig =
  cfg_queue_depth :: u32
  cfg_buffer_ring_count :: u32
  cfg_buffer_size_bytes :: u32
  cfg_ktls_pool_size :: u32
  cfg_accept_pool_size :: u32
  cfg_write_pool_size :: u32
  cfg_file_job_pool_size :: u32
  cfg_connection_pool_size :: u32
  cfg_ktls_handshake_timeout_ms :: u32
  cfg_idle_timeout_ms :: u32
  cfg_num_rings :: int

definition ServerConfig_default :: ServerConfig where
  "ServerConfig_default =
     \<lparr>cfg_queue_depth = 4096, cfg_buffer_ring_count = 512, cfg_buffer_size_bytes = 16384, cfg_ktls_pool_size = 5000, cfg_accept_pool_size = 2,
      cfg_write_pool_size = 10000, cfg_file_job_pool_size = 1000, cfg_connection_pool_size = 10000, cfg_ktls_handshake_timeout_ms = 5000,
      cfg_idle_timeout_ms = 60000, cfg_num_rings = 0\<rparr>"

datatype exn = InvalidArgument string | RuntimeError string | SystemError int

fun check_positive :: "(u32 \<times> string) list \<Rightarrow> exn option" where
  "check_positive [] = None"
| "check_positive ((v, name) # rest) =
     (if v = 0 then Some (InvalidArgument (''ServerConfig: '' @ name @ '' must be > 0'')) else check_positive rest)"

definition pool_sizes :: "ServerConfig \<Rightarrow> (u32 \<times> string) list" where
  "pool_sizes cfg =
     [(cfg_ktls_pool_size cfg, ''ktls_pool_size''), (cfg_accept_pool_size cfg, ''accept_pool_size''),
      (cfg_write_pool_size cfg, ''write_pool_size''), (cfg_file_job_pool_size cfg, ''file_job_pool_size''),
      (cfg_connection_pool_size cfg, ''connection_pool_size'')]"

definition refuses_queue_depth :: "u32 \<Rightarrow> exn" where
  "refuses_queue_depth d = InvalidArgument (''ServerConfig: queue_depth must be between 1 and '' @ to_string (uint MAX_QUEUE_DEPTH) @ '', got '' @
     to_string (uint d))"

definition refuses_ring_count :: "u32 \<Rightarrow> exn" where
  "refuses_ring_count n = InvalidArgument (''ServerConfig: buffer_ring_count must be a power of two between 1 and '' @
     to_string (uint MAX_BUFFER_RING_ENTRIES) @ '', got '' @ to_string (uint n))"

text \<open>The exception \<^verbatim>\<open>validate()\<close> throws, if it throws one.\<close>

definition validate :: "ServerConfig \<Rightarrow> exn option" where
  "validate cfg =
     (case check_positive (pool_sizes cfg) of
        Some e \<Rightarrow> Some e
      | None \<Rightarrow>
          if \<not> isValidQueueDepth (cfg_queue_depth cfg) then Some (refuses_queue_depth (cfg_queue_depth cfg))
          else if \<not> isValidBufferRingCount (cfg_buffer_ring_count cfg) then Some (refuses_ring_count (cfg_buffer_ring_count cfg))
          else check_positive [(cfg_buffer_size_bytes cfg, ''buffer_size_bytes'')])"

section \<open>The eventfd\<close>

record EventFd =
  ev_fd :: int

definition EAGAIN :: int where "EAGAIN = 11"

text \<open>The answer of \<^verbatim>\<open>eventfd(2)\<close> is the descriptor or a negated errno; the flags do not change what the class does.\<close>

definition EventFd_init :: "ring \<Rightarrow> (exn + EventFd) \<times> ring" where
  "EventFd_init w =
     (let (fd, w1) = ask w; w2 = open_fd fd w1 in
      if fd < 0 then (Inl (SystemError (- fd)), w2) else (Inr \<lparr>ev_fd = fd\<rparr>, w2))"

definition EventFd_destroy :: "EventFd \<Rightarrow> ring \<Rightarrow> ring" where
  "EventFd_destroy e w = (if ev_fd e \<ge> 0 then close_fd (ev_fd e) w else w)"

definition EventFd_move :: "EventFd \<Rightarrow> EventFd \<times> EventFd" where
  "EventFd_move other = (\<lparr>ev_fd = ev_fd other\<rparr>, other\<lparr>ev_fd := - 1\<rparr>)"

definition EventFd_move_assign :: "EventFd \<Rightarrow> EventFd \<Rightarrow> ring \<Rightarrow> EventFd \<times> EventFd \<times> ring" where
  "EventFd_move_assign this other w =
     (let w1 = (if ev_fd this \<ge> 0 then close_fd (ev_fd this) w else w) in
      (this\<lparr>ev_fd := ev_fd other\<rparr>, other\<lparr>ev_fd := - 1\<rparr>, w1))"

text \<open>\<^verbatim>\<open>write(2)\<close> and \<^verbatim>\<open>read(2)\<close> answer a negated errno, or, for the read, the counter.\<close>

definition EventFd_signal :: "EventFd \<Rightarrow> ring \<Rightarrow> (exn + unit) \<times> ring" where
  "EventFd_signal e w =
     (let (result, w1) = ask w in
      if result < 0 \<and> - result \<noteq> EAGAIN then (Inl (SystemError (- result)), w1) else (Inr (), w1))"

definition EventFd_consume :: "EventFd \<Rightarrow> ring \<Rightarrow> (exn + nat) \<times> ring" where
  "EventFd_consume e w =
     (let (result, w1) = ask w in
      if result < 0 then (if - result = EAGAIN then (Inr 0, w1) else (Inl (SystemError (- result)), w1))
      else (Inr (nat result), w1))"

definition EventFd_try_consume :: "EventFd \<Rightarrow> ring \<Rightarrow> nat \<times> ring" where
  "EventFd_try_consume e w = (let (result, w1) = ask w in if result < 0 then (0, w1) else (nat result, w1))"

section \<open>SIGPIPE\<close>

datatype sig_handler = SIG_DFL | SIG_IGN | HostHandler nat

record process =
  sigpipe :: sig_handler
  sigpipe_once :: bool

definition ignoreSigPipeOnce :: "process \<Rightarrow> ring \<Rightarrow> process \<times> ring" where
  "ignoreSigPipeOnce pr w =
     (if sigpipe_once pr then (pr, w)
      else let pr1 = pr\<lparr>sigpipe_once := True\<rparr>; (got, w1) = ask w in
        if got \<noteq> 0 then (pr1, w1)
        else if sigpipe pr1 \<noteq> SIG_DFL then (pr1, w1)
        else let (put, w2) = ask w1 in
          if put \<noteq> 0 then (pr1, w2) else (pr1\<lparr>sigpipe := SIG_IGN\<rparr>, w2))"

section \<open>The server object\<close>

text \<open>\<open>sv_calls\<close> is the order in which the ring and its buffers were set up and taken down.\<close>

datatype setup_call = QueueInit | QueueExit | BufRing br_call

record Server =
  sv_ring_fd :: int
  sv_coordinator :: "BufferRingCoordinator option"
  sv_stop_signal :: "EventFd option"
  sv_shared_state :: bool
  sv_calls :: "setup_call list"

definition Server_new :: Server where
  "Server_new = \<lparr>sv_ring_fd = - 1, sv_coordinator = None, sv_stop_signal = None, sv_shared_state = False, sv_calls = []\<rparr>"

definition DEFAULT_BUF_GROUP_ID :: u32 where "DEFAULT_BUF_GROUP_ID = 1"

text \<open>The two refusals of \<^verbatim>\<open>init()\<close>.\<close>

definition init_refuses_count :: "u32 \<Rightarrow> exn" where
  "init_refuses_count buf_count = InvalidArgument (''Server::init: buffer ring count must be a power of two between 1 and '' @
     to_string (uint MAX_BUFFER_RING_ENTRIES) @ '', got '' @ to_string (uint buf_count))"

definition init_refuses_size :: "u64 \<Rightarrow> exn" where
  "init_refuses_size buf_size = InvalidArgument (''Server::init: buffer size must be between 1 and '' @ to_string (uint MAX_BUFFER_SIZE) @
     '' bytes, got '' @ to_string (uint buf_size))"

text \<open>\<^verbatim>\<open>strerror\<close> is an argument; the answer to \<^verbatim>\<open>io_uring_queue_init\<close> stands for the descriptor of the new ring.\<close>

definition Server_init ::
  "(int \<Rightarrow> string) \<Rightarrow> u32 \<Rightarrow> u32 \<Rightarrow> u64 \<Rightarrow> Server \<Rightarrow> process \<Rightarrow> ring \<Rightarrow> (exn + unit) \<times> Server \<times> process \<times> ring" where
  "Server_init strerror queue_depth buf_count buf_size sv pr w =
     (if \<not> isValidBufferRingCount buf_count then (Inl (init_refuses_count buf_count), sv, pr, w)
      else if \<not> isValidBufferSize buf_size then (Inl (init_refuses_size buf_size), sv, pr, w)
      else
        let (pr1, w0) = ignoreSigPipeOnce pr w; (ret, w1) = ask w0 in
        if ret < 0 then (Inl (RuntimeError (''Failed to initialize io_uring: '' @ strerror (- ret))), sv, pr1, w1)
        else
          let sv1 = sv\<lparr>sv_ring_fd := ret, sv_calls := sv_calls sv @ [QueueInit]\<rparr>; w2 = open_fd ret w1;
              (a, w3) = ask w2; mmap_answer = (if a < 0 then Inl (- a) else Inr (word_of_int a));
              (br, w4) = ask w3; (err, w5) = ask w4;
              (ok, c, k) = setupBufferRing strerror mmap_answer (br \<ge> 0, err) (BufferRingCoordinator_init buf_count buf_size DEFAULT_BUF_GROUP_ID) [];
              sv2 = sv1\<lparr>sv_coordinator := Some c, sv_calls := sv_calls sv1 @ map BufRing k\<rparr> in
          if \<not> ok then (Inl (RuntimeError (''Failed to set up the provided-buffer ring: '' @ bc_last_error c)), sv2, pr1, w5)
          else (case EventFd_init w5 of
                  (Inl e, w6) \<Rightarrow> (Inl e, sv2, pr1, w6)
                | (Inr e, w6) \<Rightarrow> (Inr (), sv2\<lparr>sv_stop_signal := Some e\<rparr>, pr1, w6)))"

text \<open>\<^verbatim>\<open>stop()\<close>: the state it may change is \<open>st\<close>, local or shared; it never throws.\<close>

definition Server_stop :: "Server \<Rightarrow> ServerState \<Rightarrow> ring \<Rightarrow> ServerState \<times> ring" where
  "Server_stop sv st w =
     (let st1 = (if st = Running then Stopping else st) in
      (case sv_stop_signal sv of None \<Rightarrow> (st1, w) | Some e \<Rightarrow> (st1, snd (EventFd_signal e w))))"

text \<open>
  \<^verbatim>\<open>~Server()\<close>: its body, and then the destructors of the members in reverse order of declaration, the stop channel before the
  buffer ring. No one else keeps the coordinator.
\<close>

definition Server_destroy :: "Server \<Rightarrow> ServerState \<Rightarrow> ring \<Rightarrow> setup_call list \<times> ServerState \<times> ring" where
  "Server_destroy sv st w =
     (let (st1, w1) = Server_stop sv st w;
          (calls2, w2) = (if sv_ring_fd sv \<ge> 0 then (sv_calls sv @ [QueueExit], close_fd (sv_ring_fd sv) w1) else (sv_calls sv, w1));
          w3 = (case sv_stop_signal sv of None \<Rightarrow> w2 | Some e \<Rightarrow> EventFd_destroy e w2);
          calls4 = (case sv_coordinator sv of None \<Rightarrow> calls2 | Some c \<Rightarrow> calls2 @ map BufRing (snd (cleanupBufferRing c []))) in
      (calls4, st1, w3))"

section \<open>What a server object owns\<close>

definition server_fds :: "Server \<Rightarrow> int multiset" where
  "server_fds sv = (if sv_ring_fd sv \<ge> 0 then {# sv_ring_fd sv #} else {#}) +
     (case sv_stop_signal sv of None \<Rightarrow> {#} | Some e \<Rightarrow> {# ev_fd e #})"

definition stop_signal_ok :: "Server \<Rightarrow> bool" where
  "stop_signal_ok sv \<longleftrightarrow> (\<forall>e. sv_stop_signal sv = Some e \<longrightarrow> ev_fd e \<ge> 0)"

lemma EventFd_init_keeps:
  "EventFd_init w = (r, w') \<Longrightarrow> keeps F J n w (case r of Inl _ \<Rightarrow> F | Inr e \<Rightarrow> add_mset (ev_fd e) F) J n w' \<and> (\<forall>e. r = Inr e \<longrightarrow> ev_fd e \<ge> 0)"
  by (auto simp: EventFd_init_def ask_def open_fd_def keeps_def Let_def split: if_splits)

lemma EventFd_signal_keeps: "keeps F J n w F J n (snd (EventFd_signal e w))"
  by (auto simp: EventFd_signal_def ask_def keeps_def Let_def)

lemma ignoreSigPipeOnce_keeps: "ignoreSigPipeOnce pr w = (pr', w') \<Longrightarrow> keeps F J n w F J n w'"
  by (auto simp: ignoreSigPipeOnce_def ask_def keeps_def Let_def split: if_splits)

lemma Server_stop_keeps: "Server_stop sv st w = (st', w') \<Longrightarrow> keeps F J n w F J n w'"
  using EventFd_signal_keeps by (auto simp: Server_stop_def Let_def split: option.splits)

text \<open>How \<^verbatim>\<open>init()\<close> can end: refused or with no ring, with a ring but no buffers or no stop channel, or complete.\<close>

lemma Server_init_invalid:
  assumes "Server_init strerror d n sz Server_new pr w = (r, sv, pr', w')" "\<not> (isValidBufferRingCount n \<and> isValidBufferSize sz)"
  shows "(\<exists>m. r = Inl (InvalidArgument m)) \<and> sv = Server_new \<and> w' = w"
proof -
  have m: "\<exists>m. init_refuses_count n = InvalidArgument m" "\<exists>m. init_refuses_size sz = InvalidArgument m"
    unfolding init_refuses_count_def init_refuses_size_def by blast+
  from assms have "(r = Inl (init_refuses_count n) \<or> r = Inl (init_refuses_size sz)) \<and> sv = Server_new \<and> w' = w"
    by (cases "isValidBufferRingCount n") (auto simp: Server_init_def)
  with m show ?thesis by auto
qed

definition ringed_server :: "int \<Rightarrow> BufferRingCoordinator \<Rightarrow> br_call list \<Rightarrow> Server" where
  "ringed_server fd c k = \<lparr>sv_ring_fd = fd, sv_coordinator = Some c, sv_stop_signal = None, sv_shared_state = False, sv_calls = QueueInit # map BufRing k\<rparr>"

text \<open>With arguments that are valid: no ring, or a ring, on which the buffers and then the stop signal are set up.\<close>

lemma Server_init_valid:
  assumes init: "Server_init strerror d n sz Server_new pr w = (r, sv, pr', w')" and valid: "isValidBufferRingCount n" "isValidBufferSize sz"
  obtains (no_ring) e where "r = Inl (RuntimeError e)" "sv = Server_new" "\<And>F J m. keeps F J m w F J m w'"
  | (ring) fd ma sa ok c k er w5 w6 where "fd \<ge> 0" "\<And>F J m. keeps F J m w (add_mset fd F) J m w5"
      "setupBufferRing strerror ma sa (BufferRingCoordinator_init n sz DEFAULT_BUF_GROUP_ID) [] = (ok, c, k)" "EventFd_init w5 = (er, w6)"
      "(r, sv, w') = (if \<not> ok then (Inl (RuntimeError (''Failed to set up the provided-buffer ring: '' @ bc_last_error c)), ringed_server fd c k, w5)
        else (case er of Inl x \<Rightarrow> (Inl x, ringed_server fd c k, w6) | Inr ev \<Rightarrow> (Inr (), (ringed_server fd c k)\<lparr>sv_stop_signal := Some ev\<rparr>, w6)))"
proof -
  obtain pr1 w0 where i: "ignoreSigPipeOnce pr w = (pr1, w0)" by fastforce
  obtain fd w1 where q: "ask w0 = (fd, w1)" by fastforce
  have k1: "keeps F J m w F J m w1" for F J m using keeps_trans[OF ignoreSigPipeOnce_keeps[OF i] keeps_env(1)[of _ _ _ w0]] q by simp
  show thesis
  proof (cases "fd < 0")
    case True
    then have "(r, sv, w') = (Inl (RuntimeError (''Failed to initialize io_uring: '' @ strerror (- fd))), Server_new, w1)"
      using init valid i q by (simp add: Server_init_def)
    with k1 show thesis by (intro no_ring) auto
  next
    case n: False
    define w2 where "w2 = open_fd fd w1"
    obtain a w3 where a: "ask w2 = (a, w3)" by fastforce
    obtain br w4 where br: "ask w3 = (br, w4)" by fastforce
    obtain err w5 where err: "ask w4 = (err, w5)" by fastforce
    define ma :: "int + u64" where "ma = (if a < 0 then Inl (- a) else Inr (word_of_int a))"
    obtain ok c k where s: "setupBufferRing strerror ma (br \<ge> 0, err) (BufferRingCoordinator_init n sz DEFAULT_BUF_GROUP_ID) [] = (ok, c, k)"
      by (metis prod_cases3)
    obtain er w6 where e: "EventFd_init w5 = (er, w6)" by fastforce
    have k2: "keeps F J m w1 (add_mset fd F) J m w2" for F J m using keeps_env(5)[of F J m w1 fd] n by (simp add: w2_def)
    have k5: "keeps F J m w2 F J m w5" for F J m
      using keeps_env(1)[of F J m w2] keeps_env(1)[of F J m w3] keeps_env(1)[of F J m w4] a br err by (auto intro: keeps_trans)
    show thesis
      by (rule ring[OF _ keeps_trans[OF k1 keeps_trans[OF k2 k5]] s e])
         (use init valid i q n s e a br err in \<open>auto simp: Server_init_def Server_new_def ringed_server_def Let_def w2_def[symmetric]
            ma_def[symmetric] split: sum.splits if_splits\<close>)
  qed
qed

lemma Server_init_cases:
  assumes "Server_init strerror d n sz Server_new pr w = (r, sv, pr', w')"
  obtains (bare) e where "r = Inl e" "sv = Server_new" "(\<exists>m. e = InvalidArgument m) = (\<not> isValidBufferRingCount n \<or> \<not> isValidBufferSize sz)"
      "\<And>F J n. keeps F J n w F J n w'"
  | (ringed) e fd ma sa ok c k where "r = Inl e" "\<And>m. e \<noteq> InvalidArgument m" "fd \<ge> 0" "isValidBufferRingCount n" "isValidBufferSize sz"
      "setupBufferRing strerror ma sa (BufferRingCoordinator_init n sz DEFAULT_BUF_GROUP_ID) [] = (ok, c, k)"
      "sv = \<lparr>sv_ring_fd = fd, sv_coordinator = Some c, sv_stop_signal = None, sv_shared_state = False, sv_calls = QueueInit # map BufRing k\<rparr>"
      "\<And>F J n. keeps F J n w (add_mset fd F) J n w'"
  | (complete) fd ev ma sa c k where "r = Inr ()" "fd \<ge> 0" "ev_fd ev \<ge> 0" "isValidBufferRingCount n" "isValidBufferSize sz"
      "setupBufferRing strerror ma sa (BufferRingCoordinator_init n sz DEFAULT_BUF_GROUP_ID) [] = (True, c, k)"
      "sv = \<lparr>sv_ring_fd = fd, sv_coordinator = Some c, sv_stop_signal = Some ev, sv_shared_state = False, sv_calls = QueueInit # map BufRing k\<rparr>"
      "\<And>F J n. keeps F J n w (add_mset fd (add_mset (ev_fd ev) F)) J n w'"
proof (cases "isValidBufferRingCount n \<and> isValidBufferSize sz")
  case False
  from Server_init_invalid[OF assms this] obtain m where "r = Inl (InvalidArgument m)" "sv = Server_new" "w' = w" by blast
  with False show ?thesis by (intro bare) auto
next
  case True
  then have v: "isValidBufferRingCount n" "isValidBufferSize sz" by auto
  from assms v show ?thesis
  proof (cases rule: Server_init_valid)
    case (no_ring e)
    with v show ?thesis by (intro bare) auto
  next
    case (ring fd ma sa ok c k er w5 w6)
    note k6 = keeps_trans[OF ring(2) conjunct1[OF EventFd_init_keeps[OF ring(4)]]]
    consider (nobuf) "\<not> ok" | (noev) x where "ok" "er = Inl x" | (all) ev where "ok" "er = Inr ev" by (cases er) auto
    then show ?thesis
    proof cases
      case nobuf
      with ring v show ?thesis by (intro ringed[of _ fd ma sa ok c k]) (auto simp: ringed_server_def)
    next
      case noev
      have "\<And>m. x \<noteq> InvalidArgument m" using ring(4) noev(2) by (auto simp: EventFd_init_def Let_def split: prod.splits if_splits)
      with noev ring v k6 show ?thesis by (intro ringed[of x fd ma sa ok c k]) (auto simp: ringed_server_def simp del: keeps_refl)
    next
      case all
      have "ev_fd ev \<ge> 0" using EventFd_init_keeps[OF ring(4), of "{#}" "{#}" 0] all(2) by simp
      with all ring v k6 show ?thesis
        by (intro complete[of fd ev ma sa c k]) (auto simp: ringed_server_def add_mset_commute)
    qed
  qed
qed

lemma Server_init_keeps:
  assumes "Server_init strerror d n sz Server_new pr w = (r, sv, pr', w')"
  shows "keeps F J m w (server_fds sv + F) J m w' \<and> stop_signal_ok sv"
  using assms by (cases rule: Server_init_cases) (auto simp: server_fds_def stop_signal_ok_def Server_new_def add_mset_commute)

lemma Server_destroy_keeps:
  assumes "Server_destroy sv st w = (calls, st', w')" "stop_signal_ok sv"
  shows "keeps (server_fds sv + F) J m w F J m w'"
proof -
  obtain st1 w1 where s: "Server_stop sv st w = (st1, w1)" by fastforce
  let ?E = "case sv_stop_signal sv of None \<Rightarrow> {#} | Some e \<Rightarrow> {# ev_fd e #}"
  let ?w2 = "if sv_ring_fd sv \<ge> 0 then close_fd (sv_ring_fd sv) w1 else w1"
  note k1 = Server_stop_keeps[OF s, of "server_fds sv + F" J m]
  have k2: "keeps (server_fds sv + F) J m w1 (?E + F) J m ?w2"
    using keeps_env(4)[of "sv_ring_fd sv" "?E + F" J m w1] by (simp add: server_fds_def)
  have "w' = (case sv_stop_signal sv of None \<Rightarrow> ?w2 | Some e \<Rightarrow> EventFd_destroy e ?w2)"
    using assms(1) s by (auto simp: Server_destroy_def Let_def)
  then have k3: "keeps (?E + F) J m ?w2 F J m w'"
    using assms(2) keeps_env(4)[of _ F J m ?w2] by (auto simp: stop_signal_ok_def EventFd_destroy_def split: option.splits)
  from keeps_trans[OF k1 keeps_trans[OF k2 k3]] show ?thesis .
qed

section \<open>Properties\<close>

lemma check_positive_None: "check_positive xs = None \<longleftrightarrow> (\<forall>p \<in> set xs. fst p \<noteq> 0)"
  by (induction xs rule: check_positive.induct) auto

lemma validate_None:
  "validate cfg = None \<longleftrightarrow>
     cfg_ktls_pool_size cfg \<noteq> 0 \<and> cfg_accept_pool_size cfg \<noteq> 0 \<and> cfg_write_pool_size cfg \<noteq> 0 \<and> cfg_file_job_pool_size cfg \<noteq> 0 \<and>
     cfg_connection_pool_size cfg \<noteq> 0 \<and> isValidQueueDepth (cfg_queue_depth cfg) \<and> isValidBufferRingCount (cfg_buffer_ring_count cfg) \<and>
     cfg_buffer_size_bytes cfg \<noteq> 0"
proof (cases "check_positive (pool_sizes cfg)")
  case None
  then show ?thesis using check_positive_None[of "pool_sizes cfg"] unfolding validate_def by (auto simp: check_positive_None pool_sizes_def)
next
  case (Some e)
  then have "\<not> (\<forall>p \<in> set (pool_sizes cfg). fst p \<noteq> 0)" by (metis check_positive_None option.distinct(1))
  with Some show ?thesis unfolding validate_def by (auto simp: pool_sizes_def)
qed

text \<open>
  C32. A configuration is checked once and for all. \<^verbatim>\<open>validate()\<close> accepts exactly the configurations with non-empty pools, a queue depth from 1 to 32768, a power of two up to 32768 of
  buffers, and a buffer size; and \<^verbatim>\<open>Server::init\<close> with the dimensions of an accepted one never throws for an invalid argument.
\<close>

theorem validate_guards_init:
  "(validate cfg = None \<longleftrightarrow>
     0 \<notin> {cfg_ktls_pool_size cfg, cfg_accept_pool_size cfg, cfg_write_pool_size cfg, cfg_file_job_pool_size cfg, cfg_connection_pool_size cfg,
       cfg_buffer_size_bytes cfg} \<and>
     1 \<le> unat (cfg_queue_depth cfg) \<and> unat (cfg_queue_depth cfg) \<le> 32768 \<and> (\<exists>k. k \<le> 15 \<and> unat (cfg_buffer_ring_count cfg) = 2 ^ k)) \<and>
   (validate cfg = None \<longrightarrow>
     fst (Server_init strerror (cfg_queue_depth cfg) (cfg_buffer_ring_count cfg) (ucast (cfg_buffer_size_bytes cfg)) Server_new pr w)
       \<noteq> Inl (InvalidArgument m))"
proof (intro conjI impI)
  have "isValidQueueDepth d \<longleftrightarrow> 1 \<le> unat d \<and> unat d \<le> 32768" for d
    by (simp add: isValidQueueDepth_def MAX_QUEUE_DEPTH_def word_le_nat_alt)
  then show "validate cfg = None \<longleftrightarrow>
     0 \<notin> {cfg_ktls_pool_size cfg, cfg_accept_pool_size cfg, cfg_write_pool_size cfg, cfg_file_job_pool_size cfg, cfg_connection_pool_size cfg,
       cfg_buffer_size_bytes cfg} \<and>
     1 \<le> unat (cfg_queue_depth cfg) \<and> unat (cfg_queue_depth cfg) \<le> 32768 \<and> (\<exists>k. k \<le> 15 \<and> unat (cfg_buffer_ring_count cfg) = 2 ^ k)"
    unfolding validate_None isValidBufferRingCount_iff by auto
next
  assume v: "validate cfg = None"
  let ?sz = "ucast (cfg_buffer_size_bytes cfg) :: u64"
  have "unat ?sz = unat (cfg_buffer_size_bytes cfg)"
    using unsigned_less[of "cfg_buffer_size_bytes cfg", where 'a = nat] by (simp add: unsigned_ucast_eq take_bit_nat_eq_self)
  moreover have "unat (cfg_buffer_size_bytes cfg) \<noteq> 0" "unat (cfg_buffer_size_bytes cfg) < 2 ^ 32"
    using v unsigned_less[of "cfg_buffer_size_bytes cfg"] by (simp_all add: validate_None unat_eq_zero)
  ultimately have "isValidBufferSize ?sz" by (simp add: isValidBufferSize_def MAX_BUFFER_SIZE_def word_le_nat_alt unat_eq_zero[symmetric] del: unat_eq_zero)
  moreover have "isValidBufferRingCount (cfg_buffer_ring_count cfg)" using v by (simp add: validate_None)
  moreover obtain r sv pr' w' where i: "Server_init strerror (cfg_queue_depth cfg) (cfg_buffer_ring_count cfg) ?sz Server_new pr w = (r, sv, pr', w')"
    by (metis prod_cases4)
  ultimately have "r \<noteq> Inl (InvalidArgument m)" by (cases rule: Server_init_cases[OF i]) auto
  then show "fst (Server_init strerror (cfg_queue_depth cfg) (cfg_buffer_ring_count cfg) ?sz Server_new pr w) \<noteq> Inl (InvalidArgument m)"
    unfolding i by simp
qed

lemma Server_destroy_calls:
  assumes "Server_destroy sv st w = (calls, st', w')" "sv_ring_fd sv \<ge> 0" "sv_coordinator sv = Some c"
  shows "calls = sv_calls sv @ [QueueExit] @ map BufRing (snd (cleanupBufferRing c []))"
  using assms by (auto simp: Server_destroy_def Let_def split: prod.splits)

text \<open>
  C33. Taking a ring down releases everything, in the wrong order. Whatever the system calls of \<^verbatim>\<open>init()\<close> answer, after the destructor every descriptor it opened
  is closed once. When \<^verbatim>\<open>init()\<close> failed before the buffers were registered, what was mapped is unmapped before the ring goes. But when they were registered, \<^verbatim>\<open>~Server()\<close> first
  exits the ring, and only then does the destructor of the coordinator unregister the buffer ring with it: a call on a
  ring that is gone, followed by the unmapping.
\<close>

theorem server_teardown_order:
  assumes "Server_init strerror d n sz Server_new pr w = (r, sv, pr', w1)" "Server_destroy sv st w1 = (calls, st', w2)"
  shows "keeps {#} {#} 0 w {#} {#} 0 w2 \<and>
    (case sv_coordinator sv of
       None \<Rightarrow> calls = []
     | Some c \<Rightarrow>
         if hasBufferRing c then
           \<exists>b. calls = sv_calls sv @ [QueueExit, BufRing (FreeBufRing n DEFAULT_BUF_GROUP_ID), BufRing (Munmap b (ucast n * sz))] \<and>
             QueueExit \<notin> set (sv_calls sv)
         else calls = sv_calls sv @ [QueueExit])"
proof
  note i = Server_init_keeps[OF assms(1), of "{#}" "{#}" 0]
  with Server_destroy_keeps[OF assms(2), of "{#}" "{#}" 0] show "keeps {#} {#} 0 w {#} {#} 0 w2" using keeps_trans by fastforce
  have calls: "if hasBufferRing c then
           \<exists>b. calls = sv_calls sv @ [QueueExit, BufRing (FreeBufRing n DEFAULT_BUF_GROUP_ID), BufRing (Munmap b (ucast n * sz))] \<and>
             QueueExit \<notin> set (sv_calls sv)
         else calls = sv_calls sv @ [QueueExit]"
    if s: "setupBufferRing strerror ma sa (BufferRingCoordinator_init n sz DEFAULT_BUF_GROUP_ID) [] = (ok, c, k)"
      and sv: "sv_ring_fd sv \<ge> 0" "sv_coordinator sv = Some c" "sv_calls sv = QueueInit # map BufRing k" for ma sa ok c k
  proof -
    note d = Server_destroy_calls[OF assms(2) sv(1,2)]
    have g: "bc_buf_group_id c = DEFAULT_BUF_GROUP_ID" using s
      by (auto simp: setupBufferRing_def cleanupBufferRing_def BufferRingCoordinator_init_def Let_def split: if_splits sum.splits prod.splits)
    from s show ?thesis
    proof (cases rule: setup_outcome)
      case (ready b)
      then have "snd (cleanupBufferRing c []) = [FreeBufRing n DEFAULT_BUF_GROUP_ID, Munmap b (ucast n * sz)]"
        using g by (simp add: cleanupBufferRing_def total_size_def)
      with d ready(6) sv(3) show ?thesis by (auto simp: hasBufferRing_def)
    next
      case failed
      then show ?thesis using d by (simp add: hasBufferRing_def cleanupBufferRing_def)
    qed
  qed
  from assms(1) show "case sv_coordinator sv of
       None \<Rightarrow> calls = []
     | Some c \<Rightarrow>
         if hasBufferRing c then
           \<exists>b. calls = sv_calls sv @ [QueueExit, BufRing (FreeBufRing n DEFAULT_BUF_GROUP_ID), BufRing (Munmap b (ucast n * sz))] \<and>
             QueueExit \<notin> set (sv_calls sv)
         else calls = sv_calls sv @ [QueueExit]"
  proof (cases rule: Server_init_cases)
    case (bare e)
    then show ?thesis using assms(2) by (auto simp: Server_new_def Server_destroy_def Let_def split: prod.splits)
  next
    case (ringed e fd ma sa ok c k)
    then show ?thesis using calls[OF ringed(6)] by simp
  next
    case (complete fd ev ma sa c k)
    then show ?thesis using calls[OF complete(6)] by simp
  qed
qed

section \<open>Witnesses\<close>

definition demo_process :: process where
  "demo_process = \<lparr>sigpipe = SIG_DFL, sigpipe_once = False\<rparr>"

definition calm_ring :: ring where
  "calm_ring = \<lparr>ora = (\<lambda>_. 0), tick = 0, in_flight = 0, sq = [], srv_state = Running, next_id = 1, freed = [], opened = [], closed = []\<rparr>"

lemma default_config_valid: "validate ServerConfig_default = None"
proof -
  have "isValidBufferRingCount 512" by (simp add: isValidBufferRingCount_def MAX_BUFFER_RING_ENTRIES_def)
  then show ?thesis by (simp add: validate_None ServerConfig_default_def isValidQueueDepth_def MAX_QUEUE_DEPTH_def)
qed

theorem validate_guards_init_witness:
  "validate ServerConfig_default = None \<and>
   fst (Server_init (\<lambda>_. []) (cfg_queue_depth ServerConfig_default) (cfg_buffer_ring_count ServerConfig_default)
     (ucast (cfg_buffer_size_bytes ServerConfig_default)) Server_new demo_process calm_ring) \<noteq> Inl (InvalidArgument [])"
  using validate_guards_init[of ServerConfig_default "\<lambda>_. []" demo_process calm_ring "[]"] default_config_valid by blast

text \<open>Everything answers 0: the ring comes up, and goes down in the order of the theorem.\<close>

definition demo_server :: Server where
  "demo_server = fst (snd (Server_init (\<lambda>_. []) 8 2 16 Server_new demo_process calm_ring))"

theorem server_teardown_order_witness:
  "\<exists>b. fst (Server_destroy demo_server Running (snd (snd (snd (Server_init (\<lambda>_. []) 8 2 16 Server_new demo_process calm_ring))))) =
     sv_calls demo_server @ [QueueExit, BufRing (FreeBufRing 2 DEFAULT_BUF_GROUP_ID), BufRing (Munmap b 32)]"
proof -
  have c: "\<exists>c. sv_coordinator demo_server = Some c \<and> hasBufferRing c"
    by (simp add: demo_server_def Server_init_def isValidBufferRingCount_def isValidBufferSize_def MAX_BUFFER_RING_ENTRIES_def MAX_BUFFER_SIZE_def
        ignoreSigPipeOnce_def demo_process_def calm_ring_def ask_def setupBufferRing_def BufferRingCoordinator_init_def EventFd_init_def hasBufferRing_def
        open_fd_def Let_def)
  let ?i = "Server_init (\<lambda>_. []) 8 2 16 Server_new demo_process calm_ring"
  have "?i = (fst ?i, demo_server, fst (snd (snd ?i)), snd (snd (snd ?i)))" by (simp add: demo_server_def)
  moreover obtain calls st' w2 where d: "Server_destroy demo_server Running (snd (snd (snd ?i))) = (calls, st', w2)" by (metis prod_cases3)
  ultimately show ?thesis using server_teardown_order[of "\<lambda>_. []" 8 2 16 demo_process calm_ring "fst ?i" demo_server "fst (snd (snd ?i))"
      "snd (snd (snd ?i))" Running calls st' w2] c unfolding d by auto
qed

end
