(* ===== verification/Multi_Ring_Server.thy ===== *)
theory Multi_Ring_Server
  imports Single_Ring_Server Server_Setup Step_Systems
begin

text \<open>
  The server of several rings: \<^verbatim>\<open>src/ServiceRing.cpp\<close> and \<^verbatim>\<open>src/http/HttpServer.cpp\<close>. Each ring has its own \<^verbatim>\<open>Server\<close> and thread and its own
  \<^verbatim>\<open>SingleRingHttpServer\<close> with its own listening socket; they share the lifecycle state. \<open>host\<close> is what outlives the server object:
  the disposition of SIGPIPE, the capacities of the pools, and the OpenSSL contexts made and freed so far.

  \<^verbatim>\<open>run()\<close> blocks between starting the threads and having joined them, and \<^verbatim>\<open>stop()\<close> comes from another thread in between: the model has the two ends of
  \<^verbatim>\<open>run()\<close> as two operations.
\<close>

section \<open>A ring with its thread\<close>

record ServiceRing =
  sr_ring_id :: int
  sr_cpu_id :: int
  sr_queue_depth :: u32
  sr_buf_count :: u32
  sr_buf_size :: u64
  sr_server :: Server
  sr_running :: bool
  sr_joinable :: bool

definition ServiceRing_new :: "int \<Rightarrow> int \<Rightarrow> u32 \<Rightarrow> u32 \<Rightarrow> u64 \<Rightarrow> ServiceRing" where
  "ServiceRing_new ring_id cpu_id queue_depth buf_count buf_size =
     \<lparr>sr_ring_id = ring_id, sr_cpu_id = cpu_id, sr_queue_depth = queue_depth, sr_buf_count = buf_count, sr_buf_size = buf_size,
      sr_server = Server_new, sr_running = False, sr_joinable = False\<rparr>"

text \<open>Every exception \<^verbatim>\<open>Server::init\<close> throws is caught here and becomes false.\<close>

definition sr_init :: "(int \<Rightarrow> string) \<Rightarrow> ServiceRing \<Rightarrow> process \<Rightarrow> ring \<Rightarrow> bool \<times> ServiceRing \<times> process \<times> ring" where
  "sr_init strerror r pr w =
     (case Server_init strerror (sr_queue_depth r) (sr_buf_count r) (sr_buf_size r) (sr_server r) pr w of
        (Inl _, sv, pr1, w1) \<Rightarrow> (False, r\<lparr>sr_server := sv\<rparr>, pr1, w1)
      | (Inr _, sv, pr1, w1) \<Rightarrow> (True, r\<lparr>sr_server := sv\<rparr>, pr1, w1))"

definition sr_start :: "ServiceRing \<Rightarrow> ServiceRing" where
  "sr_start r = (if sr_running r then r else r\<lparr>sr_running := True, sr_joinable := True\<rparr>)"

definition sr_stop :: "ServiceRing \<Rightarrow> ServerState \<Rightarrow> ring \<Rightarrow> ServiceRing \<times> ServerState \<times> ring" where
  "sr_stop r st w =
     (if \<not> sr_running r then (r, st, w)
      else let (st1, w1) = Server_stop (sr_server r) st w in (r\<lparr>sr_running := False\<rparr>, st1, w1))"

definition sr_join :: "ServiceRing \<Rightarrow> ServiceRing" where
  "sr_join r = (if sr_joinable r then r\<lparr>sr_joinable := False\<rparr> else r)"

definition sr_destroy :: "ServiceRing \<Rightarrow> ServerState \<Rightarrow> ring \<Rightarrow> ServerState \<times> ring" where
  "sr_destroy r st w =
     (let (r1, st1, w1) = sr_stop r st w; r2 = sr_join r1; (_, st3, w3) = Server_destroy (sr_server r2) st1 w1 in (st3, w3))"

section \<open>The server\<close>

datatype pool_kind = KTLSPool | AcceptPool | WritePool | FilePool | ConnectionPool | RecvPool | IdlePool

record host =
  ho_process :: process
  ho_capacity :: "pool_kind \<Rightarrow> u32"
  ho_ctx_made :: "nat list"
  ho_ctx_freed :: "nat list"

record 'rx HttpServer =
  ms_config :: ServerConfig
  ms_http_servers :: "'rx http_server list"
  ms_service_rings :: "ServiceRing list"
  ms_router :: "'rx Route list"
  ms_ssl_ctx :: "nat option"
  ms_state :: ServerState

text \<open>\<open>hw\<close> is \<^verbatim>\<open>std::thread::hardware_concurrency()\<close>, which may be 0.\<close>

definition HttpServer_new :: "nat \<Rightarrow> ServerConfig \<Rightarrow> host \<Rightarrow> (exn + 'rx HttpServer) \<times> host" where
  "HttpServer_new hw cfg0 h =
     (let cfg = (if cfg_num_rings cfg0 \<le> 0 then cfg0\<lparr>cfg_num_rings := int hw\<rparr> else cfg0) in
      (case validate cfg of
         Some e \<Rightarrow> (Inl e, h)
       | None \<Rightarrow>
           (Inr \<lparr>ms_config = cfg, ms_http_servers = [], ms_service_rings = [], ms_router = [], ms_ssl_ctx = None, ms_state = Stopped\<rparr>,
            h\<lparr>ho_capacity := (ho_capacity h)(KTLSPool := cfg_ktls_pool_size cfg, AcceptPool := cfg_accept_pool_size cfg,
                WritePool := cfg_write_pool_size cfg, FilePool := cfg_file_job_pool_size cfg, ConnectionPool := cfg_connection_pool_size cfg,
                RecvPool := cfg_connection_pool_size cfg, IdlePool := cfg_connection_pool_size cfg)\<rparr>)))"

definition HttpServer_new_rings :: "nat \<Rightarrow> int \<Rightarrow> u32 \<Rightarrow> host \<Rightarrow> (exn + 'rx HttpServer) \<times> host" where
  "HttpServer_new_rings hw num_rings queue_depth h =
     HttpServer_new hw (ServerConfig_default\<lparr>cfg_num_rings := num_rings, cfg_queue_depth := queue_depth\<rparr>) h"

definition ms_routesStillAccepted :: "'rx HttpServer \<Rightarrow> bool" where
  "ms_routesStillAccepted s \<longleftrightarrow> ms_state s = Stopped"

definition ms_addRoute ::
  "(string \<Rightarrow> 'rx option) \<Rightarrow> string \<Rightarrow> string \<Rightarrow> HttpHandler option \<Rightarrow> 'rx HttpServer \<Rightarrow> 'rx HttpServer option" where
  "ms_addRoute regex meth path_pattern hdl s =
     (if \<not> ms_routesStillAccepted s then Some s
      else (case addRoute regex meth path_pattern hdl (ms_router s) of None \<Rightarrow> None | Some routes \<Rightarrow> Some (s\<lparr>ms_router := routes\<rparr>)))"

definition ms_addRouteWithCaptures ::
  "(string \<Rightarrow> 'rx option) \<Rightarrow> string \<Rightarrow> string \<Rightarrow> HttpHandlerWithCaptures option \<Rightarrow> 'rx HttpServer \<Rightarrow> 'rx HttpServer option" where
  "ms_addRouteWithCaptures regex meth path_pattern hdl s =
     (if \<not> ms_routesStillAccepted s then Some s
      else (case addRouteWithCaptures regex meth path_pattern hdl (ms_router s) of
              None \<Rightarrow> None | Some routes \<Rightarrow> Some (s\<lparr>ms_router := routes\<rparr>)))"

definition canStartListening :: "'rx HttpServer \<Rightarrow> bool" where
  "canStartListening s \<longleftrightarrow> ms_state s = Stopped \<and> ms_service_rings s = []"

definition ms_createServerSocket :: "int \<Rightarrow> ring \<Rightarrow> int \<times> ring" where
  "ms_createServerSocket port w =
     (if \<not> port_isValid port then (- 1, w)
      else let (server_fd, w0) = ask w; w1 = open_fd server_fd w0 in
        if server_fd < 0 then (- 1, w1)
        else let (reuseaddr, w2) = ask w1 in
          if reuseaddr < 0 then (- 1, close_fd server_fd w2)
          else let (reuseport, w3) = ask w2 in
            if reuseport < 0 then (- 1, close_fd server_fd w3)
            else let (inet_result, w4) = ask w3 in
              if inet_result = 0 then (- 1, close_fd server_fd w4)
              else if inet_result < 0 then (- 1, close_fd server_fd w4)
              else let (bound, w5) = ask w4 in
                if bound < 0 then (- 1, close_fd server_fd w5)
                else let (listening, w6) = ask w5 in
                  if listening < 0 then (- 1, close_fd server_fd w6) else (server_fd, w6))"

text \<open>
  \<open>ring_http_server\<close> is the server object of one ring as the loop makes it. The loop from ring \<open>i\<close> on, with \<open>n\<close> rings to go: None is the division by zero in
  \<^verbatim>\<open>i % hardware_concurrency()\<close>. A ring that is not kept is destroyed on return.
\<close>

definition ring_http_server :: "bool \<Rightarrow> int \<Rightarrow> 'rx HttpServer \<Rightarrow> 'rx http_server" where
  "ring_http_server use_ktls server_fd s =
     (let hs1 = hs_setRouter (ms_router s) SingleRingHttpServer_init;
          hs2 = (if use_ktls then hs_setKTLSContext (ms_ssl_ctx s) False hs1 else hs1);
          hs3 = hs2\<lparr>hs_ktls_handshake_timeout_ms := unat (cfg_ktls_handshake_timeout_ms (ms_config s)),
                    hs_idle_timeout_ms := unat (cfg_idle_timeout_ms (ms_config s))\<rparr> in
      hs_listenOnFd server_fd use_ktls hs3)"

fun start_rings_from ::
  "(int \<Rightarrow> string) \<Rightarrow> nat \<Rightarrow> int \<Rightarrow> bool \<Rightarrow> nat \<Rightarrow> nat \<Rightarrow> 'rx HttpServer \<Rightarrow> process \<Rightarrow> ring \<Rightarrow>
   (bool \<times> 'rx HttpServer \<times> process \<times> ring) option" where
  "start_rings_from strerror hw port use_ktls 0 i s pr w = Some (True, s, pr, w)"
| "start_rings_from strerror hw port use_ktls (Suc n) i s pr w =
     (if hw = 0 then None
      else let r = ServiceRing_new (int i) (int (i mod hw)) (cfg_queue_depth (ms_config s)) (cfg_buffer_ring_count (ms_config s))
                     (ucast (cfg_buffer_size_bytes (ms_config s)));
               (ok, r1, pr1, w1) = sr_init strerror r pr w in
        if \<not> ok then Some (False, s, pr1, snd (sr_destroy r1 Running w1))
        else let (server_fd, w2) = ms_createServerSocket port w1 in
          if server_fd < 0 then Some (False, s, pr1, snd (sr_destroy r1 Running w2))
          else let r2 = r1\<lparr>sr_server := (sr_server r1)\<lparr>sv_shared_state := True\<rparr>\<rparr> in
            start_rings_from strerror hw port use_ktls n (i + 1)
              (s\<lparr>ms_service_rings := ms_service_rings s @ [r2],
                 ms_http_servers := ms_http_servers s @ [ring_http_server use_ktls server_fd s]\<rparr>) pr1 w2)"

definition startRings ::
  "(int \<Rightarrow> string) \<Rightarrow> nat \<Rightarrow> int \<Rightarrow> bool \<Rightarrow> 'rx HttpServer \<Rightarrow> host \<Rightarrow> ring \<Rightarrow> (bool \<times> 'rx HttpServer \<times> host \<times> ring) option" where
  "startRings strerror hw port use_ktls s h w =
     (case start_rings_from strerror hw port use_ktls (nat (cfg_num_rings (ms_config s))) 0 s (ho_process h) w of
        None \<Rightarrow> None
      | Some (ok, s1, pr1, w1) \<Rightarrow> Some (ok, if ok then s1\<lparr>ms_state := Running\<rparr> else s1, h\<lparr>ho_process := pr1\<rparr>, w1))"

definition ms_listen ::
  "(int \<Rightarrow> string) \<Rightarrow> nat \<Rightarrow> int \<Rightarrow> 'rx HttpServer \<Rightarrow> host \<Rightarrow> ring \<Rightarrow> (bool \<times> 'rx HttpServer \<times> host \<times> ring) option" where
  "ms_listen strerror hw port s h w =
     (if \<not> canStartListening s then Some (False, s, h, w) else startRings strerror hw port False s h w)"

definition ms_listenKTLS ::
  "(int \<Rightarrow> string) \<Rightarrow> nat \<Rightarrow> int \<Rightarrow> 'rx HttpServer \<Rightarrow> host \<Rightarrow> ring \<Rightarrow> (bool \<times> 'rx HttpServer \<times> host \<times> ring) option" where
  "ms_listenKTLS strerror hw port s h w =
     (if \<not> canStartListening s then Some (False, s, h, w)
      else let (ctx, w1) = createServerContext w; s1 = s\<lparr>ms_ssl_ctx := ctx\<rparr> in
        (case ctx of
           None \<Rightarrow> Some (False, s1, h, w1)
         | Some c \<Rightarrow> startRings strerror hw port True s1 (h\<lparr>ho_ctx_made := ho_ctx_made h @ [c]\<rparr>) w1))"

text \<open>The two ends of \<^verbatim>\<open>run()\<close>.\<close>

definition ms_run_start :: "'rx HttpServer \<Rightarrow> 'rx HttpServer" where
  "ms_run_start s = (if ms_state s \<noteq> Running then s else s\<lparr>ms_service_rings := map sr_start (ms_service_rings s)\<rparr>)"

definition joinAllRings :: "'rx HttpServer \<Rightarrow> 'rx HttpServer" where
  "joinAllRings s = s\<lparr>ms_service_rings := map sr_join (ms_service_rings s)\<rparr>"

definition ms_run_finish :: "'rx HttpServer \<Rightarrow> 'rx HttpServer" where
  "ms_run_finish s = (joinAllRings s)\<lparr>ms_state := Stopped\<rparr>"

fun stop_http_servers :: "'rx http_server list \<Rightarrow> ring \<Rightarrow> 'rx http_server list \<times> ring" where
  "stop_http_servers [] w = ([], w)"
| "stop_http_servers (hs # rest) w =
     (let (hs1, w1) = hs_stop hs w; (rest1, w2) = stop_http_servers rest w1 in (hs1 # rest1, w2))"

fun stop_rings :: "ServiceRing list \<Rightarrow> ServerState \<Rightarrow> ring \<Rightarrow> ServiceRing list \<times> ServerState \<times> ring" where
  "stop_rings [] st w = ([], st, w)"
| "stop_rings (r # rest) st w =
     (let (r1, st1, w1) = sr_stop r st w; (rest1, st2, w2) = stop_rings rest st1 w1 in (r1 # rest1, st2, w2))"

definition ms_stop :: "'rx HttpServer \<Rightarrow> ring \<Rightarrow> 'rx HttpServer \<times> ring" where
  "ms_stop s w =
     (let st1 = (if ms_state s = Running then Stopping else ms_state s) in
      if st1 = Stopped \<and> ms_service_rings s = [] then (s\<lparr>ms_state := st1\<rparr>, w)
      else let (hss, w1) = stop_http_servers (ms_http_servers s) w;
               (rings, st2, w2) = stop_rings (ms_service_rings s) st1 w1;
               any_ring_running = list_ex sr_running rings;
               st3 = (if \<not> any_ring_running then Stopped else st2) in
        (s\<lparr>ms_http_servers := hss, ms_service_rings := rings, ms_state := st3\<rparr>, w2))"

text \<open>
  \<^verbatim>\<open>~HttpServer()\<close> and its members' destructors: the rings, then the servers of the rings. \<^verbatim>\<open>~SingleRingHttpServer()\<close> stops, and frees a context it owns.
\<close>

definition hs_destroy :: "'rx http_server \<Rightarrow> host \<Rightarrow> ring \<Rightarrow> host \<times> ring" where
  "hs_destroy hs h w =
     (let (hs1, w1) = hs_stop hs w in
      (case hs_ssl_ctx hs1 of
         Some c \<Rightarrow> if hs_owns_ssl_ctx hs1 then (h\<lparr>ho_ctx_freed := ho_ctx_freed h @ [c]\<rparr>, w1) else (h, w1)
       | None \<Rightarrow> (h, w1)))"

fun destroy_rings :: "ServiceRing list \<Rightarrow> ServerState \<Rightarrow> ring \<Rightarrow> ServerState \<times> ring" where
  "destroy_rings [] st w = (st, w)"
| "destroy_rings (r # rest) st w = (let (st1, w1) = sr_destroy r st w in destroy_rings rest st1 w1)"

fun destroy_http_servers :: "'rx http_server list \<Rightarrow> host \<Rightarrow> ring \<Rightarrow> host \<times> ring" where
  "destroy_http_servers [] h w = (h, w)"
| "destroy_http_servers (hs # rest) h w = (let (h1, w1) = hs_destroy hs h w in destroy_http_servers rest h1 w1)"

definition HttpServer_destroy :: "'rx HttpServer \<Rightarrow> host \<Rightarrow> ring \<Rightarrow> host \<times> ring" where
  "HttpServer_destroy s h w =
     (let (s1, w1) = ms_stop s w; s2 = joinAllRings s1;
          h2 = (case ms_ssl_ctx s2 of None \<Rightarrow> h | Some c \<Rightarrow> h\<lparr>ho_ctx_freed := ho_ctx_freed h @ [c]\<rparr>);
          (_, w3) = destroy_rings (ms_service_rings s2) (ms_state s2) w1 in
      destroy_http_servers (ms_http_servers s2) h2 w3)"

section \<open>What the server owns\<close>

definition ring_fds :: "ServiceRing \<Rightarrow> int multiset" where
  "ring_fds r = server_fds (sr_server r)"

definition hs_fds :: "'rx http_server \<Rightarrow> int multiset" where
  "hs_fds hs = (if hs_running hs then {# hs_server_fd hs #} else {#})"

definition ms_fds :: "'rx HttpServer \<Rightarrow> int multiset" where
  "ms_fds s = sum_list (map ring_fds (ms_service_rings s)) + sum_list (map hs_fds (ms_http_servers s))"

text \<open>A ring has a usable stop channel if any; the server of a ring has its socket, and borrows the context it uses.\<close>

definition ring_ok :: "ServiceRing \<Rightarrow> bool" where
  "ring_ok r \<longleftrightarrow> stop_signal_ok (sr_server r)"

definition hs_ok :: "'rx http_server \<Rightarrow> bool" where
  "hs_ok hs \<longleftrightarrow> (hs_running hs \<longrightarrow> hs_server_fd hs \<ge> 0) \<and> (hs_ssl_ctx hs = None \<or> \<not> hs_owns_ssl_ctx hs)"

lemma ms_createServerSocket_eq: "ms_createServerSocket = createServerSocket"
proof -
  have "(\<not> port_isValid port) = (port < 0 \<or> port > 65535)" for port by (auto simp: port_isValid_def)
  then show ?thesis by (intro ext) (simp only: ms_createServerSocket_def createServerSocket_def)
qed

lemma sr_init_keeps:
  assumes "sr_init strerror (ServiceRing_new i cpu d n sz) pr w = (ok, r, pr', w')"
  shows "keeps F J m w (ring_fds r + F) J m w' \<and> ring_ok r \<and> \<not> sr_running r \<and> \<not> sr_joinable r"
proof -
  obtain res sv pr1 w1 where i: "Server_init strerror d n sz Server_new pr w = (res, sv, pr1, w1)" by (metis prod_cases4)
  from assms i have "r = (ServiceRing_new i cpu d n sz)\<lparr>sr_server := sv\<rparr>" "w' = w1"
    by (auto simp: sr_init_def ServiceRing_new_def split: sum.splits)
  with Server_init_keeps[OF i, of F J m] show ?thesis by (simp add: ring_fds_def ring_ok_def ServiceRing_new_def)
qed

lemma sr_stop_facts:
  "sr_stop r st w = (r', st', w') \<Longrightarrow> keeps F J m w F J m w' \<and> sr_server r' = sr_server r \<and> \<not> sr_running r' \<and> sr_joinable r' = sr_joinable r"
  using Server_stop_keeps by (auto simp: sr_stop_def Let_def split: if_splits prod.splits)

lemma sr_destroy_keeps:
  assumes "ring_ok r" "sr_destroy r st w = (st', w')"
  shows "keeps (ring_fds r + F) J m w F J m w'"
proof -
  obtain r1 st1 w1 where s: "sr_stop r st w = (r1, st1, w1)" by (metis prod_cases3)
  note f = sr_stop_facts[OF s, of "ring_fds r + F" J m]
  obtain calls st3 w3 where d: "Server_destroy (sr_server r) st1 w1 = (calls, st3, w3)" by (metis prod_cases3)
  have "sr_server (sr_join r1) = sr_server r" using f by (simp add: sr_join_def)
  then have "w' = w3" using assms(2) s d by (simp add: sr_destroy_def)
  with Server_destroy_keeps[OF d, of F J m] assms(1) f show ?thesis using keeps_trans by (fastforce simp: ring_fds_def ring_ok_def)
qed

lemma ring_http_server_facts:
  "hs_running (ring_http_server k fd s)" "hs_server_fd (ring_http_server k fd s) = fd"
  "hs_router (ring_http_server k fd s) = copy_routes (ms_router s)" "fd \<ge> 0 \<Longrightarrow> hs_ok (ring_http_server k fd s)"
  by (simp_all add: ring_http_server_def hs_listenOnFd_def installRingLocalHooks_def hs_setRouter_def hs_setKTLSContext_def
      SingleRingHttpServer_init_def hs_ok_def Let_def)

lemma hs_stop_facts:
  assumes "hs_ok hs" "hs_stop hs w = (hs', w')"
  shows "keeps (hs_fds hs + F) J m w F J m w' \<and> hs_ok hs' \<and> \<not> hs_running hs'"
proof (cases "hs_running hs")
  case True
  then have "w' = close_fd (hs_server_fd hs) w" "hs' = hs\<lparr>hs_running := False, hs_server_fd := - 1\<rparr>"
    using assms by (auto simp: hs_stop_def hs_ok_def Let_def split: if_splits)
  then show ?thesis using keeps_env(4)[of "hs_server_fd hs" F J m w] True assms(1) by (simp add: hs_fds_def hs_ok_def)
qed (use assms in \<open>simp add: hs_stop_def hs_fds_def\<close>)

lemma stop_http_servers_facts:
  assumes "list_all hs_ok hss" "stop_http_servers hss w = (hss', w')"
  shows "keeps (sum_list (map hs_fds hss) + F) J m w F J m w' \<and> list_all hs_ok hss' \<and> list_all (\<lambda>hs. \<not> hs_running hs) hss' \<and> length hss' = length hss"
  using assms
proof (induction hss arbitrary: hss' w w' F)
  case (Cons hs hss)
  obtain hs1 w1 where h: "hs_stop hs w = (hs1, w1)" by fastforce
  obtain rest1 w2 where r: "stop_http_servers hss w1 = (rest1, w2)" by fastforce
  from hs_stop_facts[OF _ h, of "sum_list (map hs_fds hss) + F" J m] Cons.IH[OF _ r, of F] Cons.prems h r
  show ?case by (auto simp: add.assoc intro: keeps_trans)
qed simp

lemma stop_rings_facts:
  assumes "stop_rings rs st w = (rs', st', w')"
  shows "keeps F J m w F J m w' \<and> map sr_server rs' = map sr_server rs \<and> list_all (\<lambda>r. \<not> sr_running r) rs' \<and> map sr_joinable rs' = map sr_joinable rs"
  using assms
proof (induction rs arbitrary: rs' st st' w w')
  case (Cons r rs)
  obtain r1 st1 w1 where h: "sr_stop r st w = (r1, st1, w1)" by (metis prod_cases3)
  obtain rest1 st2 w2 where q: "stop_rings rs st1 w1 = (rest1, st2, w2)" by (metis prod_cases3)
  from sr_stop_facts[OF h, of F J m] Cons.IH[OF q] Cons.prems h q show ?case by (auto intro: keeps_trans)
qed simp

lemma destroy_rings_keeps:
  assumes "list_all ring_ok rs" "destroy_rings rs st w = (st', w')"
  shows "keeps (sum_list (map ring_fds rs) + F) J m w F J m w'"
  using assms
proof (induction rs arbitrary: st w)
  case (Cons r rs)
  obtain st1 w1 where d: "sr_destroy r st w = (st1, w1)" by fastforce
  from sr_destroy_keeps[OF _ d, of "sum_list (map ring_fds rs) + F" J m] Cons.IH[of st1 w1] Cons.prems d
  show ?case by (auto simp: add.assoc intro: keeps_trans)
qed simp

lemma destroy_http_servers_facts:
  assumes "list_all hs_ok hss" "list_all (\<lambda>hs. \<not> hs_running hs) hss"
  shows "destroy_http_servers hss h w = (h, w)"
  using assms by (induction hss) (auto simp: hs_destroy_def hs_stop_def hs_ok_def split: option.splits)

text \<open>
  The invariant: what is open is what the server owns. While it is not stopped it has all its rings, each with its socket
  and with the routes that were registered.
\<close>

definition ms_ok :: "'rx HttpServer \<Rightarrow> bool" where
  "ms_ok s \<longleftrightarrow> list_all ring_ok (ms_service_rings s) \<and> list_all hs_ok (ms_http_servers s) \<and>
     length (ms_service_rings s) = length (ms_http_servers s)"

definition rings_served :: "'rx HttpServer \<Rightarrow> bool" where
  "rings_served s \<longleftrightarrow> length (ms_http_servers s) = nat (cfg_num_rings (ms_config s)) \<and>
     (\<forall>hs \<in> set (ms_http_servers s). hs_router hs = copy_routes (ms_router s))"

lemma start_rings_facts:
  assumes "start_rings_from strerror hw port k n i s pr w = Some (ok, s', pr', w')" "ms_ok s"
  shows "keeps (ms_fds s + F) J m w (ms_fds s' + F) J m w' \<and> ms_ok s' \<and> ms_config s' = ms_config s \<and> ms_router s' = ms_router s \<and>
    ms_ssl_ctx s' = ms_ssl_ctx s \<and> ms_state s' = ms_state s \<and>
    (ok \<longrightarrow> length (ms_http_servers s') = length (ms_http_servers s) + n \<and>
      (\<forall>hs \<in> set (ms_http_servers s'). hs \<in> set (ms_http_servers s) \<or> hs_running hs \<and> hs_router hs = copy_routes (ms_router s)))"
  using assms
proof (induction n arbitrary: i s pr w)
  case 0
  then show ?case by simp
next
  case (Suc n)
  let ?r = "ServiceRing_new (int i) (int (i mod hw)) (cfg_queue_depth (ms_config s)) (cfg_buffer_ring_count (ms_config s))
                     (ucast (cfg_buffer_size_bytes (ms_config s)))"
  obtain o1 r1 pr1 w1 where i: "sr_init strerror ?r pr w = (o1, r1, pr1, w1)" by (metis prod_cases4)
  obtain fd w2 where c: "createServerSocket port w1 = (fd, w2)" by fastforce
  note ik = sr_init_keeps[OF i] and ck = createServerSocket_keeps[OF c]
  have dk: "keeps (ring_fds r1 + G) J m u G J m (snd (sr_destroy r1 Running u))" for G u
    using sr_destroy_keeps[of r1 Running u] ik by (metis prod.collapse)
  let ?s1 = "s\<lparr>ms_service_rings := ms_service_rings s @ [r1\<lparr>sr_server := (sr_server r1)\<lparr>sv_shared_state := True\<rparr>\<rparr>],
                 ms_http_servers := ms_http_servers s @ [ring_http_server k fd s]\<rparr>"
  from Suc.prems(1) i c consider (noring) "\<not> o1" "ok = False" "s' = s" "w' = snd (sr_destroy r1 Running w1)"
    | (nosocket) "o1" "fd < 0" "ok = False" "s' = s" "w' = snd (sr_destroy r1 Running w2)"
    | (kept) "o1" "fd \<ge> 0" "start_rings_from strerror hw port k n (i + 1) ?s1 pr1 w2 = Some (ok, s', pr', w')"
    by (auto simp: ms_createServerSocket_eq Let_def split: if_splits)
  then show ?case
  proof cases
    case noring
    with ik dk[of "ms_fds s + F" w1] Suc.prems(2) show ?thesis by (auto intro: keeps_trans)
  next
    case nosocket
    have "keeps (ring_fds r1 + (ms_fds s + F)) J m w1 (ring_fds r1 + (ms_fds s + F)) J m w2"
      using ck[of "ring_fds r1 + (ms_fds s + F)" J m] nosocket(2) by simp
    from keeps_trans[OF conjunct1[OF ik] keeps_trans[OF this dk]] nosocket Suc.prems(2) show ?thesis by simp
  next
    case kept
    have r: "ring_fds (r1\<lparr>sr_server := (sr_server r1)\<lparr>sv_shared_state := True\<rparr>\<rparr>) = ring_fds r1"
      "ring_ok (r1\<lparr>sr_server := (sr_server r1)\<lparr>sv_shared_state := True\<rparr>\<rparr>) = ring_ok r1"
      by (simp_all add: ring_fds_def ring_ok_def server_fds_def stop_signal_ok_def)
    have f: "ms_fds ?s1 = add_mset fd (ring_fds r1 + ms_fds s)"
      by (simp add: ms_fds_def r hs_fds_def ring_http_server_facts ac_simps)
    have ok1: "ms_ok ?s1" using Suc.prems(2) ik r(2) kept(2) by (simp add: ms_ok_def ring_http_server_facts)
    have "keeps (ms_fds s + F) J m w (ms_fds ?s1 + F) J m w2"
      using ik[of "ms_fds s + F" J m] ck[of "ring_fds r1 + (ms_fds s + F)" J m] kept(2) unfolding f by (auto simp: add.assoc intro: keeps_trans)
    note k1 = this
    note ih = Suc.IH[OF kept(3) ok1]
    have "hs \<in> set (ms_http_servers s) \<or> hs_running hs \<and> hs_router hs = copy_routes (ms_router s)"
      if "ok" "hs \<in> set (ms_http_servers s')" for hs
    proof -
      have "hs \<in> set (ms_http_servers ?s1) \<or> hs_running hs \<and> hs_router hs = copy_routes (ms_router s)" using ih that by simp
      then show ?thesis by (auto simp: ring_http_server_facts)
    qed
    with ih k1 show ?thesis by (auto intro: keeps_trans)
  qed
qed

lemma start_rings_idle:
  assumes "start_rings_from strerror hw port k n i s pr w = Some (ok, s', pr', w')" "list_all (\<lambda>r. \<not> sr_running r) (ms_service_rings s)"
  shows "list_all (\<lambda>r. \<not> sr_running r) (ms_service_rings s')"
  using assms
proof (induction n arbitrary: i s pr w)
  case (Suc n)
  let ?r = "ServiceRing_new (int i) (int (i mod hw)) (cfg_queue_depth (ms_config s)) (cfg_buffer_ring_count (ms_config s))
                     (ucast (cfg_buffer_size_bytes (ms_config s)))"
  obtain o1 r1 pr1 w1 where i: "sr_init strerror ?r pr w = (o1, r1, pr1, w1)" by (metis prod_cases4)
  have "\<not> sr_running r1" using sr_init_keeps[OF i] by blast
  with Suc i show ?case by (auto simp: Let_def split: if_splits prod.splits)
qed simp

lemma startRings_facts:
  assumes "startRings strerror hw port k s h w = Some (ok, s', h', w')" "ms_ok s" "ms_http_servers s = []" "ms_state s = Stopped"
  shows "keeps (ms_fds s + F) J m w (ms_fds s' + F) J m w' \<and> ms_ok s' \<and> ms_ssl_ctx s' = ms_ssl_ctx s \<and>
    ms_state s' = (if ok then Running else Stopped) \<and> (ok \<longrightarrow> rings_served s') \<and> ho_ctx_made h' = ho_ctx_made h \<and> ho_ctx_freed h' = ho_ctx_freed h"
proof -
  obtain s1 pr1 where f: "start_rings_from strerror hw port k (nat (cfg_num_rings (ms_config s))) 0 s (ho_process h) w = Some (ok, s1, pr1, w')"
      "s' = (if ok then s1\<lparr>ms_state := Running\<rparr> else s1)" "h' = h\<lparr>ho_process := pr1\<rparr>"
    using assms(1) by (auto simp: startRings_def split: option.splits prod.splits)
  have u: "ms_fds (s1\<lparr>ms_state := Running\<rparr>) = ms_fds s1" "ms_ok (s1\<lparr>ms_state := Running\<rparr>) = ms_ok s1" by (simp_all add: ms_fds_def ms_ok_def)
  from start_rings_facts[OF f(1) assms(2), of F J m] f(2,3) assms(3,4) u show ?thesis by (auto simp: rings_served_def)
qed

lemma sum_list_0_mset: "(\<And>x. x \<in> set xs \<Longrightarrow> f x = {#}) \<Longrightarrow> sum_list (map f xs) = ({#} :: 'b multiset)"
  by (induction xs) auto

lemma ms_stop_facts:
  assumes "ms_ok s" "ms_stop s w = (s', w')"
  shows "keeps (ms_fds s + F) J m w (ms_fds s' + F) J m w' \<and> ms_ok s' \<and> ms_state s' = Stopped \<and> ms_ssl_ctx s' = ms_ssl_ctx s \<and>
    list_all (\<lambda>hs. \<not> hs_running hs) (ms_http_servers s') \<and> map sr_joinable (ms_service_rings s') = map sr_joinable (ms_service_rings s) \<and>
    map sr_server (ms_service_rings s') = map sr_server (ms_service_rings s)"
proof (cases "ms_state s = Stopped \<and> ms_service_rings s = []")
  case True
  then show ?thesis using assms by (auto simp: ms_stop_def Let_def ms_ok_def ms_fds_def)
next
  case False
  define st1 where "st1 = (if ms_state s = Running then Stopping else ms_state s)"
  obtain hss w1 where h: "stop_http_servers (ms_http_servers s) w = (hss, w1)" by fastforce
  obtain rs st2 w2 where r: "stop_rings (ms_service_rings s) st1 w1 = (rs, st2, w2)" by (metis prod_cases3)
  note rf = stop_rings_facts[OF r, of "sum_list (map ring_fds (ms_service_rings s)) + F" J m]
  then have "\<not> list_ex sr_running rs" by (auto simp: list_ex_iff list_all_iff)
  then have s': "s' = s\<lparr>ms_http_servers := hss, ms_service_rings := rs, ms_state := Stopped\<rparr>" "w' = w2"
    using assms(2) h r False by (auto simp: ms_stop_def st1_def[symmetric] Let_def) (auto simp: st1_def split: if_splits)
  have sv: "map sr_server rs = map sr_server (ms_service_rings s)" using rf by simp
  have "map ring_fds rs = map ring_fds (ms_service_rings s)" "list_all ring_ok rs = list_all ring_ok (ms_service_rings s)"
    using arg_cong[OF sv, of "map server_fds"] arg_cong[OF sv, of "list_all stop_signal_ok"]
    by (simp_all add: ring_fds_def[abs_def] ring_ok_def[abs_def] comp_def list.pred_map)
  moreover have hf: "keeps (sum_list (map hs_fds (ms_http_servers s)) + (sum_list (map ring_fds (ms_service_rings s)) + F)) J m w
      (sum_list (map ring_fds (ms_service_rings s)) + F) J m w1 \<and> list_all hs_ok hss \<and> list_all (\<lambda>hs. \<not> hs_running hs) hss \<and> length hss = length (ms_http_servers s)"
    using stop_http_servers_facts[OF _ h] assms(1) by (auto simp: ms_ok_def)
  moreover have "sum_list (map hs_fds hss) = {#}" using hf by (intro sum_list_0_mset) (auto simp: hs_fds_def list_all_iff)
  moreover have "length rs = length (ms_service_rings s)" using sv by (metis length_map)
  ultimately show ?thesis using rf assms(1) unfolding s' by (auto simp: ms_fds_def ms_ok_def ac_simps intro: keeps_trans)
qed

section \<open>The life of a server\<close>

text \<open>
  What can happen to a server between its constructor and its destructor, in any order: the calls of the application, and the stop of a single ring,
  which moves the shared state. \<^verbatim>\<open>run()\<close> returns when the rings' loops have ended, and they do not while the state is Running.
\<close>

inductive ms_step ::
  "(int \<Rightarrow> string) \<Rightarrow> nat \<Rightarrow> (string \<Rightarrow> 'rx option) \<Rightarrow> 'rx HttpServer \<times> host \<times> ring \<Rightarrow> 'rx HttpServer \<times> host \<times> ring \<Rightarrow> bool"
  for strerror hw regex where
  AddRoute: "ms_addRoute regex meth path hdl s = Some s' \<Longrightarrow> ms_step strerror hw regex (s, h, w) (s', h, w)"
| AddRouteWithCaptures: "ms_addRouteWithCaptures regex meth path hdlc s = Some s' \<Longrightarrow> ms_step strerror hw regex (s, h, w) (s', h, w)"
| Listen: "ms_listen strerror hw port s h w = Some (ok, s', h', w') \<Longrightarrow> ms_step strerror hw regex (s, h, w) (s', h', w')"
| ListenKTLS: "ms_listenKTLS strerror hw port s h w = Some (ok, s', h', w') \<Longrightarrow> ms_step strerror hw regex (s, h, w) (s', h', w')"
| RunStart: "ms_step strerror hw regex (s, h, w) (ms_run_start s, h, w)"
| RunFinish: "ms_state s \<noteq> Running \<Longrightarrow> ms_step strerror hw regex (s, h, w) (ms_run_finish s, h, w)"
| RingStop: "r \<in> set (ms_service_rings s) \<Longrightarrow> Server_stop (sr_server r) (ms_state s) w = (st', w') \<Longrightarrow>
     ms_step strerror hw regex (s, h, w) (s\<lparr>ms_state := st'\<rparr>, h, w')"
| Stop: "ms_stop s w = (s', w') \<Longrightarrow> ms_step strerror hw regex (s, h, w) (s', h, w')"

definition ms_inv :: "ring \<Rightarrow> host \<Rightarrow> 'rx HttpServer \<times> host \<times> ring \<Rightarrow> bool" where
  "ms_inv w0 h0 = (\<lambda>(s, h, w). keeps {#} {#} 0 w0 (ms_fds s) {#} 0 w \<and> ms_ok s \<and> (ms_state s \<noteq> Stopped \<longrightarrow> rings_served s) \<and>
     ho_ctx_freed h = ho_ctx_freed h0)"

lemma sr_run_facts: "ring_fds (sr_start r) = ring_fds r" "ring_ok (sr_start r) = ring_ok r" "ring_fds (sr_join r) = ring_fds r" "ring_ok (sr_join r) = ring_ok r"
  by (simp_all add: sr_start_def sr_join_def ring_fds_def ring_ok_def)

lemma ms_state_irrelevant: "ms_fds (s\<lparr>ms_state := st\<rparr>) = ms_fds s" "ms_ok (s\<lparr>ms_state := st\<rparr>) = ms_ok s" "rings_served (s\<lparr>ms_state := st\<rparr>) = rings_served s"
  "ms_fds (s\<lparr>ms_router := rt\<rparr>) = ms_fds s" "ms_ok (s\<lparr>ms_router := rt\<rparr>) = ms_ok s" "ms_fds (s\<lparr>ms_ssl_ctx := c\<rparr>) = ms_fds s" "ms_ok (s\<lparr>ms_ssl_ctx := c\<rparr>) = ms_ok s"
  by (simp_all add: ms_fds_def ms_ok_def rings_served_def)

lemma ms_map_rings:
  assumes "\<And>r. ring_fds (f r) = ring_fds r" "\<And>r. ring_ok (f r) = ring_ok r"
  shows "ms_fds (s\<lparr>ms_service_rings := map f (ms_service_rings s)\<rparr>) = ms_fds s" "ms_ok (s\<lparr>ms_service_rings := map f (ms_service_rings s)\<rparr>) = ms_ok s"
    "rings_served (s\<lparr>ms_service_rings := map f (ms_service_rings s)\<rparr>) = rings_served s"
  using assms by (simp_all add: ms_fds_def ms_ok_def rings_served_def comp_def list.pred_map)

lemma startRings_inv:
  assumes "startRings strerror hw port k s h w = Some (ok, s', h', w')" "ms_inv w0 h0 (s, h, w)" "canStartListening s"
  shows "ms_inv w0 h0 (s', h', w')"
proof -
  have "ms_http_servers s = []" "ms_state s = Stopped" "ms_ok s" using assms(2,3) by (auto simp: ms_inv_def ms_ok_def canStartListening_def)
  with startRings_facts[OF assms(1), of "{#}" "{#}" 0] assms(2) show ?thesis by (auto simp: ms_inv_def intro: keeps_trans split: if_splits)
qed

lemma ms_listenKTLS_inv:
  assumes l: "ms_listenKTLS strerror hw port s h w = Some (ok, s', h', w')" and inv: "ms_inv w0 h0 (s, h, w)"
  shows "ms_inv w0 h0 (s', h', w')"
proof (cases "canStartListening s")
  case True
  obtain c w1 where c: "createServerContext w = (c, w1)" by fastforce
  let ?s1 = "s\<lparr>ms_ssl_ctx := c\<rparr>"
  have can: "canStartListening ?s1" "ms_state s = Stopped" using True by (simp_all add: canStartListening_def)
  have i1: "ms_inv w0 h0 (?s1, h1, w1)" if "ho_ctx_freed h1 = ho_ctx_freed h" for h1
    using inv createServerContext_keeps[OF c, of "ms_fds s" "{#}" 0] that can(2) by (auto simp: ms_inv_def ms_state_irrelevant intro: keeps_trans)
  from l True c consider "c = None" "(s', h', w') = (?s1, h, w1)"
    | k where "c = Some k" "startRings strerror hw port True ?s1 (h\<lparr>ho_ctx_made := ho_ctx_made h @ [k]\<rparr>) w1 = Some (ok, s', h', w')"
    by (auto simp: ms_listenKTLS_def Let_def split: option.splits)
  then show ?thesis
  proof cases
    case 1
    then show ?thesis using i1[of h] by simp
  next
    case 2
    from startRings_inv[OF 2(2) i1 can(1)] show ?thesis by simp
  qed
qed (use assms in \<open>auto simp: ms_listenKTLS_def\<close>)

lemma ms_step_inv:
  assumes "ms_step strerror hw regex x y" "ms_inv w0 h0 x"
  shows "ms_inv w0 h0 y"
  using assms
proof cases
  case (AddRoute meth path hdl s s' h w)
  then show ?thesis using assms(2)
    by (auto simp: ms_addRoute_def ms_routesStillAccepted_def ms_inv_def ms_state_irrelevant split: if_splits option.splits)
next
  case (AddRouteWithCaptures meth path hdlc s s' h w)
  then show ?thesis using assms(2)
    by (auto simp: ms_addRouteWithCaptures_def ms_routesStillAccepted_def ms_inv_def ms_state_irrelevant split: if_splits option.splits)
next
  case (Listen port s h w ok s' h' w')
  then show ?thesis using assms(2) startRings_inv by (fastforce simp: ms_listen_def split: if_splits)
next
  case (ListenKTLS port s h w ok s' h' w')
  then show ?thesis using assms(2) ms_listenKTLS_inv by blast
next
  case (RunStart s h w)
  then show ?thesis using assms(2)
    by (auto simp: ms_run_start_def ms_inv_def ms_map_rings[where f = sr_start, OF sr_run_facts(1,2)])
next
  case (RunFinish s h w)
  then show ?thesis using assms(2)
    by (auto simp: ms_run_finish_def joinAllRings_def ms_inv_def ms_state_irrelevant ms_map_rings[where f = sr_join, OF sr_run_facts(3,4)])
next
  case (RingStop r s w st' w' h)
  have "keeps {#} {#} 0 w0 (ms_fds s) {#} 0 w'" using Server_stop_keeps[OF RingStop(4)] assms(2) unfolding RingStop(1) by (auto simp: ms_inv_def intro: keeps_trans)
  moreover have "st' \<noteq> Stopped \<Longrightarrow> ms_state s \<noteq> Stopped" using RingStop(4) by (auto simp: Server_stop_def Let_def split: option.splits if_splits)
  ultimately show ?thesis using assms(2) unfolding RingStop(1,2) by (auto simp: ms_inv_def ms_state_irrelevant)
next
  case (Stop s w s' w' h)
  then show ?thesis using assms(2) ms_stop_facts[OF _ Stop(3), of "{#}" "{#}" 0] by (auto simp: ms_inv_def intro: keeps_trans)
qed

interpretation multi: step_invariant "ms_step strerror hw regex" "ms_inv w0 h0" for strerror hw regex w0 h0
  by unfold_locales (rule ms_step_inv)

lemma HttpServer_destroy_facts:
  assumes "ms_ok s" "HttpServer_destroy s h w = (h', w')"
  shows "keeps (ms_fds s + F) J m w F J m w' \<and> h' = (case ms_ssl_ctx s of None \<Rightarrow> h | Some c \<Rightarrow> h\<lparr>ho_ctx_freed := ho_ctx_freed h @ [c]\<rparr>)"
proof -
  obtain s1 w1 where st: "ms_stop s w = (s1, w1)" by fastforce
  note sf = ms_stop_facts[OF assms(1) st, of F J m]
  let ?rs = "map sr_join (ms_service_rings s1)"
  obtain st3 w3 where d: "destroy_rings ?rs (ms_state s1) w1 = (st3, w3)" by fastforce
  have h0: "sum_list (map hs_fds (ms_http_servers s1)) = {#}" using sf by (intro sum_list_0_mset) (auto simp: hs_fds_def list_all_iff)
  have "list_all ring_ok ?rs" "sum_list (map ring_fds ?rs) = sum_list (map ring_fds (ms_service_rings s1))"
    using sf by (simp_all add: ms_ok_def list.pred_map comp_def sr_run_facts)
  with destroy_rings_keeps[OF _ d, of F J m] h0 have "keeps (ms_fds s1 + F) J m w1 F J m w3" by (simp add: ms_fds_def)
  with sf have k: "keeps (ms_fds s + F) J m w F J m w3" by (auto intro: keeps_trans)
  have "destroy_http_servers (ms_http_servers s1) hx w3 = (hx, w3)" for hx using sf by (intro destroy_http_servers_facts) (auto simp: ms_ok_def)
  with assms(2) st d have "w' = w3" "h' = (case ms_ssl_ctx s1 of None \<Rightarrow> h | Some c \<Rightarrow> h\<lparr>ho_ctx_freed := ho_ctx_freed h @ [c]\<rparr>)"
    by (auto simp: HttpServer_destroy_def joinAllRings_def Let_def split: option.splits)
  with k sf show ?thesis by simp
qed

lemma HttpServer_new_inv: "HttpServer_new hw cfg h0 = (Inr s0, h1) \<Longrightarrow> ms_inv w0 h0 (s0, h1, w0)"
  by (auto simp: HttpServer_new_def Let_def ms_inv_def ms_fds_def ms_ok_def split: option.splits)

lemma HttpServer_new_host: "HttpServer_new hw cfg h0 = (Inr s0, h1) \<Longrightarrow>
    ho_process h1 = ho_process h0 \<and> ho_ctx_made h1 = ho_ctx_made h0 \<and> ho_ctx_freed h1 = ho_ctx_freed h0"
  by (auto simp: HttpServer_new_def Let_def split: option.splits)

section \<open>Properties\<close>

text \<open>
  C34. The life of a multi-ring server. In every state it can be brought into, by any order of route registrations, listens that succeed or fail at any ring, runs, and stops, and whatever
  the system calls answer: while it is not stopped it has exactly the configured rings, each with the routes that were registered. And
  destroying it there closes every socket, ring and stop channel that was opened, each once, and frees its TLS context once.
\<close>

theorem multi_ring_lifecycle:
  assumes "HttpServer_new hw cfg h0 = (Inr s0, h1)" "(ms_step strerror hw regex)\<^sup>*\<^sup>* (s0, h1, w0) (s, h, w)"
    and "HttpServer_destroy s h w = (h', w')"
  shows "(ms_state s \<noteq> Stopped \<longrightarrow> length (ms_service_rings s) = nat (cfg_num_rings (ms_config s)) \<and>
      (\<forall>hs. hs \<in> set (ms_http_servers s) \<longrightarrow> hs_router hs = copy_routes (ms_router s))) \<and>
    keeps {#} {#} 0 w0 {#} {#} 0 w' \<and>
    ho_ctx_freed h' = ho_ctx_freed h0 @ (case ms_ssl_ctx s of None \<Rightarrow> [] | Some c \<Rightarrow> [c])"
proof -
  have i: "ms_inv w0 h0 (s, h, w)" by (rule multi.reachable[OF assms(2) HttpServer_new_inv[OF assms(1)]])
  then have "ms_ok s" by (simp add: ms_inv_def)
  from HttpServer_destroy_facts[OF this assms(3), of "{#}" "{#}" 0] i show ?thesis
    by (auto simp: ms_inv_def ms_ok_def rings_served_def intro: keeps_trans split: option.splits)
qed

text \<open>
  \<^verbatim>\<open>stop()\<close> hides the shutdown from the rings. \<^verbatim>\<open>HttpServer::stop\<close> always leaves the shared state at Stopped, also while ring threads still run, because \<^verbatim>\<open>ServiceRing::stop\<close> has
  cleared the flag it then looks at. The jobs of those rings ask whether the server is Stopping or Aborting, so they see no shutdown: a TLS handshake that completes
  then opens a connection, which the state Stopping would have refused.
\<close>

lemma stop_hides_shutdown:
  assumes "HttpServer_new hw cfg h0 = (Inr s0, h1)" "(ms_step strerror hw regex)\<^sup>*\<^sup>* (s0, h1, w0) (s, h, w)" "ms_stop s w = (s', w')"
  shows "ms_state s' = Stopped \<and> map sr_joinable (ms_service_rings s') = map sr_joinable (ms_service_rings s) \<and>
    (\<forall>u j. srv_state u = ms_state s' \<and> kj_ssl_initialized j \<and> fst (SSL_accept u) = None \<and> fst (enableKTLS (snd (SSL_accept u))) \<longrightarrow>
       \<not> isStopping u \<and> \<not> isAborting u \<and> fst (snd (snd (performHandshakeStep j u))) = OnComplete (kj_client_fd j) 0 \<and>
       fst (snd (snd (performHandshakeStep j (u\<lparr>srv_state := Stopping\<rparr>)))) = OnError (kj_client_fd j) (- ECANCELED))"
proof -
  have "ms_ok s" using multi.reachable[OF assms(2) HttpServer_new_inv[OF assms(1)]] by (simp add: ms_inv_def)
  from ms_stop_facts[OF this assms(3), of "{#}" "{#}" 0] show ?thesis
    by (auto simp: isStopping_def isAborting_def performHandshakeStep_def completeHandshake_def Let_def split: prod.splits option.splits)
qed

text \<open>
  A failed \<^verbatim>\<open>listenKTLS\<close> that is tried again leaks its context. When the first ring could not be set up, the server may listen again; the second attempt
  overwrites the context of the first, and the destructor frees only the second.
\<close>

lemma listenKTLS_retry_leaks_context:
  assumes "canStartListening s" "ms_ok s" "ms_listenKTLS strerror hw port s h w = Some (False, s1, h1, w1)" "ms_ssl_ctx s1 = Some c1" "ms_service_rings s1 = []"
    and "ms_listenKTLS strerror hw port' s1 h1 w1 = Some (ok, s2, h2, w2)" "ms_ssl_ctx s2 = Some c2" "HttpServer_destroy s2 h2 w2 = (h3, w3)"
  shows "ho_ctx_made h3 = ho_ctx_made h @ [c1, c2] \<and> ho_ctx_freed h3 = ho_ctx_freed h @ [c2]"
proof -
  have step: "ms_ok y \<and> ms_state y = (if b then Running else Stopped) \<and> ho_ctx_made g' = ho_ctx_made g @ [c] \<and> ho_ctx_freed g' = ho_ctx_freed g"
    if l: "ms_listenKTLS strerror hw p x g u = Some (b, y, g', u')" "canStartListening x" "ms_ok x" "ms_ssl_ctx y = Some c" for b p x y g g' u u' c
  proof -
    obtain k v where k: "createServerContext u = (k, v)" by fastforce
    from l(1,2) k consider "k = None" "ms_ssl_ctx y = None"
      | k' where "k = Some k'" "startRings strerror hw p True (x\<lparr>ms_ssl_ctx := k\<rparr>) (g\<lparr>ho_ctx_made := ho_ctx_made g @ [k']\<rparr>) v = Some (b, y, g', u')"
      by (auto simp: ms_listenKTLS_def Let_def split: option.splits)
    then show ?thesis
    proof cases
      case 2
      have "ms_http_servers x = []" "ms_state x = Stopped" using l(2,3) by (auto simp: canStartListening_def ms_ok_def)
      with startRings_facts[OF 2(2), of "{#}" "{#}" 0] l(3,4) 2(1) show ?thesis by (auto simp: ms_state_irrelevant)
    qed (use l(4) in simp)
  qed
  note s1 = step[OF assms(3,1,2,4)]
  then have "canStartListening s1" using assms(5) by (simp add: canStartListening_def)
  note s2 = step[OF assms(6) this _ assms(7)]
  from HttpServer_destroy_facts[OF _ assms(8), of "{#}" "{#}" 0] s1 s2 assms(7) show ?thesis by simp
qed


text \<open>
  Without a known number of cores nothing is served. When \<^verbatim>\<open>hardware_concurrency()\<close> is 0, a server told to use some rings divides by zero in its first listen, and one that is to detect the
  number has none: its listen reports success on any port, with no socket made.
\<close>

lemma no_hardware_concurrency:
  assumes "HttpServer_new 0 cfg h0 = (Inr s0, h1)"
  shows "ms_listen strerror 0 port s0 h w =
    (if cfg_num_rings cfg > 0 then None else Some (True, s0\<lparr>ms_state := Running\<rparr>, h, w)) \<and> ms_service_rings s0 = []"
proof -
  have s: "ms_service_rings s0 = []" "ms_state s0 = Stopped" "cfg_num_rings (ms_config s0) = (if cfg_num_rings cfg \<le> 0 then 0 else cfg_num_rings cfg)"
    using assms by (auto simp: HttpServer_new_def Let_def split: option.splits)
  show ?thesis
  proof (cases "cfg_num_rings cfg > 0")
    case True
    then obtain n where "nat (cfg_num_rings (ms_config s0)) = Suc n" using s(3) by (metis not_le gr0_conv_Suc zero_less_nat_eq)
    with s True show ?thesis by (simp add: ms_listen_def canStartListening_def startRings_def)
  next
    case False
    with s show ?thesis by (simp add: ms_listen_def canStartListening_def startRings_def)
  qed
qed

section \<open>Witnesses\<close>

text \<open>One ring on a machine with two cores; every call succeeds, and so the server listens and runs.\<close>

definition one_ring :: ServerConfig where
  "one_ring = ServerConfig_default\<lparr>cfg_num_rings := 1, cfg_buffer_ring_count := 1\<rparr>"

definition demo_host :: host where
  "demo_host = \<lparr>ho_process = demo_process, ho_capacity = (\<lambda>_. 1), ho_ctx_made = [], ho_ctx_freed = []\<rparr>"

definition demo_new :: "unit HttpServer" where
  "demo_new = \<lparr>ms_config = one_ring, ms_http_servers = [], ms_service_rings = [], ms_router = [], ms_ssl_ctx = None, ms_state = Stopped\<rparr>"

definition demo_host1 :: host where
  "demo_host1 = snd (HttpServer_new 2 one_ring demo_host :: (exn + unit HttpServer) \<times> host)"

definition good_ring :: ring where
  "good_ring = calm_ring\<lparr>ora := (\<lambda>n. if n = 10 then 1 else 0)\<rparr>"

lemma demo_new_ok: "HttpServer_new 2 one_ring demo_host = (Inr demo_new, demo_host1)"
proof -
  have "isValidBufferRingCount 1" by (simp add: isValidBufferRingCount_def MAX_BUFFER_RING_ENTRIES_def)
  then have "validate one_ring = None" by (simp add: validate_None one_ring_def ServerConfig_default_def isValidQueueDepth_def MAX_QUEUE_DEPTH_def)
  then show ?thesis unfolding demo_host1_def by (simp add: HttpServer_new_def demo_new_def one_ring_def Let_def)
qed

lemma demo_listen_ok:
  obtains s h w where "ms_listen (\<lambda>_. []) 2 8080 demo_new demo_host1 good_ring = Some (True, s, h, w)" "length (ms_service_rings s) = 1" "ms_state s = Running"
proof -
  have v: "isValidBufferRingCount 1" "isValidBufferSize 16384"
    by (simp_all add: isValidBufferRingCount_def MAX_BUFFER_RING_ENTRIES_def isValidBufferSize_def MAX_BUFFER_SIZE_def)
  have p: "ho_process demo_host1 = demo_process" using HttpServer_new_host[OF demo_new_ok] by (simp add: demo_host_def)
  have "\<exists>s h w. ms_listen (\<lambda>_. []) 2 8080 demo_new demo_host1 good_ring = Some (True, s, h, w) \<and> length (ms_service_rings s) = 1 \<and> ms_state s = Running"
    by (simp add: ms_listen_def canStartListening_def startRings_def demo_new_def one_ring_def ServerConfig_default_def p demo_process_def good_ring_def calm_ring_def
        sr_init_def ServiceRing_new_def Server_init_def v ignoreSigPipeOnce_def ask_def setupBufferRing_def BufferRingCoordinator_init_def EventFd_init_def open_fd_def
        ms_createServerSocket_def port_isValid_def Let_def)
  then show ?thesis using that by blast
qed

theorem multi_ring_lifecycle_witness:
  "\<exists>(s :: unit HttpServer) h w. ms_listen (\<lambda>_. []) 2 8080 demo_new demo_host1 good_ring = Some (True, s, h, w) \<and> length (ms_service_rings s) = 1 \<and>
     keeps {#} {#} 0 good_ring {#} {#} 0 (snd (HttpServer_destroy (ms_run_start s) h w))"
proof (rule demo_listen_ok)
  fix s :: "unit HttpServer" and h w
  assume l: "ms_listen (\<lambda>_. []) 2 8080 demo_new demo_host1 good_ring = Some (True, s, h, w)" "length (ms_service_rings s) = 1" "ms_state s = Running"
  have "ms_step (\<lambda>_. []) 2 (\<lambda>_. None) (demo_new, demo_host1, good_ring) (s, h, w)" by (rule Listen[OF l(1)])
  moreover have "ms_step (\<lambda>_. []) 2 (\<lambda>_. None) (s, h, w) (ms_run_start s, h, w)" by (rule RunStart)
  ultimately have "(ms_step (\<lambda>_. []) 2 (\<lambda>_. None))\<^sup>*\<^sup>* (demo_new, demo_host1, good_ring) (ms_run_start s, h, w)" by simp
  from multi_ring_lifecycle[OF demo_new_ok this prod.collapse[symmetric]] l show ?thesis by blast
qed


end
