(* ===== verification/Connection_End.thy ===== *)
theory Connection_End
  imports Connection_Balance
begin

text \<open>
  How a connection ends. When the kernel fails what it holds, which is what aborting a server and the
  shutdown sweep bring about, every connection comes to its end in a bounded number of completions, and
  then nothing of it is left.
\<close>

section \<open>A kernel that cancels everything\<close>

text \<open>
  \<^verbatim>\<open>abort()\<close> and the exit of the process end a connection by having the kernel fail what it holds. A failing step
  completes one of the connection's operations, any one, with ECANCELED.
\<close>

definition cancelled :: cqe where
  "cancelled = \<lparr>cqe_job = None, cqe_res = - ECANCELED, cqe_more = False, cqe_buf = 0\<rparr>"

inductive failing_step :: "app \<Rightarrow> nat \<Rightarrow> cworld \<Rightarrow> cworld \<Rightarrow> bool" for app cid where
  FailRecv: "(j, OpRecvMultishot fd) \<in># cw_kernel W \<Longrightarrow>
     http_recv_completion app \<lparr>mr_id = j, mr_fd = fd, mr_handler = \<lparr>rh_connection = cid\<rparr>\<rparr> cancelled None
       (cw_state W) (cw_ring W) = (clean, s', w1) \<Longrightarrow>
     failing_step app cid W (finish (j, OpRecvMultishot fd) False clean s' w1 W)"
| FailTimer: "(t, OpTimeout ms) \<in># cw_kernel W \<Longrightarrow>
     it_handleCompletion (IdleTimeoutJob_init t cid ms) cancelled (cw_state W) (cw_ring W) = (s', w1) \<Longrightarrow>
     failing_step app cid W (finish (t, OpTimeout ms) False True s' w1 W)"
| FailCancel: "(i, OpCancel u) \<in># cw_kernel W \<Longrightarrow>
     failing_step app cid W (finish (i, OpCancel u) False True (cw_state W) (cw_ring W) W)"
| FailResponse: "(j, op) \<in># cw_kernel W \<Longrightarrow> \<not> aux_op op \<Longrightarrow> cw_state W = Live c (Some r) \<Longrightarrow> resp_job r = j \<Longrightarrow>
     response_completion app c r cancelled (cw_ring W) = (s', w1) \<Longrightarrow>
     failing_step app cid W (finish (j, op) False False s' w1 W)"

lemma cancelled_simps [simp]: "cqe_res cancelled = - ECANCELED" "\<not> cqe_more cancelled" "cqe_res cancelled < 0" "cqe_res cancelled \<le> 0"
  by (simp_all add: cancelled_def ECANCELED_def)

lemma ECANCELED_pos [simp]: "0 < ECANCELED" "0 \<le> ECANCELED"
  by (simp_all add: ECANCELED_def)

lemma cancelled_kernel_ok: "resp_kernel_ok r cancelled"
proof (cases r)
  case (FileTransfer j child ka)
  then show ?thesis by (cases child) (simp_all add: sj_kernel_ok_def)
qed simp

lemma failing_is_step: "failing_step app cid W W' \<Longrightarrow> conn_step app cid W W'"
proof (induction rule: failing_step.induct)
  case (FailRecv j fd W clean s' w1)
  then show ?case using conn_step.Recv[of j fd W app cid cancelled None clean s' w1] by simp
next
  case (FailTimer t ms W s' w1)
  then show ?case using conn_step.Timer[of t ms W cancelled cid s' w1 app] by simp
next
  case (FailCancel i u W)
  then show ?case by (rule conn_step.Cancel)
next
  case (FailResponse j op W c r s' w1)
  then show ?case using conn_step.Response[OF FailResponse(1-4) cancelled_kernel_ok] by blast
qed

section \<open>Progress\<close>

text \<open>As long as the kernel holds an operation of the connection, it can be failed.\<close>

lemma failing_progress:
  assumes "world_ok cid fd w0 W" "cw_kernel W \<noteq> {#}"
  shows "\<exists>W'. failing_step app cid W W'"
proof -
  obtain j op where e: "(j, op) \<in># cw_kernel W" using assms(2) by (metis multiset_nonemptyE surj_pair)
  show ?thesis
  proof (cases "aux_op op")
    case True
    then consider (recv) f where "op = OpRecvMultishot f" | (timer) ms where "op = OpTimeout ms" | (cancel) u where "op = OpCancel u"
      by (cases op) auto
    then show ?thesis
    proof cases
      case recv
      with e show ?thesis using failing_step.FailRecv by (metis prod.collapse)
    next
      case timer
      with e show ?thesis using failing_step.FailTimer by (metis prod.collapse)
    next
      case cancel
      with e show ?thesis using failing_step.FailCancel by metis
    qed
  next
    case False
    with assms(1) e obtain c r where "cw_state W = Live c (Some r)" "resp_job r = j"
      by (cases "(cw_state W, cw_kernel W)" rule: traffic_ok.cases) (auto simp: world_ok_def)
    with e False show ?thesis using failing_step.FailResponse by (metis prod.collapse)
  qed
qed

text \<open>A connection that is alive has an operation in the kernel.\<close>

lemma live_has_operation:
  assumes "world_ok cid fd w0 W" "cw_state W = Live c child"
  shows "cw_kernel W \<noteq> {#}"
proof -
  have i: "conn_inv c child (cw_kernel W)" and t: "traffic_ok (Live c child) (cw_kernel W)"
    using assms by (simp_all add: world_ok_def)
  show ?thesis
  proof (cases child)
    case None
    with i show ?thesis by (cases "cn_close_pending c") (auto simp: conn_inv_def conn_base_def)
  next
    case (Some r)
    have "resp_inv r" using i Some by (simp add: conn_inv_def conn_base_def)
    then have "0 < resp_ops r" using child_ops_pos by (cases r) auto
    with t Some show ?thesis by auto
  qed
qed

section \<open>Termination\<close>

text \<open>
  What failing an operation can still put on the queue: one cancel for an armed timer, one for the
  receive, and one more pair of splices for a transfer that was about to be retried.
\<close>

definition idle_cost :: "conn \<Rightarrow> nat" where
  "idle_cost c = (if cn_active_idle_timeout_job c \<noteq> None \<and> \<not> cn_idle_cancel_pending c then 1 else 0)"

definition recv_cost :: "conn \<Rightarrow> nat" where
  "recv_cost c = (if cn_active_read_job c \<noteq> None \<and> \<not> cn_read_cancel_pending c then 1 else 0)"

fun retry_cost :: "response_child option \<Rightarrow> nat" where
  "retry_cost (Some (FileTransfer j (BodySplice sj) ka)) = (if sj_retry_pending sj then 2 else 0)"
| "retry_cost _ = 0"

fun potential :: "conn_state \<Rightarrow> nat" where
  "potential (Live c child) = idle_cost c + recv_cost c + retry_cost child"
| "potential Freed = 0"

definition remaining_work :: "cworld \<Rightarrow> nat" where
  "remaining_work W = size (cw_kernel W) + potential (cw_state W)"

text \<open>\<open>cheap\<close>: what a method queues is paid for by the potential.\<close>

definition cheap :: "conn_state \<Rightarrow> ring \<Rightarrow> conn_state \<Rightarrow> ring \<Rightarrow> bool" where
  "cheap s w s' w' \<longleftrightarrow> length (sq w') + potential s' \<le> length (sq w) + potential s"

lemma cheap_refl [simp]: "cheap s w s w"
  by (simp add: cheap_def)

lemma submit_cancel_cost: "submit_cancel t w = (ok, w') \<Longrightarrow> length (sq w') = length (sq w) + (if ok then 1 else 0)"
proof -
  assume a: "submit_cancel t w = (ok, w')"
  obtain r where r: "alloc_submit (\<lambda>_. OpCancel t) w = (r, w')" "ok \<longleftrightarrow> r \<noteq> None"
    using a by (auto simp: submit_cancel_alloc split: prod.splits)
  from alloc_submit_aux[OF r(1)] r(2) show ?thesis by (auto simp: aux_step_def split: option.splits)
qed

lemma idle_leg_cost:
  assumes "close_idle_leg c w = (c', w')"
  shows "length (sq w') + idle_cost c' \<le> length (sq w) + idle_cost c \<and> recv_cost c' = recv_cost c"
proof -
  obtain ok u where s: "submitIdleTimeoutCancel c w = (ok, u)" by fastforce
  from submit_cancel_cost[OF s[unfolded submitIdleTimeoutCancel_def]] assms s show ?thesis
    by (cases ok) (auto simp: close_idle_leg_def idle_cost_def recv_cost_def split: if_splits)
qed

lemma recv_leg_cost:
  assumes "close_recv_leg c w = (c', w')"
  shows "length (sq w') + recv_cost c' \<le> length (sq w) + recv_cost c \<and> idle_cost c' = idle_cost c"
proof -
  let ?c = "c\<lparr>cn_deferred_close_fd := cn_client_fd c, cn_client_fd := - 1\<rparr>"
  obtain ok u where s: "submitRecvCancel ?c w = (ok, u)" by fastforce
  from submit_cancel_cost[OF s[unfolded submitRecvCancel_def]] assms s show ?thesis
    by (cases ok) (auto simp: close_recv_leg_def idle_cost_def recv_cost_def Let_def split: if_splits)
qed

lemma close_cheap:
  assumes "closeConnection c child w = (s', w')"
  shows "cheap (Live c child) w s' w'"
proof (cases "cn_response_in_flight c")
  case True
  with assms show ?thesis by (auto simp: closeConnection_def cheap_def idle_cost_def recv_cost_def)
next
  case False
  let ?c = "c\<lparr>cn_close_pending := True\<rparr>"
  obtain c1 w1 where l1: "close_idle_leg ?c w = (c1, w1)" by fastforce
  obtain c2 w2 where l2: "close_recv_leg c1 w1 = (c2, w2)" by fastforce
  have "idle_cost ?c = idle_cost c" "recv_cost ?c = recv_cost c" by (simp_all add: idle_cost_def recv_cost_def)
  with idle_leg_cost[OF l1] recv_leg_cost[OF l2]
  have k: "length (sq w2) + idle_cost c2 + recv_cost c2 \<le> length (sq w) + idle_cost c + recv_cost c" by linarith
  from assms False l1 l2 have "s' = Live c2 child \<and> w' = w2 \<or> s' = Freed \<and> sq w' = sq w2"
    by (auto simp: closeConnection_def ring_simps Let_def split: if_splits)
  with k show ?thesis by (auto simp: cheap_def)
qed

lemma read_error_cheap: "rh_onError h err s w = (s', w') \<Longrightarrow> cheap s w s' w'"
proof (cases s)
  case (Live c child)
  assume a: "rh_onError h err s w = (s', w')"
  let ?c = "c\<lparr>cn_active_read_job := None\<rparr>"
  have p: "potential (Live ?c child) \<le> potential (Live c child)" by (simp add: idle_cost_def recv_cost_def)
  have "s' = s \<and> w' = w \<or> s' = Live ?c child \<and> w' = w \<or> closeConnection ?c child w = (s', w')"
    using a Live by (auto simp: rh_onError_def handleReadError_def Let_def split: if_splits)
  with close_cheap[of ?c child w s' w'] p Live show ?thesis by (auto simp: cheap_def)
qed (simp add: rh_onError_def)

lemma timer_cheap: "it_handleCompletion j ce s w = (s', w') \<Longrightarrow> cheap s w s' w'"
proof (cases s)
  case (Live c child)
  assume a: "it_handleCompletion j ce s w = (s', w')"
  let ?c = "c\<lparr>cn_active_idle_timeout_job := None\<rparr>"
  have p: "potential (Live ?c child) \<le> potential (Live c child)" by (simp add: idle_cost_def recv_cost_def)
  have "s' = s \<and> w' = w \<or> s' = Live ?c child \<and> w' = w \<or> closeConnection ?c child w = (s', w')"
    using a Live by (auto simp: it_handleCompletion_def handleIdleTimeout_def Let_def split: if_splits)
  with close_cheap[of ?c child w s' w'] p Live show ?thesis by (auto simp: cheap_def)
qed (simp add: it_handleCompletion_def)

text \<open>A response whose operation is cancelled reports an error, or waits for its other leg, or retries.\<close>

lemma cancelled_splice:
  assumes "sj_inv sj" "sj_handleCompletion sj cancelled w = (r, w')"
  shows "case r of
      Pending sj' \<Rightarrow> length (sq w') + (if sj_retry_pending sj' then 2 else 0) \<le> length (sq w) + (if sj_retry_pending sj then 2 else 0)
    | Cleanup cb \<Rightarrow> (\<exists>e. cb = sj_error_cb sj e) \<and> sq w' = sq w
    | Abandoned _ \<Rightarrow> False"
proof (cases "sj_pending_operations sj = 1 \<and> sj_retry_pending sj")
  case True
  let ?j = "sj\<lparr>sj_pending_operations := 0, sj_retry_pending := False\<rparr>"
  have "startLinkedSplice ?j w = (r, w')" "sj_remaining ?j > 0"
    using assms True by (simp_all add: sj_handleCompletion_def sj_failed_leg_def sj_inv_def Let_def)
  with True show ?thesis
    by (cases rule: startLinkedSplice_cases[of ?j w]) (auto simp: sj_error_cb_def)
next
  case False
  show ?thesis
  proof (cases "sj_pending_operations sj = 1")
    case True
    with False assms have "r = Cleanup (sj_error_cb sj (if sj_deferred_error sj \<noteq> 0 then sj_deferred_error sj else ECANCELED))" "w' = w"
      by (auto simp: sj_handleCompletion_def sj_failed_leg_def sj_error_cb_def Let_def)
    then show ?thesis by auto
  next
    case two: False
    with assms have "r = Pending (sj\<lparr>sj_pending_operations := sj_pending_operations sj - 1\<rparr>)" "w' = w"
      by (auto simp: sj_handleCompletion_def sj_failed_leg_def sj_inv_def Let_def)
    then show ?thesis by simp
  qed
qed

lemma cancelled_file:
  assumes "fj_inv j child" "fj_on_error j" "fj_child_completion j child cancelled w = (r, w')"
  shows "(\<exists>j' child'. r = FileRunning j' child' \<and>
      length (sq w') + retry_cost (Some (FileTransfer j' child' ka)) \<le> length (sq w) + retry_cost (Some (FileTransfer j child ka))) \<or>
    (\<exists>fd e. r = FileDone (OnError fd e) \<and> sq w' = sq w)"
proof (cases child)
  case (BodySplice sj)
  obtain r1 w1 where h: "sj_handleCompletion sj cancelled w = (r1, w1)" by fastforce
  have i: "sj_inv sj" "sj_on_error sj" using assms(1) BodySplice by simp_all
  note c = cancelled_splice[OF i(1) h]
  show ?thesis
  proof (cases r1)
    case (Pending sj')
    then have "r = FileRunning j (BodySplice sj')" "w' = w1" using assms(3) BodySplice h by (simp_all add: fj_child_completion_def)
    with c Pending BodySplice show ?thesis by auto
  next
    case (Cleanup cb)
    with c obtain e where "cb = sj_error_cb sj e" "sq w1 = sq w" by auto
    with assms(2,3) BodySplice h i Cleanup show ?thesis
      by (auto simp: fj_child_completion_def sj_error_cb_def fj_splice_callback_def fj_fail_def fj_tell_error_def sj_cleanup_def ring_simps Let_def)
  next
    case (Abandoned cb)
    with c show ?thesis by simp
  qed
qed (use assms in \<open>auto simp: fj_child_completion_def wj_handleCompletion_def fj_header_callback_def fj_error_callback_def
      fj_fail_def fj_tell_error_def ring_simps Let_def\<close>)

lemma failed_cheap: "response_failed c w = (s', w') \<Longrightarrow> length (sq w') + potential s' \<le> length (sq w) + idle_cost c + recv_cost c"
  using close_cheap[of "c\<lparr>cn_response_in_flight := False\<rparr>" None w s' w']
  by (simp add: response_failed_def cheap_def idle_cost_def recv_cost_def)

lemma response_cheap:
  assumes "resp_inv r" "response_completion app c r cancelled w = (s', w')"
  shows "cheap (Live c (Some r)) w s' w'"
proof (cases r)
  case (BodyWrite wj ka)
  obtain u where "response_failed c w = (s', u)" "w' = pool_free (wj_id wj) u"
    using assms BodyWrite by (auto simp: response_completion_def wj_handleCompletion_def response_callback_def split: prod.splits)
  with failed_cheap[of c w s' u] show ?thesis by (simp add: cheap_def ring_simps)
next
  case (FileTransfer j child ka)
  obtain r1 u where h: "fj_child_completion j child cancelled w = (r1, u)" by fastforce
  have i: "fj_inv j child" "fj_on_error j" using assms(1) FileTransfer by simp_all
  from cancelled_file[OF i h, of ka] show ?thesis
  proof (elim disjE exE conjE)
    fix j' child' assume r1: "r1 = FileRunning j' child'"
      and l: "length (sq u) + retry_cost (Some (FileTransfer j' child' ka)) \<le> length (sq w) + retry_cost (Some (FileTransfer j child ka))"
    have "s' = Live c (Some (FileTransfer j' child' ka))" "w' = u" using assms(2) FileTransfer h r1 by (simp_all add: response_completion_def)
    with l FileTransfer show ?thesis by (simp add: cheap_def)
  next
    fix fd e assume "r1 = FileDone (OnError fd e)" "sq u = sq w"
    moreover from this have "response_failed c u = (s', w')"
      using assms(2) FileTransfer h by (simp add: response_completion_def response_callback_def)
    ultimately show ?thesis using failed_cheap[of c u s' w'] by (simp add: cheap_def)
  qed
qed

lemma finish_work:
  assumes "e \<in># cw_kernel W" "cheap (cw_state W) (cw_ring W) s' w1" "balanced (cw_ring W) w1"
  shows "remaining_work (finish e False clean s' w1 W) < remaining_work W"
proof -
  obtain E where E: "sq w1 = sq (cw_ring W) @ E" using assms(3) by (auto simp: balanced_def)
  obtain K0 where "cw_kernel W = add_mset e K0" using assms(1) by (metis insert_DiffM)
  with E assms(2) show ?thesis by (simp add: remaining_work_def queued_append cheap_def)
qed

lemma failing_decreases:
  assumes "failing_step app cid W W'" "world_ok cid fd w0 W"
  shows "remaining_work W' < remaining_work W"
  using assms(1)
proof cases
  case (FailRecv j f clean s' w1)
  then have "rh_onError \<lparr>rh_connection = cid\<rparr> (- ECANCELED) (cw_state W) (cw_ring W) = (s', w1)"
    using recv_rejects[of cancelled None app] by simp
  then have "cheap (cw_state W) (cw_ring W) s' w1" by (rule read_error_cheap)
  with FailRecv balanced_recv[OF FailRecv(3)] show ?thesis by (auto intro: finish_work)
next
  case (FailTimer t ms s' w1)
  with timer_cheap[OF FailTimer(3)] balanced_callbacks(3)[OF FailTimer(3)] show ?thesis by (auto intro: finish_work)
next
  case (FailCancel i u)
  then show ?thesis by (auto intro: finish_work)
next
  case (FailResponse j op c r s' w1)
  have "resp_inv r" using assms(2) FailResponse(4) by (simp add: world_ok_def conn_inv_def conn_base_def)
  with response_cheap[OF _ FailResponse(6)] balanced_response[OF FailResponse(6)] FailResponse show ?thesis
    by (auto intro: finish_work)
qed

text \<open>So the failing steps come to an end, from every world of a connection.\<close>

interpretation failing: step_ending "failing_step app cid" "connection_run app ms fd w0 cid" remaining_work "\<lambda>W. cw_kernel W = {#}" for app cid ms fd w0
  by unfold_locales (blast intro: connection_run.Stepped failing_is_step failing_decreases run_ok failing_progress)+

section \<open>Properties\<close>

text \<open>
  C7. Cancelling ends a connection. From any world a connection can reach, if from now on the kernel fails every
  operation with ECANCELED, in any order, then at most \<open>remaining_work\<close> completions follow: those in the kernel now, and
  at most two cancels and one retried pair of splices. Such a run never gets stuck while the kernel holds an operation.
\<close>

theorem cancellation_terminates:
  assumes "connection_run app ms fd w0 cid W"
  shows "(\<forall>n W'. (failing_step app cid ^^ n) W W' \<longrightarrow> n \<le> remaining_work W \<and>
      (cw_kernel W' \<noteq> {#} \<longrightarrow> (\<exists>V. failing_step app cid W' V))) \<and>
    remaining_work W \<le> size (cw_kernel W) + 4"
proof -
  have p: "potential (cw_state W) \<le> 4"
  proof (cases "cw_state W")
    case (Live c child)
    have "retry_cost child \<le> 2" by (cases child rule: retry_cost.cases) auto
    with Live show ?thesis by (simp add: idle_cost_def recv_cost_def)
  qed simp
  have "n \<le> remaining_work W \<and> (cw_kernel W' \<noteq> {#} \<longrightarrow> (\<exists>V. failing_step app cid W' V))" if "(failing_step app cid ^^ n) W W'" for n W'
    using failing.bounded[OF that assms] failing.not_stuck by fastforce
  with p show ?thesis by (simp add: remaining_work_def)
qed


theorem cancellation_terminates_witness:
  "connection_run demo_app 5000 7 calm_ring 1 demo_world \<and> remaining_work demo_world \<le> 8 \<and>
   \<not> (\<exists>W'. (failing_step demo_app 1 ^^ 9) demo_world W')"
proof -
  obtain d where "cw_kernel demo_world = {# (2, OpRecvMultishot 7), (3, OpTimeout 5000), (4, OpCancel 3), (5, OpWrite 7 d) #}"
    using demo_in_kernel by blast
  then have s: "size (cw_kernel demo_world) = 4" by simp
  note t = cancellation_terminates[OF demo_runs, unfolded s]
  have "remaining_work demo_world \<le> 8" using t by simp
  moreover have "9 \<le> remaining_work demo_world" if "(failing_step demo_app 1 ^^ 9) demo_world W'" for W' using t that by blast
  ultimately show ?thesis using demo_runs by fastforce
qed


end
