(* ===== verification/Thread_Local_Pool.thy ===== *)
theory Thread_Local_Pool
  imports Cdv_Prelude
begin

text \<open>
  The slab allocator behind every job object: \<^verbatim>\<open>include/caduvelox/util/ThreadLocalPool.hpp\<close> and
  \<^verbatim>\<open>PoolManager.hpp\<close>. A pointer into the slab is a slot index, \<^verbatim>\<open>nullptr\<close> is None, and the slot is
  the source's union: either the link of the free list or the object. Reading the union member
  that is not there, or leaving the slab, is undefined behaviour in C++; the operations then
  return None, and the lemmas show that it does not happen to a client that frees what it was
  given. \<^verbatim>\<open>available\<close> walks the free list and would not return on a cyclic one, so it is a partial
  function; that it returns is a theorem.

  The locale \<open>object_pool\<close> is the contract the jobs rely on; it is interpreted on the slab below.
\<close>

section \<open>Definitions\<close>

datatype 'a Slot = Next "nat option" | Storage 'a

record 'a pool =
  pcapacity :: nat
  slab :: "'a Slot list"
  free_head :: "nat option"
  live :: "bool list"
  generations :: "u64 list"

text \<open>The constructor; \<open>alloc_ok\<close> says whether \<^verbatim>\<open>aligned_alloc\<close> returned memory.\<close>

definition ThreadLocalPool :: "bool \<Rightarrow> nat \<Rightarrow> 'a pool option" where
  "ThreadLocalPool alloc_ok capacity =
     (let p = \<lparr>pcapacity = capacity, slab = [], free_head = None,
               live = replicate capacity False, generations = replicate capacity 0\<rparr> in
      if capacity = 0 then Some p
      else if \<not> alloc_ok then None
      else Some (p\<lparr>slab := map (\<lambda>i. Next (Some (i + 1))) [0..<capacity - 1] @ [Next None],
                   free_head := Some 0\<rparr>))"

definition next_slot :: "'a Slot list \<Rightarrow> nat \<Rightarrow> nat option option" where
  "next_slot sl i = (if i < length sl then (case sl ! i of Next n \<Rightarrow> Some n | Storage _ \<Rightarrow> None) else None)"

definition pool_allocate :: "'a \<Rightarrow> 'a pool \<Rightarrow> (nat option \<times> 'a pool) option" where
  "pool_allocate obj p =
     (case free_head p of
        None \<Rightarrow> Some (None, p)
      | Some slot \<Rightarrow>
          (case next_slot (slab p) slot of
             None \<Rightarrow> None
           | Some nxt \<Rightarrow>
               Some (Some slot, p\<lparr>free_head := nxt, live := (live p)[slot := True],
                                  slab := (slab p)[slot := Storage obj]\<rparr>)))"

definition pool_deallocate :: "nat option \<Rightarrow> 'a pool \<Rightarrow> 'a pool option" where
  "pool_deallocate ptr p =
     (case ptr of
        None \<Rightarrow> Some p
      | Some index \<Rightarrow>
          if index < length (slab p) then
            (case slab p ! index of
               Next _ \<Rightarrow> None
             | Storage _ \<Rightarrow>
                 Some (p\<lparr>live := (live p)[index := False],
                         generations := (generations p)[index := generations p ! index + 1],
                         slab := (slab p)[index := Next (free_head p)],
                         free_head := Some index\<rparr>))
          else None)"

definition ownsPointer :: "nat option \<Rightarrow> 'a pool \<Rightarrow> bool" where
  "ownsPointer ptr p =
     (case ptr of None \<Rightarrow> False | Some i \<Rightarrow> if slab p = [] then False else i < pcapacity p)"

definition generationOf :: "nat option \<Rightarrow> 'a pool \<Rightarrow> u64 option" where
  "generationOf ptr p = (if ownsPointer ptr p then Some (generations p ! the ptr) else None)"

definition isLive :: "nat option \<Rightarrow> u64 \<Rightarrow> 'a pool \<Rightarrow> bool" where
  "isLive ptr generation p =
     (if \<not> ownsPointer ptr p then False
      else let index = the ptr in live p ! index \<and> generations p ! index = generation)"

text \<open>The sweep hands each live object to the callback, which may change it and the world \<open>s\<close>.\<close>

fun sweep_from :: "('a \<Rightarrow> 's \<Rightarrow> 'a \<times> 's) \<Rightarrow> nat list \<Rightarrow> 'a pool \<Rightarrow> 's \<Rightarrow> ('a pool \<times> 's) option" where
  "sweep_from callback [] p s = Some (p, s)"
| "sweep_from callback (i # is) p s =
     (if live p ! i then
        (case slab p ! i of
           Next _ \<Rightarrow> None
         | Storage obj \<Rightarrow>
             let (obj', s') = callback obj s in
             sweep_from callback is (p\<lparr>slab := (slab p)[i := Storage obj']\<rparr>) s')
      else sweep_from callback is p s)"

definition sweepLive :: "('a \<Rightarrow> 's \<Rightarrow> 'a \<times> 's) \<Rightarrow> 'a pool \<Rightarrow> 's \<Rightarrow> ('a pool \<times> 's) option" where
  "sweepLive callback p s = sweep_from callback [0..<pcapacity p] p s"

partial_function (option) count_free :: "'a Slot list \<Rightarrow> nat option \<Rightarrow> nat \<Rightarrow> nat option" where
  "count_free sl current count =
     (case current of
        None \<Rightarrow> Some count
      | Some i \<Rightarrow> (case next_slot sl i of None \<Rightarrow> None | Some nxt \<Rightarrow> count_free sl nxt (count + 1)))"

declare count_free.simps [code]

definition pool_available :: "'a pool \<Rightarrow> nat option" where
  "pool_available p = count_free (slab p) (free_head p) 0"

definition pool_allocated :: "'a pool \<Rightarrow> nat option" where
  "pool_allocated p = (case pool_available p of None \<Rightarrow> None | Some n \<Rightarrow> Some (pcapacity p - n))"

text \<open>The destructor: the objects it destroys, in order, and how many it reports as leaked.\<close>

fun destroy_from :: "nat list \<Rightarrow> 'a pool \<Rightarrow> 'a list \<Rightarrow> nat \<Rightarrow> ('a list \<times> nat) option" where
  "destroy_from [] p destroyed leaked = Some (destroyed, leaked)"
| "destroy_from (i # is) p destroyed leaked =
     (if live p ! i then
        (case slab p ! i of
           Next _ \<Rightarrow> None
         | Storage obj \<Rightarrow> destroy_from is p (destroyed @ [obj]) (leaked + 1))
      else destroy_from is p destroyed leaked)"

definition destroy_pool :: "'a pool \<Rightarrow> ('a list \<times> nat) option" where
  "destroy_pool p = (if slab p = [] then Some ([], 0) else destroy_from [0..<pcapacity p] p [] 0)"

text \<open>
  \<^verbatim>\<open>PoolManager\<close>: one pool per type and thread, built with the configured capacity on first use.
\<close>

record 'a tls_pool =
  config_capacity :: nat
  thread_pool :: "'a pool option"

definition getPool :: "bool \<Rightarrow> 'a tls_pool \<Rightarrow> ('a pool \<times> 'a tls_pool) option" where
  "getPool alloc_ok t =
     (case thread_pool t of
        Some p \<Rightarrow> Some (p, t)
      | None \<Rightarrow> (case ThreadLocalPool alloc_ok (config_capacity t) of
                   None \<Rightarrow> None
                 | Some p \<Rightarrow> Some (p, t\<lparr>thread_pool := Some p\<rparr>)))"

definition PoolManager_allocate :: "bool \<Rightarrow> 'a \<Rightarrow> 'a tls_pool \<Rightarrow> (nat option \<times> 'a tls_pool) option" where
  "PoolManager_allocate alloc_ok obj t =
     (case getPool alloc_ok t of
        None \<Rightarrow> None
      | Some (p, t') \<Rightarrow>
          (case pool_allocate obj p of
             None \<Rightarrow> None
           | Some (ptr, p') \<Rightarrow> Some (ptr, t'\<lparr>thread_pool := Some p'\<rparr>)))"

definition PoolManager_deallocate :: "bool \<Rightarrow> nat option \<Rightarrow> 'a tls_pool \<Rightarrow> 'a tls_pool option" where
  "PoolManager_deallocate alloc_ok ptr t =
     (case getPool alloc_ok t of
        None \<Rightarrow> None
      | Some (p, t') \<Rightarrow>
          (case pool_deallocate ptr p of
             None \<Rightarrow> None
           | Some p' \<Rightarrow> Some (t'\<lparr>thread_pool := Some p'\<rparr>)))"

definition PoolManager_isValid :: "bool \<Rightarrow> nat option \<Rightarrow> u64 \<Rightarrow> 'a tls_pool \<Rightarrow> bool option" where
  "PoolManager_isValid alloc_ok ptr gen t = map_option (\<lambda>(p, _). isLive ptr gen p) (getPool alloc_ok t)"

definition PoolManager_generation :: "bool \<Rightarrow> nat option \<Rightarrow> 'a tls_pool \<Rightarrow> u64 option" where
  "PoolManager_generation alloc_ok ptr t =
     (case getPool alloc_ok t of None \<Rightarrow> None | Some (p, _) \<Rightarrow> generationOf ptr p)"

definition setCapacity :: "nat \<Rightarrow> 'a tls_pool \<Rightarrow> 'a tls_pool option" where
  "setCapacity cap t = (if cap > 0 then Some (t\<lparr>config_capacity := cap\<rparr>) else None)"

section \<open>The contract of an object pool\<close>

datatype 'a pool_op = Alloc 'a | Dealloc nat

fun deallocs :: "nat \<Rightarrow> 'a pool_op list \<Rightarrow> nat" where
  "deallocs i [] = 0"
| "deallocs i (Alloc x # ops) = deallocs i ops"
| "deallocs i (Dealloc j # ops) = (if i = j then 1 else 0) + deallocs i ops"

locale object_pool =
  fixes alloc :: "'a \<Rightarrow> 'p \<Rightarrow> (nat option \<times> 'p) option"
    and dealloc :: "nat \<Rightarrow> 'p \<Rightarrow> 'p option"
    and objs :: "'p \<Rightarrow> nat \<Rightarrow> 'a option"
    and gen :: "'p \<Rightarrow> nat \<Rightarrow> u64"
    and inv :: "'p \<Rightarrow> bool"
  assumes alloc_total: "inv p \<Longrightarrow> \<exists>r. alloc x p = Some r"
    and alloc_fresh: "inv p \<Longrightarrow> alloc x p = Some (Some i, p') \<Longrightarrow>
          inv p' \<and> objs p i = None \<and> objs p' = (objs p)(i \<mapsto> x) \<and> gen p' = gen p"
    and alloc_full: "inv p \<Longrightarrow> alloc x p = Some (None, p') \<Longrightarrow> p' = p"
    and dealloc_defined: "inv p \<Longrightarrow> objs p i \<noteq> None \<Longrightarrow> \<exists>p'. dealloc i p = Some p'"
    and dealloc_frees: "inv p \<Longrightarrow> dealloc i p = Some p' \<Longrightarrow>
          inv p' \<and> objs p i \<noteq> None \<and> objs p' = (objs p)(i := None) \<and> gen p' = (gen p)(i := gen p i + 1)"
begin

fun step :: "'a pool_op \<Rightarrow> 'p \<Rightarrow> 'p option" where
  "step (Alloc x) p = (case alloc x p of None \<Rightarrow> None | Some (_, p') \<Rightarrow> Some p')"
| "step (Dealloc i) p = dealloc i p"

fun run :: "'a pool_op list \<Rightarrow> 'p \<Rightarrow> 'p option" where
  "run [] p = Some p"
| "run (op # ops) p = (case step op p of None \<Rightarrow> None | Some p' \<Rightarrow> run ops p')"

lemma step_gen:
  assumes "inv p" "step op p = Some p'"
  shows "inv p' \<and> (\<forall>i. gen p' i = gen p i + of_nat (deallocs i [op]))"
proof (cases op)
  case (Alloc x)
  with assms(2) obtain r where r: "alloc x p = Some (r, p')" by (auto split: option.splits)
  show ?thesis
  proof (cases r)
    case None
    with r alloc_full[OF assms(1)] assms(1) Alloc show ?thesis by auto
  next
    case (Some i)
    with alloc_fresh[OF assms(1), of x i p'] r Alloc show ?thesis by simp
  qed
next
  case (Dealloc j)
  with dealloc_frees[OF assms(1), of j p'] assms(2) show ?thesis by auto
qed

lemma deallocs_Cons: "deallocs i (op # ops) = deallocs i [op] + deallocs i ops"
  by (cases op) auto

lemma run_gen:
  "run ops p = Some p' \<Longrightarrow> inv p \<Longrightarrow> inv p' \<and> gen p' i = gen p i + of_nat (deallocs i ops)"
proof (induction ops arbitrary: p)
  case Nil
  then show ?case by simp
next
  case (Cons op ops)
  then obtain q where q: "step op p = Some q" "run ops q = Some p'" by (auto split: option.splits)
  have s: "inv q \<and> gen q i = gen p i + of_nat (deallocs i [op])" using step_gen[OF Cons.prems(2) q(1)] by simp
  with Cons.IH[OF q(2)] have "inv p' \<and> gen p' i = gen q i + of_nat (deallocs i ops)" by simp
  with s show ?case by (subst deallocs_Cons) (simp add: add.assoc)
qed

text \<open>A reference captured before its object was freed is never taken for a later object.\<close>

lemma stale_generation:
  assumes "inv p" "dealloc i p = Some q" "run ops q = Some r" "deallocs i ops < 2 ^ 64 - 1"
  shows "gen r i \<noteq> gen p i"
proof -
  have q: "inv q" "gen q i = gen p i + 1" using dealloc_frees[OF assms(1,2)] by simp_all
  have "gen r i = gen p i + of_nat (Suc (deallocs i ops))"
    using run_gen[OF assms(3) q(1), of i] q(2) by (simp add: add.assoc)
  moreover have "(of_nat (Suc (deallocs i ops)) :: u64) \<noteq> 0"
  proof
    assume "(of_nat (Suc (deallocs i ops)) :: u64) = 0"
    then have "unat (of_nat (Suc (deallocs i ops)) :: u64) = 0" by simp
    then show False using assms(4) by (simp add: unat_of_nat del: of_nat_Suc)
  qed
  ultimately show ?thesis by simp
qed

text \<open>An object nobody frees stays where it is, with its generation, whatever else happens.\<close>

lemma step_keeps:
  assumes "inv p" "step op p = Some p'" "objs p i = Some x" "deallocs i [op] = 0"
  shows "objs p' i = Some x"
proof (cases op)
  case (Alloc y)
  with assms(2) obtain r where r: "alloc y p = Some (r, p')" by (auto split: option.splits)
  show ?thesis
  proof (cases r)
    case None
    with r alloc_full[OF assms(1)] assms(3) show ?thesis by auto
  next
    case (Some j)
    with alloc_fresh[OF assms(1), of y j p'] r assms(3) show ?thesis by auto
  qed
next
  case (Dealloc j)
  with dealloc_frees[OF assms(1), of j p'] assms show ?thesis by (auto split: if_splits)
qed

lemma run_keeps:
  "run ops p = Some p' \<Longrightarrow> inv p \<Longrightarrow> objs p i = Some x \<Longrightarrow> deallocs i ops = 0 \<Longrightarrow> objs p' i = Some x"
proof (induction ops arbitrary: p)
  case Nil
  then show ?case by simp
next
  case (Cons op ops)
  then obtain q where q: "step op p = Some q" "run ops q = Some p'" by (auto split: option.splits)
  have z: "deallocs i [op] = 0" "deallocs i ops = 0"
    using Cons.prems(4) deallocs_Cons[of i op ops] by simp_all
  have "inv q" using step_gen[OF Cons.prems(2) q(1)] by simp
  with Cons.IH[OF q(2)] step_keeps[OF Cons.prems(2) q(1) Cons.prems(3) z(1)] z(2) show ?case by simp
qed

end

section \<open>The free list\<close>

fun free_chain :: "'a Slot list \<Rightarrow> nat option \<Rightarrow> nat list \<Rightarrow> bool" where
  "free_chain sl h [] \<longleftrightarrow> h = None"
| "free_chain sl h (i # is) \<longleftrightarrow> h = Some i \<and> (case next_slot sl i of None \<Rightarrow> False | Some n \<Rightarrow> free_chain sl n is)"

lemma free_chain_update:
  "i \<notin> set fl \<Longrightarrow> free_chain (sl[i := v]) h fl = free_chain sl h fl"
  by (induction sl h fl rule: free_chain.induct) (auto simp: next_slot_def split: option.splits)

lemma count_free_chain: "free_chain sl h fl \<Longrightarrow> count_free sl h n = Some (n + length fl)"
proof (induction sl h fl arbitrary: n rule: free_chain.induct)
  case (1 sl h)
  then show ?case by (subst count_free.simps) simp
next
  case (2 sl h i "is")
  then show ?case by (subst count_free.simps) (auto split: option.splits)
qed

lemma free_chain_range:
  assumes "a \<le> length sl" "\<forall>i < length sl. sl ! i = Next (if i + 1 < length sl then Some (i + 1) else None)"
  shows "free_chain sl (if a < length sl then Some a else None) [a..<length sl]"
  using assms(1)
proof (induction a rule: inc_induct)
  case base
  then show ?case by simp
next
  case (step a)
  have "next_slot sl a = Some (if Suc a < length sl then Some (Suc a) else None)"
    using assms(2) step(2) by (simp add: next_slot_def)
  with step show ?case by (simp add: upt_conv_Cons)
qed

section \<open>The invariant\<close>

definition free_list_ok :: "'a pool \<Rightarrow> nat list \<Rightarrow> bool" where
  "free_list_ok p fl \<longleftrightarrow> free_chain (slab p) (free_head p) fl \<and> distinct fl \<and>
     (\<forall>i. i \<in> set fl \<longleftrightarrow> i < pcapacity p \<and> \<not> live p ! i)"

definition pool_inv :: "'a pool \<Rightarrow> bool" where
  "pool_inv p \<longleftrightarrow> length (slab p) = pcapacity p \<and> length (live p) = pcapacity p \<and>
     length (generations p) = pcapacity p \<and>
     (\<forall>i < pcapacity p. live p ! i \<longleftrightarrow> (\<exists>x. slab p ! i = Storage x)) \<and> (\<exists>fl. free_list_ok p fl)"

definition objects :: "'a pool \<Rightarrow> nat \<Rightarrow> 'a option" where
  "objects p i = (if i < length (slab p) then (case slab p ! i of Storage x \<Rightarrow> Some x | Next _ \<Rightarrow> None) else None)"

definition gen_at :: "'a pool \<Rightarrow> nat \<Rightarrow> u64" where
  "gen_at p i = (if i < length (generations p) then generations p ! i else 0)"

lemma objects_live: "pool_inv p \<Longrightarrow> objects p i \<noteq> None \<longleftrightarrow> i < pcapacity p \<and> live p ! i"
  by (auto simp: pool_inv_def objects_def split: Slot.splits)

lemma new_pool_inv:
  assumes "ThreadLocalPool ok n = Some p"
  shows "pool_inv p \<and> pcapacity p = n \<and> objects p = (\<lambda>_. None)"
proof (cases "n = 0")
  case True
  with assms show ?thesis
    by (auto simp: ThreadLocalPool_def pool_inv_def free_list_ok_def objects_def intro!: exI[of _ "[]"])
next
  case False
  define sl :: "'a Slot list" where "sl = map (\<lambda>i. Next (Some (i + 1))) [0..<n - 1] @ [Next None]"
  have p: "p = \<lparr>pcapacity = n, slab = sl, free_head = Some 0, live = replicate n False, generations = replicate n 0\<rparr>"
    using assms False by (simp add: ThreadLocalPool_def sl_def split: if_splits)
  have len: "length sl = n" using False by (simp add: sl_def)
  have nth: "sl ! i = Next (if i + 1 < n then Some (i + 1) else None)" if "i < n" for i
    using that by (auto simp: nth_append sl_def)
  have "free_chain sl (if 0 < length sl then Some 0 else None) [0..<n]"
    using free_chain_range[of 0 sl] len nth by simp
  then have "free_list_ok p [0..<n]"
    using False len by (auto simp: free_list_ok_def p)
  moreover have "objects p = (\<lambda>_. None)" using nth len by (auto simp: objects_def p fun_eq_iff)
  ultimately show ?thesis using nth len False unfolding pool_inv_def p by auto
qed

lemma pool_allocate_cases:
  assumes "pool_inv p"
  obtains (full) "pool_allocate x p = Some (None, p)" "free_list_ok p []"
  | (slot) i fl nxt where "free_list_ok p (i # fl)" "i < pcapacity p" "slab p ! i = Next nxt"
      "pool_allocate x p = Some (Some i, p\<lparr>free_head := nxt, live := (live p)[i := True],
         slab := (slab p)[i := Storage x]\<rparr>)" "free_chain (slab p) nxt fl"
proof -
  from assms obtain fl where fl: "free_list_ok p fl" by (auto simp: pool_inv_def)
  show ?thesis
  proof (cases fl)
    case Nil
    with fl full show ?thesis by (simp add: free_list_ok_def pool_allocate_def)
  next
    case (Cons i js)
    with fl have "free_head p = Some i" "free_chain (slab p) (free_head p) (i # js)"
      by (simp_all add: free_list_ok_def)
    then obtain nxt where n: "next_slot (slab p) i = Some nxt" "free_chain (slab p) nxt js"
      by (auto split: option.splits)
    then have "i < pcapacity p" "slab p ! i = Next nxt"
      using assms by (auto simp: next_slot_def pool_inv_def split: if_splits Slot.splits)
    with fl Cons n \<open>free_head p = Some i\<close> slot[of i js nxt] show ?thesis by (simp add: pool_allocate_def)
  qed
qed

lemma pool_allocate_correct:
  assumes inv: "pool_inv p" and al: "pool_allocate x p = Some (Some i, p')"
  shows "pool_inv p' \<and> objects p i = None \<and> objects p' = (objects p)(i \<mapsto> x) \<and> gen_at p' = gen_at p"
  using inv
proof (cases rule: pool_allocate_cases[of p x])
  case full
  with al show ?thesis by simp
next
  case (slot j fl nxt)
  let ?q = "p\<lparr>free_head := nxt, live := (live p)[i := True], slab := (slab p)[i := Storage x]\<rparr>"
  from slot(4) al have ji: "j = i" and p': "p' = ?q" by auto
  have st: "\<forall>k < pcapacity p. live p ! k \<longleftrightarrow> (\<exists>y. slab p ! k = Storage y)"
    using inv by (simp add: pool_inv_def)
  have len: "length (slab p) = pcapacity p" "length (live p) = pcapacity p"
    using inv by (simp_all add: pool_inv_def)
  have fl: "i \<notin> set fl" "distinct fl" "\<And>k. k \<in> set (i # fl) \<longleftrightarrow> k < pcapacity p \<and> \<not> live p ! k"
    using slot(1) ji by (simp_all add: free_list_ok_def)
  have "k \<in> set fl \<longleftrightarrow> k < pcapacity p \<and> \<not> live ?q ! k" for k
    using fl(1) fl(3)[of k] slot(2) ji len by (cases "k = i") simp_all
  with fl(1,2) slot(5) have "free_list_ok ?q fl"
    by (simp add: free_list_ok_def free_chain_update)
  moreover have "live ?q ! k \<longleftrightarrow> (\<exists>y. slab ?q ! k = Storage y)" if "k < pcapacity p" for k
    using that st len by (cases "k = i") simp_all
  ultimately have "pool_inv ?q" using inv by (auto simp: pool_inv_def)
  moreover have "objects p i = None" using slot(2,3) ji by (simp add: objects_def)
  moreover have "objects ?q = (objects p)(i \<mapsto> x)"
    using slot(2) ji len by (auto simp: objects_def fun_eq_iff nth_list_update)
  moreover have "gen_at ?q = gen_at p" by (simp add: gen_at_def fun_eq_iff)
  ultimately show ?thesis by (simp add: p')
qed

lemma pool_deallocate_correct:
  assumes inv: "pool_inv p" and de: "pool_deallocate (Some i) p = Some p'"
  shows "pool_inv p' \<and> objects p i \<noteq> None \<and> objects p' = (objects p)(i := None) \<and>
    gen_at p' = (gen_at p)(i := gen_at p i + 1)"
proof -
  let ?q = "p\<lparr>live := (live p)[i := False], generations := (generations p)[i := generations p ! i + 1],
     slab := (slab p)[i := Next (free_head p)], free_head := Some i\<rparr>"
  from de obtain x where x: "i < length (slab p)" "slab p ! i = Storage x" "p' = ?q"
    by (auto simp: pool_deallocate_def split: if_splits Slot.splits)
  have st: "\<forall>k < pcapacity p. live p ! k \<longleftrightarrow> (\<exists>y. slab p ! k = Storage y)"
    using inv by (simp add: pool_inv_def)
  have len: "length (slab p) = pcapacity p" "length (live p) = pcapacity p" "length (generations p) = pcapacity p"
    using inv by (simp_all add: pool_inv_def)
  from inv obtain fl where fl: "free_list_ok p fl" by (auto simp: pool_inv_def)
  have "live p ! i" using inv x len by (auto simp: pool_inv_def)
  then have "i \<notin> set fl" using fl by (simp add: free_list_ok_def)
  then have "free_list_ok ?q (i # fl)"
    using fl x(1) len by (auto simp: free_list_ok_def free_chain_update next_slot_def nth_list_update)
  moreover have "live ?q ! k \<longleftrightarrow> (\<exists>y. slab ?q ! k = Storage y)" if "k < pcapacity p" for k
    using that st len by (cases "k = i") simp_all
  ultimately have "pool_inv ?q" using inv unfolding pool_inv_def by auto
  moreover have "objects p i \<noteq> None" using x by (simp add: objects_def)
  moreover have "objects ?q = (objects p)(i := None)"
    using x(1) len by (auto simp: objects_def fun_eq_iff nth_list_update)
  moreover have "gen_at ?q = (gen_at p)(i := gen_at p i + 1)"
    using x(1) len by (auto simp: gen_at_def fun_eq_iff nth_list_update)
  ultimately show ?thesis by (simp add: x(3))
qed

interpretation slab_pool: object_pool pool_allocate "\<lambda>i. pool_deallocate (Some i)" objects gen_at pool_inv
proof
  fix p :: "'a pool" and x i p'
  show "pool_inv p \<Longrightarrow> \<exists>r. pool_allocate x p = Some r" by (erule pool_allocate_cases[of p x]) auto
  show "pool_inv p \<Longrightarrow> pool_allocate x p = Some (Some i, p') \<Longrightarrow>
      pool_inv p' \<and> objects p i = None \<and> objects p' = (objects p)(i \<mapsto> x) \<and> gen_at p' = gen_at p"
    by (rule pool_allocate_correct)
  show "pool_inv p \<Longrightarrow> pool_allocate x p = Some (None, p') \<Longrightarrow> p' = p"
    by (erule pool_allocate_cases[of p x]) auto
  show "pool_inv p \<Longrightarrow> objects p i \<noteq> None \<Longrightarrow> \<exists>p'. pool_deallocate (Some i) p = Some p'"
    by (auto simp: objects_def pool_deallocate_def split: if_splits Slot.splits)
  show "pool_inv p \<Longrightarrow> pool_deallocate (Some i) p = Some p' \<Longrightarrow>
      pool_inv p' \<and> objects p i \<noteq> None \<and> objects p' = (objects p)(i := None) \<and>
      gen_at p' = (gen_at p)(i := gen_at p i + 1)"
    by (rule pool_deallocate_correct)
qed

lemma isLive_iff:
  "pool_inv p \<Longrightarrow> isLive (Some i) g p \<longleftrightarrow> objects p i \<noteq> None \<and> gen_at p i = g"
  unfolding objects_live by (auto simp: isLive_def ownsPointer_def gen_at_def pool_inv_def Let_def)

lemma pool_available_count:
  assumes "pool_inv p"
  shows "pool_available p = Some (card {i. i < pcapacity p \<and> \<not> live p ! i})"
proof -
  from assms obtain fl where fl: "free_list_ok p fl" by (auto simp: pool_inv_def)
  then have "set fl = {i. i < pcapacity p \<and> \<not> live p ! i}" "distinct fl"
    by (auto simp: free_list_ok_def)
  then have "length fl = card {i. i < pcapacity p \<and> \<not> live p ! i}" using distinct_card by metis
  with fl count_free_chain[of "slab p" "free_head p" fl 0] show ?thesis
    by (simp add: free_list_ok_def pool_available_def)
qed

lemma destroy_from_live:
  assumes "\<forall>i \<in> set is. live p ! i \<longrightarrow> (\<exists>x. slab p ! i = Storage x) \<and> i < length (slab p)"
  shows "destroy_from is p ds n =
    Some (ds @ map (\<lambda>i. the (objects p i)) (filter (\<lambda>i. live p ! i) is), n + length (filter (\<lambda>i. live p ! i) is))"
  using assms
  by (induction "is" p ds n rule: destroy_from.induct) (auto simp: objects_def)

lemma destroy_pool_live:
  assumes "pool_inv p"
  shows "destroy_pool p = Some (map (\<lambda>i. the (objects p i)) (filter (\<lambda>i. live p ! i) [0..<pcapacity p]),
    length (filter (\<lambda>i. live p ! i) [0..<pcapacity p]))"
proof (cases "slab p = []")
  case True
  with assms show ?thesis by (simp add: destroy_pool_def pool_inv_def)
next
  case False
  have "\<forall>i \<in> set [0..<pcapacity p]. live p ! i \<longrightarrow> (\<exists>x. slab p ! i = Storage x) \<and> i < length (slab p)"
    using assms by (auto simp: pool_inv_def)
  from destroy_from_live[OF this, of "[]" 0] False show ?thesis by (simp add: destroy_pool_def)
qed

lemma dom_objects: "pool_inv p \<Longrightarrow> dom (objects p) = {i. i < pcapacity p \<and> live p ! i}"
  using objects_live[of p] by (auto simp: dom_def)

lemma live_free_card:
  assumes "pool_inv p"
  shows "card {i. i < pcapacity p \<and> \<not> live p ! i} + card (dom (objects p)) = pcapacity p"
proof -
  have "{i. i < pcapacity p \<and> \<not> live p ! i} \<union> dom (objects p) = {..<pcapacity p}"
    "{i. i < pcapacity p \<and> \<not> live p ! i} \<inter> dom (objects p) = {}"
    using dom_objects[OF assms] by auto
  moreover have "finite {i. i < pcapacity p \<and> \<not> live p ! i}" "finite (dom (objects p))"
    using dom_objects[OF assms] by simp_all
  ultimately show ?thesis by (metis card_Un_disjoint card_lessThan)
qed

lemma pool_full_iff:
  assumes "pool_inv p"
  shows "fst (the (pool_allocate x p)) = None \<longleftrightarrow> card (dom (objects p)) = pcapacity p"
proof -
  have fin: "finite {i. i < pcapacity p \<and> \<not> live p ! i}" by simp
  show ?thesis
    using assms
  proof (cases rule: pool_allocate_cases[of p x])
    case full
    then have "{i. i < pcapacity p \<and> \<not> live p ! i} = {}" by (auto simp: free_list_ok_def)
    then have "card {i. i < pcapacity p \<and> \<not> live p ! i} = 0" by simp
    with full live_free_card[OF assms] show ?thesis by simp
  next
    case (slot i fl nxt)
    then have "i \<in> {i. i < pcapacity p \<and> \<not> live p ! i}" by (auto simp: free_list_ok_def)
    then have "card {i. i < pcapacity p \<and> \<not> live p ! i} > 0" using fin card_gt_0_iff by blast
    with live_free_card[OF assms] have "card (dom (objects p)) \<noteq> pcapacity p" by linarith
    with slot show ?thesis by simp
  qed
qed

lemma reachable_pool_inv:
  assumes "ThreadLocalPool ok n = Some p" "slab_pool.run ops p = Some q"
  shows "pool_inv q"
  using slab_pool.run_gen[OF assms(2)] new_pool_inv[OF assms(1)] by blast

lemma run_capacity: "slab_pool.run ops p = Some q \<Longrightarrow> pcapacity q = pcapacity p"
proof (induction ops arbitrary: p)
  case Nil
  then show ?case by simp
next
  case (Cons op ops)
  then obtain r where r: "slab_pool.step op p = Some r" "slab_pool.run ops r = Some q"
    by (auto split: option.splits)
  have "pcapacity r = pcapacity p"
    using r(1) by (cases op) (auto simp: pool_allocate_def pool_deallocate_def split: option.splits if_splits Slot.splits)
  with Cons.IH[OF r(2)] show ?case by simp
qed

lemma reachable_capacity:
  assumes "ThreadLocalPool ok n = Some p" "slab_pool.run ops p = Some q"
  shows "pcapacity q = n"
  using run_capacity[OF assms(2)] new_pool_inv[OF assms(1)] by simp

section \<open>Properties\<close>

text \<open>
  C24. A stale reference is never honoured. Once the object of a slot has been freed, a pointer and
  generation captured before are rejected by isLive after any further sequence of allocations and
  deallocations, recycling of the slot included, until the 64-bit generation has gone all the way
  round.
\<close>

theorem stale_reference_rejected:
  assumes "pool_inv p" "isLive (Some i) g p" "pool_deallocate (Some i) p = Some q"
    and "slab_pool.run ops q = Some r" "deallocs i ops < 2 ^ 64 - 1"
  shows "\<not> isLive (Some i) g r"
proof -
  have "gen_at p i = g" using assms(1,2) by (simp add: isLive_iff)
  moreover have "gen_at r i \<noteq> gen_at p i"
    using assms(1,3,4,5) by (rule slab_pool.stale_generation)
  moreover have "pool_inv q" using assms(1,3) pool_deallocate_correct by blast
  then have "pool_inv r" using slab_pool.run_gen[OF assms(4)] by blast
  ultimately show ?thesis by (simp add: isLive_iff)
qed

definition two_slots :: "nat pool" where
  "two_slots = \<lparr>pcapacity = 2, slab = [Storage 7, Next None], free_head = Some 1,
     live = [True, False], generations = [0, 0]\<rparr>"

lemma two_slots_inv: "pool_inv two_slots"
proof -
  have "ThreadLocalPool True 2 = Some \<lparr>pcapacity = 2, slab = [Next (Some 1), Next None] :: nat Slot list,
      free_head = Some 0, live = [False, False], generations = [0, 0]\<rparr>"
    by (simp add: ThreadLocalPool_def numeral_2_eq_2)
  moreover have "slab_pool.run [Alloc (7 :: nat)] \<lparr>pcapacity = 2, slab = [Next (Some 1), Next None],
      free_head = Some 0, live = [False, False], generations = [0, 0]\<rparr> = Some two_slots"
    by (simp add: pool_allocate_def next_slot_def two_slots_def)
  ultimately show ?thesis by (rule reachable_pool_inv)
qed

theorem stale_reference_rejected_witness:
  "\<exists>q r. pool_deallocate (Some 0) two_slots = Some q \<and> slab_pool.run [Alloc 9] q = Some r \<and>
     objects r 0 = Some 9 \<and> \<not> isLive (Some 0) 0 r"
proof -
  obtain q where q: "pool_deallocate (Some 0) two_slots = Some q"
    "q = \<lparr>pcapacity = 2, slab = [Next (Some 1), Next None], free_head = Some 0,
       live = [False, False], generations = [1, 0]\<rparr>"
    by (simp add: pool_deallocate_def two_slots_def)
  obtain r where r: "slab_pool.run [Alloc 9] q = Some r" "objects r 0 = Some 9"
    by (simp add: q(2) pool_allocate_def next_slot_def objects_def)
  have "isLive (Some 0) 0 two_slots" by (simp add: isLive_def ownsPointer_def two_slots_def)
  from stale_reference_rejected[OF two_slots_inv this q(1) r(1)] q r show ?thesis by auto
qed

text \<open>
  A live object is left alone. As long as nobody frees it, any sequence of pool operations keeps
  it in its slot unchanged, and the reference captured for it stays valid; in particular no
  allocation ever hands out its slot.
\<close>

lemma live_reference_kept:
  assumes "pool_inv p" "isLive (Some i) g p" "objects p i = Some x"
    and "slab_pool.run ops p = Some r" "deallocs i ops = 0"
  shows "isLive (Some i) g r \<and> objects r i = Some x"
proof -
  have "objects r i = Some x" using assms(4,1,3,5) by (rule slab_pool.run_keeps)
  moreover have "pool_inv r \<and> gen_at r i = gen_at p i"
    using slab_pool.run_gen[OF assms(4,1), of i] assms(5) by simp
  ultimately show ?thesis using assms(1,2) by (simp add: isLive_iff)
qed

text \<open>
  C25. The pool never loses or duplicates a slot. After any sequence of operations on a new pool of
  n slots, the walk along the free list ends and counts the slots that hold no object, the free
  and the allocated slots add up to n, allocation fails only when all n are in use, and the
  destructor destroys each object still live exactly once.
\<close>

theorem pool_accounting:
  assumes "ThreadLocalPool ok n = Some p" "slab_pool.run ops p = Some q"
  shows "\<exists>a. pool_available q = Some a \<and> pool_allocated q = Some (card (dom (objects q))) \<and>
     a + card (dom (objects q)) = n \<and>
     (fst (the (pool_allocate x q)) = None \<longleftrightarrow> card (dom (objects q)) = n) \<and>
     (\<exists>ds. destroy_pool q = Some (ds, card (dom (objects q))) \<and> length ds = card (dom (objects q)))"
proof -
  have inv: "pool_inv q" using assms(1,2) by (rule reachable_pool_inv)
  let ?free = "card {i. i < pcapacity q \<and> \<not> live q ! i}"
  have "dom (objects q) = set (filter (\<lambda>i. live q ! i) [0..<pcapacity q])"
    using dom_objects[OF inv] by auto
  then have "card (dom (objects q)) = length (filter (\<lambda>i. live q ! i) [0..<pcapacity q])"
    using distinct_card[of "filter (\<lambda>i. live q ! i) [0..<pcapacity q]"] by simp
  moreover have "pcapacity q = n" using assms by (rule reachable_capacity)
  moreover note pool_available_count[OF inv] live_free_card[OF inv] pool_full_iff[OF inv, of x] destroy_pool_live[OF inv]
  ultimately show ?thesis by (intro exI[of _ ?free]) (auto simp: pool_allocated_def)
qed

theorem pool_accounting_witness:
  "\<exists>a. pool_available (\<lparr>pcapacity = 1, slab = [Next None], free_head = Some 0, live = [False],
      generations = [0]\<rparr> :: nat pool) = Some a \<and> a + card (dom (objects (\<lparr>pcapacity = 1, slab = [Next None], free_head = Some 0,
      live = [False], generations = [0]\<rparr> :: nat pool))) = 1"
proof -
  let ?p = "\<lparr>pcapacity = 1, slab = [Next None], free_head = Some 0, live = [False], generations = [0]\<rparr> :: nat pool"
  have "ThreadLocalPool True 1 = Some ?p" by (simp add: ThreadLocalPool_def)
  from pool_accounting[OF this, of "[]" ?p] show ?thesis by auto
qed

end
