(* ===== verification/Worker_Pool.thy ===== *)
theory Worker_Pool
  imports Step_Systems "HOL-Library.Multiset"
begin

text \<open>
  The thread pool, \<^verbatim>\<open>src/threading/SimpleWorkerPool.cpp\<close>: a queue of tasks behind a mutex, a condition variable, and workers that take the tasks. The functions below are the
  critical sections; a step relation interleaves them with the notifications, which come after the mutex is released, with wake-ups for no reason, and with the tasks, which are assumed
  to return. A task is \<open>None\<close> when an empty \<^verbatim>\<open>std::function\<close> was posted.
\<close>

section \<open>The pool\<close>

datatype 'a worker_state = AtLock | Waiting | Running 'a | Exited

record 'a SimpleWorkerPool =
  wp_tasks :: "'a option list"
  wp_stop :: bool
  wp_workers :: "'a worker_state list"
  wp_joined :: "bool list"

definition SimpleWorkerPool_new :: "nat \<Rightarrow> 'a SimpleWorkerPool" where
  "SimpleWorkerPool_new n = \<lparr>wp_tasks = [], wp_stop = False, wp_workers = replicate n AtLock, wp_joined = replicate n False\<rparr>"

text \<open>Whether \<^verbatim>\<open>post\<close> took the task, and so will notify.\<close>

definition pool_post :: "'a option \<Rightarrow> 'a SimpleWorkerPool \<Rightarrow> bool \<times> 'a SimpleWorkerPool" where
  "pool_post task p = (if wp_stop p then (False, p) else (True, p\<lparr>wp_tasks := wp_tasks p @ [task]\<rparr>))"

text \<open>A worker holding the mutex, from the test of the condition on: its next state, and the task it took.\<close>

definition wait_over :: "'a SimpleWorkerPool \<Rightarrow> bool" where
  "wait_over p \<longleftrightarrow> wp_stop p \<or> wp_tasks p \<noteq> []"

definition worker_section :: "'a SimpleWorkerPool \<Rightarrow> 'a worker_state \<times> 'a option list" where
  "worker_section p =
     (if \<not> wait_over p then (Waiting, wp_tasks p)
      else if wp_stop p \<and> wp_tasks p = [] then (Exited, wp_tasks p)
      else (case wp_tasks p of [] \<Rightarrow> (AtLock, []) | None # ts \<Rightarrow> (AtLock, ts) | Some task # ts \<Rightarrow> (Running task, ts)))"

fun woken :: "'a worker_state \<Rightarrow> 'a worker_state" where
  "woken Waiting = AtLock"
| "woken w = w"

definition set_worker :: "nat \<Rightarrow> 'a worker_state \<Rightarrow> 'a SimpleWorkerPool \<Rightarrow> 'a SimpleWorkerPool" where
  "set_worker i w p = p\<lparr>wp_workers := (wp_workers p)[i := w]\<rparr>"

section \<open>All threads together\<close>

text \<open>
  \<open>y_notify\<close> counts the posters between their critical section and their \<^verbatim>\<open>notify_one\<close>; \<open>y_closing\<close> says where \<^verbatim>\<open>shutdown\<close> is. For the statements, \<open>y_accepted\<close> are the tasks
  \<^verbatim>\<open>post\<close> took, \<open>y_started\<close> and \<open>y_finished\<close> those run, in these orders.
\<close>

datatype closing = Open | NotifyAll | Joining

record 'a pool_sys =
  y_pool :: "'a SimpleWorkerPool"
  y_notify :: nat
  y_closing :: closing
  y_accepted :: "'a option list"
  y_started :: "'a list"
  y_finished :: "'a list"

definition pool_sys_init :: "nat \<Rightarrow> 'a pool_sys" where
  "pool_sys_init n = \<lparr>y_pool = SimpleWorkerPool_new n, y_notify = 0, y_closing = Open, y_accepted = [], y_started = [], y_finished = []\<rparr>"

abbreviation "workers s \<equiv> wp_workers (y_pool s)"
abbreviation "tasks s \<equiv> wp_tasks (y_pool s)"
abbreviation "stopped s \<equiv> wp_stop (y_pool s)"

inductive post_step :: "'a pool_sys \<Rightarrow> 'a pool_sys \<Rightarrow> bool" where
  Post: "pool_post task (y_pool s) = (True, p) \<Longrightarrow> post_step s (s\<lparr>y_pool := p, y_notify := y_notify s + 1, y_accepted := y_accepted s @ [task]\<rparr>)"
| PostRefused: "pool_post task (y_pool s) = (False, p) \<Longrightarrow> post_step s (s\<lparr>y_pool := p\<rparr>)"
| Shutdown: "y_closing s = Open \<Longrightarrow> post_step s (s\<lparr>y_pool := (y_pool s)\<lparr>wp_stop := True\<rparr>, y_closing := NotifyAll\<rparr>)"

text \<open>The steps of the pool itself: \<^verbatim>\<open>notify_one\<close> that wakes a waiter or finds none, the workers, and the rest of \<^verbatim>\<open>shutdown\<close>.\<close>

inductive run_step :: "'a pool_sys \<Rightarrow> 'a pool_sys \<Rightarrow> bool" where
  NotifyOne: "y_notify s = Suc n \<Longrightarrow> i < length (workers s) \<Longrightarrow> workers s ! i = Waiting \<Longrightarrow>
     run_step s (s\<lparr>y_notify := n, y_pool := set_worker i AtLock (y_pool s)\<rparr>)"
| NotifyNone: "y_notify s = Suc n \<Longrightarrow> Waiting \<notin> set (workers s) \<Longrightarrow> run_step s (s\<lparr>y_notify := n\<rparr>)"
| NotifyEveryone: "y_closing s = NotifyAll \<Longrightarrow>
     run_step s (s\<lparr>y_closing := Joining, y_pool := (y_pool s)\<lparr>wp_workers := map woken (workers s)\<rparr>\<rparr>)"
| Section: "i < length (workers s) \<Longrightarrow> workers s ! i = AtLock \<Longrightarrow> worker_section (y_pool s) = (w, ts) \<Longrightarrow>
     run_step s (s\<lparr>y_pool := set_worker i w ((y_pool s)\<lparr>wp_tasks := ts\<rparr>),
       y_started := y_started s @ (case w of Running task \<Rightarrow> [task] | _ \<Rightarrow> [])\<rparr>)"
| Finish: "i < length (workers s) \<Longrightarrow> workers s ! i = Running task \<Longrightarrow>
     run_step s (s\<lparr>y_pool := set_worker i AtLock (y_pool s), y_finished := y_finished s @ [task]\<rparr>)"
| Join: "y_closing s = Joining \<Longrightarrow> i < length (workers s) \<Longrightarrow> workers s ! i = Exited \<Longrightarrow> \<not> wp_joined (y_pool s) ! i \<Longrightarrow>
     (\<forall>j < i. wp_joined (y_pool s) ! j) \<Longrightarrow> run_step s (s\<lparr>y_pool := (y_pool s)\<lparr>wp_joined := (wp_joined (y_pool s))[i := True]\<rparr>\<rparr>)"

text \<open>A wake-up for no reason.\<close>

inductive stray_step :: "'a pool_sys \<Rightarrow> 'a pool_sys \<Rightarrow> bool" where
  Stray: "i < length (workers s) \<Longrightarrow> workers s ! i = Waiting \<Longrightarrow> stray_step s (s\<lparr>y_pool := set_worker i AtLock (y_pool s)\<rparr>)"

definition pool_step :: "'a pool_sys \<Rightarrow> 'a pool_sys \<Rightarrow> bool" where
  "pool_step s s' \<longleftrightarrow> post_step s s' \<or> run_step s s' \<or> stray_step s s'"

section \<open>The invariant\<close>

fun running_task :: "'a worker_state \<Rightarrow> 'a list" where
  "running_task (Running task) = [task]"
| "running_task _ = []"

definition in_progress :: "'a worker_state list \<Rightarrow> 'a multiset" where
  "in_progress ws = mset (concat (map running_task ws))"

definition awake :: "'a worker_state \<Rightarrow> bool" where
  "awake w \<longleftrightarrow> w \<noteq> Waiting \<and> w \<noteq> Exited"

definition pool_inv :: "nat \<Rightarrow> 'a pool_sys \<Rightarrow> bool" where
  "pool_inv n s \<longleftrightarrow> length (workers s) = n \<and> length (wp_joined (y_pool s)) = n \<and>
     (\<exists>taken. y_accepted s = taken @ tasks s \<and> y_started s = List.map_filter id taken) \<and>
     mset (y_started s) = mset (y_finished s) + in_progress (workers s) \<and>
     (stopped s \<longleftrightarrow> y_closing s \<noteq> Open) \<and>
     (Exited \<in> set (workers s) \<longrightarrow> stopped s \<and> tasks s = []) \<and>
     (y_closing s = Joining \<longrightarrow> Waiting \<notin> set (workers s)) \<and>
     (tasks s \<noteq> [] \<and> 0 < n \<longrightarrow> (\<exists>w \<in> set (workers s). awake w) \<or> 0 < y_notify s \<or> y_closing s = NotifyAll)"

lemma in_progress_update:
  "i < length ws \<Longrightarrow> in_progress (ws[i := w]) + mset (running_task (ws ! i)) = in_progress ws + mset (running_task w)"
proof (induction ws arbitrary: i)
  case (Cons a ws)
  then show ?case by (cases i) (auto simp: in_progress_def ac_simps)
qed simp

lemma in_progress_woken: "in_progress (map woken ws) = in_progress ws"
proof -
  have "running_task (woken w) = running_task w" for w :: "'a worker_state" by (cases w) auto
  then show ?thesis by (simp add: in_progress_def comp_def)
qed

lemma woken_iff [simp]: "woken w = Exited \<longleftrightarrow> w = Exited" "Exited = woken w \<longleftrightarrow> w = Exited" "woken w \<noteq> Waiting" "Waiting \<noteq> woken w"
  by (cases w; simp)+

lemma pool_init_inv: "pool_inv n (pool_sys_init n)"
  by (auto simp: pool_inv_def pool_sys_init_def SimpleWorkerPool_new_def in_progress_def)

lemma post_step_inv: "post_step s s' \<Longrightarrow> pool_inv n s \<Longrightarrow> pool_inv n s'"
  by (erule post_step.cases) (auto simp: pool_inv_def pool_post_def split: if_splits)

lemma map_filter_append: "List.map_filter f (xs @ ys) = List.map_filter f xs @ List.map_filter f ys"
  by (simp add: map_filter_def)

text \<open>What a worker may do with the mutex.\<close>

lemma worker_section_cases:
  assumes "worker_section p = (w, ts)"
  obtains (wait) "w = Waiting" "\<not> wp_stop p" "wp_tasks p = []" "ts = []"
    | (quit) "w = Exited" "wp_stop p" "wp_tasks p = []" "ts = []"
    | (skip) "w = AtLock" "wp_tasks p = None # ts"
    | (run) task where "w = Running task" "wp_tasks p = Some task # ts"
  using assms by (auto simp: worker_section_def wait_over_def split: if_splits list.splits option.splits)

lemma worker_to_awake:
  assumes "pool_inv n s" "i < length (workers s)" "workers s ! i \<noteq> Exited" "awake w" "running_task w = running_task (workers s ! i)"
    "y_pool s' = set_worker i w (y_pool s)" "y_closing s' = y_closing s" "y_accepted s' = y_accepted s" "y_started s' = y_started s" "y_finished s' = y_finished s"
  shows "pool_inv n s'"
proof -
  have "in_progress ((workers s)[i := w]) = in_progress (workers s)" using in_progress_update[OF assms(2), of w] assms(5) by simp
  moreover have "w \<in> set ((workers s)[i := w])" using assms(2) by (rule set_update_memI)
  moreover have "set ((workers s)[i := w]) \<subseteq> insert w (set (workers s))" by (rule set_update_subset_insert)
  ultimately show ?thesis using assms(1,4,6-10) by (auto simp: pool_inv_def set_worker_def awake_def)
qed

lemma section_inv:
  assumes "pool_inv n s" "i < length (workers s)" "workers s ! i = AtLock" "worker_section (y_pool s) = (w, ts)"
  shows "pool_inv n (s\<lparr>y_pool := set_worker i w ((y_pool s)\<lparr>wp_tasks := ts\<rparr>), y_started := y_started s @ (case w of Running task \<Rightarrow> [task] | _ \<Rightarrow> [])\<rparr>)"
proof -
  note inv = assms(1)[unfolded pool_inv_def]
  let ?ws = "(workers s)[i := w]"
  have p: "in_progress ?ws = in_progress (workers s) + mset (running_task w)" using in_progress_update[OF assms(2), of w] assms(3) by simp
  have m: "w \<in> set ?ws" using assms(2) by (rule set_update_memI)
  have sub: "set ?ws \<subseteq> insert w (set (workers s))" by (rule set_update_subset_insert)
  obtain taken where a: "y_accepted s = taken @ tasks s" "y_started s = List.map_filter id taken" using inv by blast
  from assms(4) show ?thesis
  proof (cases rule: worker_section_cases)
    case (run task)
    have "\<exists>taken. y_accepted s = taken @ ts \<and> y_started s @ [task] = List.map_filter id taken"
      using a run by (intro exI[of _ "taken @ [Some task]"]) (simp add: map_filter_append)
    then show ?thesis using run inv p m sub by (auto simp: pool_inv_def set_worker_def awake_def)
  next
    case skip
    have "\<exists>taken. y_accepted s = taken @ ts \<and> y_started s = List.map_filter id taken"
      using a skip by (intro exI[of _ "taken @ [None]"]) (simp add: map_filter_append)
    then show ?thesis using skip inv p m sub by (auto simp: pool_inv_def set_worker_def awake_def)
  qed (use inv p m sub in \<open>auto simp: pool_inv_def set_worker_def\<close>)
qed

lemma run_step_inv: "run_step s s' \<Longrightarrow> pool_inv n s \<Longrightarrow> pool_inv n s'"
proof (induction rule: run_step.induct)
  case (NotifyOne s m i)
  show ?case by (rule worker_to_awake[OF NotifyOne(4,2), where w = AtLock]) (simp_all add: NotifyOne(3) awake_def)
next
  case (NotifyNone s m)
  have "\<exists>w \<in> set (workers s). awake w" if "tasks s \<noteq> []" "0 < n"
  proof -
    have "workers s \<noteq> []" using NotifyNone(3) that by (auto simp: pool_inv_def)
    then have "workers s ! 0 \<in> set (workers s)" by simp
    moreover have "Exited \<notin> set (workers s)" using NotifyNone(3) that by (simp add: pool_inv_def)
    ultimately show ?thesis using NotifyNone(2) by (metis awake_def)
  qed
  then show ?case using NotifyNone by (auto simp: pool_inv_def)
next
  case (NotifyEveryone s)
  have e: "Exited \<in> woken ` set (workers s) \<longleftrightarrow> Exited \<in> set (workers s)" and w: "Waiting \<notin> woken ` set (workers s)" by (auto simp: image_iff)
  have "\<exists>x \<in> set (workers s). awake (woken x)" if "tasks s \<noteq> []" "0 < n"
  proof -
    have "workers s \<noteq> []" using NotifyEveryone(2) that by (auto simp: pool_inv_def)
    then have "workers s ! 0 \<in> set (workers s)" by simp
    moreover have "Exited \<notin> set (workers s)" using NotifyEveryone(2) that by (simp add: pool_inv_def)
    ultimately have "awake (woken (workers s ! 0))" by (cases "workers s ! 0") (auto simp: awake_def)
    then show ?thesis using \<open>workers s ! 0 \<in> set (workers s)\<close> by blast
  qed
  then show ?case using NotifyEveryone e w by (auto simp: pool_inv_def in_progress_woken)
next
  case (Section i s w ts)
  then show ?case by (intro section_inv)
next
  case (Finish i s task)
  note inv = Finish(3)[unfolded pool_inv_def]
  let ?ws = "(workers s)[i := AtLock]"
  have "in_progress ?ws + {#task#} = in_progress (workers s)" using in_progress_update[OF Finish(1), of AtLock] Finish(2) by simp
  then have "mset (y_started s) = mset (y_finished s @ [task]) + in_progress ?ws" using inv by (simp add: ac_simps)
  moreover have "AtLock \<in> set ?ws" using Finish(1) by (rule set_update_memI)
  moreover have "set ?ws \<subseteq> insert AtLock (set (workers s))" by (rule set_update_subset_insert)
  ultimately show ?case using inv by (auto simp: pool_inv_def set_worker_def awake_def)
next
  case (Join s i)
  then show ?case by (auto simp: pool_inv_def)
qed

lemma stray_step_inv: "stray_step s s' \<Longrightarrow> pool_inv n s \<Longrightarrow> pool_inv n s'"
proof (induction rule: stray_step.induct)
  case (Stray i s)
  show ?case by (rule worker_to_awake[OF Stray(3,1), where w = AtLock]) (simp_all add: Stray(2) awake_def)
qed

interpretation pool: step_invariant pool_step "pool_inv n" for n
  by unfold_locales (auto simp: pool_step_def intro: post_step_inv run_step_inv stray_step_inv)

section \<open>Shutting down\<close>

fun worker_weight :: "'a worker_state \<Rightarrow> nat" where
  "worker_weight Exited = 0"
| "worker_weight AtLock = 1"
| "worker_weight Waiting = 2"
| "worker_weight (Running task) = 2"

definition pool_left :: "'a pool_sys \<Rightarrow> nat" where
  "pool_left s = 2 * length (tasks s) + y_notify s + (if y_closing s = NotifyAll then 1 else 0) +
     sum_list (map worker_weight (workers s)) + length (filter Not (wp_joined (y_pool s)))"

lemma weight_update:
  "i < length ws \<Longrightarrow> sum_list (map worker_weight (ws[i := w])) + worker_weight (ws ! i) = sum_list (map worker_weight ws) + worker_weight w"
proof (induction ws arbitrary: i)
  case (Cons a ws)
  then show ?case by (cases i) auto
qed simp

lemma weight_woken: "sum_list (map (worker_weight \<circ> woken) ws) \<le> sum_list (map worker_weight ws)"
proof (induction ws)
  case (Cons a ws)
  then show ?case by (cases a) auto
qed simp

lemma joined_update: "i < length bs \<Longrightarrow> \<not> bs ! i \<Longrightarrow> Suc (length (filter Not (bs[i := True]))) = length (filter Not bs)"
proof (induction bs arbitrary: i)
  case (Cons b bs)
  then show ?case by (cases i) auto
qed simp

lemma run_step_decreases: "run_step s s' \<Longrightarrow> pool_inv n s \<Longrightarrow> stopped s \<Longrightarrow> pool_left s' < pool_left s"
proof (induction rule: run_step.induct)
  case (NotifyOne s m i)
  then show ?case using weight_update[of i "workers s" AtLock] by (simp add: pool_left_def set_worker_def)
next
  case (NotifyEveryone s)
  then show ?case using weight_woken[of "workers s"] by (simp add: pool_left_def)
next
  case (Section i s w ts)
  note u = weight_update[OF Section(1), of w]
  from Section(3) show ?case by (cases rule: worker_section_cases) (use u Section in \<open>simp_all add: pool_left_def set_worker_def\<close>)
next
  case (Finish i s task)
  then show ?case using weight_update[of i "workers s" AtLock] by (simp add: pool_left_def set_worker_def)
next
  case (Join s i)
  then show ?case using joined_update[of i "wp_joined (y_pool s)"] by (simp add: pool_left_def pool_inv_def)
qed (simp add: pool_left_def)

text \<open>A pool that is stopped and has no step left has nothing left to do.\<close>

lemma stuck_means_finished:
  assumes "pool_inv n s" "stopped s" "\<And>s'. \<not> run_step s s'"
  shows "tasks s = [] \<or> n = 0" "set (workers s) \<subseteq> {Exited}" "set (wp_joined (y_pool s)) \<subseteq> {True}" "in_progress (workers s) = {#}"
proof -
  note inv = assms(1)[unfolded pool_inv_def]
  have c: "y_closing s = Joining"
    using assms(3) NotifyEveryone inv assms(2) by (metis closing.exhaust)
  have ex: "workers s ! i = Exited" if i: "i < length (workers s)" for i
  proof (cases "workers s ! i")
    case AtLock
    then show ?thesis using assms(3) Section[OF i AtLock surjective_pairing] by blast
  next
    case Waiting
    then show ?thesis using inv c nth_mem[OF i] by simp
  next
    case (Running task)
    then show ?thesis using assms(3) Finish[OF i Running] by blast
  qed
  then show sub: "set (workers s) \<subseteq> {Exited}" by (auto simp: in_set_conv_nth)
  show "tasks s = [] \<or> n = 0"
    using inv ex[of 0] nth_mem[of 0 "workers s"] by (cases "n = 0") auto
  show "in_progress (workers s) = {#}" using sub by (force simp: in_progress_def)
  have "wp_joined (y_pool s) ! i" if "i < n" for i
    using that
  proof (induction i rule: less_induct)
    case (less i)
    then have "\<forall>j < i. wp_joined (y_pool s) ! j" by simp
    then show ?case using Join[OF c _ ex, of i] less(2) inv assms(3) by auto
  qed
  then show "set (wp_joined (y_pool s)) \<subseteq> {True}" using inv by (auto simp: in_set_conv_nth)
qed

lemma run_step_stopped: "run_step s s' \<Longrightarrow> stopped s \<Longrightarrow> stopped s' \<and> y_accepted s' = y_accepted s"
  by (erule run_step.cases) (auto simp: set_worker_def)

interpretation closing: step_ending run_step "\<lambda>s. pool_inv n s \<and> stopped s" pool_left "\<lambda>s. \<not> (\<exists>s'. run_step s s')" for n
  by unfold_locales (use run_step_inv run_step_decreases run_step_stopped in blast)+

section \<open>Properties\<close>

text \<open>
  C38. Every task runs once, in order, and no wake-up is lost. At every moment, whatever the interleaving of posters, workers, notifications and wake-ups for no reason: the tasks started are the first
  of those accepted, in this order (an empty function is passed over), the others are still queued, and those started are finished or are
  each with one worker. A task is accepted exactly until the shutdown. And while a task waits, some worker is not asleep, or a notification is on its way.
\<close>

theorem pool_runs_tasks_once:
  assumes "pool_step\<^sup>*\<^sup>* (pool_sys_init n) s"
  shows "(\<exists>taken. y_accepted s = taken @ tasks s \<and> y_started s = List.map_filter id taken) \<and>
    mset (y_started s) = mset (y_finished s) + in_progress (workers s) \<and> fst (pool_post task (y_pool s)) = (y_closing s = Open) \<and>
    (tasks s \<noteq> [] \<and> 0 < n \<longrightarrow> (\<exists>w. w \<in> set (workers s) \<and> awake w) \<or> 0 < y_notify s \<or> y_closing s = NotifyAll)"
  using pool.reachable[OF assms pool_init_inv] by (auto simp: pool_inv_def pool_post_def)

text \<open>
  C39. A shutdown ends, with all tasks done. From the shutdown on every step of the pool brings it nearer to its end, and nothing else puts it off, so within \<open>pool_left\<close> steps of its own it has none left; and when no step is left, every task ever accepted has
  been run to its end, every worker has left its loop and was joined.
\<close>

theorem pool_shutdown_completes:
  assumes "0 < n" "pool_step\<^sup>*\<^sup>* (pool_sys_init n) s" "stopped s"
  shows "(run_step s s' \<or> stray_step s s' \<longrightarrow> pool_left s' < pool_left s) \<and> (post_step s s' \<longrightarrow> pool_left s' = pool_left s) \<and>
    (\<exists>m e. (run_step ^^ m) s e \<and> m \<le> pool_left s \<and> (\<forall>u. \<not> run_step e u)) \<and>
    ((\<forall>u. \<not> run_step s u) \<longrightarrow> mset (y_finished s) = mset (List.map_filter id (y_accepted s)) \<and>
       set (workers s) \<subseteq> {Exited} \<and> set (wp_joined (y_pool s)) \<subseteq> {True})"
proof (intro conjI impI)
  have inv: "pool_inv n s" by (rule pool.reachable[OF assms(2) pool_init_inv])
  show "pool_left s' < pool_left s" if "run_step s s' \<or> stray_step s s'"
    using that
  proof
    assume "stray_step s s'"
    then show ?thesis
    proof (induction rule: stray_step.induct)
      case (Stray i s)
      then show ?case using weight_update[of i "workers s" AtLock] by (simp add: pool_left_def set_worker_def)
    qed
  qed (rule run_step_decreases[OF _ inv assms(3)])
  show "pool_left s' = pool_left s" if "post_step s s'"
    using that inv assms(3) by (cases rule: post_step.cases) (auto simp: pool_post_def pool_inv_def split: if_splits)
  show "\<exists>m e. (run_step ^^ m) s e \<and> m \<le> pool_left s \<and> (\<forall>u. \<not> run_step e u)"
    using closing.ends[of n s] closing.bounded[of _ s _ n] inv assms(3) by fastforce
  assume "\<forall>u. \<not> run_step s u"
  then have no: "\<And>u. \<not> run_step s u" by blast
  note fin = stuck_means_finished[OF inv assms(3) no]
  show "set (workers s) \<subseteq> {Exited}" "set (wp_joined (y_pool s)) \<subseteq> {True}" by (fact fin)+
  show "mset (y_finished s) = mset (List.map_filter id (y_accepted s))" using inv fin(1,4) assms(1) by (auto simp: pool_inv_def)
qed

text \<open>One worker, one task.\<close>

definition demo_pool :: "nat pool_sys" where
  "demo_pool = \<lparr>y_pool = \<lparr>wp_tasks = [Some 7], wp_stop = False, wp_workers = [AtLock], wp_joined = [False]\<rparr>, y_notify = 1, y_closing = Open,
     y_accepted = [Some 7], y_started = [], y_finished = []\<rparr>"

definition demo_ended :: "nat pool_sys" where
  "demo_ended = \<lparr>y_pool = \<lparr>wp_tasks = [], wp_stop = True, wp_workers = [Exited], wp_joined = [True]\<rparr>, y_notify = 0, y_closing = Joining,
     y_accepted = [Some 7], y_started = [7], y_finished = [7]\<rparr>"

lemma demo_pool_reachable: "pool_step\<^sup>*\<^sup>* (pool_sys_init 1) demo_pool"
proof -
  have "pool_step (pool_sys_init 1) demo_pool"
    using Post[of "Some 7" "pool_sys_init 1" "y_pool demo_pool"]
    by (simp add: pool_step_def demo_pool_def pool_sys_init_def SimpleWorkerPool_new_def pool_post_def)
  then show ?thesis by blast
qed

lemma demo_ended_reachable: "pool_step\<^sup>*\<^sup>* (pool_sys_init 1) demo_ended"
proof -
  let ?st = "\<lambda>ts stop w j. \<lparr>wp_tasks = ts, wp_stop = stop, wp_workers = [w], wp_joined = [j]\<rparr> :: nat SimpleWorkerPool"
  let ?sy = "\<lambda>p k c f. \<lparr>y_pool = p, y_notify = k, y_closing = c, y_accepted = [Some 7], y_started = [7], y_finished = f\<rparr> :: nat pool_sys"
  note defs = pool_step_def set_worker_def worker_section_def wait_over_def
  have "pool_step demo_pool (?sy (?st [] False (Running 7) False) 1 Open [])" using Section[of 0 demo_pool "Running 7" "[]"] by (simp add: defs demo_pool_def)
  moreover have "pool_step (?sy (?st [] False (Running 7) False) 1 Open []) (?sy (?st [] False AtLock False) 1 Open [7])"
    using Finish[of 0 "?sy (?st [] False (Running 7) False) 1 Open []" 7] by (simp add: defs)
  moreover have "pool_step (?sy (?st [] False AtLock False) 1 Open [7]) (?sy (?st [] False AtLock False) 0 Open [7])"
    using NotifyNone[of "?sy (?st [] False AtLock False) 1 Open [7]" 0] by (simp add: defs)
  moreover have "pool_step (?sy (?st [] False AtLock False) 0 Open [7]) (?sy (?st [] True AtLock False) 0 NotifyAll [7])"
    using Shutdown[of "?sy (?st [] False AtLock False) 0 Open [7]"] by (simp add: defs)
  moreover have "pool_step (?sy (?st [] True AtLock False) 0 NotifyAll [7]) (?sy (?st [] True AtLock False) 0 Joining [7])"
    using NotifyEveryone[of "?sy (?st [] True AtLock False) 0 NotifyAll [7]"] by (simp add: defs)
  moreover have "pool_step (?sy (?st [] True AtLock False) 0 Joining [7]) (?sy (?st [] True Exited False) 0 Joining [7])"
    using Section[of 0 "?sy (?st [] True AtLock False) 0 Joining [7]" Exited "[]"] by (simp add: defs)
  moreover have "pool_step (?sy (?st [] True Exited False) 0 Joining [7]) demo_ended"
    using Join[of "?sy (?st [] True Exited False) 0 Joining [7]" 0] by (simp add: defs demo_ended_def)
  ultimately show ?thesis using demo_pool_reachable by (meson rtranclp.rtrancl_into_rtrancl)
qed

theorem pool_runs_tasks_once_witness:
  "\<exists>taken. y_accepted demo_pool = taken @ [Some 7] \<and> y_started demo_pool = List.map_filter id taken"
  using pool_runs_tasks_once[OF demo_pool_reachable] by (auto simp: demo_pool_def)

theorem pool_shutdown_completes_witness:
  "mset (y_finished demo_ended) = mset (List.map_filter id (y_accepted demo_ended)) \<and> y_finished demo_ended = [7]"
proof -
  have "\<not> run_step demo_ended u" for u by (auto simp: demo_ended_def elim: run_step.cases)
  then show ?thesis using pool_shutdown_completes[OF _ demo_ended_reachable, of demo_ended] by (simp add: demo_ended_def)
qed

end
