(* ===== verification/Ktls_Context.thy ===== *)
theory Ktls_Context
  imports Cdv_Prelude
begin

text \<open>
  Making the TLS context of a server, \<^verbatim>\<open>src/jobs/KTLSContextHelper.cpp\<close>. OpenSSL and the file system are parameters: the calls into OpenSSL are recorded in order, \<open>ans\<close> says of the
  last call of a trace whether it succeeded, and \<open>exists\<close> which files there are. Log lines are left out.
\<close>

section \<open>The helper\<close>

datatype ssl_call =
    InitLibrary | CtxNew | SetEnableKtls | SetMinProto string | SetMaxProto string | SetCipherList string | SetCiphersuites string
  | UseCertificateChain string | UsePrivateKey string | CheckPrivateKey | CtxFree

text \<open>\<^verbatim>\<open>fs::path::filename\<close>: what follows the last slash.\<close>

definition path_filename :: "string \<Rightarrow> string" where
  "path_filename p = rev (takeWhile (\<lambda>c. c \<noteq> CHR ''/'') (rev p))"

definition path_candidates :: "string \<Rightarrow> string list" where
  "path_candidates p = [p, ''tests/'' @ path_filename p, ''../tests/'' @ path_filename p]"

fun try_candidates ::
  "(ssl_call list \<Rightarrow> bool) \<Rightarrow> (string \<Rightarrow> bool) \<Rightarrow> (string \<Rightarrow> ssl_call) \<Rightarrow> string list \<Rightarrow> ssl_call list \<Rightarrow> bool \<times> ssl_call list" where
  "try_candidates ans exists use [] tr = (False, tr)"
| "try_candidates ans exists use (p # ps) tr =
     (if exists p then
        if ans (tr @ [use p]) then (True, tr @ [use p]) else try_candidates ans exists use ps (tr @ [use p])
      else try_candidates ans exists use ps tr)"

definition loadCertificates ::
  "(ssl_call list \<Rightarrow> bool) \<Rightarrow> (string \<Rightarrow> bool) \<Rightarrow> string \<Rightarrow> string \<Rightarrow> ssl_call list \<Rightarrow> bool \<times> ssl_call list" where
  "loadCertificates ans exists cert_path key_path tr =
     (let (cert_loaded, tr1) = try_candidates ans exists UseCertificateChain (path_candidates cert_path) tr in
      if \<not> cert_loaded then (False, tr1)
      else let (key_loaded, tr2) = try_candidates ans exists UsePrivateKey (path_candidates key_path) tr1 in
        if \<not> key_loaded then (False, tr2)
        else let tr3 = tr2 @ [CheckPrivateKey] in (ans tr3, tr3))"

definition cipher_list :: string where
  "cipher_list = ''ECDHE-RSA-AES256-GCM-SHA384:ECDHE-RSA-AES128-GCM-SHA256:ECDHE-ECDSA-AES256-GCM-SHA384:ECDHE-ECDSA-AES128-GCM-SHA256''"

definition ciphersuites :: string where
  "ciphersuites = ''TLS_AES_256_GCM_SHA384:TLS_AES_128_GCM_SHA256''"

text \<open>Whether a context was returned, and the calls made.\<close>

definition makeServerContext :: "(ssl_call list \<Rightarrow> bool) \<Rightarrow> (string \<Rightarrow> bool) \<Rightarrow> string \<Rightarrow> string \<Rightarrow> bool \<times> ssl_call list" where
  "makeServerContext ans exists cert_path key_path =
     (let tr1 = [InitLibrary, CtxNew] in
      if \<not> ans tr1 then (False, tr1)
      else let tr2 = tr1 @ [SetEnableKtls, SetMinProto ''TLS1.2'', SetMaxProto ''TLS1.3'', SetCipherList cipher_list] in
        if \<not> ans tr2 then (False, tr2 @ [CtxFree])
        else let tr3 = tr2 @ [SetCiphersuites ciphersuites] in
          if \<not> ans tr3 then (False, tr3 @ [CtxFree])
          else let (ok, tr4) = loadCertificates ans exists cert_path key_path tr3 in
            if \<not> ok then (False, tr4 @ [CtxFree]) else (True, tr4))"

definition freeContext :: "bool \<Rightarrow> ssl_call list \<Rightarrow> ssl_call list" where
  "freeContext ctx tr = (if ctx then tr @ [CtxFree] else tr)"

section \<open>Properties\<close>

text \<open>The calls a search adds: uses of candidates that exist, the last one accepted when it succeeds.\<close>

lemma try_candidates_calls:
  assumes "try_candidates ans exists use ps tr = (ok, tr')"
  shows "\<exists>tried. tr' = tr @ map use tried \<and> set tried \<subseteq> {p \<in> set ps. exists p} \<and> (ok \<longrightarrow> tried \<noteq> [] \<and> ans tr')"
  using assms
proof (induction ps arbitrary: tr)
  case (Cons p ps)
  consider (no) "\<not> exists p" | (yes) "exists p" "ans (tr @ [use p])" | (bad) "exists p" "\<not> ans (tr @ [use p])" by blast
  then show ?case
  proof cases
    case no
    with Cons.prems have "try_candidates ans exists use ps tr = (ok, tr')" by simp
    from Cons.IH[OF this] show ?thesis by auto
  next
    case yes
    with Cons.prems show ?thesis by (intro exI[of _ "[p]"]) auto
  next
    case bad
    with Cons.prems have "try_candidates ans exists use ps (tr @ [use p]) = (ok, tr')" by simp
    from Cons.IH[OF this] obtain tried where "tr' = (tr @ [use p]) @ map use tried" "set tried \<subseteq> {p \<in> set ps. exists p}" "ok \<longrightarrow> tried \<noteq> [] \<and> ans tr'" by blast
    with bad show ?thesis by (intro exI[of _ "p # tried"]) auto
  qed
qed auto

definition configured :: "ssl_call list" where
  "configured = [InitLibrary, CtxNew, SetEnableKtls, SetMinProto ''TLS1.2'', SetMaxProto ''TLS1.3'', SetCipherList cipher_list, SetCiphersuites ciphersuites]"

lemma loadCertificates_calls:
  assumes "loadCertificates ans exists cert key tr = (ok, tr')"
  shows "\<exists>certs keys. CtxFree \<notin> set (drop (length tr) tr') \<and> take (length tr) tr' = tr \<and>
    (ok \<longrightarrow> tr' = tr @ map UseCertificateChain certs @ map UsePrivateKey keys @ [CheckPrivateKey] \<and> certs \<noteq> [] \<and> keys \<noteq> [] \<and>
       ans (tr @ map UseCertificateChain certs) \<and> ans (tr @ map UseCertificateChain certs @ map UsePrivateKey keys) \<and> ans tr' \<and>
       set certs \<subseteq> {p \<in> set (path_candidates cert). exists p} \<and> set keys \<subseteq> {p \<in> set (path_candidates key). exists p})"
proof -
  obtain c tr1 where c: "try_candidates ans exists UseCertificateChain (path_candidates cert) tr = (c, tr1)" by fastforce
  obtain certs where certs: "tr1 = tr @ map UseCertificateChain certs" "set certs \<subseteq> {p \<in> set (path_candidates cert). exists p}" "c \<longrightarrow> certs \<noteq> [] \<and> ans tr1"
    using try_candidates_calls[OF c] by blast
  obtain k tr2 where k: "try_candidates ans exists UsePrivateKey (path_candidates key) tr1 = (k, tr2)" by fastforce
  obtain keys where keys: "tr2 = tr1 @ map UsePrivateKey keys" "set keys \<subseteq> {p \<in> set (path_candidates key). exists p}" "k \<longrightarrow> keys \<noteq> [] \<and> ans tr2"
    using try_candidates_calls[OF k] by blast
  show ?thesis
    by (intro exI[of _ certs] exI[of _ keys]) (use assms c k certs keys in \<open>auto simp: loadCertificates_def Let_def split: if_splits\<close>)
qed



end
