(* ===== verification/Example_Main.thy ===== *)
theory Example_Main
  imports Multi_Ring_Server
begin

text \<open>
  What the \<^verbatim>\<open>main\<close> functions of the two servers under \<^verbatim>\<open>examples/\<close> share: reading a number from the command line with \<^verbatim>\<open>std::stoi\<close>, and the life of the server object from the constructor on: a failure on the way ends with exit
  code 1 and the object destroyed; a run ends when the thread that waits for signals calls \<^verbatim>\<open>stop()\<close>.
\<close>

section \<open>Arguments\<close>

definition is_space :: "char \<Rightarrow> bool" where
  "is_space c \<longleftrightarrow> byte c = 32 \<or> 9 \<le> byte c \<and> byte c \<le> 13"

fun sign_split :: "string \<Rightarrow> bool \<times> string" where
  "sign_split (c # s) = (if c = CHR ''-'' then (True, s) else if c = CHR ''+'' then (False, s) else (False, c # s))"
| "sign_split [] = (False, [])"

text \<open>\<^verbatim>\<open>std::stoi\<close>: blanks, a sign, as many digits as there are; what follows is ignored. Both exceptions have the name of the function as their text.\<close>

definition stoi :: "string \<Rightarrow> string + int" where
  "stoi str =
     (let (neg, s) = sign_split (dropWhile is_space str); digits = takeWhile is_digit s;
          v = (if neg then - int (dec_value digits) else int (dec_value digits)) in
      if digits = [] \<or> v < - (2 ^ 31) \<or> v > 2 ^ 31 - 1 then Inl ''stoi'' else Inr v)"

definition arg_string :: "string list \<Rightarrow> nat \<Rightarrow> string \<Rightarrow> string" where
  "arg_string argv i dflt = (if length argv > i then argv ! i else dflt)"

definition arg_int :: "string list \<Rightarrow> nat \<Rightarrow> int \<Rightarrow> string + int" where
  "arg_int argv i dflt = (if length argv > i then stoi (argv ! i) else Inr dflt)"

lemma digit_chars: "is_digit c \<Longrightarrow> \<not> is_space c \<and> c \<noteq> CHR ''-'' \<and> c \<noteq> CHR ''+''"
  by (auto simp: is_digit_def is_space_def byte_def)

lemma takeWhile_digits: "takeWhile is_digit (nat_to_string n) = nat_to_string n"
  by (simp add: takeWhile_eq_all_conv nat_to_string_digits)

text \<open>A number that fits is read back from its decimal form.\<close>

lemma stoi_to_string:
  assumes "- (2 ^ 31) \<le> i" "i \<le> 2 ^ 31 - 1"
  shows "stoi (to_string i) = Inr i"
proof -
  have pos: "sign_split (dropWhile is_space (nat_to_string n)) = (False, nat_to_string n)" for n
  proof -
    obtain c r where n: "nat_to_string n = c # r" by (metis nat_to_string_nonempty neq_Nil_conv)
    have "is_digit c" by (rule nat_to_string_digits[of c n]) (simp add: n)
    from digit_chars[OF this] show ?thesis unfolding n by simp
  qed
  have neg: "\<not> is_space (CHR ''-'')" by (simp add: is_space_def byte_def)
  show ?thesis
    using assms by (auto simp: stoi_def to_string_def pos neg takeWhile_digits Let_def)
qed

section \<open>The server object\<close>

text \<open>\<^verbatim>\<open>run()\<close> in one thread, \<^verbatim>\<open>stop()\<close> in another, then the destructor.\<close>

definition run_until_stopped :: "'rx HttpServer \<Rightarrow> host \<Rightarrow> ring \<Rightarrow> host \<times> ring" where
  "run_until_stopped s h w =
     (let (s1, w1) = ms_stop (ms_run_start s) w in HttpServer_destroy (ms_run_finish s1) h w1)"

text \<open>The end of both programs: exit code 1 when the server did not listen; None is the division by zero in \<^verbatim>\<open>listen\<close>.\<close>

definition serve_until_stopped :: "(bool \<times> 'rx HttpServer \<times> host \<times> ring) option \<Rightarrow> (int \<times> host \<times> ring) option" where
  "serve_until_stopped listened =
     (case listened of
        None \<Rightarrow> None
      | Some (False, s, h, w) \<Rightarrow> Some (1, HttpServer_destroy s h w)
      | Some (True, s, h, w) \<Rightarrow> Some (0, run_until_stopped s h w))"

text \<open>Everything a process opened is closed again, and of the contexts made since \<open>h0\<close> at most the last is freed, once.\<close>

definition exits_clean :: "host \<Rightarrow> ring \<Rightarrow> host \<Rightarrow> ring \<Rightarrow> bool" where
  "exits_clean h0 w0 h w \<longleftrightarrow> keeps {#} {#} 0 w0 {#} {#} 0 w \<and>
     (\<exists>c. ho_ctx_freed h = ho_ctx_freed h0 @ (case c of None \<Rightarrow> [] | Some i \<Rightarrow> [i]))"

lemma destroy_clean:
  assumes "ms_inv w0 h0 (s, h, w)" "HttpServer_destroy s h w = (h', w')"
  shows "exits_clean h0 w0 h' w'"
proof -
  have "ms_ok s" using assms(1) by (simp add: ms_inv_def)
  from HttpServer_destroy_facts[OF this assms(2), of "{#}" "{#}" 0] assms(1) show ?thesis
    by (auto simp: ms_inv_def exits_clean_def intro: keeps_trans split: option.splits intro!: exI[of _ "ms_ssl_ctx s"])
qed

lemma run_clean:
  assumes "ms_inv w0 h0 (s, h, w)" "run_until_stopped s h w = (h', w')"
  shows "exits_clean h0 w0 h' w'"
proof -
  obtain s1 w1 where st: "ms_stop (ms_run_start s) w = (s1, w1)" by fastforce
  have i1: "ms_inv w0 h0 (ms_run_start s, h, w)" by (rule ms_step_inv[OF ms_step.RunStart assms(1)])
  have "ms_inv w0 h0 (s1, h, w1)" by (rule ms_step_inv[OF ms_step.Stop[OF st] i1])
  moreover have "ms_state s1 \<noteq> Running"
  proof -
    have "ms_ok (ms_run_start s)" using i1 by (simp add: ms_inv_def)
    from ms_stop_facts[OF this st, of "{#}" "{#}" 0] show ?thesis by simp
  qed
  ultimately have "ms_inv w0 h0 (ms_run_finish s1, h, w1)" by (rule ms_step_inv[OF ms_step.RunFinish, rotated])
  moreover have "HttpServer_destroy (ms_run_finish s1) h w1 = (h', w')" using assms(2) st by (simp add: run_until_stopped_def)
  ultimately show ?thesis by (rule destroy_clean)
qed

lemma serve_clean:
  assumes "serve_until_stopped listened = Some (code, h', w')"
    and "\<And>ok s h w. listened = Some (ok, s, h, w) \<Longrightarrow> ms_inv w0 h0 (s, h, w)"
  shows "exits_clean h0 w0 h' w'"
proof -
  from assms(1) obtain ok s h w where l: "listened = Some (ok, s, h, w)" by (cases listened) (auto simp: serve_until_stopped_def)
  show ?thesis
  proof (cases ok)
    case True
    then have "run_until_stopped s h w = (h', w')" using assms(1) l by (simp add: serve_until_stopped_def)
    then show ?thesis by (rule run_clean[OF assms(2)[OF l]])
  next
    case False
    then have "HttpServer_destroy s h w = (h', w')" using assms(1) l by (simp add: serve_until_stopped_def)
    then show ?thesis by (rule destroy_clean[OF assms(2)[OF l]])
  qed
qed

lemma nothing_clean: "exits_clean h w h w"
  by (auto simp: exits_clean_def intro: exI[of _ None])

lemma failed_new: "HttpServer_new hw cfg h = (Inl e, h1) \<Longrightarrow> h1 = h"
  by (auto simp: HttpServer_new_def Let_def split: option.splits)

lemma new_server: "HttpServer_new hw cfg h = (Inr server, h1) \<Longrightarrow> ms_router server = [] \<and> ms_state server = Stopped"
  by (auto simp: HttpServer_new_def Let_def split: option.splits)

lemma new_server_inv:
  assumes "HttpServer_new hw cfg h = (Inr server, h1)"
  shows "ms_inv w h (server\<lparr>ms_router := routes\<rparr>, h1, w)"
  using HttpServer_new_inv[OF assms, of w] new_server[OF assms]
  by (auto simp: ms_inv_def ms_state_irrelevant)

end
