(* ===== verification/File_System.thy ===== *)
theory File_System
  imports Cdv_Prelude
begin

text \<open>
  The part of \<^verbatim>\<open>std::filesystem\<close> and of the file streams that the servers under \<^verbatim>\<open>examples/\<close> use. The functions of paths work on the text alone and are defined here as
  the C++ standard has them for POSIX paths. What depends on the disk is a state of type \<open>fsys\<close>: which names are which nodes, how a name is resolved, and what is permitted. Resolution
  (links, the working directory) is an arbitrary function of the state. An operation that throws returns \<open>Inl\<close> with the text of the exception.
\<close>

section \<open>Paths\<close>

definition SLASH :: char where "SLASH = CHR ''/''"

definition path_is_absolute :: "string \<Rightarrow> bool" where
  "path_is_absolute p \<longleftrightarrow> p \<noteq> [] \<and> hd p = SLASH"

text \<open>\<^verbatim>\<open>p / q\<close>: an absolute right operand replaces the left one.\<close>

definition path_append :: "string \<Rightarrow> string \<Rightarrow> string" where
  "path_append p q =
     (if path_is_absolute q then q
      else if p \<noteq> [] \<and> last p \<noteq> SLASH then p @ SLASH # q else p @ q)"

text \<open>
  The elements an iterator over a path visits: the root directory, the file names, and an empty element
  for a trailing separator. Several separators count as one.
\<close>

definition path_elements :: "string \<Rightarrow> string list" where
  "path_elements p =
     (let names = filter (\<lambda>n. n \<noteq> []) (split_on SLASH p) in
      (if path_is_absolute p then [[SLASH]] else []) @ names @
      (if names \<noteq> [] \<and> last p = SLASH then [[]] else []))"

text \<open>\<^verbatim>\<open>std::mismatch\<close> on two sequences of elements.\<close>

fun mismatch :: "'a list \<Rightarrow> 'a list \<Rightarrow> 'a list \<times> 'a list" where
  "mismatch (a # as) (b # bs) = (if a = b then mismatch as bs else (a # as, b # bs))"
| "mismatch as bs = (as, bs)"

text \<open>The count of steps up that \<^verbatim>\<open>lexically_relative\<close> needs for what is left of the base.\<close>

fun steps_up :: "string list \<Rightarrow> int" where
  "steps_up [] = 0"
| "steps_up (e # es) = (if e = ''..'' then - 1 else if e \<noteq> [] \<and> e \<noteq> ''.'' then 1 else 0) + steps_up es"

definition lexically_relative :: "string \<Rightarrow> string \<Rightarrow> string" where
  "lexically_relative p base =
     (if path_is_absolute p \<noteq> path_is_absolute base then []
      else (case mismatch (path_elements p) (path_elements base) of (a, b) \<Rightarrow>
        if a = [] \<and> b = [] then ''.''
        else let n = steps_up b in
          if n < 0 then []
          else if n = 0 \<and> (a = [] \<or> hd a = []) then ''.''
          else foldl path_append [] (replicate (nat n) ''..'' @ a)))"

text \<open>\<open>inside root p\<close>: the elements of \<open>root\<close> begin those of \<open>p\<close>.\<close>

definition inside :: "string \<Rightarrow> string \<Rightarrow> bool" where
  "inside root p \<longleftrightarrow> prefix (path_elements root) (path_elements p)"

text \<open>No element that leads elsewhere.\<close>

definition no_dots :: "string \<Rightarrow> bool" where
  "no_dots p \<longleftrightarrow> list_all (\<lambda>e. e \<noteq> [] \<and> e \<noteq> ''.'' \<and> e \<noteq> ''..'') (path_elements p)"

section \<open>The disk\<close>

datatype node = RegularFile string | Directory | OtherNode

text \<open>
  \<open>fs_node\<close> is indexed by resolved names. \<open>fs_canonical\<close> resolves a name, None where that fails; \<open>fs_order\<close> is the order in which the names in a directory are visited, None where it cannot be read; \<open>fs_mtime\<close> is the time of the last change, None where it is not told.
\<close>

record fsys =
  fs_node :: "string \<Rightarrow> node option"
  fs_canonical :: "string \<Rightarrow> string option"
  fs_order :: "string \<Rightarrow> string list option"
  fs_mtime :: "string \<Rightarrow> int option"
  fs_may_read :: "string \<Rightarrow> bool"
  fs_may_write :: "string \<Rightarrow> bool"
  fs_may_remove :: "string \<Rightarrow> bool"
  fs_what :: "string \<Rightarrow> string"

definition weakly_canonical :: "fsys \<Rightarrow> string \<Rightarrow> string + string" where
  "weakly_canonical s p = (case fs_canonical s p of None \<Rightarrow> Inl (fs_what s p) | Some q \<Rightarrow> Inr q)"

text \<open>What a name denotes: the status that \<^verbatim>\<open>exists\<close> and \<^verbatim>\<open>is_regular_file\<close> ask for.\<close>

definition fs_status :: "fsys \<Rightarrow> string \<Rightarrow> string + node option" where
  "fs_status s p = (case weakly_canonical s p of Inl e \<Rightarrow> Inl e | Inr q \<Rightarrow> Inr (fs_node s q))"

definition fs_exists :: "fsys \<Rightarrow> string \<Rightarrow> string + bool" where
  "fs_exists s p = map_sum id (\<lambda>n. n \<noteq> None) (fs_status s p)"

definition is_regular :: "node option \<Rightarrow> bool" where
  "is_regular n \<longleftrightarrow> (case n of Some (RegularFile _) \<Rightarrow> True | _ \<Rightarrow> False)"

definition fs_is_regular_file :: "fsys \<Rightarrow> string \<Rightarrow> string + bool" where
  "fs_is_regular_file s p = map_sum id is_regular (fs_status s p)"

definition fs_file_size :: "fsys \<Rightarrow> string \<Rightarrow> string + nat" where
  "fs_file_size s p =
     (case fs_status s p of
        Inr (Some (RegularFile c)) \<Rightarrow> Inr (length c)
      | Inl e \<Rightarrow> Inl e
      | _ \<Rightarrow> Inl (fs_what s p))"

text \<open>The content of an input stream; a stream that could not be opened gives nothing.\<close>

definition ifstream_content :: "fsys \<Rightarrow> string \<Rightarrow> string" where
  "ifstream_content s p =
     (case weakly_canonical s p of
        Inr q \<Rightarrow> (case fs_node s q of Some (RegularFile c) \<Rightarrow> if fs_may_read s q then c else [] | _ \<Rightarrow> [])
      | Inl _ \<Rightarrow> [])"

text \<open>
  An output stream opened on a name, written and closed. It truncates a file or makes one; when it cannot be opened the writes do nothing, and nobody is told.
\<close>

definition ofstream_write :: "string \<Rightarrow> string \<Rightarrow> fsys \<Rightarrow> fsys" where
  "ofstream_write p content s =
     (case weakly_canonical s p of
        Inl _ \<Rightarrow> s
      | Inr q \<Rightarrow>
          if fs_may_write s q \<and> (fs_node s q = None \<or> is_regular (fs_node s q))
          then s\<lparr>fs_node := (fs_node s)(q := Some (RegularFile content))\<rparr> else s)"

definition fs_remove :: "string \<Rightarrow> fsys \<Rightarrow> (string + bool) \<times> fsys" where
  "fs_remove p s =
     (case fs_status s p of
        Inl e \<Rightarrow> (Inl e, s)
      | Inr None \<Rightarrow> (Inr False, s)
      | Inr (Some n) \<Rightarrow>
          (case weakly_canonical s p of
             Inl e \<Rightarrow> (Inl e, s)
           | Inr q \<Rightarrow> if fs_may_remove s q then (Inr True, s\<lparr>fs_node := (fs_node s)(q := None)\<rparr>)
                      else (Inl (fs_what s p), s)))"

section \<open>Containment\<close>

lemma mismatch_append: "mismatch as bs = (a, b) \<Longrightarrow> \<exists>c. as = c @ a \<and> bs = c @ b \<and> (a \<noteq> [] \<and> b \<noteq> [] \<longrightarrow> hd a \<noteq> hd b)"
proof (induction as bs arbitrary: a b rule: mismatch.induct)
  case (1 x xs y ys)
  show ?case
  proof (cases "x = y")
    case True
    with 1 obtain c where "xs = c @ a \<and> ys = c @ b \<and> (a \<noteq> [] \<and> b \<noteq> [] \<longrightarrow> hd a \<noteq> hd b)" by auto
    with True show ?thesis by (intro exI[of _ "x # c"]) simp
  qed (use 1 in auto)
qed auto

lemma steps_up_clean: "list_all (\<lambda>e. e \<noteq> [] \<and> e \<noteq> ''.'' \<and> e \<noteq> ''..'') es \<Longrightarrow> steps_up es = int (length es)"
  by (induction es) auto

lemma path_append_prefix: "p \<noteq> [] \<Longrightarrow> \<not> path_is_absolute q \<Longrightarrow> prefix p (path_append p q)"
  by (auto simp: path_append_def)

lemma element_relative:
  assumes "e \<in> set (path_elements p)" "e \<noteq> [SLASH]"
  shows "\<not> path_is_absolute e"
proof -
  from assms have "e = [] \<or> e \<in> set (split_on SLASH p)" by (auto simp: path_elements_def Let_def split: if_splits)
  then show ?thesis using split_on_segment[of e SLASH p] by (cases e) (auto simp: path_is_absolute_def)
qed

lemma root_element_first:
  assumes "path_elements p = c @ a" "c \<noteq> []" "e \<in> set a"
  shows "e \<noteq> [SLASH]"
proof
  assume e: "e = [SLASH]"
  define names where "names = filter (\<lambda>n. n \<noteq> []) (split_on SLASH p)"
  have n: "[SLASH] \<notin> set names" using split_on_segment[of "[SLASH]" SLASH p] by (auto simp: names_def)
  define rest where "rest = names @ (if names \<noteq> [] \<and> last p = SLASH then [[]] else [])"
  have r: "[SLASH] \<notin> set rest" using n by (auto simp: rest_def)
  have "path_elements p = (if path_is_absolute p then [[SLASH]] else []) @ rest"
    by (simp add: path_elements_def Let_def names_def rest_def)
  then have "e \<in> set (tl ((if path_is_absolute p then [[SLASH]] else []) @ rest))" using assms by (cases c) auto
  then show False using r e by (cases rest) (auto split: if_splits)
qed

lemma foldl_append_prefix:
  "p \<noteq> [] \<Longrightarrow> \<forall>e \<in> set es. \<not> path_is_absolute e \<Longrightarrow> prefix p (foldl path_append p es)"
proof (induction es arbitrary: p)
  case (Cons e es)
  then have "prefix p (path_append p e)" by (simp add: path_append_prefix)
  moreover have "path_append p e \<noteq> []" using Cons.prems by (auto simp: path_append_def)
  ultimately show ?case using Cons by (auto intro: prefix_order.trans)
qed simp

text \<open>
  The test the servers make, that the relative path is not empty and does not start with two dots, is the right one when the base has no dots in it.
\<close>

lemma relative_inside:
  assumes base: "no_dots base" and rel: "lexically_relative p base \<noteq> []" "\<not> prefix ''..'' (lexically_relative p base)"
  shows "inside base p"
proof -
  obtain a b where m: "mismatch (path_elements p) (path_elements base) = (a, b)" by fastforce
  obtain c where c: "path_elements p = c @ a" "path_elements base = c @ b" "a \<noteq> [] \<and> b \<noteq> [] \<longrightarrow> hd a \<noteq> hd b"
    using mismatch_append[OF m] by blast
  have abs: "path_is_absolute p = path_is_absolute base" using rel(1) by (simp add: lexically_relative_def split: if_splits)
  have n: "steps_up b = int (length b)" using base c(2) by (intro steps_up_clean) (simp add: no_dots_def)
  show ?thesis
  proof (cases "b = []")
    case True
    then show ?thesis using c by (simp add: inside_def)
  next
    case False
    have "\<forall>e \<in> set a. \<not> path_is_absolute e"
    proof (cases "path_is_absolute p")
      case True
      then have "c \<noteq> []"
      proof -
        have "hd (path_elements p) = [SLASH]" "hd (path_elements base) = [SLASH]" "path_elements p \<noteq> []"
          using True abs by (simp_all add: path_elements_def Let_def)
        then show ?thesis using c False by (cases c) auto
      qed
      then show ?thesis using root_element_first[OF c(1)] element_relative[of _ p] c(1) by auto
    next
      case not_abs: False
      have "e \<noteq> [SLASH]" if "e \<in> set (path_elements p)" for e
        using that not_abs split_on_segment[of e SLASH p] by (auto simp: path_elements_def Let_def split: if_splits)
      then show ?thesis using element_relative[of _ p] c(1) by auto
    qed
    then have "prefix ''..'' (foldl path_append ''..'' (replicate (length b - 1) ''..'' @ a))"
      by (intro foldl_append_prefix) (auto simp: path_is_absolute_def SLASH_def)
    moreover have "replicate (length b) ''..'' = ''..'' # replicate (length b - 1) ''..''"
      using False by (cases b) simp_all
    then have "lexically_relative p base = foldl path_append ''..'' (replicate (length b - 1) ''..'' @ a)"
      using m n False abs by (simp add: lexically_relative_def path_append_def path_is_absolute_def SLASH_def)
    ultimately show ?thesis using rel(2) by simp
  qed
qed

section \<open>A file in a directory\<close>

text \<open>A name of one element, appended to a resolved directory: one element more, and the relative path gives the name back.\<close>

lemma split_on_append: "split_on d (a @ d # b) = split_on d a @ split_on d b"
proof (induction a)
  case (Cons x a)
  obtain u us where u: "split_on d a = u # us" by (cases "split_on d a") auto
  with Cons show ?case by auto
qed simp

lemma path_elements_append:
  assumes root: "path_is_absolute root" "no_dots root" and n: "n \<noteq> []" "SLASH \<notin> set n"
  shows "path_elements (path_append root n) = path_elements root @ [n]"
proof -
  have ends: "last n \<noteq> SLASH" "root \<noteq> []" "\<not> path_is_absolute n" "split_on SLASH n = [n]"
    using assms last_in_set[of n] hd_in_set[of n] by (auto simp: path_is_absolute_def split_on_no_sep simp del: last_in_set hd_in_set)
  show ?thesis
  proof (cases "last root = SLASH")
    case True
    then obtain r where r: "root = r @ [SLASH]" using ends(2) by (metis append_butlast_last_id)
    have split: "split_on SLASH root = split_on SLASH r @ [[]]" "split_on SLASH (root @ n) = split_on SLASH r @ [n]"
      using split_on_append[of SLASH r "[]"] split_on_append[of SLASH r n] by (simp_all add: r ends)
    have none: "filter (\<lambda>n. n \<noteq> []) (split_on SLASH r) = []"
      using root(2) True by (auto simp: no_dots_def path_elements_def Let_def split split: if_splits)
    have "path_is_absolute (root @ n)" using root(1) ends(2) by (simp add: path_is_absolute_def)
    then show ?thesis using root(1) n ends none by (simp add: path_elements_def path_append_def Let_def split True)
  next
    case False
    have "path_is_absolute (root @ SLASH # n)" using root(1) ends(2) by (simp add: path_is_absolute_def)
    then show ?thesis using False root(1) n ends
      by (simp add: path_elements_def path_append_def Let_def split_on_append)
  qed
qed

lemma mismatch_extend: "mismatch (xs @ ys) xs = (ys, [])"
  by (induction xs) (cases ys, simp_all)

lemma path_append_absolute: "path_is_absolute root \<Longrightarrow> path_is_absolute (path_append root n)"
  by (auto simp: path_append_def path_is_absolute_def)

lemma relative_child:
  assumes "path_is_absolute root" "no_dots root" "n \<noteq> []" "SLASH \<notin> set n"
  shows "lexically_relative (path_append root n) root = n"
proof -
  have "\<not> path_is_absolute n" using assms(3,4) by (cases n) (auto simp: path_is_absolute_def)
  then show ?thesis
    using assms path_append_absolute[OF assms(1), of n]
    by (simp add: lexically_relative_def path_elements_append mismatch_extend) (simp add: path_append_def)
qed

lemma path_append_inj:
  assumes "path_is_absolute root" "SLASH \<notin> set n" "SLASH \<notin> set m" "path_append root n = path_append root m"
  shows "n = m"
proof -
  have "\<not> path_is_absolute n" "\<not> path_is_absolute m"
    using assms(2,3) by (auto simp: path_is_absolute_def dest: hd_in_set)
  with assms(4) show ?thesis by (simp add: path_append_def split: if_splits)
qed

end
