(* ===== verification/Spsc_Queue.thy ===== *)
theory Spsc_Queue
  imports Cdv_Prelude Step_Systems
begin

text \<open>
  The single-producer single-consumer queue, \<^verbatim>\<open>include/caduvelox/util/SPSCQueue.hpp\<close>. \<open>try_push\<close> and \<open>try_pop\<close> are the two
  operations as they run alone; \<open>spsc_step\<close> interleaves one producer and one consumer, one access to the shared
  memory at a time. The stores to \<^verbatim>\<open>head_\<close> and \<^verbatim>\<open>tail_\<close> are releases and the loads of the other side's index
  acquires, and each index has one writer, so reading the accesses as atomic steps in one order loses nothing.

  \<open>Size\<close> is \<open>2 ^ k\<close>; indices are 64-bit words, as \<^verbatim>\<open>size_t\<close> is. The queue refines a bounded first-in first-out queue of
  \<open>Size - 1\<close> places.
\<close>

section \<open>The queue\<close>

record 'a SPSCQueue =
  q_head :: u64
  q_tail :: u64
  q_slots :: "u64 \<Rightarrow> 'a"

definition SPSCQueue_init :: "'a \<Rightarrow> 'a SPSCQueue" where
  "SPSCQueue_init d = \<lparr>q_head = 0, q_tail = 0, q_slots = (\<lambda>_. d)\<rparr>"

unbundle bit_operations_syntax

definition wrap_index :: "nat \<Rightarrow> u64 \<Rightarrow> u64" where
  "wrap_index k i = i AND (2 ^ k - 1)"

definition try_push :: "nat \<Rightarrow> 'a \<Rightarrow> 'a SPSCQueue \<Rightarrow> bool \<times> 'a SPSCQueue" where
  "try_push k item q =
     (let head = q_head q; next_head = wrap_index k (head + 1) in
      if next_head = q_tail q then (False, q)
      else (True, q\<lparr>q_slots := (q_slots q)(head := item), q_head := next_head\<rparr>))"

text \<open>\<open>mv\<close> is what \<^verbatim>\<open>std::move\<close> leaves behind in the object it moves from.\<close>

definition try_pop :: "('a \<Rightarrow> 'a) \<Rightarrow> nat \<Rightarrow> 'a SPSCQueue \<Rightarrow> 'a option \<times> 'a SPSCQueue" where
  "try_pop mv k q =
     (let tail = q_tail q in
      if tail = q_head q then (None, q)
      else let item = q_slots q tail; next_tail = wrap_index k (tail + 1) in
        (Some item, q\<lparr>q_slots := (q_slots q)(tail := mv item), q_tail := next_tail\<rparr>))"

definition queue_empty :: "'a SPSCQueue \<Rightarrow> bool" where
  "queue_empty q \<longleftrightarrow> q_tail q = q_head q"

definition queue_size :: "nat \<Rightarrow> 'a SPSCQueue \<Rightarrow> u64" where
  "queue_size k q = wrap_index k (q_head q - q_tail q)"

section \<open>Indices\<close>

lemma unat_wrap_index: "k \<le> 63 \<Longrightarrow> unat (wrap_index k i) = unat i mod 2 ^ k"
proof -
  have "wrap_index k i = take_bit k i" by (simp add: wrap_index_def take_bit_eq_mask mask_eq_exp_minus_1)
  moreover have "unat (take_bit k i) = take_bit k (unat i)" by (simp add: unsigned_take_bit_eq)
  ultimately show ?thesis by (simp only: take_bit_eq_mod)
qed

text \<open>\<open>ix k n\<close> is the index of the \<open>n\<close>-th place used since the beginning.\<close>

definition ix :: "nat \<Rightarrow> nat \<Rightarrow> u64" where
  "ix k n = of_nat (n mod 2 ^ k)"

lemma unat_ix: "k \<le> 63 \<Longrightarrow> unat (ix k n) = n mod 2 ^ k"
proof -
  assume k: "k \<le> 63"
  have "n mod 2 ^ k < 2 ^ k" by simp
  also have "(2::nat) ^ k < 2 ^ 64" using k by (intro power_strict_increasing) auto
  finally show ?thesis by (simp add: ix_def unat_of_nat)
qed

lemma ix_eq: "k \<le> 63 \<Longrightarrow> ix k m = ix k n \<longleftrightarrow> m mod 2 ^ k = n mod 2 ^ k"
  by (metis unat_ix word_unat_eq_iff)

lemma wrap_ix_Suc: "k \<le> 63 \<Longrightarrow> wrap_index k (ix k n + 1) = ix k (Suc n)"
proof -
  assume k: "k \<le> 63"
  have "n mod 2 ^ k + 1 < 2 ^ 64"
  proof -
    have "n mod 2 ^ k < 2 ^ k" by simp
    moreover have "(2::nat) ^ k \<le> 2 ^ 63" using k by (intro power_increasing) auto
    moreover have "(2::nat) ^ 63 + 1 < 2 ^ 64" by simp
    ultimately show ?thesis by linarith
  qed
  then have "unat (ix k n + 1) = n mod 2 ^ k + 1" by (simp add: unat_word_ariths unat_ix[OF k])
  then have "unat (wrap_index k (ix k n + 1)) = unat (ix k (Suc n))"
    by (simp add: unat_wrap_index[OF k] unat_ix[OF k] mod_Suc_eq)
  then show ?thesis by (simp add: word_unat_eq_iff)
qed

text \<open>Places less than \<open>Size\<close> apart have different indices.\<close>

lemma ix_apart: "k \<le> 63 \<Longrightarrow> m \<le> n \<Longrightarrow> n - m < 2 ^ k \<Longrightarrow> ix k m = ix k n \<longleftrightarrow> m = n"
proof -
  assume k: "k \<le> 63" and mn: "m \<le> n" "n - m < 2 ^ k"
  have "m mod 2 ^ k = n mod 2 ^ k \<longleftrightarrow> (n - m) mod 2 ^ k = 0" using mn(1) by (metis mod_eq_dvd_iff_nat mod_eq_0_iff_dvd)
  with mn show ?thesis by (auto simp: ix_eq[OF k])
qed

section \<open>One producer, one consumer\<close>

text \<open>
  Where each thread is in its operation, with what it has read so far. \<open>s_pushed\<close> and \<open>s_popped\<close> record the items of the
  pushes that have published and of the pops that have given their place back.
\<close>

datatype 'a producer = PIdle | PLoaded 'a u64 | PRoom 'a u64 u64 | PStored 'a u64
datatype 'a consumer = CIdle | CLoaded u64 | CAvail u64 | CTaken u64 'a

record 'a spsc =
  s_queue :: "'a SPSCQueue"
  s_prod :: "'a producer"
  s_cons :: "'a consumer"
  s_pushed :: "'a list"
  s_popped :: "'a list"

definition spsc_init :: "'a \<Rightarrow> 'a spsc" where
  "spsc_init d = \<lparr>s_queue = SPSCQueue_init d, s_prod = PIdle, s_cons = CIdle, s_pushed = [], s_popped = []\<rparr>"

inductive spsc_step :: "('a \<Rightarrow> 'a) \<Rightarrow> nat \<Rightarrow> 'a spsc \<Rightarrow> 'a spsc \<Rightarrow> bool" for mv k where
  PushBegin: "s_prod s = PIdle \<Longrightarrow> spsc_step mv k s (s\<lparr>s_prod := PLoaded x (q_head (s_queue s))\<rparr>)"
| PushFull: "s_prod s = PLoaded x h \<Longrightarrow> wrap_index k (h + 1) = q_tail (s_queue s) \<Longrightarrow> spsc_step mv k s (s\<lparr>s_prod := PIdle\<rparr>)"
| PushRoom: "s_prod s = PLoaded x h \<Longrightarrow> wrap_index k (h + 1) \<noteq> q_tail (s_queue s) \<Longrightarrow>
     spsc_step mv k s (s\<lparr>s_prod := PRoom x h (wrap_index k (h + 1))\<rparr>)"
| PushStore: "s_prod s = PRoom x h n \<Longrightarrow>
     spsc_step mv k s (s\<lparr>s_queue := (s_queue s)\<lparr>q_slots := (q_slots (s_queue s))(h := x)\<rparr>, s_prod := PStored x n\<rparr>)"
| PushPublish: "s_prod s = PStored x n \<Longrightarrow>
     spsc_step mv k s (s\<lparr>s_queue := (s_queue s)\<lparr>q_head := n\<rparr>, s_prod := PIdle, s_pushed := s_pushed s @ [x]\<rparr>)"
| PopBegin: "s_cons s = CIdle \<Longrightarrow> spsc_step mv k s (s\<lparr>s_cons := CLoaded (q_tail (s_queue s))\<rparr>)"
| PopEmpty: "s_cons s = CLoaded t \<Longrightarrow> t = q_head (s_queue s) \<Longrightarrow> spsc_step mv k s (s\<lparr>s_cons := CIdle\<rparr>)"
| PopSome: "s_cons s = CLoaded t \<Longrightarrow> t \<noteq> q_head (s_queue s) \<Longrightarrow> spsc_step mv k s (s\<lparr>s_cons := CAvail t\<rparr>)"
| PopTake: "s_cons s = CAvail t \<Longrightarrow> spsc_step mv k s
     (s\<lparr>s_queue := (s_queue s)\<lparr>q_slots := (q_slots (s_queue s))(t := mv (q_slots (s_queue s) t))\<rparr>,
        s_cons := CTaken t (q_slots (s_queue s) t)\<rparr>)"
| PopPublish: "s_cons s = CTaken t x \<Longrightarrow>
     spsc_step mv k s (s\<lparr>s_queue := (s_queue s)\<lparr>q_tail := wrap_index k (t + 1)\<rparr>, s_cons := CIdle, s_popped := s_popped s @ [x]\<rparr>)"

text \<open>The two operations are such sequences of steps.\<close>

lemma try_push_steps:
  assumes "s_prod s = PIdle" "try_push k x (s_queue s) = (ok, q)"
  shows "(spsc_step mv k)\<^sup>*\<^sup>* s (s\<lparr>s_queue := q, s_pushed := s_pushed s @ (if ok then [x] else [])\<rparr>)"
proof -
  let ?h = "q_head (s_queue s)" and ?n = "wrap_index k (q_head (s_queue s) + 1)"
  let ?s1 = "s\<lparr>s_prod := PLoaded x ?h\<rparr>"
  have 1: "spsc_step mv k s ?s1" by (rule PushBegin[OF assms(1)])
  show ?thesis
  proof (cases "?n = q_tail (s_queue s)")
    case True
    have "spsc_step mv k ?s1 (?s1\<lparr>s_prod := PIdle\<rparr>)" using PushFull[of ?s1 x ?h k mv] True by simp
    moreover have "?s1\<lparr>s_prod := PIdle\<rparr> = s" using assms(1) by simp
    ultimately show ?thesis using 1 assms(2) True by (auto simp: try_push_def Let_def)
  next
    case False
    let ?s2 = "s\<lparr>s_prod := PRoom x ?h ?n\<rparr>"
    let ?q3 = "(s_queue s)\<lparr>q_slots := (q_slots (s_queue s))(?h := x)\<rparr>"
    let ?s3 = "s\<lparr>s_queue := ?q3, s_prod := PStored x ?n\<rparr>"
    have 2: "spsc_step mv k ?s1 ?s2" using PushRoom[of ?s1 x ?h k mv] False by simp
    have 3: "spsc_step mv k ?s2 ?s3" using PushStore[of ?s2 x ?h ?n mv k] by simp
    have 4: "spsc_step mv k ?s3 (?s3\<lparr>s_queue := ?q3\<lparr>q_head := ?n\<rparr>, s_prod := PIdle, s_pushed := s_pushed s @ [x]\<rparr>)"
      using PushPublish[of ?s3 x ?n mv k] by simp
    have 5: "?s3\<lparr>s_queue := ?q3\<lparr>q_head := ?n\<rparr>, s_prod := PIdle, s_pushed := s_pushed s @ [x]\<rparr> =
        s\<lparr>s_queue := ?q3\<lparr>q_head := ?n\<rparr>, s_pushed := s_pushed s @ [x]\<rparr>"
      using assms(1) by (cases s) simp
    have "ok" "q = ?q3\<lparr>q_head := ?n\<rparr>" using assms(2) False by (auto simp: try_push_def Let_def)
    then show ?thesis using 1 2 3 4[unfolded 5] by (auto intro: converse_rtranclp_into_rtranclp)
  qed
qed

lemma try_pop_steps:
  assumes "s_cons s = CIdle" "try_pop mv k (s_queue s) = (r, q)"
  shows "(spsc_step mv k)\<^sup>*\<^sup>* s (s\<lparr>s_queue := q, s_popped := s_popped s @ (case r of None \<Rightarrow> [] | Some x \<Rightarrow> [x])\<rparr>)"
proof -
  let ?t = "q_tail (s_queue s)"
  let ?x = "q_slots (s_queue s) ?t"
  let ?s1 = "s\<lparr>s_cons := CLoaded ?t\<rparr>"
  have 1: "spsc_step mv k s ?s1" by (rule PopBegin[OF assms(1)])
  show ?thesis
  proof (cases "?t = q_head (s_queue s)")
    case True
    have "spsc_step mv k ?s1 (?s1\<lparr>s_cons := CIdle\<rparr>)" using PopEmpty[of ?s1 ?t mv k] True by simp
    moreover have "?s1\<lparr>s_cons := CIdle\<rparr> = s" using assms(1) by simp
    ultimately show ?thesis using 1 assms(2) True by (auto simp: try_pop_def Let_def)
  next
    case False
    let ?s2 = "s\<lparr>s_cons := CAvail ?t\<rparr>"
    let ?q3 = "(s_queue s)\<lparr>q_slots := (q_slots (s_queue s))(?t := mv ?x)\<rparr>"
    let ?s3 = "s\<lparr>s_queue := ?q3, s_cons := CTaken ?t ?x\<rparr>"
    let ?q4 = "?q3\<lparr>q_tail := wrap_index k (?t + 1)\<rparr>"
    have 2: "spsc_step mv k ?s1 ?s2" using PopSome[of ?s1 ?t mv k] False by simp
    have 3: "spsc_step mv k ?s2 ?s3" using PopTake[of ?s2 ?t mv k] by simp
    have 4: "spsc_step mv k ?s3 (?s3\<lparr>s_queue := ?q4, s_cons := CIdle, s_popped := s_popped s @ [?x]\<rparr>)"
      using PopPublish[of ?s3 ?t ?x mv k] by simp
    have 5: "?s3\<lparr>s_queue := ?q4, s_cons := CIdle, s_popped := s_popped s @ [?x]\<rparr> =
        s\<lparr>s_queue := ?q4, s_popped := s_popped s @ [?x]\<rparr>"
      using assms(1) by (cases s) simp
    have "r = Some ?x" "q = ?q4" using assms(2) False by (auto simp: try_pop_def Let_def)
    then show ?thesis using 1 2 3 4[unfolded 5] by (auto intro: converse_rtranclp_into_rtranclp)
  qed
qed

section \<open>The invariant\<close>

fun prod_inv :: "nat \<Rightarrow> nat \<Rightarrow> nat \<Rightarrow> 'a SPSCQueue \<Rightarrow> 'a producer \<Rightarrow> bool" where
  "prod_inv k H T q PIdle \<longleftrightarrow> True"
| "prod_inv k H T q (PLoaded x h) \<longleftrightarrow> h = ix k H"
| "prod_inv k H T q (PRoom x h n) \<longleftrightarrow> h = ix k H \<and> n = ix k (Suc H) \<and> Suc H - T < 2 ^ k"
| "prod_inv k H T q (PStored x n) \<longleftrightarrow> n = ix k (Suc H) \<and> Suc H - T < 2 ^ k \<and> q_slots q (ix k H) = x"

fun cons_inv :: "nat \<Rightarrow> nat \<Rightarrow> nat \<Rightarrow> 'a list \<Rightarrow> 'a consumer \<Rightarrow> bool" where
  "cons_inv k H T xs CIdle \<longleftrightarrow> True"
| "cons_inv k H T xs (CLoaded t) \<longleftrightarrow> t = ix k T"
| "cons_inv k H T xs (CAvail t) \<longleftrightarrow> t = ix k T \<and> T < H"
| "cons_inv k H T xs (CTaken t x) \<longleftrightarrow> t = ix k T \<and> T < H \<and> x = xs ! T"

text \<open>From the move out of a place to the release of \<^verbatim>\<open>tail_\<close> the place still counts as taken, but holds nothing.\<close>

fun holding :: "'a consumer \<Rightarrow> nat" where
  "holding (CTaken t x) = 1"
| "holding _ = 0"

definition spsc_inv :: "nat \<Rightarrow> 'a spsc \<Rightarrow> bool" where
  "spsc_inv k s \<longleftrightarrow>
     (let H = length (s_pushed s); T = length (s_popped s); q = s_queue s in
      T \<le> H \<and> H - T < 2 ^ k \<and> q_head q = ix k H \<and> q_tail q = ix k T \<and> s_popped s = take T (s_pushed s) \<and>
      (\<forall>n. T + holding (s_cons s) \<le> n \<and> n < H \<longrightarrow> q_slots q (ix k n) = s_pushed s ! n) \<and>
      prod_inv k H T q (s_prod s) \<and> cons_inv k H T (s_pushed s) (s_cons s))"

lemma spsc_init_inv: "spsc_inv k (spsc_init d)"
  by (simp add: spsc_inv_def spsc_init_def SPSCQueue_init_def ix_def)

lemma room_left:
  assumes "k \<le> 63" "T \<le> H" "H - T < 2 ^ k" "ix k (Suc H) \<noteq> ix k T"
  shows "Suc H - T < 2 ^ k"
proof (rule ccontr)
  assume "\<not> Suc H - T < 2 ^ k"
  with assms(2,3) have "Suc H = T + 2 ^ k" by simp
  then have "ix k (Suc H) = ix k T" by (simp add: ix_def)
  with assms(4) show False ..
qed

lemma spsc_step_inv:
  assumes "spsc_step mv k s s'" "k \<le> 63" "spsc_inv k s"
  shows "spsc_inv k s'"
proof -
  let ?H = "length (s_pushed s)" and ?T = "length (s_popped s)"
  note inv = assms(3)[unfolded spsc_inv_def Let_def]
  have apart: "ix k m \<noteq> ix k n" if "?T \<le> m" "m < n" "n \<le> ?H" for m n
  proof -
    have "n - m \<le> ?H - ?T" using that by linarith
    with inv have "n - m < 2 ^ k" by (meson le_less_trans)
    with ix_apart[OF assms(2), of m n] that show ?thesis by simp
  qed
  from assms(1) show ?thesis
  proof cases
    case (PushRoom x h)
    then show ?thesis using inv room_left[OF assms(2)] by (auto simp: spsc_inv_def Let_def wrap_ix_Suc[OF assms(2)])
  next
    case (PushStore x h n)
    have i: "h = ix k ?H" "n = ix k (Suc ?H)" "Suc ?H - ?T < 2 ^ k" using inv PushStore(2) by simp_all
    have "ix k m \<noteq> ix k ?H" if "?T + holding (s_cons s) \<le> m" "m < ?H" for m using apart that by simp
    with inv PushStore i show ?thesis by (simp add: spsc_inv_def Let_def)
  next
    case (PushPublish x n)
    then show ?thesis using inv by (cases "s_cons s") (auto simp: spsc_inv_def Let_def nth_append less_Suc_eq_le le_less)
  next
    case (PopSome t)
    with inv have "?T < ?H" by (cases "?T = ?H") simp_all
    with inv PopSome show ?thesis by (simp add: spsc_inv_def Let_def)
  next
    case (PopTake t)
    have i: "t = ix k ?T" "?T < ?H" using inv PopTake(2) by simp_all
    have "ix k n \<noteq> ix k ?T" if "Suc ?T \<le> n" "n \<le> ?H" for n using apart[of ?T n] that by auto
    with inv PopTake i show ?thesis by (cases "s_prod s") (simp_all add: spsc_inv_def Let_def)
  next
    case (PopPublish t x)
    have i: "t = ix k ?T" "?T < ?H" "x = s_pushed s ! ?T" "s_popped s = take ?T (s_pushed s)" using inv PopPublish(2) by simp_all
    have "take (Suc ?T) (s_pushed s) = s_popped s @ [x]" using i by (simp add: take_Suc_conv_app_nth)
    with inv PopPublish i show ?thesis by (cases "s_prod s") (auto simp: spsc_inv_def Let_def wrap_ix_Suc[OF assms(2)])
  qed (use inv in \<open>simp_all add: spsc_inv_def Let_def\<close>)
qed

section \<open>The refinement\<close>

text \<open>The abstract queue: a list of at most \<open>cap\<close> items, and the items taken from it so far.\<close>

record 'a fifo =
  f_items :: "'a list"
  f_taken :: "'a list"

inductive fifo_step :: "nat \<Rightarrow> 'a fifo \<Rightarrow> 'a fifo \<Rightarrow> bool" for cap where
  Enq: "length (f_items f) < cap \<Longrightarrow> fifo_step cap f (f\<lparr>f_items := f_items f @ [x]\<rparr>)"
| Deq: "f_items f = x # xs \<Longrightarrow> fifo_step cap f (f\<lparr>f_items := xs, f_taken := f_taken f @ [x]\<rparr>)"

definition spsc_abs :: "'a spsc \<Rightarrow> 'a fifo" where
  "spsc_abs s = \<lparr>f_items = drop (length (s_popped s)) (s_pushed s), f_taken = s_popped s\<rparr>"

lemma spsc_simulates:
  assumes "spsc_step mv k s s'" "spsc_inv k s"
  shows "spsc_abs s' = spsc_abs s \<or> fifo_step (2 ^ k - 1) (spsc_abs s) (spsc_abs s')"
proof -
  let ?H = "length (s_pushed s)" and ?T = "length (s_popped s)"
  note inv = assms(2)[unfolded spsc_inv_def Let_def]
  from assms(1) show ?thesis
  proof cases
    case (PushPublish x n)
    have "Suc ?H - ?T < 2 ^ k" "?T \<le> ?H" using inv PushPublish(2) by simp_all
    then have "length (f_items (spsc_abs s)) < 2 ^ k - 1" by (simp add: spsc_abs_def)
    moreover have "spsc_abs s' = (spsc_abs s)\<lparr>f_items := f_items (spsc_abs s) @ [x]\<rparr>"
      using inv PushPublish(1) by (simp add: spsc_abs_def)
    ultimately show ?thesis by (auto intro: Enq)
  next
    case (PopPublish t x)
    have "?T < ?H" "x = s_pushed s ! ?T" using inv PopPublish(2) by simp_all
    then have "f_items (spsc_abs s) = x # drop (Suc ?T) (s_pushed s)" by (simp add: spsc_abs_def Cons_nth_drop_Suc)
    from Deq[OF this, of "2 ^ k - 1"] PopPublish(1) show ?thesis by (simp add: spsc_abs_def)
  qed (simp_all add: spsc_abs_def)
qed

interpretation spsc: step_refinement "spsc_step mv k" "\<lambda>s. k \<le> 63 \<and> spsc_inv k s" spsc_abs "fifo_step (2 ^ k - 1)" for mv k
  by unfold_locales (auto intro: spsc_step_inv dest: spsc_simulates)

lemma spsc_empty_iff: "k \<le> 63 \<Longrightarrow> spsc_inv k s \<Longrightarrow> queue_empty (s_queue s) \<longleftrightarrow> s_popped s = s_pushed s"
  using ix_apart[of k "length (s_popped s)" "length (s_pushed s)"]
  by (auto simp: spsc_inv_def Let_def queue_empty_def)

lemma spsc_full_iff:
  assumes "k \<le> 63" "spsc_inv k s"
  shows "wrap_index k (q_head (s_queue s) + 1) = q_tail (s_queue s) \<longleftrightarrow> length (s_pushed s) - length (s_popped s) = 2 ^ k - 1"
proof -
  define H where "H = length (s_pushed s)"
  define T where "T = length (s_popped s)"
  have i: "T \<le> H" "H - T < 2 ^ k" "q_head (s_queue s) = ix k H" "q_tail (s_queue s) = ix k T"
    using assms(2) by (auto simp: spsc_inv_def Let_def H_def T_def)
  have "ix k (Suc H) = ix k T \<longleftrightarrow> H - T = 2 ^ k - 1"
  proof (cases "H - T = 2 ^ k - 1")
    case True
    moreover have "(1::nat) \<le> 2 ^ k" by simp
    ultimately have "Suc H = T + 2 ^ k" using i(1) by linarith
    then show ?thesis using True by (simp add: ix_def)
  next
    case False
    then have "Suc H - T < 2 ^ k" using i by linarith
    then show ?thesis using False ix_apart[OF assms(1), of T "Suc H"] i(1) by auto
  qed
  then show ?thesis using i by (simp add: wrap_ix_Suc[OF assms(1)] H_def T_def)
qed

lemma wrap_index_diff:
  assumes "k \<le> 63" "T \<le> H"
  shows "unat (wrap_index k (ix k H - ix k T)) = (H - T) mod 2 ^ k"
proof -
  have "uint (ix k H - ix k T) = (uint (ix k H) - uint (ix k T)) mod 2 ^ 64" by (simp add: uint_word_ariths)
  then have "uint (ix k H - ix k T) mod 2 ^ k = (uint (ix k H) - uint (ix k T)) mod 2 ^ k"
    using assms(1) by (simp only: mod_mod_cancel le_imp_power_dvd)
  also have "\<dots> = (int H - int T) mod 2 ^ k"
    by (simp only: uint_nat unat_ix[OF assms(1)] of_nat_mod of_nat_power of_nat_numeral mod_diff_eq)
  finally have "int (unat (ix k H - ix k T) mod 2 ^ k) = int ((H - T) mod 2 ^ k)"
    using assms(2) by (simp only: uint_nat of_nat_mod of_nat_power of_nat_numeral of_nat_diff)
  then show ?thesis by (simp add: unat_wrap_index[OF assms(1)])
qed

lemma spsc_size: "k \<le> 63 \<Longrightarrow> spsc_inv k s \<Longrightarrow> unat (queue_size k (s_queue s)) = length (s_pushed s) - length (s_popped s)"
  using wrap_index_diff by (auto simp: spsc_inv_def Let_def queue_size_def)

lemma spsc_next_item:
  assumes "k \<le> 63" "spsc_inv k s" "s_cons s = CIdle"
  shows "fst (try_pop mv k (s_queue s)) = (case f_items (spsc_abs s) of [] \<Rightarrow> None | x # _ \<Rightarrow> Some x)"
proof (cases "length (s_popped s) < length (s_pushed s)")
  case True
  then have "\<not> queue_empty (s_queue s)" using spsc_empty_iff[OF assms(1,2)] by auto
  with True assms(2,3) show ?thesis
    by (simp add: spsc_abs_def spsc_inv_def queue_empty_def try_pop_def Let_def Cons_nth_drop_Suc[symmetric])
next
  case False
  then have "f_items (spsc_abs s) = []" "s_popped s = s_pushed s" using assms(2) by (simp_all add: spsc_abs_def spsc_inv_def Let_def)
  then show ?thesis using spsc_empty_iff[OF assms(1,2)] by (simp add: queue_empty_def try_pop_def Let_def)
qed

text \<open>
  C28. The queue of \<^verbatim>\<open>Size = 2^k\<close> slots refines a bounded first-in first-out queue of \<open>2^k - 1\<close> places, for every interleaving of one
  producer and one consumer at the granularity of single loads and stores, whatever a move leaves in its slot: the items popped are the
  first of the items pushed, in order, none lost, doubled or read half-written; \<^verbatim>\<open>size()\<close> and \<^verbatim>\<open>empty()\<close> are exact when no store is
  racing with them; a push is refused exactly when \<open>2^k - 1\<close> items wait, and a pop delivers the oldest waiting item or, when
  there is none, nothing.
\<close>

theorem spsc_refines_fifo:
  assumes "k \<le> 63" "(spsc_step mv k)\<^sup>*\<^sup>* (spsc_init d) s"
  shows "(fifo_step (2 ^ k - 1))\<^sup>*\<^sup>* \<lparr>f_items = [], f_taken = []\<rparr> (spsc_abs s) \<and>
    s_pushed s = s_popped s @ f_items (spsc_abs s) \<and>
    unat (queue_size k (s_queue s)) = length (f_items (spsc_abs s)) \<and>
    (queue_empty (s_queue s) \<longleftrightarrow> f_items (spsc_abs s) = []) \<and>
    (fst (try_push k x (s_queue s)) \<longleftrightarrow> length (f_items (spsc_abs s)) \<noteq> 2 ^ k - 1) \<and>
    (s_cons s = CIdle \<longrightarrow> fst (try_pop mv k (s_queue s)) = (case f_items (spsc_abs s) of [] \<Rightarrow> None | y # _ \<Rightarrow> Some y))"
proof (intro conjI impI)
  have inv: "spsc_inv k s" using spsc.reachable[OF assms(2)] assms(1) spsc_init_inv[of k d] by simp
  show "(fifo_step (2 ^ k - 1))\<^sup>*\<^sup>* \<lparr>f_items = [], f_taken = []\<rparr> (spsc_abs s)"
    using spsc.refines[OF assms(2)] assms(1) spsc_init_inv[of k d] by (simp add: spsc_abs_def spsc_init_def)
  have "s_popped s = take (length (s_popped s)) (s_pushed s)" using inv by (simp add: spsc_inv_def Let_def)
  then show pp: "s_pushed s = s_popped s @ f_items (spsc_abs s)"
    by (simp add: spsc_abs_def) (metis append_take_drop_id)
  show "unat (queue_size k (s_queue s)) = length (f_items (spsc_abs s))"
    using spsc_size[OF assms(1) inv] by (simp add: spsc_abs_def)
  show "queue_empty (s_queue s) \<longleftrightarrow> f_items (spsc_abs s) = []"
    using spsc_empty_iff[OF assms(1) inv] pp by (metis append_self_conv)
  show "fst (try_push k x (s_queue s)) \<longleftrightarrow> length (f_items (spsc_abs s)) \<noteq> 2 ^ k - 1"
    using spsc_full_iff[OF assms(1) inv] by (simp add: spsc_abs_def try_push_def Let_def)
  show "fst (try_pop mv k (s_queue s)) = (case f_items (spsc_abs s) of [] \<Rightarrow> None | y # _ \<Rightarrow> Some y)" if "s_cons s = CIdle"
    by (rule spsc_next_item[OF assms(1) inv that])
qed

text \<open>A queue of four slots after one push: the item waits, and a pop gets it.\<close>

definition demo_pushed :: "nat spsc" where
  "demo_pushed = (spsc_init 0)\<lparr>s_queue := snd (try_push 2 7 (SPSCQueue_init 0)), s_pushed := [7]\<rparr>"

lemma demo_pushed_reachable: "(spsc_step mv 2)\<^sup>*\<^sup>* (spsc_init 0) demo_pushed"
proof -
  have "try_push 2 (7 :: nat) (SPSCQueue_init 0) = (True, snd (try_push 2 7 (SPSCQueue_init 0)))"
    by (simp add: try_push_def SPSCQueue_init_def wrap_index_def Let_def)
  then show ?thesis using try_push_steps[of "spsc_init 0" 2 7 True "snd (try_push 2 7 (SPSCQueue_init 0))" mv]
    by (simp add: demo_pushed_def spsc_init_def)
qed

theorem spsc_refines_fifo_witness:
  "unat (queue_size 2 (s_queue demo_pushed)) = 1 \<and> fst (try_push 2 9 (s_queue demo_pushed)) \<and>
   fst (try_pop (\<lambda>_. 0) 2 (s_queue demo_pushed)) = Some 7"
  using spsc_refines_fifo[OF _ demo_pushed_reachable[of "\<lambda>_. 0"], of 9]
  by (simp add: spsc_abs_def demo_pushed_def spsc_init_def)

end
