(* ===== verification/Mpmc_Queue.thy ===== *)
theory Mpmc_Queue
  imports Spsc_Queue
begin

text \<open>
  The queue of many producers and many consumers, \<^verbatim>\<open>src/ring_buffer/MPMCRingBuffer.hpp\<close>. Any number of threads run \<^verbatim>\<open>enqueue\<close> and \<^verbatim>\<open>dequeue\<close>, interleaved
  one access to the shared memory at a time; a weak compare-and-exchange may fail for no reason. The counters are 64-bit words that run on through the wrap-around.

  The queue refines the bounded first-in first-out queue of Spsc\_Queue with \<open>Size\<close> places: an item enters when its producer wins the exchange on \<^verbatim>\<open>head_\<close> and leaves when a consumer
  wins the one on \<^verbatim>\<open>tail_\<close>. The statements are for runs of fewer than \<open>2^62\<close> items, so that no thread sleeps through a
  whole turn of a counter.
\<close>

section \<open>The queue\<close>

record 'a mpmc_ring =
  r_head :: u64
  r_tail :: u64
  r_seq :: "u64 \<Rightarrow> u64"
  r_data :: "u64 \<Rightarrow> 'a"

definition MPMCRingBuffer_init :: "'a \<Rightarrow> 'a mpmc_ring" where
  "MPMCRingBuffer_init d = \<lparr>r_head = 0, r_tail = 0, r_seq = (\<lambda>i. i), r_data = (\<lambda>_. d)\<rparr>"

text \<open>\<^verbatim>\<open>fast_mod\<close> is \<open>wrap_index\<close>. The signed difference of two counters.\<close>

definition counter_diff :: "u64 \<Rightarrow> u64 \<Rightarrow> int" where
  "counter_diff a b = sint (a - b)"

definition size_approx :: "'a mpmc_ring \<Rightarrow> u64" where
  "size_approx r = r_head r - r_tail r"

text \<open>
  One call that runs alone, with no exchange failing: an iteration of the loop per unit of fuel.
\<close>

fun mp_enqueue :: "nat \<Rightarrow> nat \<Rightarrow> 'a \<Rightarrow> 'a mpmc_ring \<Rightarrow> (bool \<times> 'a mpmc_ring) option" where
  "mp_enqueue 0 k item r = None"
| "mp_enqueue (Suc fuel) k item r =
     (let pos = r_head r; slot = wrap_index k pos; diff = counter_diff (r_seq r slot) pos in
      if diff = 0 then
        Some (True, r\<lparr>r_head := pos + 1, r_data := (r_data r)(slot := item), r_seq := (r_seq r)(slot := pos + 1)\<rparr>)
      else if diff < 0 then Some (False, r)
      else mp_enqueue fuel k item r)"

fun mp_dequeue :: "('a \<Rightarrow> 'a) \<Rightarrow> nat \<Rightarrow> nat \<Rightarrow> 'a mpmc_ring \<Rightarrow> ('a option \<times> 'a mpmc_ring) option" where
  "mp_dequeue mv 0 k r = None"
| "mp_dequeue mv (Suc fuel) k r =
     (let pos = r_tail r; slot = wrap_index k pos; diff = counter_diff (r_seq r slot) (pos + 1) in
      if diff = 0 then
        Some (Some (r_data r slot), r\<lparr>r_tail := pos + 1, r_data := (r_data r)(slot := mv (r_data r slot)), r_seq := (r_seq r)(slot := pos + 2 ^ k)\<rparr>)
      else if diff < 0 then Some (None, r)
      else mp_dequeue mv fuel k r)"

section \<open>Many threads\<close>

text \<open>
  Where a thread is in its call. \<open>ELoop\<close> and \<open>DLoop\<close> are the head of the loop with \<^verbatim>\<open>pos\<close>, \<open>ETry\<close> and \<open>DTry\<close> just before the exchange,
  \<open>EWon\<close> and \<open>DWon\<close> just after it. The item an \<open>EStored\<close> has moved into the slot, and the two logs, are kept for the statements: \<open>m_items\<close> are the
  items in the order of the exchanges on \<^verbatim>\<open>head_\<close>, \<open>m_taken\<close> counts those on \<^verbatim>\<open>tail_\<close>, and \<open>m_out\<close> holds the position and item of each finished \<^verbatim>\<open>dequeue\<close>.
\<close>

datatype 'a mthread =
    Idle
  | ELoop 'a u64 | EReload 'a | ETry 'a u64 | EWon 'a u64 | EStored 'a u64
  | DLoop u64 | DReload | DTry u64 | DWon u64 | DTaken u64 'a

record 'a mpmc =
  m_ring :: "'a mpmc_ring"
  m_thr :: "nat \<Rightarrow> 'a mthread"
  m_items :: "'a list"
  m_taken :: nat
  m_out :: "(nat \<times> 'a) list"

definition mpmc_init :: "'a \<Rightarrow> 'a mpmc" where
  "mpmc_init d = \<lparr>m_ring = MPMCRingBuffer_init d, m_thr = (\<lambda>_. Idle), m_items = [], m_taken = 0, m_out = []\<rparr>"

abbreviation goto :: "'a mpmc \<Rightarrow> nat \<Rightarrow> 'a mthread \<Rightarrow> 'a mpmc" where
  "goto s t st \<equiv> s\<lparr>m_thr := (m_thr s)(t := st)\<rparr>"

inductive mpmc_step :: "('a \<Rightarrow> 'a) \<Rightarrow> nat \<Rightarrow> 'a mpmc \<Rightarrow> 'a mpmc \<Rightarrow> bool" for mv k where
  EBegin: "m_thr s t = Idle \<Longrightarrow> mpmc_step mv k s (goto s t (ELoop x (r_head (m_ring s))))"
| ESeq: "m_thr s t = ELoop x p \<Longrightarrow> d = counter_diff (r_seq (m_ring s) (wrap_index k p)) p \<Longrightarrow>
     mpmc_step mv k s (goto s t (if d = 0 then ETry x p else if d < 0 then Idle else EReload x))"
| EAgain: "m_thr s t = EReload x \<Longrightarrow> mpmc_step mv k s (goto s t (ELoop x (r_head (m_ring s))))"
| EWin: "m_thr s t = ETry x p \<Longrightarrow> r_head (m_ring s) = p \<Longrightarrow>
     mpmc_step mv k s (goto (s\<lparr>m_ring := (m_ring s)\<lparr>r_head := p + 1\<rparr>, m_items := m_items s @ [x]\<rparr>) t (EWon x p))"
| ELose: "m_thr s t = ETry x p \<Longrightarrow> mpmc_step mv k s (goto s t (ELoop x (r_head (m_ring s))))"
| EStore: "m_thr s t = EWon x p \<Longrightarrow>
     mpmc_step mv k s (goto (s\<lparr>m_ring := (m_ring s)\<lparr>r_data := (r_data (m_ring s))(wrap_index k p := x)\<rparr>\<rparr>) t (EStored x p))"
| EPublish: "m_thr s t = EStored x p \<Longrightarrow>
     mpmc_step mv k s (goto (s\<lparr>m_ring := (m_ring s)\<lparr>r_seq := (r_seq (m_ring s))(wrap_index k p := p + 1)\<rparr>\<rparr>) t Idle)"
| DBegin: "m_thr s t = Idle \<Longrightarrow> mpmc_step mv k s (goto s t (DLoop (r_tail (m_ring s))))"
| DSeq: "m_thr s t = DLoop p \<Longrightarrow> d = counter_diff (r_seq (m_ring s) (wrap_index k p)) (p + 1) \<Longrightarrow>
     mpmc_step mv k s (goto s t (if d = 0 then DTry p else if d < 0 then Idle else DReload))"
| DAgain: "m_thr s t = DReload \<Longrightarrow> mpmc_step mv k s (goto s t (DLoop (r_tail (m_ring s))))"
| DWin: "m_thr s t = DTry p \<Longrightarrow> r_tail (m_ring s) = p \<Longrightarrow>
     mpmc_step mv k s (goto (s\<lparr>m_ring := (m_ring s)\<lparr>r_tail := p + 1\<rparr>, m_taken := m_taken s + 1\<rparr>) t (DWon p))"
| DLose: "m_thr s t = DTry p \<Longrightarrow> mpmc_step mv k s (goto s t (DLoop (r_tail (m_ring s))))"
| DTake: "m_thr s t = DWon p \<Longrightarrow> x = r_data (m_ring s) (wrap_index k p) \<Longrightarrow>
     mpmc_step mv k s (goto (s\<lparr>m_ring := (m_ring s)\<lparr>r_data := (r_data (m_ring s))(wrap_index k p := mv x)\<rparr>\<rparr>) t (DTaken p x))"
| DPublish: "m_thr s t = DTaken p x \<Longrightarrow>
     mpmc_step mv k s (goto (s\<lparr>m_ring := (m_ring s)\<lparr>r_seq := (r_seq (m_ring s))(wrap_index k p := p + 2 ^ k)\<rparr>,
       m_out := m_out s @ [(unat p, x)]\<rparr>) t Idle)"

section \<open>The invariant\<close>

text \<open>
  Positions count the uses of the slots from the beginning; \<open>H\<close> and \<open>T\<close> are the positions of \<^verbatim>\<open>head_\<close> and \<^verbatim>\<open>tail_\<close>. \<open>sq n\<close> and \<open>dt n\<close> are
  the sequence number and the item in the slot of position \<open>n\<close>.
\<close>

definition writing :: "'a mthread \<Rightarrow> nat \<Rightarrow> bool" where
  "writing st n \<longleftrightarrow> (case st of EWon x p \<Rightarrow> unat p = n | EStored x p \<Rightarrow> unat p = n | _ \<Rightarrow> False)"

definition reading :: "'a mthread \<Rightarrow> nat \<Rightarrow> bool" where
  "reading st n \<longleftrightarrow> (case st of DWon p \<Rightarrow> unat p = n | DTaken p x \<Rightarrow> unat p = n | _ \<Rightarrow> False)"

fun thr_ok :: "nat \<Rightarrow> nat \<Rightarrow> nat \<Rightarrow> (nat \<Rightarrow> nat) \<Rightarrow> (nat \<Rightarrow> 'a) \<Rightarrow> 'a list \<Rightarrow> 'a mthread \<Rightarrow> bool" where
  "thr_ok N H T sq dt E (ELoop x p) \<longleftrightarrow> unat p \<le> H"
| "thr_ok N H T sq dt E (ETry x p) \<longleftrightarrow> unat p \<le> H \<and> (unat p = H \<longrightarrow> sq H = H)"
| "thr_ok N H T sq dt E (EWon x p) \<longleftrightarrow> T \<le> unat p \<and> unat p < H \<and> sq (unat p) = unat p \<and> E ! unat p = x"
| "thr_ok N H T sq dt E (EStored x p) \<longleftrightarrow> T \<le> unat p \<and> unat p < H \<and> sq (unat p) = unat p \<and> E ! unat p = x \<and> dt (unat p) = x"
| "thr_ok N H T sq dt E (DLoop p) \<longleftrightarrow> unat p \<le> T"
| "thr_ok N H T sq dt E (DTry p) \<longleftrightarrow> unat p \<le> T \<and> (unat p = T \<longrightarrow> sq T = T + 1)"
| "thr_ok N H T sq dt E (DWon p) \<longleftrightarrow> unat p < T \<and> H \<le> unat p + N \<and> sq (unat p) = unat p + 1 \<and> dt (unat p) = E ! unat p"
| "thr_ok N H T sq dt E (DTaken p x) \<longleftrightarrow> unat p < T \<and> H \<le> unat p + N \<and> sq (unat p) = unat p + 1 \<and> x = E ! unat p"
| "thr_ok N H T sq dt E st \<longleftrightarrow> True"

definition periodic :: "nat \<Rightarrow> (nat \<Rightarrow> 'b) \<Rightarrow> bool" where
  "periodic N f \<longleftrightarrow> (\<forall>n m. n mod N = m mod N \<longrightarrow> f n = f m)"

definition core :: "nat \<Rightarrow> nat \<Rightarrow> nat \<Rightarrow> (nat \<Rightarrow> nat) \<Rightarrow> (nat \<Rightarrow> 'a) \<Rightarrow> 'a list \<Rightarrow> (nat \<Rightarrow> 'a mthread) \<Rightarrow> bool" where
  "core N H T sq dt E th \<longleftrightarrow> T \<le> H \<and> H \<le> T + N \<and> length E = H \<and>
     periodic N sq \<and> periodic N dt \<and>
     (\<forall>n. T \<le> n \<and> n < H \<longrightarrow> sq n = n \<and> (\<exists>t. writing (th t) n) \<or> sq n = n + 1 \<and> dt n = E ! n) \<and>
     (\<forall>n. n < T \<and> H \<le> n + N \<longrightarrow> sq n = n + 1 \<and> (\<exists>t. reading (th t) n) \<or> sq n = n + N) \<and>
     (\<forall>n. H \<le> n \<and> n < N \<longrightarrow> sq n = n) \<and>
     (\<forall>t. thr_ok N H T sq dt E (th t)) \<and>
     (\<forall>t t' n. writing (th t) n \<and> writing (th t') n \<longrightarrow> t = t') \<and>
     (\<forall>t t' n. reading (th t) n \<and> reading (th t') n \<longrightarrow> t = t')"

lemma periodic_update: "periodic N f \<Longrightarrow> periodic N (\<lambda>n. if n mod N = a then v else f n)"
  unfolding periodic_def by metis

lemma periodic_same: "periodic N f \<Longrightarrow> f m = v \<Longrightarrow> f = (\<lambda>n. if n mod N = m mod N then v else f n)"
proof (rule ext)
  fix n assume p: "periodic N f" and v: "f m = v"
  have "f n = v" if "n mod N = m mod N" using p that v unfolding periodic_def by blast
  then show "f n = (if n mod N = m mod N then v else f n)" by simp
qed

lemma mod_apart: "a \<le> b \<Longrightarrow> b - a < N \<Longrightarrow> a mod N = b mod N \<longleftrightarrow> a = (b :: nat)"
proof -
  assume a: "a \<le> b" "b - a < N"
  have "a mod N = b mod N \<longleftrightarrow> (b - a) mod N = 0" using a(1) by (metis mod_eq_dvd_iff_nat mod_eq_0_iff_dvd)
  with a show ?thesis by auto
qed

lemma core_unique:
  assumes "core N H T sq dt E th"
  shows "writing (th t) n \<Longrightarrow> writing (th t') n \<Longrightarrow> t = t'" "reading (th t) n \<Longrightarrow> reading (th t') n \<Longrightarrow> t = t'"
  using assms unfolding core_def by metis+

text \<open>The slot of the next position to be written, and of the next to be read.\<close>

lemma core_head:
  assumes "core N H T sq dt E th" "2 \<le> N"
  shows "sq H = H \<longrightarrow> H < T + N" "sq H \<le> H"
    "sq H \<noteq> H \<longrightarrow> N \<le> H \<and> (T \<le> H - N \<or> (\<exists>t. reading (th t) (H - N)))"
proof -
  note c = assms(1)[unfolded core_def]
  have "(sq H = H \<longrightarrow> H < T + N) \<and> sq H \<le> H \<and> (sq H \<noteq> H \<longrightarrow> N \<le> H \<and> (T \<le> H - N \<or> (\<exists>t. reading (th t) (H - N))))"
  proof (cases "H < N")
    case True
    then show ?thesis using c by auto
  next
    case False
    then have e: "sq H = sq (H - N)" using c by (metis periodic_def le_mod_geq not_less)
    show ?thesis
    proof (cases "T \<le> H - N")
      case True
      then have "sq (H - N) = H - N \<or> sq (H - N) = H - N + 1" using c False assms(2) by auto
      with True False e assms(2) show ?thesis by auto
    next
      case F: False
      then have "H - N < T \<and> H \<le> H - N + N" using False by simp
      then have "sq (H - N) = H - N + 1 \<and> (\<exists>t. reading (th t) (H - N)) \<or> sq (H - N) = H - N + N" using c by blast
      with F False e assms(2) show ?thesis by auto
    qed
  qed
  then show "sq H = H \<longrightarrow> H < T + N" "sq H \<le> H" "sq H \<noteq> H \<longrightarrow> N \<le> H \<and> (T \<le> H - N \<or> (\<exists>t. reading (th t) (H - N)))" by auto
qed

lemma core_tail:
  assumes "core N H T sq dt E th" "2 \<le> N"
  shows "sq T = T + 1 \<longrightarrow> T < H \<and> dt T = E ! T" "sq T \<le> T + 1" "sq T \<noteq> T + 1 \<longrightarrow> T = H \<or> (\<exists>t. writing (th t) T)"
proof -
  note c = assms(1)[unfolded core_def]
  have "(sq T = T + 1 \<longrightarrow> T < H \<and> dt T = E ! T) \<and> sq T \<le> T + 1 \<and> (sq T \<noteq> T + 1 \<longrightarrow> T = H \<or> (\<exists>t. writing (th t) T))"
  proof (cases "T < H")
    case True
    then have "sq T = T \<and> (\<exists>t. writing (th t) T) \<or> sq T = T + 1 \<and> dt T = E ! T" using c by simp
    with True show ?thesis by auto
  next
    case False
    with c have "T = H" by simp
    moreover have "sq H \<le> H" by (rule core_head(2)[OF assms])
    ultimately show ?thesis by auto
  qed
  then show "sq T = T + 1 \<longrightarrow> T < H \<and> dt T = E ! T" "sq T \<le> T + 1" "sq T \<noteq> T + 1 \<longrightarrow> T = H \<or> (\<exists>t. writing (th t) T)" by auto
qed

text \<open>What each thread step that writes shared memory does to the invariant. First the two exchanges.\<close>

lemma enq_win_thread:
  assumes "core N H T sq dt E th" "2 \<le> N" "th t = ETry x p" "unat p = H"
  shows "thr_ok N (H + 1) T sq dt (E @ [x]) ((th(t := EWon x p)) u)"
proof -
  note c = assms(1)[unfolded core_def]
  have t: "thr_ok N H T sq dt E (th u)" for u using c by blast
  from t[of t] assms(3,4) have h: "sq H = H" by simp
  have len: "length E = H" using c by simp
  show ?thesis
  proof (cases "u = t")
    case True
    then show ?thesis using assms(4) h len c by (simp add: nth_append)
  next
    case False
    have "th u = DWon q \<Longrightarrow> H + 1 \<le> unat q + N" "th u = DTaken q y \<Longrightarrow> H + 1 \<le> unat q + N" for q y
    proof -
      have "H \<noteq> unat q + N" if "sq (unat q) = unat q + 1"
      proof
        assume e: "H = unat q + N"
        then have "sq H = sq (unat q)" using c by (metis periodic_def mod_add_self2)
        with e h that assms(2) show False by simp
      qed
      then show "th u = DWon q \<Longrightarrow> H + 1 \<le> unat q + N" "th u = DTaken q y \<Longrightarrow> H + 1 \<le> unat q + N" using t[of u] by auto
    qed
    then show ?thesis using False t[of u] c len by (cases "th u") (auto simp: nth_append)
  qed
qed

lemma core_enq_win:
  assumes "core N H T sq dt E th" "2 \<le> N" "th t = ETry x p" "unat p = H"
  shows "core N (H + 1) T sq dt (E @ [x]) (th(t := EWon x p))"
proof -
  note c = assms(1)[unfolded core_def]
  have t: "thr_ok N H T sq dt E (th u)" for u using c by blast
  from t[of t] assms(3,4) have h: "sq H = H" by simp
  with core_head(1)[OF assms(1,2)] have room: "H < T + N" by simp
  have len: "length E = H" using c by simp
  have w: "writing ((th(t := EWon x p)) u) n = (if u = t then n = H else writing (th u) n)" for u n
    using assms(4) by (auto simp: writing_def)
  have rd: "reading ((th(t := EWon x p)) u) n = (if u = t then False else reading (th u) n)" for u n by (simp add: reading_def)
  have nt: "\<not> writing (th t) n" "\<not> reading (th t) n" for n using assms(3) by (simp_all add: writing_def reading_def)
  have wlt: "n < H" if "writing (th u) n" for u n using t[of u] that by (auto simp: writing_def split: mthread.splits)
  show ?thesis unfolding core_def
  proof (intro conjI)
    show "\<forall>n. T \<le> n \<and> n < H + 1 \<longrightarrow> sq n = n \<and> (\<exists>u. writing ((th(t := EWon x p)) u) n) \<or> sq n = n + 1 \<and> dt n = (E @ [x]) ! n"
    proof (intro allI impI, elim conjE)
      fix n assume n: "T \<le> n" "n < H + 1"
      show "sq n = n \<and> (\<exists>u. writing ((th(t := EWon x p)) u) n) \<or> sq n = n + 1 \<and> dt n = (E @ [x]) ! n"
      proof (cases "n = H")
        case True
        then show ?thesis using h w by auto
      next
        case False
        then have "sq n = n \<and> (\<exists>u. writing (th u) n) \<or> sq n = n + 1 \<and> dt n = E ! n" using c n by simp
        moreover have "(E @ [x]) ! n = E ! n" using False n len by (simp add: nth_append)
        ultimately show ?thesis using w nt by metis
      qed
    qed
    show "\<forall>n. n < T \<and> H + 1 \<le> n + N \<longrightarrow> sq n = n + 1 \<and> (\<exists>u. reading ((th(t := EWon x p)) u) n) \<or> sq n = n + N"
    proof (intro allI impI, elim conjE)
      fix n assume "n < T" "H + 1 \<le> n + N"
      then have "sq n = n + 1 \<and> (\<exists>u. reading (th u) n) \<or> sq n = n + N" using c by simp
      then show "sq n = n + 1 \<and> (\<exists>u. reading ((th(t := EWon x p)) u) n) \<or> sq n = n + N" using rd nt by metis
    qed
    show "\<forall>u u' n. writing ((th(t := EWon x p)) u) n \<and> writing ((th(t := EWon x p)) u') n \<longrightarrow> u = u'"
      unfolding w using wlt c by (metis less_irrefl)
    show "\<forall>u u' n. reading ((th(t := EWon x p)) u) n \<and> reading ((th(t := EWon x p)) u') n \<longrightarrow> u = u'"
      unfolding rd using c by metis
  qed (use c room enq_win_thread[OF assms] in auto)
qed

lemma core_deq_win:
  assumes "core N H T sq dt E th" "2 \<le> N" "th t = DTry p" "unat p = T"
  shows "core N H (T + 1) sq dt E (th(t := DWon p)) \<and> T < H"
proof -
  note c = assms(1)[unfolded core_def]
  have t: "thr_ok N H T sq dt E (th u)" for u using c by blast
  from t[of t] assms(3,4) have h: "sq T = T + 1" by simp
  with core_tail(1)[OF assms(1,2)] have some: "T < H" "dt T = E ! T" by simp_all
  have w: "writing ((th(t := DWon p)) u) n = (if u = t then False else writing (th u) n)" for u n by (simp add: writing_def)
  have rd: "reading ((th(t := DWon p)) u) n = (if u = t then n = T else reading (th u) n)" for u n
    using assms(4) by (auto simp: reading_def)
  have nt: "\<not> writing (th t) n" "\<not> reading (th t) n" for n using assms(3) by (simp_all add: writing_def reading_def)
  have rlt: "n < T" if "reading (th u) n" for u n using t[of u] that by (auto simp: reading_def split: mthread.splits)
  have thr: "thr_ok N H (T + 1) sq dt E ((th(t := DWon p)) u)" for u
  proof (cases "u = t")
    case True
    then show ?thesis using assms(4) h some c by simp
  next
    case False
    have "unat q \<noteq> T" if "sq (unat q) = unat q" for q :: u64 using that h by auto
    then show ?thesis using False t[of u] by (cases "th u") (auto simp: Suc_le_eq le_less)
  qed
  have "core N H (T + 1) sq dt E (th(t := DWon p))" unfolding core_def
  proof (intro conjI)
    show "\<forall>n. T + 1 \<le> n \<and> n < H \<longrightarrow> sq n = n \<and> (\<exists>u. writing ((th(t := DWon p)) u) n) \<or> sq n = n + 1 \<and> dt n = E ! n"
    proof (intro allI impI, elim conjE)
      fix n assume "T + 1 \<le> n" "n < H"
      then have "sq n = n \<and> (\<exists>u. writing (th u) n) \<or> sq n = n + 1 \<and> dt n = E ! n" using c by simp
      then show "sq n = n \<and> (\<exists>u. writing ((th(t := DWon p)) u) n) \<or> sq n = n + 1 \<and> dt n = E ! n" using w nt by metis
    qed
    show "\<forall>n. n < T + 1 \<and> H \<le> n + N \<longrightarrow> sq n = n + 1 \<and> (\<exists>u. reading ((th(t := DWon p)) u) n) \<or> sq n = n + N"
    proof (intro allI impI, elim conjE)
      fix n assume n: "n < T + 1" "H \<le> n + N"
      show "sq n = n + 1 \<and> (\<exists>u. reading ((th(t := DWon p)) u) n) \<or> sq n = n + N"
      proof (cases "n = T")
        case True
        then show ?thesis using h rd by auto
      next
        case False
        then have "sq n = n + 1 \<and> (\<exists>u. reading (th u) n) \<or> sq n = n + N" using c n by simp
        then show ?thesis using rd nt by metis
      qed
    qed
    show "\<forall>u u' n. writing ((th(t := DWon p)) u) n \<and> writing ((th(t := DWon p)) u') n \<longrightarrow> u = u'"
      unfolding w using c by metis
    show "\<forall>u u' n. reading ((th(t := DWon p)) u) n \<and> reading ((th(t := DWon p)) u') n \<longrightarrow> u = u'"
      unfolding rd using rlt c by (metis less_irrefl)
  qed (use c some thr in auto)
  with some show ?thesis by simp
qed

text \<open>A step of a thread that holds no slot and takes none.\<close>

lemma core_thread:
  assumes "core N H T sq dt E th" "thr_ok N H T sq dt E st" "\<And>n. \<not> writing (th t) n" "\<And>n. \<not> reading (th t) n" "\<And>n. \<not> writing st n" "\<And>n. \<not> reading st n"
  shows "core N H T sq dt E (th(t := st))"
proof -
  have w: "writing ((th(t := st)) u) n = writing (th u) n" "reading ((th(t := st)) u) n = reading (th u) n" for u n using assms(3-6) by auto
  show ?thesis using assms(1,2) unfolding core_def w by auto
qed

text \<open>A write to the slot of position \<open>q\<close> by the thread that holds it.\<close>

lemma core_writing: "core N H T sq dt E th \<Longrightarrow> writing (th u) n \<Longrightarrow> T \<le> n \<and> n < H \<and> sq n = n"
proof -
  assume c: "core N H T sq dt E th" and w: "writing (th u) n"
  have "thr_ok N H T sq dt E (th u)" using c unfolding core_def by blast
  with w show ?thesis by (auto simp: writing_def split: mthread.splits)
qed

lemma core_reading: "core N H T sq dt E th \<Longrightarrow> reading (th u) n \<Longrightarrow> n < T \<and> H \<le> n + N \<and> sq n = n + 1"
proof -
  assume c: "core N H T sq dt E th" and r: "reading (th u) n"
  have "thr_ok N H T sq dt E (th u)" using c unfolding core_def by blast
  with r show ?thesis by (auto simp: reading_def split: mthread.splits)
qed

text \<open>Two positions of the current turn share a slot only when they are the same.\<close>

lemma slot_apart: "n < H \<Longrightarrow> H \<le> n + N \<Longrightarrow> q < H \<Longrightarrow> H \<le> q + N \<Longrightarrow> (n mod N = q mod N) = (n = (q :: nat))"
proof (cases "n \<le> q")
  case True
  moreover assume "n < H" "H \<le> n + N" "q < H" "H \<le> q + N"
  ultimately have "q - n < N" by linarith
  with True show ?thesis by (rule mod_apart)
next
  case False
  moreover assume "n < H" "H \<le> n + N" "q < H" "H \<le> q + N"
  ultimately have "q \<le> n" "n - q < N" by linarith+
  from mod_apart[OF this] show ?thesis by auto
qed

text \<open>A slot that is held is neither free for the next \<^verbatim>\<open>enqueue\<close> nor ready for the next \<^verbatim>\<open>dequeue\<close>.\<close>

lemma held_slot_ends:
  assumes "core N H T sq dt E th" "2 \<le> N" "q < H" "H \<le> q + N" "writing (th t) q \<or> reading (th t) q"
  shows "sq H = H \<Longrightarrow> H mod N \<noteq> q mod N" "sq T = T + 1 \<Longrightarrow> T mod N \<noteq> q mod N"
proof -
  note c = assms(1)[unfolded core_def]
  have sqq: "sq q = q \<and> T \<le> q \<or> sq q = q + 1 \<and> q < T" using assms(5) core_writing[OF assms(1)] core_reading[OF assms(1)] by blast
  have same: "sq n = sq q" if "n mod N = q mod N" for n using c that by (metis periodic_def)
  show "H mod N \<noteq> q mod N" if s: "sq H = H"
  proof
    assume e: "H mod N = q mod N"
    have "H = q + N" using mod_apart[of q H N] e assms(3,4) by fastforce
    then show False using same[OF e] sqq s assms(2) by auto
  qed
  show "T mod N \<noteq> q mod N" if s: "sq T = T + 1"
  proof
    assume e: "T mod N = q mod N"
    have "T = q \<or> T = q + N" using mod_apart[of q T N] mod_apart[of T q N] e assms(3,4) c by (cases "T \<le> q") fastforce+
    then show False using same[OF e] sqq s assms(2) by auto
  qed
qed

text \<open>The thread \<open>t\<close> that holds the slot of \<open>q\<close> writes to it: the others do not notice.\<close>

lemma core_slot_threads:
  assumes "core N H T sq dt E th" "2 \<le> N" "q < H" "H \<le> q + N" "writing (th t) q \<or> reading (th t) q"
    and off: "\<And>n. n mod N \<noteq> q mod N \<Longrightarrow> sq' n = sq n \<and> dt' n = dt n" and "u \<noteq> t"
  shows "thr_ok N H T sq' dt' E (th u)"
proof -
  note c = assms(1)[unfolded core_def]
  have thr: "thr_ok N H T sq dt E (th u)" using c by blast
  have keep: "sq' n = sq n \<and> dt' n = dt n" if u: "writing (th u) n \<or> reading (th u) n" for n
  proof -
    have "n < H" "H \<le> n + N" using u core_writing[OF assms(1)] core_reading[OF assms(1)] c by fastforce+
    moreover have "n \<noteq> q" using u assms(5,7) c core_writing[OF assms(1)] core_reading[OF assms(1)] by (metis not_less)
    ultimately show ?thesis using slot_apart assms(3,4) off by blast
  qed
  have "sq H = H \<Longrightarrow> sq' H = H" "sq T = T + 1 \<Longrightarrow> sq' T = T + 1" using held_slot_ends[OF assms(1-5)] off by auto
  with thr keep show ?thesis by (cases "th u") (auto simp: writing_def reading_def)
qed

lemma core_slot:
  assumes "core N H T sq dt E th" "2 \<le> N" "q < H" "H \<le> q + N" "writing (th t) q \<or> reading (th t) q"
    and sq': "sq' = (\<lambda>n. if n mod N = q mod N then v else sq n)" and dt': "dt' = (\<lambda>n. if n mod N = q mod N then y else dt n)"
    and "T \<le> q \<Longrightarrow> v = q \<and> writing st q \<or> v = q + 1 \<and> y = E ! q" "q < T \<Longrightarrow> v = q + 1 \<and> reading st q \<or> v = q + N"
    and "\<And>n. writing st n \<Longrightarrow> n = q \<and> writing (th t) q" "\<And>n. reading st n \<Longrightarrow> n = q \<and> reading (th t) q" "thr_ok N H T sq' dt' E st"
  shows "core N H T sq' dt' E (th(t := st))"
proof -
  note c = assms(1)[unfolded core_def]
  have at: "sq' q = v" "dt' q = y" by (simp_all add: sq' dt')
  have off: "sq' n = sq n \<and> dt' n = dt n" if "n mod N \<noteq> q mod N" for n using that by (simp add: sq' dt')
  have recent: "sq' n = sq n \<and> dt' n = dt n" if "n \<noteq> q" "n < H" "H \<le> n + N" for n using off slot_apart that assms(3,4) by blast
  have only: "n = q" if "writing (th t) n \<or> reading (th t) n" for n
    using that assms(5) by (auto simp: writing_def reading_def split: mthread.splits)
  have thr': "thr_ok N H T sq' dt' E ((th(t := st)) u)" for u
    using assms(12) core_slot_threads[OF assms(1-5) off] by (cases "u = t") auto
  have was: "writing (th u) n" if "writing ((th(t := st)) u) n" for u n using that assms(10) by (cases "u = t") auto
  have was2: "reading (th u) n" if "reading ((th(t := st)) u) n" for u n using that assms(11) by (cases "u = t") auto
  have W: "sq' n = n \<and> (\<exists>u. writing ((th(t := st)) u) n) \<or> sq' n = n + 1 \<and> dt' n = E ! n" if n: "T \<le> n" "n < H" for n
  proof (cases "n = q")
    case True
    have "v = q \<and> writing st q \<or> v = q + 1 \<and> y = E ! q" using assms(8) n True by blast
    then show ?thesis using at unfolding True by (metis fun_upd_same)
  next
    case False
    moreover have "sq n = n \<and> (\<exists>u. writing (th u) n) \<or> sq n = n + 1 \<and> dt n = E ! n" using c n by blast
    moreover have "H \<le> n + N" using c n by linarith
    ultimately show ?thesis using only recent[of n] n by (metis fun_upd_other)
  qed
  have R: "sq' n = n + 1 \<and> (\<exists>u. reading ((th(t := st)) u) n) \<or> sq' n = n + N" if n: "n < T" "H \<le> n + N" for n
  proof (cases "n = q")
    case True
    have "v = q + 1 \<and> reading st q \<or> v = q + N" using assms(9) n True by blast
    then show ?thesis using at unfolding True by (metis fun_upd_same)
  next
    case False
    moreover have "sq n = n + 1 \<and> (\<exists>u. reading (th u) n) \<or> sq n = n + N" using c n by blast
    moreover have "n < H" using c n by linarith
    ultimately show ?thesis using only recent[of n] n by (metis fun_upd_other)
  qed
  have F: "sq' n = n" if n: "H \<le> n" "n < N" for n
  proof -
    have "q mod N \<noteq> n mod N" using n mod_apart[of q n N] assms(3) by simp
    then show ?thesis using c n off[of n] by simp
  qed
  have P: "periodic N sq'" "periodic N dt'" using c unfolding sq' dt' by (blast intro: periodic_update)+
  have U: "\<forall>u u' n. writing ((th(t := st)) u) n \<and> writing ((th(t := st)) u') n \<longrightarrow> u = u'"
    "\<forall>u u' n. reading ((th(t := st)) u) n \<and> reading ((th(t := st)) u') n \<longrightarrow> u = u'"
    using was was2 core_unique[OF assms(1)] by blast+
  have "T \<le> H \<and> H \<le> T + N \<and> length E = H" using c by blast
  then show ?thesis unfolding core_def using W R F P U thr' by blast
qed

definition sqn :: "nat \<Rightarrow> 'a mpmc_ring \<Rightarrow> nat \<Rightarrow> nat" where
  "sqn k r n = unat (r_seq r (ix k n))"

definition dtn :: "nat \<Rightarrow> 'a mpmc_ring \<Rightarrow> nat \<Rightarrow> 'a" where
  "dtn k r n = r_data r (ix k n)"

definition mpmc_inv :: "nat \<Rightarrow> 'a mpmc \<Rightarrow> bool" where
  "mpmc_inv k s \<longleftrightarrow> 1 \<le> k \<and> k \<le> 62 \<and> length (m_items s) < 2 ^ 63 \<and>
     unat (r_head (m_ring s)) = length (m_items s) \<and> unat (r_tail (m_ring s)) = m_taken s \<and>
     core (2 ^ k) (length (m_items s)) (m_taken s) (sqn k (m_ring s)) (dtn k (m_ring s)) (m_items s) (m_thr s) \<and>
     (\<forall>n x. (n, x) \<in> set (m_out s) \<longrightarrow> n < m_taken s \<and> x = m_items s ! n) \<and>
     distinct (map fst (m_out s)) \<and> (\<forall>t n. reading (m_thr s t) n \<longrightarrow> n \<notin> fst ` set (m_out s))"

lemma wrap_ix: "k \<le> 63 \<Longrightarrow> wrap_index k p = ix k (unat p)"
  by (metis unat_wrap_index unat_ix word_unat_eq_iff)

lemma counter_diff_0: "counter_diff a b = 0 \<longleftrightarrow> a = b"
  by (simp add: counter_diff_def signed_eq_0_iff)

lemma unat_pos_Suc: "unat p < 2 ^ 63 \<Longrightarrow> unat (p + 1) = unat p + 1" for p :: u64
  by (simp add: unat_word_ariths)

lemma unat_pos_size:
  fixes p :: u64
  assumes "unat p < 2 ^ 63" "k \<le> 62"
  shows "unat (p + 2 ^ k) = unat p + 2 ^ k"
proof -
  have "(2 :: nat) ^ k \<le> 2 ^ 62" using assms(2) by (intro power_increasing) auto
  moreover have "unat (2 ^ k :: u64) = 2 ^ k"
  proof -
    have "unat (of_nat (2 ^ k) :: u64) = 2 ^ k mod 2 ^ 64" by (simp only: unat_of_nat) simp
    then show ?thesis using calculation by simp
  qed
  ultimately show ?thesis using assms(1) by (simp add: unat_word_ariths)
qed

lemma sqn_update:
  "k \<le> 63 \<Longrightarrow> sqn k (r\<lparr>r_seq := (r_seq r)(wrap_index k p := v)\<rparr>) = (\<lambda>n. if n mod 2 ^ k = unat p mod 2 ^ k then unat v else sqn k r n)"
  by (rule ext) (simp add: sqn_def wrap_ix ix_eq)

lemma dtn_update:
  "k \<le> 63 \<Longrightarrow> dtn k (r\<lparr>r_data := (r_data r)(wrap_index k p := v)\<rparr>) = (\<lambda>n. if n mod 2 ^ k = unat p mod 2 ^ k then v else dtn k r n)"
  by (rule ext) (simp add: dtn_def wrap_ix ix_eq)

lemma sqn_dtn_frame [simp]:
  "sqn k (r\<lparr>r_head := h\<rparr>) = sqn k r" "sqn k (r\<lparr>r_tail := h\<rparr>) = sqn k r" "sqn k (r\<lparr>r_data := d\<rparr>) = sqn k r"
  "dtn k (r\<lparr>r_head := h\<rparr>) = dtn k r" "dtn k (r\<lparr>r_tail := h\<rparr>) = dtn k r" "dtn k (r\<lparr>r_seq := q\<rparr>) = dtn k r"
  by (simp_all add: fun_eq_iff sqn_def dtn_def)

lemma periodic_views: "k \<le> 63 \<Longrightarrow> periodic (2 ^ k) (sqn k r)" "k \<le> 63 \<Longrightarrow> periodic (2 ^ k) (dtn k r)"
  unfolding periodic_def by (auto simp: sqn_def dtn_def ix_def)

lemma mpmc_init_inv: "1 \<le> k \<Longrightarrow> k \<le> 62 \<Longrightarrow> mpmc_inv k (mpmc_init d)"
proof -
  assume k: "1 \<le> k" "k \<le> 62"
  have "sqn k (MPMCRingBuffer_init d) n = n" if "n < 2 ^ k" for n using k that by (simp add: sqn_def MPMCRingBuffer_init_def unat_ix)
  then show ?thesis using k periodic_views[of k "MPMCRingBuffer_init d"]
    by (auto simp: mpmc_inv_def mpmc_init_def core_def writing_def reading_def) (simp_all add: MPMCRingBuffer_init_def)
qed

lemma two_le_size: "1 \<le> k \<Longrightarrow> (2 :: nat) \<le> 2 ^ k"
  using power_increasing[of 1 k "2 :: nat"] by simp

text \<open>A step that only moves a thread which holds no slot.\<close>

lemma mpmc_inv_goto:
  assumes "mpmc_inv k s" "\<And>n. \<not> writing (m_thr s t) n" "\<And>n. \<not> reading (m_thr s t) n" "\<And>n. \<not> writing st n" "\<And>n. \<not> reading st n"
    and "thr_ok (2 ^ k) (length (m_items s)) (m_taken s) (sqn k (m_ring s)) (dtn k (m_ring s)) (m_items s) st"
  shows "mpmc_inv k (goto s t st)"
  using assms core_thread[where th = "m_thr s" and t = t and st = st] by (auto simp: mpmc_inv_def split: if_splits)

text \<open>A write to a slot by the thread that holds it, at position \<open>unat p\<close>.\<close>

lemma mpmc_inv_slot:
  assumes "mpmc_inv k s" "writing (m_thr s t) (unat p) \<or> reading (m_thr s t) (unat p)"
    and "sqn k r' = (\<lambda>n. if n mod 2 ^ k = unat p mod 2 ^ k then v else sqn k (m_ring s) n)"
    and "dtn k r' = (\<lambda>n. if n mod 2 ^ k = unat p mod 2 ^ k then y else dtn k (m_ring s) n)"
    and "m_taken s \<le> unat p \<Longrightarrow> v = unat p \<and> writing st (unat p) \<or> v = unat p + 1 \<and> y = m_items s ! unat p"
    and "unat p < m_taken s \<Longrightarrow> v = unat p + 1 \<and> reading st (unat p) \<or> v = unat p + 2 ^ k"
    and "\<And>n. writing st n \<Longrightarrow> n = unat p \<and> writing (m_thr s t) (unat p)" "\<And>n. reading st n \<Longrightarrow> n = unat p \<and> reading (m_thr s t) (unat p)"
    and "thr_ok (2 ^ k) (length (m_items s)) (m_taken s) (sqn k r') (dtn k r') (m_items s) st"
  shows "core (2 ^ k) (length (m_items s)) (m_taken s) (sqn k r') (dtn k r') (m_items s) ((m_thr s)(t := st))"
proof -
  note inv = assms(1)[unfolded mpmc_inv_def]
  have c: "core (2 ^ k) (length (m_items s)) (m_taken s) (sqn k (m_ring s)) (dtn k (m_ring s)) (m_items s) (m_thr s)" and n: "2 \<le> (2 :: nat) ^ k"
    using inv two_le_size by blast+
  have t: "thr_ok (2 ^ k) (length (m_items s)) (m_taken s) (sqn k (m_ring s)) (dtn k (m_ring s)) (m_items s) (m_thr s t)"
    and b: "m_taken s \<le> length (m_items s)" "length (m_items s) \<le> m_taken s + 2 ^ k" using c unfolding core_def by blast+
  have "unat p < length (m_items s) \<and> length (m_items s) \<le> unat p + 2 ^ k"
    using assms(2) t b by (cases "m_thr s t") (auto simp: writing_def reading_def)
  then show ?thesis using core_slot[OF c n _ _ assms(2,3-9)] by blast
qed

lemma reading_thread:
  "\<not> reading Idle n" "\<not> reading (EWon x p) n" "\<not> reading (EStored x p) n"
  "reading (DWon p) n \<longleftrightarrow> unat p = n" "reading (DTaken p x) n \<longleftrightarrow> unat p = n"
  by (simp_all add: reading_def)

lemma mpmc_invD:
  assumes "mpmc_inv k s"
  shows "k \<le> 62" "k \<le> 63" "2 \<le> (2 :: nat) ^ k" "core (2 ^ k) (length (m_items s)) (m_taken s) (sqn k (m_ring s)) (dtn k (m_ring s)) (m_items s) (m_thr s)"
    "thr_ok (2 ^ k) (length (m_items s)) (m_taken s) (sqn k (m_ring s)) (dtn k (m_ring s)) (m_items s) (m_thr s t)"
    "m_taken s \<le> length (m_items s)" "length (m_items s) < 2 ^ 63"
    "unat (r_head (m_ring s)) = length (m_items s)" "unat (r_tail (m_ring s)) = m_taken s"
    "(n, x) \<in> set (m_out s) \<Longrightarrow> n < m_taken s \<and> x = m_items s ! n" "reading (m_thr s t) n \<Longrightarrow> n \<notin> fst ` set (m_out s)"
  using assms two_le_size unfolding mpmc_inv_def core_def by auto

text \<open>The steps that hold a slot or win one.\<close>

lemma enq_win_inv:
  assumes "mpmc_inv k s" "m_thr s t = ETry x (r_head (m_ring s))" "length (m_items s) + 1 < 2 ^ 63"
  shows "mpmc_inv k (goto (s\<lparr>m_ring := (m_ring s)\<lparr>r_head := r_head (m_ring s) + 1\<rparr>, m_items := m_items s @ [x]\<rparr>) t (EWon x (r_head (m_ring s))))"
proof -
  note d = mpmc_invD[OF assms(1)] and inv = assms(1)[unfolded mpmc_inv_def]
  have "unat (r_head (m_ring s) + 1) = length (m_items s) + 1" using unat_pos_Suc[of "r_head (m_ring s)"] d(7,8) by simp
  moreover have "(m_items s @ [x]) ! n = m_items s ! n" if "n < m_taken s" for n using that d(6) by (simp add: nth_append)
  ultimately show ?thesis using core_enq_win[OF d(4,3) assms(2) d(8)] inv assms(3) by (simp add: mpmc_inv_def reading_thread)
qed

lemma enq_store_inv:
  assumes "mpmc_inv k s" "m_thr s t = EWon x p"
  shows "mpmc_inv k (goto (s\<lparr>m_ring := (m_ring s)\<lparr>r_data := (r_data (m_ring s))(wrap_index k p := x)\<rparr>\<rparr>) t (EStored x p))"
proof -
  let ?r = "m_ring s" and ?N = "2 ^ k :: nat"
  note d = mpmc_invD[OF assms(1)] and inv = assms(1)[unfolded mpmc_inv_def]
  have t: "m_taken s \<le> unat p" "unat p < length (m_items s)" "sqn k ?r (unat p) = unat p" "m_items s ! unat p = x" using d(5)[of t] assms(2) by simp_all
  let ?r' = "?r\<lparr>r_data := (r_data ?r)(wrap_index k p := x)\<rparr>"
  have "core ?N (length (m_items s)) (m_taken s) (sqn k ?r') (dtn k ?r') (m_items s) ((m_thr s)(t := EStored x p))"
  proof (rule mpmc_inv_slot[OF assms(1), where t = t and p = p and v = "unat p" and y = x])
    show "sqn k ?r' = (\<lambda>n. if n mod ?N = unat p mod ?N then unat p else sqn k ?r n)"
      unfolding sqn_dtn_frame by (rule periodic_same[OF periodic_views(1)[OF d(2)] t(3)])
  qed (use t assms(2) in \<open>auto simp: writing_def reading_def dtn_update[OF d(2)]\<close>)
  then show ?thesis using inv by (simp add: mpmc_inv_def reading_thread)
qed

lemma enq_publish_inv:
  assumes "mpmc_inv k s" "m_thr s t = EStored x p"
  shows "mpmc_inv k (goto (s\<lparr>m_ring := (m_ring s)\<lparr>r_seq := (r_seq (m_ring s))(wrap_index k p := p + 1)\<rparr>\<rparr>) t Idle)"
proof -
  let ?r = "m_ring s" and ?N = "2 ^ k :: nat"
  note d = mpmc_invD[OF assms(1)] and inv = assms(1)[unfolded mpmc_inv_def]
  have t: "m_taken s \<le> unat p" "unat p < length (m_items s)" "dtn k ?r (unat p) = x" "m_items s ! unat p = x" using d(5)[of t] assms(2) by simp_all
  have u: "unat (p + 1) = unat p + 1" using unat_pos_Suc[of p] t(2) d(7) by simp
  let ?r' = "?r\<lparr>r_seq := (r_seq ?r)(wrap_index k p := p + 1)\<rparr>"
  have "core ?N (length (m_items s)) (m_taken s) (sqn k ?r') (dtn k ?r') (m_items s) ((m_thr s)(t := Idle))"
  proof (rule mpmc_inv_slot[OF assms(1), where t = t and p = p and v = "unat p + 1" and y = x])
    show "dtn k ?r' = (\<lambda>n. if n mod ?N = unat p mod ?N then x else dtn k ?r n)"
      unfolding sqn_dtn_frame by (rule periodic_same[OF periodic_views(2)[OF d(2)] t(3)])
  qed (use t u assms(2) in \<open>auto simp: writing_def reading_def sqn_update[OF d(2)]\<close>)
  then show ?thesis using inv by (simp add: mpmc_inv_def reading_thread)
qed

lemma deq_win_inv:
  assumes "mpmc_inv k s" "m_thr s t = DTry (r_tail (m_ring s))"
  shows "mpmc_inv k (goto (s\<lparr>m_ring := (m_ring s)\<lparr>r_tail := r_tail (m_ring s) + 1\<rparr>, m_taken := m_taken s + 1\<rparr>) t (DWon (r_tail (m_ring s))))"
proof -
  note d = mpmc_invD[OF assms(1)] and inv = assms(1)[unfolded mpmc_inv_def]
  have "unat (r_tail (m_ring s) + 1) = m_taken s + 1" using unat_pos_Suc[of "r_tail (m_ring s)"] d(6,7,9) by simp
  moreover have "m_taken s \<notin> fst ` set (m_out s)" using d(10) by fastforce
  moreover have "n < Suc (m_taken s) \<and> x = m_items s ! n" if "(n, x) \<in> set (m_out s)" for n x using d(10)[OF that] by simp
  ultimately show ?thesis using core_deq_win[OF d(4,3) assms(2) d(9)] inv d(9) by (simp add: mpmc_inv_def reading_thread)
qed

lemma deq_take_inv:
  assumes "mpmc_inv k s" "m_thr s t = DWon p" "x = r_data (m_ring s) (wrap_index k p)"
  shows "mpmc_inv k (goto (s\<lparr>m_ring := (m_ring s)\<lparr>r_data := (r_data (m_ring s))(wrap_index k p := mv x)\<rparr>\<rparr>) t (DTaken p x))"
proof -
  let ?r = "m_ring s" and ?N = "2 ^ k :: nat"
  note d = mpmc_invD[OF assms(1)] and inv = assms(1)[unfolded mpmc_inv_def]
  have t: "unat p < m_taken s" "length (m_items s) \<le> unat p + ?N" "sqn k ?r (unat p) = unat p + 1" "dtn k ?r (unat p) = m_items s ! unat p"
    using d(5)[of t] assms(2) by simp_all
  have x: "x = m_items s ! unat p" using assms(3) t(4) by (simp add: dtn_def wrap_ix[OF d(2)])
  let ?r' = "?r\<lparr>r_data := (r_data ?r)(wrap_index k p := mv x)\<rparr>"
  have "core ?N (length (m_items s)) (m_taken s) (sqn k ?r') (dtn k ?r') (m_items s) ((m_thr s)(t := DTaken p x))"
  proof (rule mpmc_inv_slot[OF assms(1), where t = t and p = p and v = "unat p + 1" and y = "mv x"])
    show "sqn k ?r' = (\<lambda>n. if n mod ?N = unat p mod ?N then unat p + 1 else sqn k ?r n)"
      unfolding sqn_dtn_frame by (rule periodic_same[OF periodic_views(1)[OF d(2)] t(3)])
  qed (use t x assms(2) in \<open>auto simp: writing_def reading_def dtn_update[OF d(2)]\<close>)
  moreover have "unat p \<notin> fst ` set (m_out s)" using d(11)[of t] assms(2) by (simp add: reading_thread)
  ultimately show ?thesis using inv by (simp add: mpmc_inv_def reading_thread)
qed

lemma deq_publish_inv:
  assumes "mpmc_inv k s" "m_thr s t = DTaken p x"
  shows "mpmc_inv k (goto (s\<lparr>m_ring := (m_ring s)\<lparr>r_seq := (r_seq (m_ring s))(wrap_index k p := p + 2 ^ k)\<rparr>, m_out := m_out s @ [(unat p, x)]\<rparr>) t Idle)"
proof -
  let ?r = "m_ring s" and ?N = "2 ^ k :: nat"
  note d = mpmc_invD[OF assms(1)] and inv = assms(1)[unfolded mpmc_inv_def]
  have t: "unat p < m_taken s" "length (m_items s) \<le> unat p + ?N" "x = m_items s ! unat p" using d(5)[of t] assms(2) by simp_all
  have u: "unat (p + 2 ^ k) = unat p + ?N" using unat_pos_size[of p k] t(1) d(1,6,7) by simp
  let ?r' = "?r\<lparr>r_seq := (r_seq ?r)(wrap_index k p := p + 2 ^ k)\<rparr>"
  have co: "core ?N (length (m_items s)) (m_taken s) (sqn k ?r') (dtn k ?r') (m_items s) ((m_thr s)(t := Idle))"
  proof (rule mpmc_inv_slot[OF assms(1), where t = t and p = p and v = "unat p + ?N" and y = "dtn k ?r (unat p)"])
    show "dtn k ?r' = (\<lambda>n. if n mod ?N = unat p mod ?N then dtn k ?r (unat p) else dtn k ?r n)"
      unfolding sqn_dtn_frame by (rule periodic_same[OF periodic_views(2)[OF d(2)] refl])
  qed (use t u assms(2) in \<open>auto simp: writing_def reading_def sqn_update[OF d(2)]\<close>)
  have rt: "reading (m_thr s t) (unat p)" using assms(2) by (simp add: reading_thread)
  have "reading (if v = t then Idle else m_thr s v) n \<Longrightarrow> reading (m_thr s v) n \<and> n \<noteq> unat p" for v n
    using core_unique(2)[OF d(4) rt] by (auto simp: reading_thread split: if_splits)
  then show ?thesis using co inv t d(11)[OF rt] by (auto simp: mpmc_inv_def reading_thread)
qed

lemma mpmc_step_inv:
  assumes "mpmc_step mv k s s'" "mpmc_inv k s" "length (m_items s') < 2 ^ 63"
  shows "mpmc_inv k s'"
proof -
  note d = mpmc_invD[OF assms(2)] and idle = mpmc_inv_goto[OF assms(2)] and simps = writing_def reading_def
  from assms(1) show ?thesis
  proof cases
    case (ESeq t x p e)
    have "e = 0 \<Longrightarrow> sqn k (m_ring s) (unat p) = unat p" using ESeq(3) by (simp add: counter_diff_0 sqn_def wrap_ix[OF d(2)])
    then show ?thesis using ESeq d(5)[of t] unfolding ESeq(1) by (intro idle) (auto simp: simps)
  next
    case (DSeq t p e)
    have p: "unat p \<le> m_taken s" using d(5)[of t] DSeq(2) by simp
    then have "unat (p + 1) = unat p + 1" using unat_pos_Suc[of p] d(6,7) by simp
    then have "e = 0 \<Longrightarrow> sqn k (m_ring s) (unat p) = unat p + 1" using DSeq(3) by (simp add: counter_diff_0 sqn_def wrap_ix[OF d(2)])
    then show ?thesis using DSeq p unfolding DSeq(1) by (intro idle) (auto simp: simps)
  next
    case (EWin t x p)
    then show ?thesis using enq_win_inv[OF assms(2), of t x] assms(3) by simp
  next
    case (DWin t p)
    then show ?thesis using deq_win_inv[OF assms(2), of t] by simp
  next
    case (EStore t x p)
    show ?thesis unfolding EStore(1) by (rule enq_store_inv[OF assms(2) EStore(2)])
  next
    case (EPublish t x p)
    show ?thesis unfolding EPublish(1) by (rule enq_publish_inv[OF assms(2) EPublish(2)])
  next
    case (DTake t p x)
    show ?thesis unfolding DTake(1) by (rule deq_take_inv[OF assms(2) DTake(2,3)])
  next
    case (DPublish t p x)
    show ?thesis unfolding DPublish(1) by (rule deq_publish_inv[OF assms(2) DPublish(2)])
  qed (use d(8,9) in \<open>auto intro!: idle simp: simps\<close>)
qed

section \<open>The queue refines a bounded queue\<close>

definition mpmc_abs :: "'a mpmc \<Rightarrow> 'a fifo" where
  "mpmc_abs s = \<lparr>f_items = drop (m_taken s) (m_items s), f_taken = take (m_taken s) (m_items s)\<rparr>"

lemma mpmc_simulates:
  assumes "mpmc_step mv k s s'" "mpmc_inv k s"
  shows "mpmc_abs s' = mpmc_abs s \<or> fifo_step (2 ^ k) (mpmc_abs s) (mpmc_abs s')"
proof -
  let ?N = "2 ^ k :: nat" and ?H = "length (m_items s)" and ?T = "m_taken s"
  note inv = assms(2)[unfolded mpmc_inv_def]
  have c: "core ?N ?H ?T (sqn k (m_ring s)) (dtn k (m_ring s)) (m_items s) (m_thr s)" and N2: "2 \<le> ?N" using inv two_le_size by blast+
  have thr: "thr_ok ?N ?H ?T (sqn k (m_ring s)) (dtn k (m_ring s)) (m_items s) (m_thr s t)" for t using c unfolding core_def by blast
  have TH: "?T \<le> ?H" using c unfolding core_def by blast
  from assms(1) show ?thesis
  proof cases
    case (EWin t x p)
    have "unat p = ?H" using EWin(3) inv by simp
    then have "?H < ?T + ?N" using thr[of t] EWin(2) core_head(1)[OF c N2] by simp
    then have "length (f_items (mpmc_abs s)) < ?N" using TH by (simp add: mpmc_abs_def)
    from Enq[OF this, of x] EWin(1) TH show ?thesis by (simp add: mpmc_abs_def)
  next
    case (DWin t p)
    have "unat p = ?T" using DWin(3) inv by simp
    then have lt: "?T < ?H" using thr[of t] DWin(2) core_tail(1)[OF c N2] by simp
    then have "f_items (mpmc_abs s) = m_items s ! ?T # drop (Suc ?T) (m_items s)" by (simp add: mpmc_abs_def Cons_nth_drop_Suc)
    from Deq[OF this, of ?N] DWin(1) lt show ?thesis by (simp add: mpmc_abs_def take_Suc_conv_app_nth)
  qed (simp_all add: mpmc_abs_def)
qed

text \<open>The runs of fewer than \<open>2^62\<close> items.\<close>

definition mpmc_run :: "('a \<Rightarrow> 'a) \<Rightarrow> nat \<Rightarrow> 'a mpmc \<Rightarrow> 'a mpmc \<Rightarrow> bool" where
  "mpmc_run mv k s s' \<longleftrightarrow> mpmc_step mv k s s' \<and> length (m_items s') < 2 ^ 62"

interpretation mpmc: step_refinement "mpmc_run mv k" "\<lambda>s. mpmc_inv k s \<and> length (m_items s) < 2 ^ 62" mpmc_abs "fifo_step (2 ^ k)" for mv k
  by unfold_locales (auto simp: mpmc_run_def intro: mpmc_step_inv dest: mpmc_simulates)

text \<open>Slots that have been used never fall behind a position already passed.\<close>

lemma core_sq_ge:
  assumes "core N H T sq dt E th" "2 \<le> N"
  shows "n < H \<Longrightarrow> n \<le> sq n" "n < T \<Longrightarrow> n + 1 \<le> sq n" "n \<le> H \<Longrightarrow> sq n \<le> H + N"
proof -
  note c = assms(1)[unfolded core_def]
  have recent: "m \<le> sq m \<and> (m < T \<longrightarrow> m + 1 \<le> sq m) \<and> sq m \<le> H + N" if "m < H" "H \<le> m + N" for m
  proof (cases "T \<le> m")
    case True
    then have "sq m = m \<or> sq m = m + 1" using c that by blast
    then show ?thesis using that True by auto
  next
    case False
    then have "sq m = m + 1 \<or> sq m = m + N" using c that by (meson not_le)
    then show ?thesis using that assms(2) by auto
  qed
  have all: "n \<le> sq n \<and> (n < T \<longrightarrow> n + 1 \<le> sq n) \<and> sq n \<le> H + N" if "n < H" for n
  proof (cases "H \<le> n + N")
    case False
    define j where "j = (H - 1 - n) div N"
    have N: "0 < N" using assms(2) by simp
    have j: "j * N \<le> H - 1 - n" "H - 1 - n < j * N + N"
      unfolding j_def using div_mult_mod_eq[of "H - 1 - n" N] mod_less_divisor[OF N, of "H - 1 - n"] by linarith+
    have "0 < j" unfolding j_def using False N by (simp add: div_greater_zero_iff)
    then have "N \<le> j * N" by simp
    moreover have "n + j * N < H" "H \<le> n + j * N + N" using j that by linarith+
    moreover have "sq n = sq (n + j * N)" using c unfolding periodic_def by (metis mod_mult_self1)
    ultimately show ?thesis using recent[of "n + j * N"] assms(2) by auto
  qed (use recent that in blast)
  have T: "T \<le> H" using c by blast
  show "n < H \<Longrightarrow> n \<le> sq n" "n < T \<Longrightarrow> n + 1 \<le> sq n" using all T by force+
  show "n \<le> H \<Longrightarrow> sq n \<le> H + N" using all[of n] core_head(2)[OF assms] by (cases "n = H") auto
qed

lemma signed_diff_exact: "m < 2 ^ 63 \<Longrightarrow> n < 2 ^ 63 \<Longrightarrow> signed_take_bit 63 (int m - int n) = int m - int n"
  by (intro signed_take_bit_int_eq_self) simp_all

lemma counter_diff_exact:
  assumes "unat a < 2 ^ 63" "unat b < 2 ^ 63"
  shows "counter_diff a b = int (unat a) - int (unat b)"
proof -
  have "a - b = word_of_int (int (unat a) - int (unat b))" by (simp add: of_int_diff)
  then have "counter_diff a b = sint (word_of_int (int (unat a) - int (unat b)) :: u64)" by (simp only: counter_diff_def)
  also have "\<dots> = signed_take_bit 63 (int (unat a) - int (unat b))" by (simp only: sint_sbintrunc') simp
  also have "\<dots> = int (unat a) - int (unat b)" using signed_diff_exact[OF assms] .
  finally show ?thesis .
qed

lemma counter_diff_neg: "unat a < 2 ^ 63 \<Longrightarrow> unat b < 2 ^ 63 \<Longrightarrow> counter_diff a b < 0 \<longleftrightarrow> unat a < unat b"
  by (simp only: counter_diff_exact) linarith

lemma mpmc_enqueue_refused:
  assumes "mpmc_inv k s" "length (m_items s) < 2 ^ 62" "m_thr s t = ELoop x p" "counter_diff (r_seq (m_ring s) (wrap_index k p)) p < 0"
  shows "length (f_items (mpmc_abs s)) = 2 ^ k \<or> (\<exists>u. reading (m_thr s u) (length (m_items s) - 2 ^ k))"
proof -
  let ?N = "2 ^ k :: nat" and ?H = "length (m_items s)" and ?T = "m_taken s" and ?sq = "sqn k (m_ring s)"
  note inv = assms(1)[unfolded mpmc_inv_def]
  have c: "core ?N ?H ?T ?sq (dtn k (m_ring s)) (m_items s) (m_thr s)" and N2: "2 \<le> ?N" and k: "k \<le> 63" using inv two_le_size by auto
  have NB: "?N \<le> 2 ^ 62" using inv by (intro power_increasing) auto
  have p: "unat p \<le> ?H" using c assms(3) unfolding core_def by (metis thr_ok.simps(1))
  have e: "unat (r_seq (m_ring s) (wrap_index k p)) = ?sq (unat p)" by (simp add: sqn_def wrap_ix[OF k])
  then have "?sq (unat p) < unat p"
    using counter_diff_neg[of "r_seq (m_ring s) (wrap_index k p)" p] core_sq_ge(3)[OF c N2 p] assms(2,4) NB p by simp
  then have "unat p = ?H" using core_sq_ge(1)[OF c N2, of "unat p"] p by linarith
  then have "?sq ?H \<noteq> ?H" using \<open>?sq (unat p) < unat p\<close> by simp
  then have "?N \<le> ?H \<and> (?T \<le> ?H - ?N \<or> (\<exists>u. reading (m_thr s u) (?H - ?N)))" using core_head(3)[OF c N2] by blast
  moreover have "?H \<le> ?T + ?N" using c unfolding core_def by blast
  ultimately show ?thesis by (auto simp: mpmc_abs_def)
qed

lemma mpmc_dequeue_refused:
  assumes "mpmc_inv k s" "length (m_items s) < 2 ^ 62" "m_thr s t = DLoop p" "counter_diff (r_seq (m_ring s) (wrap_index k p)) (p + 1) < 0"
  shows "f_items (mpmc_abs s) = [] \<or> (\<exists>u. writing (m_thr s u) (m_taken s))"
proof -
  let ?N = "2 ^ k :: nat" and ?H = "length (m_items s)" and ?T = "m_taken s" and ?sq = "sqn k (m_ring s)"
  note inv = assms(1)[unfolded mpmc_inv_def]
  have c: "core ?N ?H ?T ?sq (dtn k (m_ring s)) (m_items s) (m_thr s)" and N2: "2 \<le> ?N" and k: "k \<le> 63" using inv two_le_size by auto
  have NB: "?N \<le> 2 ^ 62" using inv by (intro power_increasing) auto
  have p: "unat p \<le> ?T" and T: "?T \<le> ?H" using c assms(3) unfolding core_def by (metis thr_ok.simps(5)) (use c in \<open>simp add: core_def\<close>)
  have e: "unat (r_seq (m_ring s) (wrap_index k p)) = ?sq (unat p)" by (simp add: sqn_def wrap_ix[OF k])
  have "unat (p + 1) = unat p + 1" using unat_pos_Suc[of p] p T assms(2) by simp
  then have lt: "?sq (unat p) < unat p + 1"
    using counter_diff_neg[of "r_seq (m_ring s) (wrap_index k p)" "p + 1"] core_sq_ge(3)[OF c N2, of "unat p"] assms(2,4) NB p T e by simp
  then have "unat p = ?T" using core_sq_ge(2)[OF c N2, of "unat p"] p by linarith
  then show ?thesis using core_tail(3)[OF c N2] lt by (auto simp: mpmc_abs_def)
qed

lemma mpmc_size: "mpmc_inv k s \<Longrightarrow> unat (size_approx (m_ring s)) = length (f_items (mpmc_abs s))"
  unfolding mpmc_inv_def core_def by (auto simp: size_approx_def mpmc_abs_def unat_sub word_le_nat_alt)

text \<open>
  C29. The queue of \<^verbatim>\<open>Size = 2^k\<close> slots (at least two) refines a bounded first-in first-out queue of \<open>2^k\<close> places for every interleaving of any number of producers
  and consumers, one access to the shared memory at a time, with compare-and-exchanges that may fail for no reason: the items are taken in the order their producers
  won \<^verbatim>\<open>head_\<close>; every finished \<^verbatim>\<open>dequeue\<close> delivered the item of the position it won, and no two of them the same position; \<^verbatim>\<open>size_approx()\<close> is the number of items
  waiting when nothing races with its two loads; \<^verbatim>\<open>enqueue\<close> returns false only when the queue is full or a consumer is still emptying the slot of the next position,
  and \<^verbatim>\<open>dequeue\<close> returns nothing only when the queue is empty or a producer has not finished with the oldest item. The runs have fewer than \<open>2^62\<close> items.
\<close>

theorem mpmc_refines_fifo:
  assumes "1 \<le> k" "k \<le> 62" "(mpmc_run mv k)\<^sup>*\<^sup>* (mpmc_init d) s"
  shows "(fifo_step (2 ^ k))\<^sup>*\<^sup>* \<lparr>f_items = [], f_taken = []\<rparr> (mpmc_abs s) \<and>
    m_items s = f_taken (mpmc_abs s) @ f_items (mpmc_abs s) \<and>
    (\<forall>(n, x) \<in> set (m_out s). n < length (f_taken (mpmc_abs s)) \<and> x = f_taken (mpmc_abs s) ! n) \<and> distinct (map fst (m_out s)) \<and>
    unat (size_approx (m_ring s)) = length (f_items (mpmc_abs s)) \<and>
    (m_thr s t = ELoop y p \<and> counter_diff (r_seq (m_ring s) (wrap_index k p)) p < 0 \<longrightarrow>
       length (f_items (mpmc_abs s)) = 2 ^ k \<or> (\<exists>u. reading (m_thr s u) (length (m_items s) - 2 ^ k))) \<and>
    (m_thr s t = DLoop p \<and> counter_diff (r_seq (m_ring s) (wrap_index k p)) (p + 1) < 0 \<longrightarrow>
       f_items (mpmc_abs s) = [] \<or> (\<exists>u. writing (m_thr s u) (length (f_taken (mpmc_abs s)))))"
proof -
  have i0: "mpmc_inv k (mpmc_init d) \<and> length (m_items (mpmc_init d)) < 2 ^ 62" using mpmc_init_inv[OF assms(1,2)] by (simp add: mpmc_init_def)
  from mpmc.reachable[OF assms(3) i0] have inv: "mpmc_inv k s" and len: "length (m_items s) < 2 ^ 62" by blast+
  have TH: "m_taken s \<le> length (m_items s)" using inv by (simp add: mpmc_inv_def core_def)
  have out: "n < m_taken s \<and> x = m_items s ! n" if "(n, x) \<in> set (m_out s)" for n x using inv that unfolding mpmc_inv_def by blast
  have "(fifo_step (2 ^ k))\<^sup>*\<^sup>* \<lparr>f_items = [], f_taken = []\<rparr> (mpmc_abs s)" using mpmc.refines[OF assms(3) i0] by (simp add: mpmc_abs_def mpmc_init_def)
  moreover have "n < length (f_taken (mpmc_abs s)) \<and> x = f_taken (mpmc_abs s) ! n" if "(n, x) \<in> set (m_out s)" for n x
    using out[OF that] TH by (simp add: mpmc_abs_def)
  moreover have "distinct (map fst (m_out s))" using inv by (simp add: mpmc_inv_def)
  moreover have "length (f_taken (mpmc_abs s)) = m_taken s" "m_items s = f_taken (mpmc_abs s) @ f_items (mpmc_abs s)" using TH by (simp_all add: mpmc_abs_def)
  ultimately show ?thesis
    using mpmc_size[OF inv] mpmc_enqueue_refused[OF inv len, of t y p] mpmc_dequeue_refused[OF inv len, of t p] by auto
qed

section \<open>Calls that run alone\<close>

text \<open>A call that nothing interferes with is a run of the step relation by one thread.\<close>

lemma mp_enqueue_steps:
  assumes "m_thr s t = Idle" "mp_enqueue (Suc n) k x (m_ring s) = Some (True, r')" "length (m_items s) + 1 < 2 ^ 62"
    and "counter_diff (r_seq (m_ring s) (wrap_index k (r_head (m_ring s)))) (r_head (m_ring s)) = 0"
  shows "(mpmc_run mv k)\<^sup>*\<^sup>* s (s\<lparr>m_ring := r', m_items := m_items s @ [x]\<rparr>)"
proof -
  let ?p = "r_head (m_ring s)" and ?w = "wrap_index k (r_head (m_ring s))"
  let ?s1 = "goto s t (ELoop x ?p)" and ?s2 = "goto s t (ETry x ?p)"
  let ?s3 = "goto (s\<lparr>m_ring := (m_ring s)\<lparr>r_head := ?p + 1\<rparr>, m_items := m_items s @ [x]\<rparr>) t (EWon x ?p)"
  let ?s4 = "goto (s\<lparr>m_ring := (m_ring s)\<lparr>r_head := ?p + 1, r_data := (r_data (m_ring s))(?w := x)\<rparr>, m_items := m_items s @ [x]\<rparr>) t (EStored x ?p)"
  have r': "r' = (m_ring s)\<lparr>r_head := ?p + 1, r_data := (r_data (m_ring s))(?w := x), r_seq := (r_seq (m_ring s))(?w := ?p + 1)\<rparr>"
    using assms(2,4) by (simp add: Let_def)
  have "mpmc_run mv k s ?s1" unfolding mpmc_run_def using EBegin[OF assms(1)] assms(3) by simp
  moreover have "mpmc_run mv k ?s1 ?s2" unfolding mpmc_run_def using ESeq[of ?s1 t x ?p 0 k mv] assms(3,4) by simp
  moreover have "mpmc_run mv k ?s2 ?s3" unfolding mpmc_run_def using EWin[of ?s2 t x ?p mv k] assms(3) by simp
  moreover have "mpmc_run mv k ?s3 ?s4" unfolding mpmc_run_def using EStore[of ?s3 t x ?p mv k] assms(3) by (cases s) simp
  moreover have "mpmc_run mv k ?s4 (s\<lparr>m_ring := r', m_items := m_items s @ [x]\<rparr>)"
    unfolding mpmc_run_def r' using EPublish[of ?s4 t x ?p mv k] assms(1,3) by (cases s) (simp add: fun_upd_idem)
  ultimately show ?thesis by (meson converse_rtranclp_into_rtranclp rtranclp.rtrancl_refl)
qed

text \<open>When no thread is inside a call, one turn of each loop is enough and the answer is exact.\<close>

lemma mp_calls_return:
  assumes "1 \<le> k" "k \<le> 62" "(mpmc_run mv k)\<^sup>*\<^sup>* (mpmc_init d) s" "\<And>t. m_thr s t = Idle"
  shows "map_option fst (mp_enqueue (Suc n) k x (m_ring s)) = Some (length (f_items (mpmc_abs s)) < 2 ^ k) \<and>
    map_option fst (mp_dequeue mv (Suc n) k (m_ring s)) = Some (case f_items (mpmc_abs s) of [] \<Rightarrow> None | y # _ \<Rightarrow> Some y)"
proof -
  let ?N = "2 ^ k :: nat" and ?H = "length (m_items s)" and ?T = "m_taken s" and ?r = "m_ring s" and ?sq = "sqn k (m_ring s)"
  have i0: "mpmc_inv k (mpmc_init d) \<and> length (m_items (mpmc_init d)) < 2 ^ 62" using mpmc_init_inv[OF assms(1,2)] by (simp add: mpmc_init_def)
  from mpmc.reachable[OF assms(3) i0] have inv: "mpmc_inv k s" and len: "?H < 2 ^ 62" by blast+
  note i = inv[unfolded mpmc_inv_def]
  have c: "core ?N ?H ?T ?sq (dtn k ?r) (m_items s) (m_thr s)" and N2: "2 \<le> ?N" and k: "k \<le> 63" using i two_le_size by auto
  have NB: "?N \<le> 2 ^ 62" using assms(2) by (intro power_increasing) auto
  have b: "?T \<le> ?H" "?H \<le> ?T + ?N" using c unfolding core_def by blast+
  have quiet: "\<not> writing (m_thr s t) m" "\<not> reading (m_thr s t) m" for t m using assms(4) by (simp_all add: writing_def reading_def)
  have sH: "unat (r_seq ?r (wrap_index k (r_head ?r))) = ?sq ?H" and sT: "unat (r_seq ?r (wrap_index k (r_tail ?r))) = ?sq ?T"
    and dT: "r_data ?r (wrap_index k (r_tail ?r)) = dtn k ?r ?T" using i by (simp_all add: sqn_def dtn_def wrap_ix[OF k])
  have hu: "unat (r_head ?r) = ?H" and tu: "unat (r_tail ?r) = ?T" using i by blast+
  have t1: "unat (r_tail ?r + 1) = ?T + 1" using unat_pos_Suc[of "r_tail ?r"] tu b len by simp
  have full: "?sq ?H = ?H \<longleftrightarrow> ?H < ?T + ?N" using core_head[OF c N2] quiet b by (auto simp: le_diff_conv2)
  have avail: "?sq ?T = ?T + 1 \<longleftrightarrow> ?T < ?H" using core_tail[OF c N2] quiet by auto
  have "counter_diff (r_seq ?r (wrap_index k (r_head ?r))) (r_head ?r) = int (?sq ?H) - int ?H"
    using counter_diff_exact[of "r_seq ?r (wrap_index k (r_head ?r))" "r_head ?r"] core_head(2)[OF c N2] sH hu len by simp
  then have "map_option fst (mp_enqueue (Suc n) k x ?r) = Some (?H < ?T + ?N)"
    using core_head(2)[OF c N2] full by (auto simp: Let_def)
  moreover have "counter_diff (r_seq ?r (wrap_index k (r_tail ?r))) (r_tail ?r + 1) = int (?sq ?T) - int (?T + 1)"
    using counter_diff_exact[of "r_seq ?r (wrap_index k (r_tail ?r))" "r_tail ?r + 1"] core_tail(2)[OF c N2] sT t1 b len by simp
  then have "map_option fst (mp_dequeue mv (Suc n) k ?r) = Some (if ?T < ?H then Some (dtn k ?r ?T) else None)"
    using core_tail(2)[OF c N2] avail dT by (auto simp: Let_def)
  moreover have "?T < ?H \<Longrightarrow> dtn k ?r ?T = m_items s ! ?T" using core_tail(1)[OF c N2] avail by simp
  ultimately show ?thesis using b by (auto simp: mpmc_abs_def Cons_nth_drop_Suc[symmetric])
qed

text \<open>
  With one slot, which the class admits, nothing tells a full queue from a free one: a second \<^verbatim>\<open>enqueue\<close> succeeds over the first item, and after it no \<^verbatim>\<open>dequeue\<close>
  returns, however long its loop runs.
\<close>

lemma one_slot_overwritten:
  "\<exists>r1 r2. mp_enqueue 1 0 x (MPMCRingBuffer_init d) = Some (True, r1) \<and> mp_enqueue 1 0 y r1 = Some (True, r2) \<and>
     (\<forall>i. r_data r2 (wrap_index 0 i) = y) \<and> (\<forall>fuel. mp_dequeue mv fuel 0 r2 = None)"
proof -
  let ?r1 = "\<lparr>r_head = 1, r_tail = 0, r_seq = (\<lambda>i. i)(0 := 1), r_data = (\<lambda>_. d)(0 := x)\<rparr>"
  let ?r2 = "\<lparr>r_head = 2, r_tail = 0, r_seq = (\<lambda>i. i)(0 := 2), r_data = (\<lambda>_. d)(0 := y)\<rparr>"
  have w: "wrap_index 0 i = 0" for i by (simp add: wrap_index_def)
  have "mp_dequeue mv fuel 0 ?r2 = None" for fuel by (induction fuel) (simp_all add: w counter_diff_def Let_def)
  moreover have "mp_enqueue 1 0 x (MPMCRingBuffer_init d) = Some (True, ?r1)" by (simp add: w counter_diff_def Let_def MPMCRingBuffer_init_def)
  moreover have "mp_enqueue 1 0 y ?r1 = Some (True, ?r2)" by (simp add: w counter_diff_def Let_def)
  ultimately show ?thesis by (intro exI[of _ ?r1] exI[of _ ?r2]) (simp add: w)
qed

text \<open>One item in a queue of four slots, put there by thread 0.\<close>

definition demo_one :: "nat mpmc" where
  "demo_one = (mpmc_init 0)\<lparr>m_ring := \<lparr>r_head = 1, r_tail = 0, r_seq = (\<lambda>i. i)(0 := 1), r_data = (\<lambda>_. 0)(0 := 7)\<rparr>, m_items := [7]\<rparr>"

lemma demo_one_reachable: "(mpmc_run mv 2)\<^sup>*\<^sup>* (mpmc_init 0) demo_one"
proof -
  let ?r = "\<lparr>r_head = 1, r_tail = 0, r_seq = (\<lambda>i. i)(0 := 1), r_data = (\<lambda>_. 0)(0 := 7 :: nat)\<rparr>"
  have "mp_enqueue (Suc 0) 2 7 (m_ring (mpmc_init 0)) = Some (True, ?r)"
    by (simp add: mpmc_init_def MPMCRingBuffer_init_def wrap_index_def counter_diff_def Let_def)
  from mp_enqueue_steps[OF _ this, of 0 mv] show ?thesis
    by (simp add: demo_one_def mpmc_init_def MPMCRingBuffer_init_def wrap_index_def counter_diff_def)
qed

theorem mpmc_refines_fifo_witness:
  "unat (size_approx (m_ring demo_one)) = 1 \<and> f_items (mpmc_abs demo_one) = [7] \<and> m_items demo_one = f_taken (mpmc_abs demo_one) @ [7]"
  using mpmc_refines_fifo[OF _ _ demo_one_reachable[of id], of 0 0 0] by (simp add: mpmc_abs_def demo_one_def mpmc_init_def)

end
