(* ===== verification/Async_Logger.thy ===== *)
theory Async_Logger
  imports Mpmc_Queue
begin

text \<open>
  Logging off the ring threads: \<^verbatim>\<open>src/logging/AsyncLogger.cpp\<close> over \<^verbatim>\<open>src/ring_buffer/NotifyingRingBuffer.hpp\<close>. Any number of threads log; one worker takes the messages out of
  the queue and writes them to the logger it wraps.

  The queue inside is the one of Mpmc\_Queue, and is used through what was shown of it there: items enter and leave a bounded first-in first-out queue; an \<^verbatim>\<open>enqueue\<close> is refused
  only when the queue is full, or one short of it while the consumer still holds the slot it has taken from, and a \<^verbatim>\<open>dequeue\<close> finds nothing only when the queue is empty or a producer is inside an \<^verbatim>\<open>enqueue\<close>.
\<close>

section \<open>Messages\<close>

datatype EntryKind = Message | Error

record LogMessage =
  lm_timestamp :: nat
  lm_level :: EntryKind
  lm_message :: string
  lm_length :: u64

definition MESSAGE_SIZE :: nat where "MESSAGE_SIZE = 1024"

text \<open>The constructor leaves in the rest of the buffer what was there, \<open>junk\<close>.\<close>

definition LogMessage_new :: "string \<Rightarrow> nat \<Rightarrow> EntryKind \<Rightarrow> string \<Rightarrow> LogMessage" where
  "LogMessage_new junk now lvl msg =
     (let n = min (length msg) (MESSAGE_SIZE - 1) in
      \<lparr>lm_timestamp = now, lm_level = lvl, lm_message = take n msg @ CHR 0x00 # drop (Suc n) junk, lm_length = of_nat n\<rparr>)"

definition getMessage :: "LogMessage \<Rightarrow> string" where
  "getMessage m = take (unat (lm_length m)) (lm_message m)"

text \<open>The calls the wrapped logger gets.\<close>

datatype log_call = LogMessageCall string | LogErrorCall string

definition processLogMessage :: "LogMessage \<Rightarrow> log_call" where
  "processLogMessage m = (case lm_level m of Message \<Rightarrow> LogMessageCall (getMessage m) | Error \<Rightarrow> LogErrorCall (getMessage m))"

definition drop_report :: "u64 \<Rightarrow> log_call" where
  "drop_report n = LogErrorCall (''AsyncLogger: dropped '' @ to_string (uint n) @ '' message(s): queue full'')"

text \<open>The counter afterwards, and the calls made.\<close>

definition reportDropsIfAny :: "u64 \<Rightarrow> u64 \<times> log_call list" where
  "reportDropsIfAny d = (0, if d > 0 then [drop_report d] else [])"

section \<open>The queue that wakes its consumer\<close>

definition NOTIFY_WATERMARK :: u64 where "NOTIFY_WATERMARK = 16"

record 'a NotifyingRingBuffer =
  nb_ring :: "'a fifo"
  nb_sem :: nat
  nb_shutdown :: bool

definition NotifyingRingBuffer_init :: "'a NotifyingRingBuffer" where
  "NotifyingRingBuffer_init = \<lparr>nb_ring = \<lparr>f_items = [], f_taken = []\<rparr>, nb_sem = 0, nb_shutdown = False\<rparr>"

definition notify_all :: "'a NotifyingRingBuffer \<Rightarrow> 'a NotifyingRingBuffer" where
  "notify_all b = b\<lparr>nb_sem := nb_sem b + 1\<rparr>"

text \<open>\<open>size\<close> is what \<^verbatim>\<open>size_approx()\<close> answered, which may be stale.\<close>

definition wakeIfWorthIt :: "u64 \<Rightarrow> 'a NotifyingRingBuffer \<Rightarrow> 'a NotifyingRingBuffer" where
  "wakeIfWorthIt sz b = (if sz \<ge> NOTIFY_WATERMARK then b\<lparr>nb_sem := nb_sem b + 1\<rparr> else b)"

definition nb_signal_shutdown :: "'a NotifyingRingBuffer \<Rightarrow> 'a NotifyingRingBuffer" where
  "nb_signal_shutdown b = notify_all (b\<lparr>nb_shutdown := True\<rparr>)"

definition nb_enter :: "'a \<Rightarrow> 'a NotifyingRingBuffer \<Rightarrow> 'a NotifyingRingBuffer" where
  "nb_enter x b = b\<lparr>nb_ring := (nb_ring b)\<lparr>f_items := f_items (nb_ring b) @ [x]\<rparr>\<rparr>"

definition nb_leave :: "'a NotifyingRingBuffer \<Rightarrow> 'a NotifyingRingBuffer" where
  "nb_leave b = b\<lparr>nb_ring := \<lparr>f_items = tl (f_items (nb_ring b)), f_taken = f_taken (nb_ring b) @ [hd (f_items (nb_ring b))]\<rparr>\<rparr>"

section \<open>The threads\<close>

text \<open>
  A producer has passed the check of \<^verbatim>\<open>fRunning\<close> and built its message (\<open>PBuilt\<close>), or its message is in the queue and it has still to publish the slot and to wake the worker
  (\<open>PEntered\<close>). The worker is at: the head of its loop; the \<^verbatim>\<open>dequeue\<close> of the ring, the first test of \<^verbatim>\<open>shutdown_\<close>, the park, the second test and the last
  try inside \<^verbatim>\<open>NotifyingRingBuffer::dequeue\<close>; the processing of a message and the report after it; the draining loop; the last report. For the statements,
  \<open>PBuilt\<close> keeps what was logged, \<open>l_accepted\<close> what entered the queue, in this order, and \<open>l_refused\<close> counts the messages it had no room for.
\<close>

datatype producer = PIdle | PBuilt EntryKind string LogMessage | PEntered

datatype worker =
    WLoop | WDequeue | WCheck | WPark | WRecheck | WLast | WGot LogMessage | WReport
  | WDrain | WDrained LogMessage | WFinal | WDone

record logger =
  l_buf :: "LogMessage NotifyingRingBuffer"
  l_running :: bool
  l_dropped :: u64
  l_prod :: "nat \<Rightarrow> producer"
  l_worker :: worker
  l_delegate :: "log_call list"
  l_accepted :: "(EntryKind \<times> string) list"
  l_refused :: nat

definition AsyncLogger_init :: logger where
  "AsyncLogger_init = \<lparr>l_buf = NotifyingRingBuffer_init, l_running = True, l_dropped = 0, l_prod = (\<lambda>_. PIdle), l_worker = WLoop,
     l_delegate = [], l_accepted = [], l_refused = 0\<rparr>"

abbreviation queued :: "logger \<Rightarrow> LogMessage list" where
  "queued s \<equiv> f_items (nb_ring (l_buf s))"

definition RING_SIZE :: nat where "RING_SIZE = 4096"

definition dequeuing :: "worker \<Rightarrow> bool" where
  "dequeuing w \<longleftrightarrow> w = WDequeue \<or> w = WLast \<or> w = WDrain"

fun in_hand :: "worker \<Rightarrow> LogMessage list" where
  "in_hand (WGot m) = [m]"
| "in_hand (WDrained m) = [m]"
| "in_hand _ = []"

text \<open>What the worker does next after it took a message, and after it found none.\<close>

fun took :: "worker \<Rightarrow> LogMessage \<Rightarrow> worker" where
  "took WDrain m = WDrained m"
| "took _ m = WGot m"

fun found_none :: "worker \<Rightarrow> worker" where
  "found_none WDequeue = WCheck"
| "found_none WLast = WDrain"
| "found_none WDrain = WFinal"
| "found_none w = w"

text \<open>The calls of the threads that log, \<^verbatim>\<open>enqueueLogMessage\<close>.\<close>

inductive log_step :: "logger \<Rightarrow> logger \<Rightarrow> bool" where
  Ignore: "l_prod s t = PIdle \<Longrightarrow> \<not> l_running s \<Longrightarrow> log_step s s"
| Build: "l_prod s t = PIdle \<Longrightarrow> l_running s \<Longrightarrow> length junk = MESSAGE_SIZE \<Longrightarrow>
     log_step s (s\<lparr>l_prod := (l_prod s)(t := PBuilt k msg (LogMessage_new junk now k msg))\<rparr>)"
| Enter: "l_prod s t = PBuilt k msg m \<Longrightarrow> length (queued s) < RING_SIZE \<Longrightarrow>
     log_step s (s\<lparr>l_prod := (l_prod s)(t := PEntered), l_buf := nb_enter m (l_buf s), l_accepted := l_accepted s @ [(k, msg)]\<rparr>)"
| Refuse: "l_prod s t = PBuilt k msg m \<Longrightarrow> length (queued s) + length (in_hand (l_worker s)) \<ge> RING_SIZE \<Longrightarrow>
     log_step s (s\<lparr>l_prod := (l_prod s)(t := PIdle), l_dropped := l_dropped s + 1, l_refused := l_refused s + 1\<rparr>)"
| Publish: "l_prod s t = PEntered \<Longrightarrow> log_step s (s\<lparr>l_prod := (l_prod s)(t := PIdle), l_buf := wakeIfWorthIt sz (l_buf s)\<rparr>)"

text \<open>The worker thread, \<^verbatim>\<open>workerThreadFunc\<close>.\<close>

inductive work_step :: "logger \<Rightarrow> logger \<Rightarrow> bool" where
  Loop: "l_worker s = WLoop \<Longrightarrow> work_step s (s\<lparr>l_worker := if l_running s then WDequeue else WDrain\<rparr>)"
| Take: "dequeuing (l_worker s) \<Longrightarrow> queued s = m # ms \<Longrightarrow> work_step s (s\<lparr>l_worker := took (l_worker s) m, l_buf := nb_leave (l_buf s)\<rparr>)"
| None: "dequeuing (l_worker s) \<Longrightarrow> queued s = [] \<or> (\<exists>t. l_prod s t = PEntered) \<Longrightarrow> work_step s (s\<lparr>l_worker := found_none (l_worker s)\<rparr>)"
| Check: "l_worker s = WCheck \<Longrightarrow> work_step s (s\<lparr>l_worker := if nb_shutdown (l_buf s) then WDrain else WPark\<rparr>)"
| Wake: "l_worker s = WPark \<Longrightarrow> nb_sem (l_buf s) = Suc n \<Longrightarrow> work_step s (s\<lparr>l_worker := WRecheck, l_buf := (l_buf s)\<lparr>nb_sem := n\<rparr>\<rparr>)"
| Timeout: "l_worker s = WPark \<Longrightarrow> work_step s (s\<lparr>l_worker := WRecheck\<rparr>)"
| Recheck: "l_worker s = WRecheck \<Longrightarrow> work_step s (s\<lparr>l_worker := if nb_shutdown (l_buf s) then WLast else WDequeue\<rparr>)"
| Process: "l_worker s = WGot m \<Longrightarrow> work_step s (s\<lparr>l_worker := WReport, l_delegate := l_delegate s @ [processLogMessage m]\<rparr>)"
| Report: "l_worker s = WReport \<Longrightarrow> reportDropsIfAny (l_dropped s) = (d, calls) \<Longrightarrow>
     work_step s (s\<lparr>l_worker := WLoop, l_dropped := d, l_delegate := l_delegate s @ calls\<rparr>)"
| Drain: "l_worker s = WDrained m \<Longrightarrow> work_step s (s\<lparr>l_worker := WDrain, l_delegate := l_delegate s @ [processLogMessage m]\<rparr>)"
| Final: "l_worker s = WFinal \<Longrightarrow> reportDropsIfAny (l_dropped s) = (d, calls) \<Longrightarrow>
     work_step s (s\<lparr>l_worker := WDone, l_dropped := d, l_delegate := l_delegate s @ calls\<rparr>)"

text \<open>The destructor up to its \<^verbatim>\<open>join()\<close>, which waits for \<open>WDone\<close>.\<close>

inductive stop_step :: "logger \<Rightarrow> logger \<Rightarrow> bool" where
  StopRunning: "l_running s \<Longrightarrow> stop_step s (s\<lparr>l_running := False\<rparr>)"
| SignalShutdown: "\<not> l_running s \<Longrightarrow> \<not> nb_shutdown (l_buf s) \<Longrightarrow> stop_step s (s\<lparr>l_buf := nb_signal_shutdown (l_buf s)\<rparr>)"

definition logger_step :: "logger \<Rightarrow> logger \<Rightarrow> bool" where
  "logger_step s s' \<longleftrightarrow> log_step s s' \<or> work_step s s' \<or> stop_step s s'"

section \<open>What is written\<close>

definition delivered :: "EntryKind \<times> string \<Rightarrow> log_call" where
  "delivered km = (case km of (Message, msg) \<Rightarrow> LogMessageCall (take 1023 msg) | (Error, msg) \<Rightarrow> LogErrorCall (take 1023 msg))"

lemma process_new: "length junk = MESSAGE_SIZE \<Longrightarrow> processLogMessage (LogMessage_new junk now k msg) = delivered (k, msg)"
proof -
  have "unat (of_nat (min (length msg) 1023) :: u64) = min (length msg) 1023" by (simp add: unat_of_nat)
  then show ?thesis by (cases k) (simp_all add: processLogMessage_def LogMessage_new_def getMessage_def MESSAGE_SIZE_def delivered_def Let_def min_def)
qed

lemma shuffles_single: "ys @ [a] \<in> shuffles [a] ys"
  by (induction ys) auto

lemma shuffles_snoc:
  "zs \<in> shuffles xs ys \<Longrightarrow> zs @ [a] \<in> shuffles (xs @ [a]) ys"
  "zs \<in> shuffles xs ys \<Longrightarrow> zs @ [a] \<in> shuffles xs (ys @ [a])"
  by (induction xs ys arbitrary: zs rule: shuffles.induct) (auto simp: shuffles_single shuffles_commutes[of _ "[a]"])

definition written :: "logger \<Rightarrow> LogMessage list \<Rightarrow> u64 list \<Rightarrow> bool" where
  "written s ms rep \<longleftrightarrow> f_taken (nb_ring (l_buf s)) = ms @ in_hand (l_worker s) \<and>
     l_delegate s \<in> shuffles (map processLogMessage ms) (map drop_report rep) \<and> 0 \<notin> set rep \<and> of_nat (l_refused s) = sum_list rep + l_dropped s"

definition logger_rest :: "logger \<Rightarrow> bool" where
  "logger_rest s \<longleftrightarrow> map processLogMessage (f_taken (nb_ring (l_buf s)) @ queued s) = map delivered (l_accepted s) \<and>
     (\<forall>t k msg m. l_prod s t = PBuilt k msg m \<longrightarrow> processLogMessage m = delivered (k, msg)) \<and> length (queued s) \<le> RING_SIZE \<and>
     (l_running s \<longrightarrow> \<not> nb_shutdown (l_buf s) \<and> l_worker s \<notin> {WLast, WDrain, WFinal, WDone} \<and> (\<forall>m. l_worker s \<noteq> WDrained m))"

definition logger_inv :: "logger \<Rightarrow> bool" where
  "logger_inv s \<longleftrightarrow> (\<exists>ms rep. written s ms rep) \<and> logger_rest s"

lemma logger_invI:
  "logger_inv s \<Longrightarrow> (\<And>ms rep. written s ms rep \<Longrightarrow> \<exists>ms rep. written s' ms rep) \<Longrightarrow> (logger_rest s \<Longrightarrow> logger_rest s') \<Longrightarrow> logger_inv s'"
  unfolding logger_inv_def by blast

lemma written_frame:
  "written s ms rep \<Longrightarrow> l_delegate s' = l_delegate s \<Longrightarrow> l_refused s' = l_refused s \<Longrightarrow> l_dropped s' = l_dropped s \<Longrightarrow>
   f_taken (nb_ring (l_buf s')) = f_taken (nb_ring (l_buf s)) \<Longrightarrow> in_hand (l_worker s') = in_hand (l_worker s) \<Longrightarrow> written s' ms rep"
  by (simp add: written_def)

text \<open>A report moves the count of the dropped messages into a line of its own.\<close>

lemma written_report:
  assumes "written s ms rep" "reportDropsIfAny (l_dropped s) = (d, calls)" "in_hand w = in_hand (l_worker s)"
  shows "\<exists>ms rep. written (s\<lparr>l_worker := w, l_dropped := d, l_delegate := l_delegate s @ calls\<rparr>) ms rep"
proof (cases "l_dropped s = 0")
  case True
  with assms show ?thesis by (auto simp: written_def reportDropsIfAny_def)
next
  case False
  with assms(2) have "calls = [drop_report (l_dropped s)]" "d = 0" by (auto simp: reportDropsIfAny_def word_gt_0)
  with assms False shuffles_snoc(2) have "written (s\<lparr>l_worker := w, l_dropped := d, l_delegate := l_delegate s @ calls\<rparr>) ms (rep @ [l_dropped s])"
    by (auto simp: written_def)
  then show ?thesis by blast
qed

lemma log_step_inv: "log_step s s' \<Longrightarrow> logger_inv s \<Longrightarrow> logger_inv s'"
proof (induction rule: log_step.induct)
  case (Build s t junk k msg now)
  show ?case
    by (rule logger_invI[OF Build(4)]) (use Build(3) in \<open>auto simp: written_def logger_rest_def process_new\<close>)
next
  case (Enter s t k msg m)
  show ?case
    by (rule logger_invI[OF Enter(3)]) (use Enter(1,2) in \<open>auto simp: written_def logger_rest_def nb_enter_def\<close>)
next
  case (Refuse s t k msg m)
  show ?case
    by (rule logger_invI[OF Refuse(3)]) (auto simp: written_def logger_rest_def)
next
  case (Publish s t sz)
  show ?case
    by (rule logger_invI[OF Publish(2)]) (auto simp: written_def logger_rest_def wakeIfWorthIt_def)
qed

lemma stop_step_inv: "stop_step s s' \<Longrightarrow> logger_inv s \<Longrightarrow> logger_inv s'"
  by (induction rule: stop_step.induct) (auto simp: logger_inv_def logger_rest_def written_def nb_signal_shutdown_def notify_all_def)

text \<open>The worker writes the message in its hand.\<close>

lemma written_process:
  "written s ms rep \<Longrightarrow> in_hand (l_worker s) = [m] \<Longrightarrow> in_hand w = [] \<Longrightarrow>
   \<exists>ms rep. written (s\<lparr>l_worker := w, l_delegate := l_delegate s @ [processLogMessage m]\<rparr>) ms rep"
  using shuffles_snoc(1) by (intro exI[of _ "ms @ [m]"] exI[of _ rep]) (auto simp: written_def)

lemma work_step_inv: "work_step s s' \<Longrightarrow> logger_inv s \<Longrightarrow> logger_inv s'"
proof (induction rule: work_step.induct)
  case (Take s m ms)
  have h: "in_hand (l_worker s) = []" "in_hand (took (l_worker s) m) = [m]" using Take(1) by (auto simp: dequeuing_def)
  show ?case
    by (rule logger_invI[OF Take(3)]) (use h Take(1,2) in \<open>auto simp: written_def nb_leave_def logger_rest_def dequeuing_def\<close>)
next
  case (None s)
  show ?case
    by (rule logger_invI[OF None(3)]) (use None(1) in \<open>auto simp: written_def logger_rest_def dequeuing_def\<close>)
next
  case (Process s m)
  show ?case
    by (rule logger_invI[OF Process(2)]) (use Process(1) written_process[of s] in \<open>auto simp: logger_rest_def\<close>)
next
  case (Drain s m)
  show ?case
    by (rule logger_invI[OF Drain(2)]) (use Drain(1) written_process[of s] in \<open>auto simp: logger_rest_def\<close>)
next
  case (Report s d calls)
  show ?case
    by (rule logger_invI[OF Report(3)]) (use Report(1,2) written_report[of s _ _ d calls WLoop] in \<open>auto simp: logger_rest_def\<close>)
next
  case (Final s d calls)
  show ?case
    by (rule logger_invI[OF Final(3)]) (use Final(1,2) written_report[of s _ _ d calls WDone] in \<open>auto simp: logger_rest_def\<close>)
qed (auto simp: logger_inv_def logger_rest_def written_def)

lemma AsyncLogger_init_inv: "logger_inv AsyncLogger_init"
proof -
  have "written AsyncLogger_init [] []" by (simp add: written_def AsyncLogger_init_def NotifyingRingBuffer_init_def)
  moreover have "logger_rest AsyncLogger_init" by (simp add: logger_rest_def AsyncLogger_init_def NotifyingRingBuffer_init_def)
  ultimately show ?thesis unfolding logger_inv_def by blast
qed

interpretation log: step_invariant logger_step logger_inv
  by unfold_locales (auto simp: logger_step_def intro: log_step_inv work_step_inv stop_step_inv)

section \<open>Shutting down\<close>

text \<open>
  Once the logger is not running and no thread is inside a call, only the worker and the destructor move, and the worker comes to its end.
\<close>

definition winding_down :: "logger \<Rightarrow> bool" where
  "winding_down s \<longleftrightarrow> \<not> l_running s \<and> (\<forall>t. l_prod s t = PIdle) \<and> (l_worker s \<in> {WFinal, WDone} \<longrightarrow> queued s = []) \<and> (l_worker s = WDone \<longrightarrow> l_dropped s = 0)"

lemma winding_down_log: "winding_down s \<Longrightarrow> log_step s s' \<Longrightarrow> s' = s"
  by (auto simp: winding_down_def elim: log_step.cases)

lemma winding_down_work: "winding_down s \<Longrightarrow> work_step s s' \<Longrightarrow> winding_down s'"
  by (erule work_step.cases) (auto simp: winding_down_def dequeuing_def reportDropsIfAny_def nb_leave_def split: if_splits)

lemma winding_down_stop: "winding_down s \<Longrightarrow> stop_step s s' \<Longrightarrow> winding_down s'"
  by (erule stop_step.cases) (auto simp: winding_down_def nb_signal_shutdown_def notify_all_def)

lemma accepted_work: "work_step s s' \<Longrightarrow> l_accepted s' = l_accepted s \<and> l_refused s' = l_refused s \<and> nb_shutdown (l_buf s') = nb_shutdown (l_buf s)"
  by (erule work_step.cases) (auto simp: nb_leave_def)

lemma accepted_stop: "stop_step s s' \<Longrightarrow> l_accepted s' = l_accepted s \<and> l_refused s' = l_refused s"
  by (erule stop_step.cases) auto

interpretation quit: step_invariant logger_step "\<lambda>s. logger_inv s \<and> winding_down s \<and> l_accepted s = acc \<and> l_refused s = ref" for acc ref
proof unfold_locales
  fix s s' assume s: "logger_step s s'" and i: "logger_inv s \<and> winding_down s \<and> l_accepted s = acc \<and> l_refused s = ref"
  have "logger_inv s'" using log.preserved[OF s] i by blast
  moreover have "winding_down s' \<and> l_accepted s' = acc \<and> l_refused s' = ref"
    using s i unfolding logger_step_def
    by (metis winding_down_log winding_down_work winding_down_stop accepted_work accepted_stop)
  ultimately show "logger_inv s' \<and> winding_down s' \<and> l_accepted s' = acc \<and> l_refused s' = ref" by blast
qed

fun worker_rank :: "worker \<Rightarrow> nat" where
  "worker_rank WDone = 0"
| "worker_rank WFinal = 1"
| "worker_rank WDrain = 2"
| "worker_rank (WDrained m) = 3"
| "worker_rank WLoop = 3"
| "worker_rank WCheck = 3"
| "worker_rank WLast = 3"
| "worker_rank WReport = 4"
| "worker_rank WRecheck = 4"
| "worker_rank WDequeue = 4"
| "worker_rank (WGot m) = 5"
| "worker_rank WPark = 5"

definition work_left :: "logger \<Rightarrow> nat" where
  "work_left s = 6 * length (queued s) + worker_rank (l_worker s)"

lemma work_step_progress:
  assumes "winding_down s" "nb_shutdown (l_buf s)"
  shows "work_step s s' \<Longrightarrow> work_left s' < work_left s" "l_worker s \<noteq> WDone \<Longrightarrow> \<exists>s'. work_step s s'"
proof -
  show "work_step s s' \<Longrightarrow> work_left s' < work_left s"
    by (erule work_step.cases) (use assms in \<open>auto simp: work_left_def winding_down_def dequeuing_def nb_leave_def\<close>)
  show "\<exists>s'. work_step s s'" if "l_worker s \<noteq> WDone"
  proof (cases "dequeuing (l_worker s)")
    case True
    then show ?thesis by (cases "queued s") (blast intro: work_step.intros)+
  next
    case False
    with that show ?thesis by (cases "l_worker s") (auto simp: dequeuing_def intro: work_step.intros Report[OF _ surjective_pairing] Final[OF _ surjective_pairing])
  qed
qed

interpretation join: step_ending work_step "\<lambda>s. winding_down s \<and> nb_shutdown (l_buf s)" work_left "\<lambda>s. l_worker s = WDone"
  by unfold_locales (use work_step_progress winding_down_work accepted_work in blast)+

section \<open>Properties\<close>


text \<open>
  C37. Shutting down writes everything and ends. When the destructor runs with no thread inside a call, then once the worker is through, every message ever accepted has been written and every drop
  reported. And from the signal on the worker does get through: it is never stuck, also not parked, and takes at most \<open>work_left\<close> steps to its end, so the \<^verbatim>\<open>join()\<close> returns.
\<close>

theorem async_logger_shutdown:
  assumes "logger_step\<^sup>*\<^sup>* AsyncLogger_init s" "l_running s" "\<And>t. l_prod s t = PIdle" "logger_step\<^sup>*\<^sup>* (s\<lparr>l_running := False\<rparr>) s'"
  shows "(l_worker s' = WDone \<longrightarrow> l_dropped s' = 0 \<and>
      (\<exists>rep. l_delegate s' \<in> shuffles (map delivered (l_accepted s)) (map drop_report rep) \<and> of_nat (l_refused s) = sum_list rep)) \<and>
    (nb_shutdown (l_buf s') \<longrightarrow> (\<forall>n u. (work_step ^^ n) s' u \<longrightarrow> n \<le> work_left s' \<and> (l_worker u = WDone \<or> (\<exists>v. work_step u v))) \<and>
      (\<exists>n u. (work_step ^^ n) s' u \<and> l_worker u = WDone))"
proof -
  have i: "logger_inv s" by (rule log.reachable[OF assms(1) AsyncLogger_init_inv])
  have "logger_step s (s\<lparr>l_running := False\<rparr>)" using StopRunning[OF assms(2)] by (simp add: logger_step_def)
  then have "logger_inv (s\<lparr>l_running := False\<rparr>)" using log.preserved i by blast
  moreover have "winding_down (s\<lparr>l_running := False\<rparr>)" using i assms(2,3) by (auto simp: winding_down_def logger_inv_def logger_rest_def)
  ultimately have q: "logger_inv s' \<and> winding_down s' \<and> l_accepted s' = l_accepted s \<and> l_refused s' = l_refused s"
    using quit.reachable[OF assms(4), of "l_accepted s" "l_refused s"] by simp
  have "l_dropped s' = 0 \<and> (\<exists>rep. l_delegate s' \<in> shuffles (map delivered (l_accepted s)) (map drop_report rep) \<and> of_nat (l_refused s) = sum_list rep)"
    if d: "l_worker s' = WDone"
  proof -
    from q obtain ms rep where w: "written s' ms rep" "logger_rest s'" unfolding logger_inv_def by blast
    have "queued s' = []" "l_dropped s' = 0" using q d by (simp_all add: winding_down_def)
    moreover from this w d have "map processLogMessage ms = map delivered (l_accepted s')" by (simp add: written_def logger_rest_def)
    ultimately show ?thesis using w(1) q by (intro conjI exI[of _ rep]) (simp_all add: written_def)
  qed
  moreover have "n \<le> work_left s' \<and> (l_worker u = WDone \<or> (\<exists>v. work_step u v))" if "(work_step ^^ n) s' u" "nb_shutdown (l_buf s')" for n u
    using join.bounded[OF that(1)] join.not_stuck[of u] that(2) q by fastforce
  moreover have "\<exists>n u. (work_step ^^ n) s' u \<and> l_worker u = WDone" if "nb_shutdown (l_buf s')" using join.ends[of s'] that q by blast
  ultimately show ?thesis by blast
qed

text \<open>One message is logged, and the logger destroyed.\<close>

definition demo_message :: LogMessage where
  "demo_message = LogMessage_new (replicate MESSAGE_SIZE CHR ''x'') 0 Message ''hello''"

definition demo_logged :: logger where
  "demo_logged = AsyncLogger_init\<lparr>l_accepted := [(Message, ''hello'')],
     l_buf := \<lparr>nb_ring = \<lparr>f_items = [demo_message], f_taken = []\<rparr>, nb_sem = 0, nb_shutdown = False\<rparr>\<rparr>"

definition demo_closed :: logger where
  "demo_closed = demo_logged\<lparr>l_running := False, l_worker := WDone, l_delegate := [processLogMessage demo_message],
     l_buf := \<lparr>nb_ring = \<lparr>f_items = [], f_taken = [demo_message]\<rparr>, nb_sem = 0, nb_shutdown = False\<rparr>\<rparr>"

lemma demo_logged_reachable: "logger_step\<^sup>*\<^sup>* AsyncLogger_init demo_logged"
proof -
  let ?s0 = AsyncLogger_init
  let ?s1 = "?s0\<lparr>l_prod := (l_prod ?s0)(0 := PBuilt Message ''hello'' demo_message)\<rparr>"
  let ?s2 = "demo_logged\<lparr>l_prod := (l_prod ?s0)(0 := PEntered)\<rparr>"
  have "logger_step ?s0 ?s1" using Build[of ?s0 0 "replicate MESSAGE_SIZE CHR ''x''" Message "''hello''" 0]
    by (simp add: logger_step_def AsyncLogger_init_def demo_message_def)
  moreover have "logger_step ?s1 ?s2" using Enter[of ?s1 0 Message "''hello''" demo_message]
    by (simp add: logger_step_def AsyncLogger_init_def demo_logged_def RING_SIZE_def NotifyingRingBuffer_init_def nb_enter_def)
  moreover have "logger_step ?s2 demo_logged" using Publish[of ?s2 0 0]
    by (simp add: logger_step_def AsyncLogger_init_def demo_logged_def wakeIfWorthIt_def NOTIFY_WATERMARK_def fun_upd_idem)
  ultimately show ?thesis by simp
qed

lemma demo_closed_reachable: "logger_step\<^sup>*\<^sup>* (demo_logged\<lparr>l_running := False\<rparr>) demo_closed"
proof -
  let ?s0 = "demo_logged\<lparr>l_running := False\<rparr>"
  let ?s1 = "?s0\<lparr>l_worker := WDrain\<rparr>"
  let ?s2 = "demo_closed\<lparr>l_worker := WDrained demo_message, l_delegate := []\<rparr>" and ?s3 = "demo_closed\<lparr>l_worker := WDrain\<rparr>" and ?s4 = "demo_closed\<lparr>l_worker := WFinal\<rparr>"
  note defs = logger_step_def demo_closed_def demo_logged_def AsyncLogger_init_def
  have "logger_step ?s0 ?s1" using Loop[of ?s0] by (simp add: defs)
  moreover have "logger_step ?s1 ?s2" using Take[of ?s1 demo_message "[]"] by (simp add: defs dequeuing_def nb_leave_def)
  moreover have "logger_step ?s2 ?s3" using Drain[of ?s2 demo_message] by (simp add: defs)
  moreover have "logger_step ?s3 ?s4" using None[of ?s3] by (simp add: defs dequeuing_def)
  moreover have "logger_step ?s4 demo_closed" using Final[of ?s4 0 "[]"] by (simp add: defs reportDropsIfAny_def)
  ultimately show ?thesis by (meson converse_rtranclp_into_rtranclp rtranclp.rtrancl_refl)
qed


theorem async_logger_shutdown_witness:
  "\<exists>rep. [processLogMessage demo_message] \<in> shuffles [LogMessageCall ''hello''] (map drop_report rep) \<and> sum_list rep = 0"
  using async_logger_shutdown[OF demo_logged_reachable _ _ demo_closed_reachable]
  by (auto simp: demo_closed_def demo_logged_def AsyncLogger_init_def delivered_def)

end
