(* ===== verification/Loggers.thy ===== *)
theory Loggers
  imports Async_Logger Range_Request "HOL-Library.Sublist"
begin

text \<open>
  The front end of the log, \<^verbatim>\<open>include/caduvelox/logger/Logger.hpp\<close> and \<^verbatim>\<open>src/logging/Logger.cpp\<close>, and the sink in a file, \<^verbatim>\<open>src/logging/FileLogger.cpp\<close>. A logger is
  seen through the calls it gets. The clock, \<^verbatim>\<open>gmtime_r\<close> and the outcome of opening a file are arguments; what a stream wrote is a string, with the part of it that was flushed.
\<close>

section \<open>The front end\<close>

datatype LogLevel = LevelError | LevelInfo | LevelDebug

fun level_value :: "LogLevel \<Rightarrow> nat" where
  "level_value LevelError = 0"
| "level_value LevelInfo = 1"
| "level_value LevelDebug = 2"

text \<open>Levels compare as their values do.\<close>

instantiation LogLevel :: linorder
begin

definition less_eq_LogLevel :: "LogLevel \<Rightarrow> LogLevel \<Rightarrow> bool" where
  "less_eq_LogLevel a b \<longleftrightarrow> level_value a \<le> level_value b"

definition less_LogLevel :: "LogLevel \<Rightarrow> LogLevel \<Rightarrow> bool" where
  "less_LogLevel a b \<longleftrightarrow> level_value a < level_value b"

instance
proof
  fix a b :: LogLevel
  show "a \<le> b \<Longrightarrow> b \<le> a \<Longrightarrow> a = b" by (cases a; cases b) (simp_all add: less_eq_LogLevel_def)
qed (auto simp: less_eq_LogLevel_def less_LogLevel_def)

end

text \<open>The level, the installed logger (None when there is none) and the console, with the calls they got.\<close>

record log_front =
  lf_level :: LogLevel
  lf_logger :: "log_call list option"
  lf_console :: "log_call list"

definition log_front_init :: log_front where
  "log_front_init = \<lparr>lf_level = LevelInfo, lf_logger = None, lf_console = []\<rparr>"

definition setLevel :: "LogLevel \<Rightarrow> log_front \<Rightarrow> log_front" where
  "setLevel l f = f\<lparr>lf_level := l\<rparr>"

definition setGlobalLogger :: "log_call list option \<Rightarrow> log_front \<Rightarrow> log_front" where
  "setGlobalLogger ptr f = f\<lparr>lf_logger := ptr\<rparr>"

text \<open>\<^verbatim>\<open>getInstance()\<close> followed by a call on what it returns.\<close>

definition instance_call :: "log_call \<Rightarrow> log_front \<Rightarrow> log_front" where
  "instance_call c f = (case lf_logger f of None \<Rightarrow> f\<lparr>lf_console := lf_console f @ [c]\<rparr> | Some cs \<Rightarrow> f\<lparr>lf_logger := Some (cs @ [c])\<rparr>)"

definition debugEnabled :: "log_front \<Rightarrow> bool" where
  "debugEnabled f \<longleftrightarrow> lf_level f \<ge> LevelDebug"

definition log_debug :: "string \<Rightarrow> log_front \<Rightarrow> log_front" where
  "log_debug msg f = (if debugEnabled f then instance_call (LogMessageCall msg) f else f)"

definition log_info :: "string \<Rightarrow> log_front \<Rightarrow> log_front" where
  "log_info msg f = (if lf_level f \<ge> LevelInfo then instance_call (LogMessageCall msg) f else f)"

datatype current_exception = NoException | StdException string | OtherException

definition logCurrentError :: "string \<Rightarrow> current_exception \<Rightarrow> log_call" where
  "logCurrentError context_msg e = LogErrorCall (context_msg @
     (case e of StdException what \<Rightarrow> '': '' @ what | OtherException \<Rightarrow> '': unknown exception type'' | NoException \<Rightarrow> '': no current exception''))"

section \<open>The file\<close>

record FileLogger =
  fl_is_open :: bool
  fl_auto_flush :: bool
  fl_filepath :: string
  fl_text :: string
  fl_flushed :: nat

definition FileLogger_new :: "bool \<Rightarrow> string \<Rightarrow> bool \<Rightarrow> FileLogger" where
  "FileLogger_new opens filepath auto_flush = \<lparr>fl_is_open = opens, fl_auto_flush = auto_flush, fl_filepath = filepath, fl_text = [], fl_flushed = 0\<rparr>"

definition fl_flush :: "FileLogger \<Rightarrow> FileLogger" where
  "fl_flush f = (if fl_is_open f then f\<lparr>fl_flushed := length (fl_text f)\<rparr> else f)"

text \<open>A line: the time in milliseconds since the epoch, the tag, the message. \<^verbatim>\<open>std::endl\<close> ends the line and flushes.\<close>

definition log_line :: "(int \<Rightarrow> tm) \<Rightarrow> int \<Rightarrow> string \<Rightarrow> string \<Rightarrow> string" where
  "log_line gmtime_r now tag msg =
     (let t = gmtime_r (now div 1000) in
      fmt_0d 4 (tm_year t + 1900) @ ''-'' @ fmt_0d 2 (tm_mon t + 1) @ ''-'' @ fmt_0d 2 (tm_mday t) @ '' '' @
      fmt_0d 2 (tm_hour t) @ '':'' @ fmt_0d 2 (tm_min t) @ '':'' @ fmt_0d 2 (tm_sec t) @ ''.'' @ fmt_0d 3 (now mod 1000) @ tag @ msg @ [CHR 0x0A])"

definition fl_write :: "(int \<Rightarrow> tm) \<Rightarrow> int \<Rightarrow> string \<Rightarrow> string \<Rightarrow> FileLogger \<Rightarrow> FileLogger" where
  "fl_write gmtime_r now tag msg f =
     (if fl_is_open f then
        let f1 = fl_flush (f\<lparr>fl_text := fl_text f @ log_line gmtime_r now tag msg\<rparr>) in if fl_auto_flush f1 then fl_flush f1 else f1
      else f)"

definition fl_logMessage :: "(int \<Rightarrow> tm) \<Rightarrow> int \<Rightarrow> string \<Rightarrow> FileLogger \<Rightarrow> FileLogger" where
  "fl_logMessage gmtime_r now msg f = fl_write gmtime_r now '' [INFO] '' msg f"

definition fl_logError :: "(int \<Rightarrow> tm) \<Rightarrow> int \<Rightarrow> string \<Rightarrow> FileLogger \<Rightarrow> FileLogger" where
  "fl_logError gmtime_r now msg f = fl_write gmtime_r now '' [ERROR] '' msg f"

text \<open>\<^verbatim>\<open>reopen()\<close> starts on the file that then has the name, so the text starts over; what the old stream held is flushed by closing it.\<close>

definition fl_reopen :: "(int \<Rightarrow> tm) \<Rightarrow> int \<Rightarrow> bool \<Rightarrow> FileLogger \<Rightarrow> FileLogger" where
  "fl_reopen gmtime_r now opens f =
     (let f1 = f\<lparr>fl_is_open := opens, fl_text := [], fl_flushed := 0\<rparr> in
      if opens then fl_logMessage gmtime_r now ''Log file reopened (SIGHUP received)'' f1 else f1)"

section \<open>The console\<close>

text \<open>\<^verbatim>\<open>ConsoleLogger\<close>: a line on the standard output or on the standard error.\<close>

record console =
  con_out :: string
  con_err :: string

definition console_logMessage :: "string \<Rightarrow> console \<Rightarrow> console" where
  "console_logMessage msg c = c\<lparr>con_out := con_out c @ msg @ [LF]\<rparr>"

definition console_logError :: "string \<Rightarrow> console \<Rightarrow> console" where
  "console_logError msg c = c\<lparr>con_err := con_err c @ msg @ [LF]\<rparr>"

fun console_call :: "log_call \<Rightarrow> console \<Rightarrow> console" where
  "console_call (LogMessageCall msg) c = console_logMessage msg c"
| "console_call (LogErrorCall msg) c = console_logError msg c"

section \<open>What is logged\<close>

datatype log_request = Debug string | Info string | ErrorLine string

fun request_call :: "log_request \<Rightarrow> log_call" where
  "request_call (Debug msg) = LogMessageCall msg"
| "request_call (Info msg) = LogMessageCall msg"
| "request_call (ErrorLine msg) = LogErrorCall msg"

fun request_level :: "log_request \<Rightarrow> LogLevel" where
  "request_level (Debug _) = LevelDebug"
| "request_level (Info _) = LevelInfo"
| "request_level (ErrorLine _) = LevelError"

fun log_request_step :: "log_request \<Rightarrow> log_front \<Rightarrow> log_front" where
  "log_request_step (Debug msg) f = log_debug msg f"
| "log_request_step (Info msg) f = log_info msg f"
| "log_request_step (ErrorLine msg) f = instance_call (LogErrorCall msg) f"

definition logged :: "LogLevel \<Rightarrow> log_request list \<Rightarrow> log_call list" where
  "logged l rs = map request_call (filter (\<lambda>r. request_level r \<le> l) rs)"

lemma level_le [simp]: "LevelError \<le> l" "l \<le> LevelDebug" "LevelInfo \<le> LevelDebug"
  by (cases l; simp add: less_eq_LogLevel_def)+

text \<open>Whatever is logged, the installed logger gets exactly the lines up to the level, in order; without one they go to the console.\<close>

lemma fold_log_requests:
  "fold log_request_step rs f = (case lf_logger f of
     None \<Rightarrow> f\<lparr>lf_console := lf_console f @ logged (lf_level f) rs\<rparr> | Some cs \<Rightarrow> f\<lparr>lf_logger := Some (cs @ logged (lf_level f) rs)\<rparr>)"
proof (induction rs arbitrary: f)
  case (Cons r rs)
  show ?case
    by (cases r; cases "lf_logger f"; cases "lf_level f \<ge> LevelInfo"; cases "lf_level f \<ge> LevelDebug")
      (simp_all add: Cons.IH logged_def log_debug_def log_info_def debugEnabled_def instance_call_def)
qed (auto simp: logged_def split: option.splits)

text \<open>Raising the level only adds lines, and errors are never filtered.\<close>

lemma logged_mono: "l \<le> l' \<Longrightarrow> subseq (logged l rs) (logged l' rs)"
proof -
  assume "l \<le> l'"
  then have "filter (\<lambda>r. request_level r \<le> l) rs = filter (\<lambda>r. request_level r \<le> l) (filter (\<lambda>r. request_level r \<le> l') rs)"
    by (simp add: filter_filter) (meson order_trans)
  then show ?thesis unfolding logged_def using subseq_map subseq_filter_left by metis
qed

lemma errors_logged: "ErrorLine msg \<in> set rs \<Longrightarrow> LogErrorCall msg \<in> set (logged l rs)"
  by (force simp: logged_def)

text \<open>After every call the whole text is flushed, also with \<^verbatim>\<open>auto_flush\<close> off.\<close>

definition fl_settled :: "FileLogger \<Rightarrow> bool" where
  "fl_settled f \<longleftrightarrow> fl_flushed f = length (fl_text f)"

lemma file_always_flushed:
  "fl_settled (FileLogger_new opens p a)"
  "fl_settled f \<Longrightarrow> fl_settled (fl_logMessage g now msg f)" "fl_settled f \<Longrightarrow> fl_settled (fl_logError g now msg f)" "fl_settled f \<Longrightarrow> fl_settled (fl_reopen g now opens f)"
  by (simp_all add: fl_settled_def FileLogger_new_def fl_logMessage_def fl_logError_def fl_write_def fl_reopen_def fl_flush_def Let_def)

text \<open>On the console each stream has its own lines in order; errors do not appear among the messages.\<close>

fun call_line :: "bool \<Rightarrow> log_call \<Rightarrow> string" where
  "call_line err (LogMessageCall msg) = (if err then [] else msg @ [LF])"
| "call_line err (LogErrorCall msg) = (if err then msg @ [LF] else [])"

lemma console_lines:
  "fold console_call cs c = c\<lparr>con_out := con_out c @ concat (map (call_line False) cs), con_err := con_err c @ concat (map (call_line True) cs)\<rparr>"
proof (induction cs arbitrary: c)
  case (Cons x cs)
  then show ?case by (cases x) (simp_all add: console_logMessage_def console_logError_def)
qed simp

end
