(* ===== verification/Static_Site.thy ===== *)
theory Static_Site
  imports Example_Main File_System Loggers
begin

text \<open>
  The static file server, \<^verbatim>\<open>examples/static_https_server/static_https_server.cpp\<close>: its command line, its two routes over the file system, its loggers and the thread that waits for signals, and \<^verbatim>\<open>main\<close> over the server of many rings. The two
  regular expressions it registers are functions here, with the matches \<^verbatim>\<open>std::regex_match\<close> finds on a whole string; a dot matches no line terminator.
\<close>

section \<open>The routes\<close>

datatype static_rx = IndexRx | FilesRx

definition static_regex :: "string \<Rightarrow> static_rx option" where
  "static_regex pattern =
     (if pattern = ''^/$'' then Some IndexRx else if pattern = ''^/files/(.+)$'' then Some FilesRx else None)"

fun static_match :: "static_rx \<Rightarrow> string \<Rightarrow> smatch option" where
  "static_match IndexRx path = (if path = ''/'' then Some [path] else None)"
| "static_match FilesRx path =
     (let rest = drop 7 path in
      if take 7 path = ''/files/'' \<and> rest \<noteq> [] \<and> list_all (\<lambda>c. c \<noteq> LF \<and> c \<noteq> CR) rest then Some [path, rest] else None)"

text \<open>A handler that throws leaves the response as it was.\<close>

definition serve_index :: "string \<Rightarrow> fsys \<Rightarrow> HttpHandler" where
  "serve_index docroot s req res =
     (let index_path = path_append docroot ''index.html'';
          not_found = res\<lparr>status_code := 404, res_body := ''404 Not Found'' @ [LF]\<rparr> in
      case fs_exists s index_path of
        Inl _ \<Rightarrow> (res, True)
      | Inr False \<Rightarrow> (not_found, False)
      | Inr True \<Rightarrow>
          (case fs_is_regular_file s index_path of
             Inl _ \<Rightarrow> (res, True)
           | Inr False \<Rightarrow> (not_found, False)
           | Inr True \<Rightarrow> (setContentType ''text/html'' (sendFile index_path res), False)))"

definition serve_file :: "string \<Rightarrow> fsys \<Rightarrow> HttpHandlerWithCaptures" where
  "serve_file docroot s req res m =
     (let path = m ! 1;
          forbidden = res\<lparr>status_code := 403, res_body := ''403 Forbidden'' @ [LF]\<rparr>;
          not_found = res\<lparr>status_code := 404, res_body := ''404 Not Found'' @ [LF]\<rparr> in
      if find_str ''..'' path \<noteq> None \<or> path = [] \<or> hd path = SLASH then (forbidden, False)
      else let fp = path_append (path_append docroot ''files'') path in
        case weakly_canonical s fp of
          Inl _ \<Rightarrow> (res, True)
        | Inr norm \<Rightarrow>
            (case weakly_canonical s docroot of
               Inl _ \<Rightarrow> (res, True)
             | Inr root \<Rightarrow>
                 let rel = lexically_relative norm root in
                 if rel = [] \<or> prefix ''..'' rel then (forbidden, False)
                 else (case fs_exists s norm of
                         Inl _ \<Rightarrow> (res, True)
                       | Inr False \<Rightarrow> (not_found, False)
                       | Inr True \<Rightarrow>
                           (case fs_is_regular_file s norm of
                              Inl _ \<Rightarrow> (res, True)
                            | Inr False \<Rightarrow> (not_found, False)
                            | Inr True \<Rightarrow> (sendFile norm res, False)))))"

definition static_addRoutes :: "string \<Rightarrow> fsys \<Rightarrow> static_rx HttpServer \<Rightarrow> static_rx HttpServer option" where
  "static_addRoutes docroot s server =
     (case ms_addRoute static_regex ''GET'' ''^/$'' (Some (serve_index docroot s)) server of
        None \<Rightarrow> None
      | Some server1 \<Rightarrow>
          ms_addRouteWithCaptures static_regex ''GET'' ''^/files/(.+)$'' (Some (serve_file docroot s)) server1)"

section \<open>The command line\<close>

record static_options =
  so_docroot :: string
  so_port :: int
  so_num_rings :: int
  so_log_file :: string
  so_queue_depth :: u32
  so_cert_path :: string
  so_key_path :: string

text \<open>\<open>env\<close> is \<^verbatim>\<open>std::getenv\<close>.\<close>

definition static_certificates :: "(string \<Rightarrow> string option) \<Rightarrow> string \<Rightarrow> string \<Rightarrow> string \<times> string" where
  "static_certificates env cert_arg key_arg =
     (if cert_arg \<noteq> [] \<and> key_arg \<noteq> [] then (cert_arg, key_arg)
      else (case env ''CERT_PATH'' of None \<Rightarrow> ''test_cert.pem'' | Some c \<Rightarrow> c,
            case env ''KEY_PATH'' of None \<Rightarrow> ''test_key.pem'' | Some k \<Rightarrow> k))"

definition static_parse_args :: "nat \<Rightarrow> (string \<Rightarrow> string option) \<Rightarrow> string list \<Rightarrow> string + static_options" where
  "static_parse_args hw env argv =
     (case arg_int argv 2 8443 of
        Inl e \<Rightarrow> Inl e
      | Inr port \<Rightarrow>
          (case arg_int argv 3 0 of
             Inl e \<Rightarrow> Inl e
           | Inr rings0 \<Rightarrow>
               let num_rings = (if rings0 = 0 then int hw else rings0);
                   (cert, key) = static_certificates env (arg_string argv 5 []) (arg_string argv 6 []) in
               Inr \<lparr>so_docroot = arg_string argv 1 ''static_site'', so_port = port, so_num_rings = num_rings,
                    so_log_file = arg_string argv 4 [], so_queue_depth = (if num_rings \<ge> 16 then 1024 else 4096),
                    so_cert_path = cert, so_key_path = key\<rparr>))"

section \<open>Loggers and signals\<close>

text \<open>
  The three owners and the plain pointer. The file logger is moved into the asynchronous one, so the first owner is empty from then on; the pointer keeps pointing to the object.
\<close>

record site_loggers =
  sl_file_logger :: "FileLogger option"
  sl_async_delegate :: "FileLogger option"
  sl_console :: bool
  sl_file_logger_ptr :: bool

definition static_set_up_logging :: "bool \<Rightarrow> string \<Rightarrow> site_loggers" where
  "static_set_up_logging opens log_file =
     (if log_file \<noteq> [] then
        let l1 = \<lparr>sl_file_logger = Some (FileLogger_new opens log_file True), sl_async_delegate = None, sl_console = False, sl_file_logger_ptr = False\<rparr>;
            l2 = l1\<lparr>sl_file_logger_ptr := True\<rparr> in
        l2\<lparr>sl_async_delegate := sl_file_logger l2, sl_file_logger := None\<rparr>
      else \<lparr>sl_file_logger = None, sl_async_delegate = None, sl_console = True, sl_file_logger_ptr = False\<rparr>)"

datatype signal = SIGINT | SIGTERM | SIGHUP

definition static_signals :: "site_loggers \<Rightarrow> signal set" where
  "static_signals l = (if sl_file_logger_ptr l then {SIGINT, SIGTERM, SIGHUP} else {SIGINT, SIGTERM})"

text \<open>One signal: the loggers after it, and whether the server is told to stop. \<open>opens\<close> is whether the file could be opened again.\<close>

definition static_on_signal :: "(int \<Rightarrow> tm) \<Rightarrow> int \<Rightarrow> bool \<Rightarrow> signal \<Rightarrow> site_loggers \<Rightarrow> site_loggers \<times> bool" where
  "static_on_signal gmtime_r now opens sig l =
     (case sig of
        SIGINT \<Rightarrow> (l\<lparr>sl_file_logger := map_option (fl_logMessage gmtime_r now ''Received SIGINT, shutting down gracefully'') (sl_file_logger l)\<rparr>, True)
      | SIGTERM \<Rightarrow> (l\<lparr>sl_file_logger := map_option (fl_logMessage gmtime_r now ''Received SIGTERM, shutting down gracefully'') (sl_file_logger l)\<rparr>, True)
      | SIGHUP \<Rightarrow> (l\<lparr>sl_file_logger := map_option (\<lambda>f. fl_reopen gmtime_r now opens
            (fl_logMessage gmtime_r now ''Received SIGHUP, reopening log file'' f)) (sl_file_logger l)\<rparr>, False))"

fun static_watch_signals :: "(int \<Rightarrow> tm) \<Rightarrow> (int \<times> bool \<times> signal) list \<Rightarrow> site_loggers \<Rightarrow> site_loggers \<times> bool" where
  "static_watch_signals gmtime_r [] l = (l, False)"
| "static_watch_signals gmtime_r ((now, opens, sig) # sigs) l =
     (let (l1, stop) = static_on_signal gmtime_r now opens sig l in
      if stop then (l1, True) else static_watch_signals gmtime_r sigs l1)"

section \<open>main\<close>

text \<open>
  The exit code, and what is left of the process; None is the division by zero in \<^verbatim>\<open>listenKTLS\<close>. The server is a static object: when \<^verbatim>\<open>main\<close> returns early it is destroyed at exit.
\<close>

definition static_main ::
  "(int \<Rightarrow> string) \<Rightarrow> nat \<Rightarrow> (string \<Rightarrow> string option) \<Rightarrow> fsys \<Rightarrow> string list \<Rightarrow> host \<Rightarrow> ring \<Rightarrow> (int \<times> host \<times> ring) option" where
  "static_main strerror hw env s argv h w =
     (case static_parse_args hw env argv of
        Inl _ \<Rightarrow> Some (1, h, w)
      | Inr opt \<Rightarrow>
          (case HttpServer_new_rings hw (so_num_rings opt) (so_queue_depth opt) h of
             (Inl _, h1) \<Rightarrow> Some (1, h1, w)
           | (Inr server, h1) \<Rightarrow>
               (case static_addRoutes (so_docroot opt) s server of
                  None \<Rightarrow> Some (1, HttpServer_destroy server h1 w)
                | Some server1 \<Rightarrow>
                    serve_until_stopped (ms_listenKTLS strerror hw (so_port opt) server1 h1 w))))"

section \<open>Which files are sent\<close>

text \<open>The routes as \<^verbatim>\<open>main\<close> leaves them.\<close>

definition static_routes :: "string \<Rightarrow> fsys \<Rightarrow> static_rx Route list" where
  "static_routes docroot s =
     [\<lparr>route_method = ''GET'', path_regex = IndexRx, handler = Some (serve_index docroot s), handler_with_captures = None, uses_captures = False\<rparr>,
      \<lparr>route_method = ''GET'', path_regex = FilesRx, handler = None, handler_with_captures = Some (serve_file docroot s), uses_captures = True\<rparr>]"

lemma static_addRoutes_new:
  assumes "HttpServer_new hw cfg h = (Inr server, h1)"
  shows "static_addRoutes docroot s server = Some (server\<lparr>ms_router := static_routes docroot s\<rparr>)"
  using new_server[OF assms]
  by (simp add: static_addRoutes_def ms_addRoute_def ms_addRouteWithCaptures_def ms_routesStillAccepted_def addRoute_def
      addRouteWithCaptures_def static_regex_def static_routes_def)

text \<open>
  What is documented of \<^verbatim>\<open>weakly_canonical\<close>: resolving a resolved name changes nothing, and the resolved name of something that exists is absolute and has no dots and no empty element.
\<close>

definition canonical_names :: "fsys \<Rightarrow> bool" where
  "canonical_names s \<longleftrightarrow> (\<forall>p q. fs_canonical s p = Some q \<longrightarrow>
     fs_canonical s q = Some q \<and> (fs_node s q \<noteq> None \<longrightarrow> path_is_absolute q \<and> no_dots q))"

text \<open>A file the site may send: its index, or a regular file under the document root.\<close>

definition site_document :: "fsys \<Rightarrow> string \<Rightarrow> string \<Rightarrow> string \<Rightarrow> bool" where
  "site_document s docroot root p \<longleftrightarrow> fs_is_regular_file s p = Inr True \<and>
     (p = path_append docroot ''index.html'' \<or> inside root p \<and> path_is_absolute p \<and> no_dots p)"

lemma regular_status: "fs_is_regular_file s p = Inr True \<longleftrightarrow> (\<exists>q c. fs_canonical s p = Some q \<and> fs_node s q = Some (RegularFile c))"
  by (auto simp: fs_is_regular_file_def fs_status_def weakly_canonical_def is_regular_def split: option.splits node.splits)

lemma serve_index_sends:
  assumes "serve_index docroot s req res = (res', threw)" "file_path res = []"
  shows "file_path res' = [] \<or> \<not> threw \<and> site_document s docroot root (file_path res')"
  using assms by (auto simp: serve_index_def site_document_def Let_def sendFile_def setContentType_def
      split: sum.splits bool.splits)

lemma serve_file_sends:
  assumes names: "canonical_names s" and root: "fs_canonical s docroot = Some root" "fs_node s root \<noteq> None"
    and h: "serve_file docroot s req res m = (res', threw)" "file_path res = []"
  shows "file_path res' = [] \<or> \<not> threw \<and> site_document s docroot root (file_path res')"
proof (cases "file_path res' = []")
  case False
  define fp where "fp = path_append (path_append docroot ''files'') (m ! 1)"
  from False h root(1) obtain norm where n: "fs_canonical s fp = Some norm" "lexically_relative norm root \<noteq> []"
      "\<not> prefix ''..'' (lexically_relative norm root)" "fs_is_regular_file s norm = Inr True" "res' = sendFile norm res" "\<not> threw"
    by (auto simp: serve_file_def Let_def fp_def weakly_canonical_def split: if_splits sum.splits bool.splits option.splits)
  have "no_dots root" using names root by (auto simp: canonical_names_def)
  then have "inside root norm" using n(2,3) by (rule relative_inside)
  moreover have "path_is_absolute norm \<and> no_dots norm"
    using n(1,4) names by (auto simp: regular_status canonical_names_def)
  ultimately show ?thesis using n(4-6) by (simp add: site_document_def sendFile_def)
qed simp

lemma finish_response_file: "file_path (finish_response res) = [] \<or> file_path (finish_response res) = file_path res"
  using normalizeHeaders_fields[of res]
  by (auto simp: finish_response_def fallback_to_default_headers_def Let_def HttpResponse_init_def setStatus_def split_beta)

lemma site_dispatch:
  assumes names: "canonical_names s" and root: "fs_canonical s docroot = Some root" "fs_node s root \<noteq> None"
    and res: "res = dispatch static_match (static_routes docroot s) req HttpResponse_init"
  shows "file_path res = [] \<or> site_document s docroot root (file_path res)"
proof -
  let ?ok = "\<lambda>r. file_path r = [] \<or> site_document s docroot root (file_path r)"
  have i: "file_path HttpResponse_init = []" by (simp add: HttpResponse_init_def)
  have pages: "?ok (handle_bad_request HttpResponse_init)" "?ok (handle_uri_too_long HttpResponse_init)" "?ok (handle_not_found HttpResponse_init)"
    by (simp_all add: handle_bad_request_def handle_uri_too_long_def handle_not_found_def Let_def i setStatus_def)
  have run: "?ok (run_handler route req m HttpResponse_init)" if r: "route \<in> set (static_routes docroot s)" for route m
  proof -
    obtain res1 threw where a: "serve_index docroot s req HttpResponse_init = (res1, threw)" by fastforce
    obtain res2 threw2 where b: "serve_file docroot s req HttpResponse_init m = (res2, threw2)" by fastforce
    note sa = serve_index_sends[OF a i, of root] and sb = serve_file_sends[OF names root b i]
    from r a b sa sb show ?thesis
      by (auto simp: static_routes_def run_handler_def Let_def setStatus_def)
  qed
  have "?ok (match_routes static_match (static_routes docroot s) path req HttpResponse_init)" for path
  proof (cases "find (route_applies static_match path req) (static_routes docroot s)")
    case (Some route)
    then have "route \<in> set (static_routes docroot s)" by (auto simp: find_Some_iff)
    from run[OF this] finish_response_file Some show ?thesis by (auto simp: match_routes_find) metis
  qed (use pages in \<open>simp add: match_routes_find\<close>)
  then show ?thesis using pages by (auto simp: res dispatch_decoded split: option.splits)
qed

section \<open>The log is never rotated\<close>

text \<open>
  The thread that waits for signals asks the owner that was emptied when the file logger was moved. So whatever signals arrive, SIGHUP among them, the file that is written to stays the one it was, and not even the lines that announce the signals reach it.
\<close>

lemma sighup_reopens_nothing:
  assumes "log_file \<noteq> []" "static_watch_signals gm sigs (static_set_up_logging opens log_file) = (l, stop)"
  shows "SIGHUP \<in> static_signals (static_set_up_logging opens log_file) \<and>
    l = static_set_up_logging opens log_file \<and> sl_async_delegate l = Some (FileLogger_new opens log_file True)"
proof -
  have keep: "l' = l0" if "static_watch_signals gm sigs l0 = (l', stop)" "sl_file_logger l0 = None" for l' and l0 :: site_loggers
    using that
  proof (induction sigs arbitrary: l0)
    case (Cons x sigs)
    obtain now op sig where x: "x = (now, op, sig)" by (metis prod_cases3)
    have "fst (static_on_signal gm now op sig l0) = l0" using Cons.prems(2)
      by (cases l0; cases sig) (simp_all add: static_on_signal_def)
    with Cons x show ?case by (auto split: if_splits prod.splits)
  qed simp
  have "sl_file_logger (static_set_up_logging opens log_file) = None" using assms(1) by (simp add: static_set_up_logging_def Let_def)
  from keep[OF assms(2) this] assms(1) show ?thesis by (simp add: static_set_up_logging_def static_signals_def Let_def)
qed

section \<open>Every exit is clean\<close>

lemma static_main_clean:
  assumes "static_main strerror hw env s argv h w = Some (code, h', w')"
  shows "exits_clean h w h' w'"
proof (cases "static_parse_args hw env argv")
  case (Inl e)
  with assms show ?thesis by (auto simp: static_main_def nothing_clean)
next
  case opt: (Inr opt)
  obtain r :: "exn + static_rx HttpServer" and h1 where new: "HttpServer_new_rings hw (so_num_rings opt) (so_queue_depth opt) h = (r, h1)" by fastforce
  note n = new[unfolded HttpServer_new_rings_def]
  show ?thesis
  proof (cases r)
    case (Inl e)
    with assms opt new n show ?thesis by (auto simp: static_main_def nothing_clean dest: failed_new)
  next
    case (Inr server)
    note n = n[unfolded Inr]
    let ?listened = "ms_listenKTLS strerror hw (so_port opt) (server\<lparr>ms_router := static_routes (so_docroot opt) s\<rparr>) h1 w"
    have "serve_until_stopped ?listened = Some (code, h', w')"
      using assms opt new Inr static_addRoutes_new[OF n] by (simp add: static_main_def)
    then show ?thesis by (rule serve_clean) (rule ms_step_inv[OF ms_step.ListenKTLS new_server_inv[OF n]])
  qed
qed

end
