(* ===== verification/Http_Exchange.thy ===== *)
theory Http_Exchange
  imports Connection_Life
begin

text \<open>
  What a connection says, as a function of what it was told. The run of Connection\_Life is extended by
  two histories, the bytes received and the responses started, and the theorem compares them: the
  bytes are requests one after the other, and the responses are the answers of the application to them, in
  the same order, whatever way the bytes were cut into completions and however the completions of
  receives, writes, timers and cancels interleave. Parser, router, disposition, response writer and
  connection are composed here as the code composes them.
\<close>

section \<open>The specification\<close>

text \<open>
  An answer: the bytes of a response, or a file with the range to serve; the flag says whether the
  connection stays open after it.
\<close>

datatype answer = TextAnswer string bool | FileAnswer string "ByteRangeSpec option" bool

fun keeps_open :: "answer \<Rightarrow> bool" where
  "keeps_open (TextAnswer _ k) = k"
| "keeps_open (FileAnswer _ _ k) = k"

text \<open>The answer to one request; \<open>stopping\<close> is whether the server was shutting down when it was given.\<close>

definition answer_to :: "app \<Rightarrow> bool \<Rightarrow> HttpRequest \<Rightarrow> answer" where
  "answer_to app stopping request =
     (let response = respond app request;
          keep = (shouldKeepAlive request \<and> \<not> list_contains_token (res_getHeader response ''connection'') ''close'' \<and> \<not> stopping);
          stated = (if \<not> keep then setHeader ''connection'' ''close'' response
                    else if req_version request \<noteq> ''HTTP/1.1'' then setHeader ''connection'' ''keep-alive'' response
                    else response\<lparr>res_headers := AList.delete ''connection'' (res_headers response)\<rparr>) in
      if file_path response \<noteq> [] then
        FileAnswer (file_path response)
          (if req_method request = ''GET'' then parse_range (req_getHeader request ''range'') else None) keep
      else TextAnswer (body_response keep stated) keep)"

definition error_answer :: "int \<times> string \<Rightarrow> answer" where
  "error_answer cr =
     TextAnswer (body_response False (setHeader ''connection'' ''close''
       (setBody (snd cr) (setHeader ''content-type'' ''text/plain'' (setStatus (fst cr) (snd cr) HttpResponse_init))))) False"

definition refusals :: "(int \<times> string) list" where
  "refusals = [(400, ''Bad Request''), (431, ''Request Header Fields Too Large''), (413, ''Content Too Large'')]"

text \<open>\<open>chunk\<close> is one whole request, and \<open>a\<close> is an answer to it.\<close>

definition answers :: "app \<Rightarrow> answer \<Rightarrow> string \<Rightarrow> bool" where
  "answers app a chunk \<longleftrightarrow>
     (\<exists>request stopping. parse_request chunk empty_request = (Success, request, length chunk) \<and>
        a = answer_to app stopping request)"

text \<open>
  The bytes received, and the answers given: one to each of the first requests, then perhaps a refusal, and
  nothing after an answer that closes.
\<close>

definition dialogue :: "app \<Rightarrow> string \<Rightarrow> answer list \<Rightarrow> bool" where
  "dialogue app R L \<longleftrightarrow>
     (\<exists>chunks rest. R = concat chunks @ rest \<and> list_all keeps_open (butlast L) \<and>
        (list_all2 (answers app) L chunks \<or>
         (\<exists>M e. L = M @ [error_answer e] \<and> e \<in> set refusals \<and> list_all2 (answers app) M chunks)))"

section \<open>The histories of a run\<close>

fun answer_of :: "response_child \<Rightarrow> answer" where
  "answer_of (BodyWrite wj keep_alive) = TextAnswer (wj_data wj) keep_alive"
| "answer_of (FileTransfer j child keep_alive) = FileAnswer (fj_file_path j) (fj_range_spec j) keep_alive"

fun responding :: "conn_state \<Rightarrow> bool" where
  "responding (Live c (Some r)) = True"
| "responding (Live c None) = False"
| "responding Freed = False"

fun on_wire :: "conn_state \<Rightarrow> answer list" where
  "on_wire (Live c (Some r)) = [answer_of r]"
| "on_wire _ = []"

text \<open>Whether a completion is the last of the response on the wire.\<close>

fun response_over :: "response_child \<Rightarrow> cqe \<Rightarrow> ring \<Rightarrow> bool" where
  "response_over (BodyWrite wj _) ce w = (case wj_handleCompletion wj ce w of (Pending _, _) \<Rightarrow> False | _ \<Rightarrow> True)"
| "response_over (FileTransfer j child _) ce w = (case fj_child_completion j child ce w of (FileRunning _ _, _) \<Rightarrow> False | _ \<Rightarrow> True)"

record exchange =
  ex_received :: string
  ex_answers :: "answer list"
  ex_world :: cworld

text \<open>
  The steps of the connection with the histories. The kernel ends a multishot receive with the completion
  that reports a failure, as io\_uring documents.
\<close>

inductive exchange_step :: "app \<Rightarrow> nat \<Rightarrow> exchange \<Rightarrow> exchange \<Rightarrow> bool" for app cid where
  XRecv: "W = ex_world X \<Longrightarrow> (j, OpRecvMultishot fd) \<in># cw_kernel W \<Longrightarrow>
     (cqe_res ce \<le> 0 \<or> buffer = None \<longrightarrow> \<not> cqe_more ce) \<Longrightarrow>
     http_recv_completion app \<lparr>mr_id = j, mr_fd = fd, mr_handler = \<lparr>rh_connection = cid\<rparr>\<rparr> ce buffer
       (cw_state W) (cw_ring W) = (clean, s', w1) \<Longrightarrow>
     exchange_step app cid X
       \<lparr>ex_received = ex_received X @ delivered ce buffer,
        ex_answers = ex_answers X @ (if responding (cw_state W) then [] else on_wire s'),
        ex_world = finish (j, OpRecvMultishot fd) (cqe_more ce) clean s' w1 W\<rparr>"
| XResponse: "W = ex_world X \<Longrightarrow> (j, op) \<in># cw_kernel W \<Longrightarrow> \<not> aux_op op \<Longrightarrow> cw_state W = Live c (Some r) \<Longrightarrow>
     resp_job r = j \<Longrightarrow> resp_kernel_ok r ce \<Longrightarrow> response_completion app c r ce (cw_ring W) = (s', w1) \<Longrightarrow>
     exchange_step app cid X
       (X\<lparr>ex_answers := ex_answers X @ (if response_over r ce (cw_ring W) then on_wire s' else []),
          ex_world := finish (j, op) False False s' w1 W\<rparr>)"
| XTimer: "W = ex_world X \<Longrightarrow> (t, OpTimeout ms) \<in># cw_kernel W \<Longrightarrow> \<not> cqe_more ce \<Longrightarrow>
     it_handleCompletion (IdleTimeoutJob_init t cid ms) ce (cw_state W) (cw_ring W) = (s', w1) \<Longrightarrow>
     exchange_step app cid X (X\<lparr>ex_world := finish (t, OpTimeout ms) False True s' w1 W\<rparr>)"
| XCancel: "W = ex_world X \<Longrightarrow> (i, OpCancel u) \<in># cw_kernel W \<Longrightarrow>
     exchange_step app cid X (X\<lparr>ex_world := finish (i, OpCancel u) False True (cw_state W) (cw_ring W) W\<rparr>)"
| XSweep: "W = ex_world X \<Longrightarrow> (t, op) \<in># cw_kernel W \<Longrightarrow>
     (\<exists>fd. op = OpRecvMultishot fd \<and>
        mr_requestShutdownCancel \<lparr>mr_id = t, mr_fd = fd, mr_handler = \<lparr>rh_connection = cid\<rparr>\<rparr> (cw_ring W) = w1) \<or>
     (\<exists>ms. op = OpTimeout ms \<and> it_requestShutdownCancel (IdleTimeoutJob_init t cid ms) (cw_ring W) = w1) \<Longrightarrow>
     exchange_step app cid X (X\<lparr>ex_world := W\<lparr>cw_ring := w1, cw_kernel := cw_kernel W + queued (cw_ring W) w1\<rparr>\<rparr>)"
| XStop: "W = ex_world X \<Longrightarrow> exchange_step app cid X (X\<lparr>ex_world := W\<lparr>cw_ring := (cw_ring W)\<lparr>srv_state := st\<rparr>\<rparr>\<rparr>)"

lemma exchange_is_step: "exchange_step app cid X X' \<Longrightarrow> conn_step app cid (ex_world X) (ex_world X')"
  by (induction rule: exchange_step.induct) (auto intro: conn_step.intros)

inductive exchange_run :: "app \<Rightarrow> nat \<Rightarrow> int \<Rightarrow> ring \<Rightarrow> nat \<Rightarrow> exchange \<Rightarrow> bool" for app idle_ms fd w0 where
  Opened: "createConnectionHandler idle_ms fd w0 = (Live c None, w1) \<Longrightarrow> 0 \<le> fd \<Longrightarrow> cn_active_read_job c \<noteq> None \<Longrightarrow>
     exchange_run app idle_ms fd w0 (cn_id c) \<lparr>ex_received = [], ex_answers = [], ex_world = first_world w0 c w1\<rparr>"
| Moved: "exchange_run app idle_ms fd w0 cid X \<Longrightarrow> exchange_step app cid X X' \<Longrightarrow> exchange_run app idle_ms fd w0 cid X'"

lemma exchange_is_run: "exchange_run app idle_ms fd w0 cid X \<Longrightarrow> connection_run app idle_ms fd w0 cid (ex_world X)"
  by (induction rule: exchange_run.induct) (auto intro: connection_run.intros exchange_is_step)

section \<open>The receive in the kernel\<close>

fun is_recv :: "sqe_op \<Rightarrow> bool" where
  "is_recv (OpRecvMultishot _) = True"
| "is_recv _ = False"

lemma is_recv_aux: "is_recv op \<Longrightarrow> aux_op op"
  by (cases op) simp_all

text \<open>\<open>calm w w'\<close>: no receive was queued in between.\<close>

definition calm :: "ring \<Rightarrow> ring \<Rightarrow> bool" where
  "calm w w' \<longleftrightarrow> (\<exists>E. sq w' = sq w @ E \<and> (\<forall>e \<in> set E. \<not> is_recv (snd e)))"

lemma calm_refl [simp]: "calm w w"
  by (simp add: calm_def)

lemma calm_trans [trans]: "calm u v \<Longrightarrow> calm v w \<Longrightarrow> calm u w"
  by (auto simp: calm_def)

lemma calm_quiet: "quiet w w' \<Longrightarrow> calm w w'"
  by (simp add: calm_def quiet_def)

lemma calm_queues: "queues j w w' \<Longrightarrow> calm w w'"
  by (auto simp: calm_def queues_def dest: is_recv_aux)

lemma calm_env [simp]: "calm w (pool_free i w)" "calm w (close_fd f w)"
  by (simp_all add: calm_quiet)

lemma calm_alloc_submit:
  assumes "alloc_submit op w = (r, w')" "\<And>i. aux_op (op i) \<and> \<not> is_recv (op i)"
  shows "calm w w'"
  using alloc_submit_aux[OF assms(1)] assms(2) by (auto simp: aux_step_def calm_def split: option.splits)

lemma calm_cancel: "submit_cancel t w = (ok, w') \<Longrightarrow> calm w w'"
  by (auto simp: submit_cancel_alloc elim!: calm_alloc_submit split: prod.splits)

lemma calm_arm:
  assumes "armIdleTimeout c w = (c', w')"
  shows "calm w w' \<and> (c' = c \<or> (\<exists>t. c' = c\<lparr>cn_active_idle_timeout_job := Some t, cn_idle_cancel_pending := False\<rparr>))"
proof (cases "cn_idle_timeout_ms c = 0 \<or> cn_client_fd c < 0")
  case False
  obtain r u where r: "alloc_submit (\<lambda>_. OpTimeout (cn_idle_timeout_ms c)) w = (r, u)" by fastforce
  then have "calm w u" by (rule calm_alloc_submit) simp
  with False assms r show ?thesis by (auto simp: armIdleTimeout_alloc split: option.splits)
qed (use assms in \<open>simp add: armIdleTimeout_alloc\<close>)

text \<open>
  The connection has at most one receive in the kernel, and as long as it has not given the socket up that
  is the one it knows about.
\<close>

definition recv_ok :: "conn \<Rightarrow> (nat \<times> sqe_op) multiset \<Rightarrow> bool" where
  "recv_ok c K \<longleftrightarrow> (cn_read_cancel_pending c \<longrightarrow> cn_client_fd c < 0) \<and>
     size (filter_mset (\<lambda>e. is_recv (snd e)) K) \<le> 1 \<and>
     (\<forall>e \<in># K. is_recv (snd e) \<longrightarrow> cn_client_fd c < 0 \<or> cn_active_read_job c = Some (fst e))"

definition same_recv :: "conn \<Rightarrow> conn \<Rightarrow> bool" where
  "same_recv c c' \<longleftrightarrow> cn_client_fd c' = cn_client_fd c \<and> cn_active_read_job c' = cn_active_read_job c \<and>
     cn_read_cancel_pending c' = cn_read_cancel_pending c"

lemma same_recv_trans: "same_recv a b \<Longrightarrow> same_recv b c \<Longrightarrow> same_recv a c"
  by (simp add: same_recv_def)

text \<open>What a method of the connection does to it: nothing, or the socket is given up.\<close>

definition recv_frame :: "conn \<Rightarrow> ring \<Rightarrow> conn_state \<Rightarrow> ring \<Rightarrow> bool" where
  "recv_frame c w s' w' \<longleftrightarrow> calm w w' \<and> (\<forall>c' child. s' = Live c' child \<longrightarrow> cn_client_fd c' < 0 \<or> same_recv c c')"

lemma recv_frame_refl: "same_recv c c' \<Longrightarrow> recv_frame c w (Live c' child) w"
  by (simp add: recv_frame_def)

lemma recv_frame_after:
  "recv_frame c1 w1 s' w' \<Longrightarrow> same_recv c c1 \<Longrightarrow> calm w w1 \<Longrightarrow> recv_frame c w s' w'"
  by (auto simp: recv_frame_def intro: same_recv_trans calm_trans)

lemma recv_frame_ok:
  assumes "recv_ok c K" "recv_frame c w (Live c' child) w'"
  shows "recv_ok c' (K + queued w w')"
proof -
  obtain E where E: "sq w' = sq w @ E" "\<forall>e \<in> set E. \<not> is_recv (snd e)" using assms(2) by (auto simp: recv_frame_def calm_def)
  have q: "queued w w' = mset E" by (rule queued_append[OF E(1)])
  have "filter_mset (\<lambda>e. is_recv (snd e)) (mset E) = {#}" using E(2) by (auto simp: filter_mset_eq_conv)
  then have "filter_mset (\<lambda>e. is_recv (snd e)) (K + mset E) = filter_mset (\<lambda>e. is_recv (snd e)) K" by (simp only: filter_union_mset) simp
  moreover have "cn_client_fd c' < 0 \<or> same_recv c c'" using assms(2) by (simp add: recv_frame_def)
  ultimately show ?thesis using assms(1) E(2) unfolding recv_ok_def q by (auto simp: same_recv_def simp del: filter_union_mset)
qed

section \<open>Closing\<close>

text \<open>
  A connection that will start no further response: the one on the wire is its last, or the socket is
  given up, or it is closing with no receive left.
\<close>

fun shut :: "conn_state \<Rightarrow> bool" where
  "shut (Live c (Some r)) = (cn_close_pending c \<or> \<not> keeps_open (answer_of r))"
| "shut (Live c None) = (cn_client_fd c < 0 \<or> (cn_close_pending c \<and> cn_active_read_job c = None))"
| "shut Freed = True"

text \<open>What every closing method does; the response on the wire stays.\<close>

definition closes :: "conn \<Rightarrow> response_child option \<Rightarrow> ring \<Rightarrow> conn_state \<Rightarrow> ring \<Rightarrow> bool" where
  "closes c child w s' w' \<longleftrightarrow> recv_frame c w s' w' \<and> shut s' \<and> (\<forall>c' child'. s' = Live c' child' \<longrightarrow> child' = child) \<and>
     (child \<noteq> None \<longrightarrow> s' \<noteq> Freed)"

lemma close_idle_leg_calm:
  assumes "close_idle_leg c w = (c1, w1)"
  shows "calm w w1 \<and> same_recv c c1 \<and> cn_close_pending c1 = cn_close_pending c"
proof -
  obtain ok u where s: "submitIdleTimeoutCancel c w = (ok, u)" by fastforce
  then have "calm w u" by (simp add: submitIdleTimeoutCancel_def calm_cancel)
  with s assms show ?thesis by (auto simp: close_idle_leg_def same_recv_def split: if_splits)
qed

lemma close_recv_leg_calm:
  assumes "close_recv_leg c w = (c1, w1)"
  shows "calm w w1 \<and> cn_close_pending c1 = cn_close_pending c \<and>
    (cn_client_fd c1 < 0 \<or> (c1 = c \<and> (cn_active_read_job c = None \<or> cn_read_cancel_pending c)))"
proof -
  let ?c = "c\<lparr>cn_deferred_close_fd := cn_client_fd c, cn_client_fd := - 1\<rparr>"
  obtain ok u where s: "submitRecvCancel ?c w = (ok, u)" by fastforce
  then have "calm w u" by (simp add: submitRecvCancel_def calm_cancel)
  with s assms show ?thesis by (auto simp: close_recv_leg_def Let_def split: if_splits)
qed

lemma closeConnection_closes:
  assumes cl: "closeConnection c child w = (s', w')" and fl: "cn_response_in_flight c \<longleftrightarrow> child \<noteq> None"
    and cp: "cn_read_cancel_pending c \<longrightarrow> cn_client_fd c < 0"
  shows "closes c child w s' w'"
proof (cases "cn_response_in_flight c")
  case True
  with cl fl show ?thesis
    by (auto simp: closeConnection_def closes_def recv_frame_def same_recv_def)
next
  case False
  obtain c1 w1 where l1: "close_idle_leg (c\<lparr>cn_close_pending := True\<rparr>) w = (c1, w1)" by fastforce
  obtain c2 w2 where l2: "close_recv_leg c1 w1 = (c2, w2)" by fastforce
  note i = close_idle_leg_calm[OF l1] and r = close_recv_leg_calm[OF l2]
  have w: "calm w w2" using i r by (blast intro: calm_trans)
  have c1: "same_recv c c1" "cn_close_pending c1" using i by (simp_all add: same_recv_def)
  then have c2: "cn_client_fd c2 < 0 \<or> (same_recv c c2 \<and> cn_close_pending c2 \<and> cn_active_read_job c2 = None)"
    using r cp by (auto simp: same_recv_def)
  show ?thesis
  proof (cases "cn_active_idle_timeout_job c2 \<noteq> None \<or> cn_active_read_job c2 \<noteq> None")
    case True
    with False cl l1 l2 have "s' = Live c2 child" "w' = w2" by (simp_all add: closeConnection_def)
    with w c2 False fl show ?thesis by (auto simp: closes_def recv_frame_def)
  next
    case none: False
    with False cl l1 l2 have "s' = Freed" "calm w2 w'"
      by (auto simp: closeConnection_def Let_def intro: calm_trans[OF calm_env(2) calm_env(1)])
    with w False fl show ?thesis by (auto simp: closes_def recv_frame_def intro: calm_trans)
  qed
qed

lemma handleReadError_closes:
  assumes h: "handleReadError err c child w = (s', w')" and fl: "cn_response_in_flight c \<longleftrightarrow> child \<noteq> None"
    and fd: "0 \<le> conn_fd c" and cp: "cn_read_cancel_pending c \<longrightarrow> cn_client_fd c < 0"
  shows "closes (c\<lparr>cn_active_read_job := None\<rparr>) child w s' w'"
proof -
  have "\<not> (cn_client_fd c < 0 \<and> cn_deferred_close_fd c < 0)" using fd by (auto simp: conn_fd_def split: if_splits)
  with h have "closeConnection (c\<lparr>cn_active_read_job := None\<rparr>) child w = (s', w')" by (simp add: handleReadError_def)
  then show ?thesis by (rule closeConnection_closes) (use fl cp in simp_all)
qed

section \<open>Answering\<close>

text \<open>
  What the connection does, with no response on the wire, about the bytes \<open>buf\<close> it has not answered: it
  answers the request they start with, refuses them, asks for more, or closes.
\<close>

definition serves :: "app \<Rightarrow> string \<Rightarrow> conn_state \<Rightarrow> bool" where
  "serves app buf s' \<longleftrightarrow>
     (case s' of
        Freed \<Rightarrow> True
      | Live c' None \<Rightarrow> shut s' \<or> (cn_request_buffer c' = buf \<and> (\<exists>out. parse_request buf empty_request = (Incomplete, out, 0)))
      | Live c' (Some r) \<Rightarrow>
          (\<exists>chunk. buf = chunk @ cn_request_buffer c' \<and> answers app (answer_of r) chunk) \<or>
          (\<exists>e \<in> set refusals. answer_of r = error_answer e))"

lemma serves_closes: "closes c None w s' w' \<Longrightarrow> serves app buf s'"
  by (auto simp: closes_def serves_def split: conn_state.splits option.splits)

text \<open>A response is started with the answer it was made for, or the connection closes.\<close>

definition sends :: "conn \<Rightarrow> answer \<Rightarrow> string \<Rightarrow> ring \<Rightarrow> conn_state \<Rightarrow> ring \<Rightarrow> bool" where
  "sends c a buf w s' w' \<longleftrightarrow> recv_frame c w s' w' \<and>
     (shut s' \<and> \<not> responding s' \<or> (\<exists>c' r. s' = Live c' (Some r) \<and> answer_of r = a \<and> cn_request_buffer c' = buf))"

lemma sends_failed:
  assumes f: "response_failed c w1 = (s', w')" and w: "calm w w1" and c: "same_recv c0 c"
    and cp: "cn_read_cancel_pending c0 \<longrightarrow> cn_client_fd c0 < 0"
  shows "sends c0 a buf w s' w'"
proof -
  have "closes (c\<lparr>cn_response_in_flight := False\<rparr>) None w1 s' w'"
    using f[unfolded response_failed_def] by (rule closeConnection_closes) (use c cp in \<open>simp_all add: same_recv_def\<close>)
  moreover have "same_recv c0 (c\<lparr>cn_response_in_flight := False\<rparr>)" using c by (simp add: same_recv_def)
  ultimately show ?thesis using recv_frame_after[OF _ _ w, of "c\<lparr>cn_response_in_flight := False\<rparr>" s' w' c0]
    by (cases s' rule: responding.cases) (auto simp: closes_def sends_def)
qed

lemma fj_start_keeps_request:
  assumes "fj_start gm j w = (FileRunning j' child, w')"
  shows "fj_file_path j' = fj_file_path j \<and> fj_range_spec j' = fj_range_spec j"
proof -
  have e: "fj_file_path j' = fj_file_path k \<and> fj_range_spec j' = fj_range_spec k"
    if "sendError k code m u = (FileRunning j' child, w')" for k code m u
    using that by (auto simp: sendError_def Let_def split: prod.splits option.splits job_result.splits job_cb.splits)
  have r: "fj_file_path (fst (resolve_file_range k u)) = fj_file_path k \<and> fj_range_spec (fst (resolve_file_range k u)) = fj_range_spec k" for k u
    by (simp add: resolve_file_range_def fj_refuse_def Let_def split: option.splits)
  have o: "fj_file_path (fst (openFile j w)) = fj_file_path j \<and> fj_range_spec (fst (openFile j w)) = fj_range_spec j"
    by (simp add: openFile_def fj_refuse_def Let_def split_beta r)
  have h: "fj_file_path j' = fj_file_path k \<and> fj_range_spec j' = fj_range_spec k"
    if "startSendingHeaders gm k u = (FileRunning j' child, w')" for k u
    using that by (auto simp: startSendingHeaders_def fj_fail_def Let_def dest!: e
        split: prod.splits option.splits job_result.splits job_cb.splits if_splits)
  show ?thesis using assms o by (auto simp: fj_start_def dest!: e h split: prod.splits if_splits)
qed

lemma sendFileResponse_sends:
  assumes se: "sendFileResponse app c0 response w = (s', w')" and cp: "cn_read_cancel_pending c0 \<longrightarrow> cn_client_fd c0 < 0"
  shows "sends c0 (FileAnswer (file_path response) (cn_pending_range c0) (cn_keep_alive c0)) (cn_request_buffer c0) w s' w'"
proof -
  define c where "c = c0\<lparr>cn_response_in_flight := True, cn_pending_range := None\<rparr>"
  have s: "same_recv c0 c" by (simp add: same_recv_def c_def)
  obtain jo w1 where cr: "fj_createFromPool (cn_client_fd c) (file_path response) response True True w = (jo, w1)" by fastforce
  have w1: "quiet w w1" using fj_created[OF cr] by blast
  show ?thesis
  proof (cases jo)
    case None
    with se cr have "response_failed c w1 = (s', w')" by (simp add: sendFileResponse_def c_def[symmetric] Let_def)
    then show ?thesis by (rule sends_failed[OF _ calm_quiet[OF w1] s cp])
  next
    case (Some j)
    let ?j = "case cn_pending_range c0 of None \<Rightarrow> j | Some spec \<Rightarrow> requestRange spec j"
    have j: "fj_file_path ?j = file_path response" "fj_range_spec ?j = cn_pending_range c0"
      using cr Some by (auto simp: fj_createFromPool_def fj_createFromPool_range_def HTTPFileJob_init_def requestRange_def
          split: option.splits prod.splits)
    obtain r w2 where st: "fj_start (gmtime app) ?j w1 = (r, w2)" by fastforce
    have q: "file_queues w r w2" using file_queues_cong[OF file_queues_start[OF st] w1] by simp
    show ?thesis
    proof (cases r)
      case (FileRunning j' child)
      then have "s' = Live c (Some (FileTransfer j' child (cn_keep_alive c)))" "w' = w2"
        using se cr Some st by (simp_all add: sendFileResponse_def c_def[symmetric] Let_def)
      moreover have "calm w w2" using q FileRunning by (auto simp: file_queues_def intro: calm_queues)
      ultimately show ?thesis using fj_start_keeps_request[OF st[unfolded FileRunning]] j s
        by (simp add: sends_def recv_frame_def c_def)
    next
      case (FileDone cb)
      then have f: "response_failed c w2 = (s', w')"
        using se cr Some st by (simp add: sendFileResponse_def c_def[symmetric] Let_def)
      have "calm w w2" using q FileDone by (auto simp: file_queues_def intro: calm_quiet)
      then show ?thesis by (rule sends_failed[OF f _ s cp])
    qed
  qed
qed

lemma sendBody_sends:
  assumes "createFromPoolWithOwnedData (cn_client_fd c) str (length str) True True w = (write_job, w1)"
    and "(case write_job of None \<Rightarrow> response_failed c w1
          | Some wj \<Rightarrow> (case wj_start wj w1 of
               (Pending wj', w2) \<Rightarrow> (Live c (Some (BodyWrite wj' (cn_keep_alive c))), w2)
             | (_, w2) \<Rightarrow> response_failed c w2)) = (s', w')"
    and s: "same_recv c0 c" and cp: "cn_read_cancel_pending c0 \<longrightarrow> cn_client_fd c0 < 0"
  shows "sends c0 (TextAnswer str (cn_keep_alive c)) (cn_request_buffer c) w s' w'"
proof (cases write_job)
  case None
  with assms(2) have "response_failed c w1 = (s', w')" by simp
  then show ?thesis by (rule sends_failed[OF _ calm_quiet[OF quiet_created(1)[OF assms(1)]] s cp])
next
  case (Some wj)
  obtain r w2 where st: "wj_start wj w1 = (r, w2)" by fastforce
  note cr = assms(1)[unfolded Some]
  from write_child_queues[OF cr st]
  consider (run) "r = Pending wj" "calm w w2" | (gone) err where "r = Abandoned (OnError (cn_client_fd c) err)" "calm w w2"
    by (auto intro: calm_queues calm_quiet)
  then show ?thesis
  proof cases
    case run
    with assms(2) Some st have "s' = Live c (Some (BodyWrite wj (cn_keep_alive c)))" "w' = w2" by simp_all
    with created_callbacks[OF cr] run(2) s show ?thesis by (simp add: sends_def recv_frame_def)
  next
    case gone
    with assms(2) Some st have "response_failed c w2 = (s', w')" by simp
    then show ?thesis by (rule sends_failed[OF _ gone(2) s cp])
  qed
qed

text \<open>The answer that \<^verbatim>\<open>sendResponse\<close> gives, in terms of the connection it is called on.\<close>

definition sent_answer :: "conn \<Rightarrow> HttpResponse \<Rightarrow> ring \<Rightarrow> answer" where
  "sent_answer c response w =
     (case state_disposition c response w of (c1, stated) \<Rightarrow>
        if file_path response \<noteq> [] then FileAnswer (file_path response) (cn_pending_range c) (cn_keep_alive c1)
        else TextAnswer (body_response (cn_keep_alive c1) stated) (cn_keep_alive c1))"

lemma sendResponse_sends:
  assumes se: "sendResponse app c0 response0 w = (s', w')" and cp: "cn_read_cancel_pending c0 \<longrightarrow> cn_client_fd c0 < 0"
  shows "sends c0 (sent_answer c0 response0 w) (cn_request_buffer c0) w s' w'"
proof -
  obtain c1 response where d: "state_disposition c0 response0 w = (c1, response)" by fastforce
  have c1: "same_recv c0 c1" "cn_request_buffer c1 = cn_request_buffer c0" "cn_pending_range c1 = cn_pending_range c0"
    using d by (auto simp: state_disposition_def same_recv_def Let_def split: if_splits)
  have p: "file_path response = file_path response0" using disposition_file_path[of c0 response0 w] d by simp
  show ?thesis
  proof (cases "file_path response = []")
    case False
    with se d have "sendFileResponse app c1 response w = (s', w')" by (simp add: sendResponse_def)
    from sendFileResponse_sends[OF this] c1 cp False p d show ?thesis
      by (auto simp: sends_def sent_answer_def same_recv_def intro: recv_frame_after)
  next
    case True
    define str where "str = body_response (cn_keep_alive c1) response"
    let ?c = "c1\<lparr>cn_response_in_flight := True\<rparr>"
    obtain wjo w1 where cr: "createFromPoolWithOwnedData (cn_client_fd ?c) str (length str) True True w = (wjo, w1)" by fastforce
    have s: "same_recv c0 ?c" using c1 by (simp add: same_recv_def)
    have "sends c0 (TextAnswer str (cn_keep_alive ?c)) (cn_request_buffer ?c) w s' w'"
      by (rule sendBody_sends[OF cr _ s cp]) (use se d True cr in \<open>simp add: sendResponse_def str_def[symmetric] Let_def\<close>)
    with True p d c1 show ?thesis by (simp add: sent_answer_def str_def)
  qed
qed

lemma sent_answer_request:
  "sent_answer (c\<lparr>cn_keep_alive := shouldKeepAlive request,
       cn_advertise_keep_alive := (req_version request \<noteq> ''HTTP/1.1''),
       cn_pending_range := (if req_method request = ''GET'' then parse_range (req_getHeader request ''range'') else None)\<rparr>)
     (respond app request) w = answer_to app (isStopping w) request"
  by (auto simp: sent_answer_def answer_to_def state_disposition_def Let_def)

lemma sent_answer_error:
  assumes "\<not> cn_keep_alive c"
  shows "sent_answer c (setBody reason (setHeader ''content-type'' ''text/plain'' (setStatus code reason HttpResponse_init))) w =
    error_answer (code, reason)"
  using assms by (auto simp: sent_answer_def error_answer_def state_disposition_def Let_def
      setBody_def setHeader_def setStatus_def HttpResponse_init_def)

lemma sendErrorAndClose_serves:
  assumes se: "sendErrorAndClose app code reason c None w = (s', w')" and e: "(code, reason) \<in> set refusals"
    and c: "\<not> cn_response_in_flight c" "0 \<le> cn_client_fd c" "\<not> cn_read_cancel_pending c"
  shows "recv_frame c w s' w' \<and> serves app buf s'"
proof -
  let ?c = "c\<lparr>cn_keep_alive := False, cn_advertise_keep_alive := False, cn_request_buffer := []\<rparr>"
  have "sendResponse app ?c
      (setBody reason (setHeader ''content-type'' ''text/plain'' (setStatus code reason HttpResponse_init))) w = (s', w')"
    using se c by (simp add: sendErrorAndClose_def)
  from sendResponse_sends[OF this] c have s: "sends ?c (error_answer (code, reason)) [] w s' w'"
    by (simp add: sent_answer_error)
  have "same_recv c ?c" by (simp add: same_recv_def)
  with s e show ?thesis
    by (cases s' rule: responding.cases) (auto simp: sends_def serves_def intro: recv_frame_after)
qed

lemma request_chunk:
  assumes "parse_request buf empty_request = (Success, request, n)"
  shows "answers app (answer_to app stopping request) (take n buf)"
proof -
  have "n \<le> length buf" using assms by (auto elim!: parse_request_SuccessE)
  with parse_request_ignores_rest[OF assms, of "[]"] show ?thesis by (auto simp: answers_def)
qed

lemma processHttpRequests_serves:
  assumes pr: "processHttpRequests app c None w = (s', w')"
    and c: "\<not> cn_response_in_flight c" "0 \<le> cn_client_fd c" "\<not> cn_read_cancel_pending c"
  shows "recv_frame c w s' w' \<and> serves app (cn_request_buffer c) s'"
proof (cases "parse_request (cn_request_buffer c) empty_request")
  case (fields res request n)
  show ?thesis
  proof (cases res)
    case Success
    let ?c = "c\<lparr>cn_request_buffer := drop n (cn_request_buffer c)\<rparr>"
    let ?c1 = "?c\<lparr>cn_keep_alive := shouldKeepAlive request, cn_advertise_keep_alive := (req_version request \<noteq> ''HTTP/1.1''),
       cn_pending_range := (if req_method request = ''GET'' then parse_range (req_getHeader request ''range'') else None)\<rparr>"
    have "cn_request_buffer c \<noteq> []" using fields Success by (auto simp: parse_request_def)
    then have "sendResponse app ?c1 (respond app request) w = (s', w')"
      using pr c fields Success by (simp add: processHttpRequests_def handleHttpRequest_def Let_def)
    from sendResponse_sends[OF this] c have
      s: "sends ?c1 (answer_to app (isStopping w) request) (drop n (cn_request_buffer c)) w s' w'"
      by (simp add: sent_answer_request)
    have "same_recv c ?c1" by (simp add: same_recv_def)
    moreover have "cn_request_buffer c = take n (cn_request_buffer c) @ drop n (cn_request_buffer c)" by simp
    ultimately show ?thesis
      using s request_chunk[OF fields[unfolded Success], of app "isStopping w"]
      by (cases s' rule: responding.cases) (auto simp: sends_def serves_def intro: recv_frame_after)
  next
    case Incomplete
    have "n = 0" using fields Incomplete
      by (auto simp: parse_request_def Let_def split: if_splits option.splits)
    moreover have "s' = Live c None" "w' = w" using pr c fields Incomplete by (auto simp: processHttpRequests_def split: if_splits)
    ultimately show ?thesis using fields Incomplete by (simp add: serves_def recv_frame_def same_recv_def)
  next
    case BadRequest
    then have "cn_request_buffer c \<noteq> []" using fields by (auto simp: parse_request_def)
    then have "sendErrorAndClose app 400 ''Bad Request'' c None w = (s', w')"
      using pr c fields BadRequest by (simp add: processHttpRequests_def)
    then show ?thesis by (rule sendErrorAndClose_serves) (use c in \<open>simp_all add: refusals_def\<close>)
  qed
qed

section \<open>Data\<close>

text \<open>Bytes that arrive while no response is on the wire.\<close>

lemma data_serves:
  assumes h: "handleDataReceived app data (int (length data)) c None w = (s', w')"
    and c: "\<not> cn_response_in_flight c" "0 \<le> cn_client_fd c" "\<not> cn_read_cancel_pending c"
  shows "recv_frame c w s' w' \<and> serves app (cn_request_buffer c @ data) s'"
proof (cases "data = []")
  case True
  with h c have "closeConnection c None w = (s', w')" by (simp add: handleDataReceived_def)
  then have "closes c None w s' w'" by (rule closeConnection_closes) (use c in simp_all)
  then show ?thesis using serves_closes by (auto simp: closes_def)
next
  case nonempty: False
  show ?thesis
  proof (cases "length (cn_request_buffer c) + length data > cn_max_request_size c")
    case True
    then obtain code reason where "sendErrorAndClose app code reason c None w = (s', w')" "(code, reason) \<in> set refusals"
      using h nonempty c by (cases "find_str CRLF2 (cn_request_buffer c)") (auto simp: handleDataReceived_def refusals_def)
    then show ?thesis by (rule sendErrorAndClose_serves) (use c in simp_all)
  next
    case False
    obtain ok u where sc: "submitIdleTimeoutCancel c w = (ok, u)" by fastforce
    have u: "calm w u" using sc by (simp add: submitIdleTimeoutCancel_def calm_cancel)
    let ?set = "\<lambda>c. c\<lparr>cn_request_buffer := cn_request_buffer c @ data\<rparr>"
    obtain c1 w1 where p: "processHttpRequests app (?set c1) None w1 = (s', w')" "calm w w1"
      and c1: "c1 = c \<or> c1 = c\<lparr>cn_idle_cancel_pending := True\<rparr>"
    proof (cases "cn_active_idle_timeout_job c \<noteq> None \<and> \<not> cn_idle_cancel_pending c")
      case True
      then have "processHttpRequests app (?set (if ok then c\<lparr>cn_idle_cancel_pending := True\<rparr> else c)) None u = (s', w')"
        using h nonempty c False sc by (cases ok) (simp_all add: handleDataReceived_def Let_def)
      then show thesis by (rule that) (use u in auto)
    next
      case idle: False
      then have "processHttpRequests app (?set c) None w = (s', w')"
        using h nonempty c False by (auto simp: handleDataReceived_def Let_def)
      then show thesis by (rule that) auto
    qed
    have s: "same_recv c (?set c1)" "cn_request_buffer (?set c1) = cn_request_buffer c @ data"
      using c1 by (auto simp: same_recv_def)
    have "recv_frame (?set c1) w1 s' w' \<and> serves app (cn_request_buffer (?set c1)) s'"
      using p(1) by (rule processHttpRequests_serves) (use c c1 in auto)
    then show ?thesis using recv_frame_after[OF _ s(1) p(2)] s(2) by simp
  qed
qed

text \<open>Bytes that arrive while one is: they are kept, or the connection closes after it.\<close>

lemma data_waits:
  assumes h: "handleDataReceived app data (int (length data)) c (Some r) w = (s', w')"
    and c: "cn_response_in_flight c" "0 \<le> cn_client_fd c" "\<not> cn_read_cancel_pending c"
  shows "recv_frame c w s' w' \<and> (\<exists>c'. s' = Live c' (Some r) \<and>
    (cn_close_pending c' \<or> cn_close_pending c' = cn_close_pending c \<and> cn_request_buffer c' = cn_request_buffer c @ data))"
proof -
  obtain ok u where sc: "submitIdleTimeoutCancel c w = (ok, u)" by fastforce
  then have "calm w u" by (simp add: submitIdleTimeoutCancel_def calm_cancel)
  with h c sc show ?thesis
    by (auto simp: handleDataReceived_def sendErrorAndClose_def closeConnection_def processHttpRequests_def Let_def
        recv_frame_def same_recv_def split: if_splits option.splits)
qed

section \<open>The invariant\<close>

text \<open>
  As long as the connection converses, what it was told is the requests it has answered followed by its
  buffer, and with no response on the wire the buffer holds no whole request.
\<close>

definition converses :: "app \<Rightarrow> string \<Rightarrow> answer list \<Rightarrow> conn_state \<Rightarrow> bool" where
  "converses app R L s \<longleftrightarrow>
     (\<exists>c child chunks. s = Live c child \<and> R = concat chunks @ cn_request_buffer c \<and> list_all2 (answers app) L chunks \<and>
        list_all keeps_open L \<and> (child = None \<longrightarrow> (\<exists>out. parse_request (cn_request_buffer c) empty_request = (Incomplete, out, 0))))"

definition talk_ok :: "app \<Rightarrow> string \<Rightarrow> answer list \<Rightarrow> conn_state \<Rightarrow> bool" where
  "talk_ok app R L s \<longleftrightarrow> dialogue app R L \<and> (shut s \<or> converses app R L s)"

definition recv_state :: "conn_state \<Rightarrow> (nat \<times> sqe_op) multiset \<Rightarrow> bool" where
  "recv_state s K \<longleftrightarrow> (\<forall>c child. s = Live c child \<longrightarrow> recv_ok c K)"

definition exchange_inv :: "app \<Rightarrow> nat \<Rightarrow> int \<Rightarrow> ring \<Rightarrow> exchange \<Rightarrow> bool" where
  "exchange_inv app cid fd w0 X \<longleftrightarrow> world_ok cid fd w0 (ex_world X) \<and>
     talk_ok app (ex_received X) (ex_answers X) (cw_state (ex_world X)) \<and>
     recv_state (cw_state (ex_world X)) (cw_kernel (ex_world X))"

lemma list_all_butlast: "list_all P L \<Longrightarrow> list_all P (butlast L)"
  by (auto simp: list_all_iff dest: in_set_butlastD)

lemma dialogue_more: "dialogue app R L \<Longrightarrow> dialogue app (R @ d) L"
  unfolding dialogue_def by (metis append.assoc)

lemma talk_shut: "talk_ok app R L s \<Longrightarrow> shut s' \<Longrightarrow> talk_ok app (R @ d) L s'"
  by (simp add: talk_ok_def dialogue_more)

lemma converses_dialogue: "converses app R L s \<Longrightarrow> dialogue app R L"
  by (auto simp: converses_def dialogue_def list_all_butlast)

lemma error_not_open [simp]: "\<not> keeps_open (error_answer e)"
  by (simp add: error_answer_def)

text \<open>One more turn of the conversation.\<close>

lemma serves_talk:
  assumes R: "R = concat chunks @ buf" and L: "list_all2 (answers app) L chunks" "list_all keeps_open L"
    and s: "serves app buf s'"
  shows "talk_ok app R (L @ on_wire s') s'"
proof (cases s' rule: responding.cases)
  case (1 c r)
  from s 1 consider (answer) chunk where "buf = chunk @ cn_request_buffer c" "answers app (answer_of r) chunk"
    | (refusal) e where "e \<in> set refusals" "answer_of r = error_answer e"
    by (auto simp: serves_def)
  then show ?thesis
  proof cases
    case answer
    then have R': "R = concat (chunks @ [chunk]) @ cn_request_buffer c" "list_all2 (answers app) (L @ on_wire s') (chunks @ [chunk])"
      using R L 1 by (auto intro: list_all2_appendI)
    moreover have "dialogue app R (L @ on_wire s')"
      unfolding dialogue_def using R' L(2) 1 by (intro exI[of _ "chunks @ [chunk]"] exI[of _ "cn_request_buffer c"]) simp
    moreover have "shut s' \<or> converses app R (L @ on_wire s') s'"
    proof (cases "keeps_open (answer_of r)")
      case True
      then show ?thesis unfolding converses_def using R' L(2) 1 by (intro disjI2 exI[of _ c] exI[of _ "Some r"] exI[of _ "chunks @ [chunk]"]) simp
    qed (simp add: 1)
    ultimately show ?thesis by (simp add: talk_ok_def)
  next
    case refusal
    then have "\<exists>M e. L @ on_wire s' = M @ [error_answer e] \<and> e \<in> set refusals \<and> list_all2 (answers app) M chunks"
      using L(1) 1 by (intro exI[of _ L] exI[of _ e]) simp
    then have "dialogue app R (L @ on_wire s')"
      unfolding dialogue_def using R L(2) 1 by (intro exI[of _ chunks] exI[of _ buf]) simp
    with 1 refusal show ?thesis by (simp add: talk_ok_def)
  qed
next
  case (2 c)
  with s R L have "shut s' \<or> converses app R L s'"
    unfolding converses_def by (force simp: serves_def)
  moreover have "dialogue app R L" using R L list_all_butlast by (auto simp: dialogue_def)
  ultimately show ?thesis using 2 by (simp add: talk_ok_def)
next
  case 3
  have "dialogue app R L" using R L list_all_butlast by (auto simp: dialogue_def)
  with 3 show ?thesis by (simp add: talk_ok_def)
qed

lemma recv_ok_subset:
  assumes "recv_ok c K" "K0 \<subseteq># K"
  shows "recv_ok c K0"
proof -
  have "size (filter_mset (\<lambda>e. is_recv (snd e)) K0) \<le> size (filter_mset (\<lambda>e. is_recv (snd e)) K)"
    using assms(2) by (intro size_mset_mono multiset_filter_mono)
  then show ?thesis using assms unfolding recv_ok_def by (auto dest: mset_subset_eqD)
qed

lemma recv_state_subset: "recv_state s K \<Longrightarrow> K0 \<subseteq># K \<Longrightarrow> recv_state s K0"
  by (auto simp: recv_state_def intro: recv_ok_subset)

lemma recv_state_frame:
  "recv_ok c K \<Longrightarrow> recv_frame c w s' w' \<Longrightarrow> recv_state s' (K + queued w w')"
  by (auto simp: recv_state_def intro: recv_frame_ok)

section \<open>Completions\<close>

lemma onData_talk:
  assumes i: "state_inv s K" "is_conn cid s" "recv_state s K" and e: "(j, OpRecvMultishot f) \<in># K"
    and t: "talk_ok app R L s" and h: "rh_onDataToken app \<lparr>rh_connection = cid\<rparr> data s w = (s', w1)"
  shows "talk_ok app (R @ data) (L @ (if responding s then [] else on_wire s')) s' \<and> recv_state s' (K + queued w w1) \<and>
    (responding s \<longrightarrow> on_wire s' = on_wire s)"
proof (cases s)
  case Freed
  with h have "s' = s" "w1 = w" by (simp_all add: rh_onDataToken_def)
  with t Freed show ?thesis by (auto simp: recv_state_def intro: talk_shut)
next
  case (Live c child)
  have d: "handleDataReceived app data (int (length data)) c child w = (s', w1)"
    using h i(2) Live by (simp add: rh_onDataToken_def is_conn_def)
  have r: "recv_ok c K" using i(3) Live by (simp add: recv_state_def)
  have fl: "cn_response_in_flight c \<longleftrightarrow> child \<noteq> None" using i(1) Live by (simp add: conn_inv_def conn_base_def)
  show ?thesis
  proof (cases "cn_client_fd c < 0")
    case True
    with d have "s' = s" "w1 = w" by (simp_all add: handleDataReceived_def Live)
    moreover have "child = None" using True i(1) Live by (cases child) (auto simp: conn_inv_def conn_base_def)
    ultimately show ?thesis using t True i(3) Live by (auto simp: queued_same intro: talk_shut)
  next
    case False
    then have c: "0 \<le> cn_client_fd c" "\<not> cn_read_cancel_pending c" "cn_active_read_job c = Some j"
      using r e by (auto simp: recv_ok_def)
    show ?thesis
    proof (cases child)
      case None
      have sv: "recv_frame c w s' w1 \<and> serves app (cn_request_buffer c @ data) s'"
        by (rule data_serves) (use d None fl c in simp_all)
      have "\<not> shut s" using c Live None by simp
      with t Live obtain chunks where "R @ data = concat chunks @ cn_request_buffer c @ data" "list_all2 (answers app) L chunks"
          "list_all keeps_open L" by (auto simp: talk_ok_def converses_def)
      from serves_talk[OF this] sv recv_state_frame[OF r] Live None show ?thesis by simp
    next
      case (Some resp)
      have w: "recv_frame c w s' w1" and "\<exists>c'. s' = Live c' (Some resp) \<and> (cn_close_pending c' \<or>
          cn_close_pending c' = cn_close_pending c \<and> cn_request_buffer c' = cn_request_buffer c @ data)"
        using data_waits[of app data c resp w s' w1] d Some fl c by simp_all
      then obtain c' where s': "s' = Live c' (Some resp)"
        "cn_close_pending c' \<or> cn_close_pending c' = cn_close_pending c \<and> cn_request_buffer c' = cn_request_buffer c @ data" by blast
      have "shut s' \<or> converses app (R @ data) L s'"
      proof (cases "shut s'")
        case False
        with s' have "\<not> shut s" "cn_request_buffer c' = cn_request_buffer c @ data" by (auto simp: Live Some)
        with t Live Some s'(1) show ?thesis by (auto simp: talk_ok_def converses_def)
      qed simp
      with t dialogue_more have "talk_ok app (R @ data) L s'" by (auto simp: talk_ok_def)
      with w s' Live Some recv_state_frame[OF r] show ?thesis by simp
    qed
  qed
qed

lemma closes_wire: "closes c child w s' w' \<Longrightarrow> on_wire s' = on_wire (Live c0 child) \<and> responding s' = (child \<noteq> None)"
  by (cases s' rule: responding.cases; cases child) (auto simp: closes_def)

text \<open>After a failure, the last completion of the receive, no receive is left.\<close>

lemma onError_talk:
  assumes i: "state_inv s (add_mset e K0)" "is_conn cid s" "recv_state s (add_mset e K0)" and e: "is_recv (snd e)"
    and h: "rh_onError \<lparr>rh_connection = cid\<rparr> err s w = (s', w1)"
  shows "shut s' \<and> on_wire s' = on_wire s \<and> recv_state s' (K0 + queued w w1) \<and> calm w w1"
proof (cases s)
  case Freed
  with h show ?thesis by (simp add: rh_onError_def recv_state_def)
next
  case (Live c child)
  let ?c = "c\<lparr>cn_active_read_job := None\<rparr>"
  have r: "recv_ok c (add_mset e K0)" using i(3) Live by (simp add: recv_state_def)
  then have f: "filter_mset (\<lambda>e. is_recv (snd e)) K0 = {#}" using e by (simp add: recv_ok_def)
  then have "\<forall>e \<in># K0. \<not> is_recv (snd e)" by (auto simp: filter_mset_eq_conv)
  with r have r': "recv_ok ?c K0" unfolding recv_ok_def f by simp
  have "handleReadError err c child w = (s', w1)" using h i(2) Live by (simp add: rh_onError_def is_conn_def)
  then have cl: "closes ?c child w s' w1"
    by (rule handleReadError_closes) (use i(1) Live r in \<open>simp_all add: conn_inv_def conn_base_def recv_ok_def\<close>)
  with recv_state_frame[OF r'] closes_wire[OF cl, of c] Live show ?thesis by (simp add: closes_def recv_frame_def)
qed

text \<open>The receive: its data, then the re-arming, or the end of reading when that fails.\<close>

lemma recv_talk:
  assumes ok: "world_ok cid fd w0 W" and rs: "recv_state (cw_state W) (cw_kernel W)" and t: "talk_ok app R L (cw_state W)"
    and e: "(j, OpRecvMultishot f) \<in># cw_kernel W" and ker: "cqe_res ce \<le> 0 \<or> buffer = None \<longrightarrow> \<not> cqe_more ce"
    and h: "http_recv_completion app \<lparr>mr_id = j, mr_fd = f, mr_handler = \<lparr>rh_connection = cid\<rparr>\<rparr> ce buffer
       (cw_state W) (cw_ring W) = (clean, s', w1)"
  shows "talk_ok app (R @ delivered ce buffer) (L @ (if responding (cw_state W) then [] else on_wire s')) s' \<and>
    recv_state s' (cw_kernel (finish (j, OpRecvMultishot f) (cqe_more ce) clean s' w1 W))"
proof -
  let ?e = "(j, OpRecvMultishot f)" and ?s = "cw_state W" and ?w = "cw_ring W" and ?K = "cw_kernel W"
  define K0 where "K0 = ?K - {# ?e #}"
  have K: "?K = add_mset ?e K0" using e by (simp add: K0_def)
  have inv: "ledger fd w0 ?s (aux_jobs ?K) (size ?K) ?w" "traffic_ok ?s ?K" "state_inv ?s ?K" "is_conn cid ?s"
    using ok by (simp_all add: world_ok_def)
  note data = onData_talk[OF inv(3,4) rs e t]
  show ?thesis
  proof (cases rule: http_recv_cases[OF h, simplified, case_names rejected more rearmed ended])
    case (rejected err)
    have "shut s' \<and> on_wire s' = on_wire ?s \<and> recv_state s' (K0 + queued ?w w1) \<and> calm ?w w1"
      using inv rs K by (intro onError_talk[OF _ _ _ _ rejected(2), where e = ?e]) simp_all
    moreover have "delivered ce buffer = []" using rejected(1) by (auto simp: delivered_def split: option.splits)
    moreover have "\<not> responding ?s \<longrightarrow> on_wire ?s = []" by (cases ?s rule: responding.cases) simp_all
    ultimately show ?thesis using ker rejected t K talk_shut[OF t, of s' "[]"] by auto
  next
    case more
    with data[OF more(2)] show ?thesis by (simp split: if_splits)
  next
    case (rearmed u)
    note av = rearm_world[OF rearmed(3)]
    obtain E D where "sq u = sq ?w @ E" "sq w1 = sq u @ D" using onData_world[OF inv rearmed(2)] av by blast
    from queued_trans[OF this] data[OF rearmed(2)] av rearmed K show ?thesis by (simp split: if_splits)
  next
    case (ended s1 u v)
    note dw = onData_world[OF inv ended(2)] and dt = data[OF ended(2)]
    have Kq: "?K + queued ?w u = add_mset ?e (K0 + queued ?w u)" using K by simp
    have "shut s' \<and> on_wire s' = on_wire s1 \<and> recv_state s' (K0 + queued ?w u + queued v w1) \<and> calm v w1"
      using dw dt Kq by (intro onError_talk[OF _ _ _ _ ended(4), where e = ?e]) simp_all
    moreover have "queued ?w w1 = queued ?w u + queued v w1"
      using recv_ended[OF dw refl K refl ended(3,4)] by simp
    ultimately show ?thesis using dt ended K by (auto simp: add.assoc talk_ok_def)
  qed
qed

text \<open>The response: it goes on, or its callback runs.\<close>

lemma response_goes:
  assumes i: "resp_inv r" "resp_kernel_ok r ce" and h: "response_completion app c r ce w = (s', w1)" and o: "\<not> response_over r ce w"
  shows "calm w w1 \<and> (\<exists>r'. s' = Live c (Some r') \<and> keeps_open (answer_of r') = keeps_open (answer_of r))"
proof (cases r)
  case (BodyWrite wj ka)
  obtain r1 u where hc: "wj_handleCompletion wj ce w = (r1, u)" by fastforce
  have "calm w u" using queues_write[OF hc] by (auto intro: calm_queues)
  then show ?thesis using BodyWrite h o hc by (cases r1) (auto simp: response_completion_def)
next
  case (FileTransfer j child ka)
  obtain r1 u where hc: "fj_child_completion j child ce w = (r1, u)" by fastforce
  have q: "file_queues w r1 u" using file_queues_child[OF _ _ hc] i FileTransfer by simp
  then have "calm w u" by (auto simp: file_queues_def intro: calm_queues calm_quiet split: file_result.splits)
  then show ?thesis using FileTransfer h o hc by (cases r1) (auto simp: response_completion_def)
qed

lemma response_ends:
  assumes i: "resp_inv r" "resp_kernel_ok r ce" and h: "response_completion app c r ce w = (s', w1)" and o: "response_over r ce w"
  obtains cb u v where "response_callback app (keeps_open (answer_of r)) cb c u = (s', v)" "calm w u" "calm v w1" "cb \<noteq> NoCallback"
proof (cases r)
  case (BodyWrite wj ka)
  obtain r1 u where hc: "wj_handleCompletion wj ce w = (r1, u)" by fastforce
  have c: "calm w u" using queues_write[OF hc] by (auto intro: calm_queues)
  note cb = write_completion_cb[OF hc]
  show ?thesis
  proof (cases r1)
    case (Pending wj')
    with o hc BodyWrite show ?thesis by simp
  next
    case (Cleanup b)
    obtain v where "response_callback app ka b c u = (s', v)" "w1 = pool_free (wj_id wj) v"
      using h hc BodyWrite Cleanup by (auto simp: response_completion_def split: prod.splits)
    then show ?thesis using that[of b u v] c cb i BodyWrite Cleanup by simp
  next
    case (Abandoned b)
    then have "response_callback app ka b c u = (s', w1)" using h hc BodyWrite by (simp add: response_completion_def)
    then show ?thesis using that[of b u w1] c cb i BodyWrite Abandoned by simp
  qed
next
  case (FileTransfer j child ka)
  obtain r1 u where hc: "fj_child_completion j child ce w = (r1, u)" by fastforce
  with o FileTransfer obtain b where b: "r1 = FileDone b" by (cases r1) auto
  have fi: "fj_inv j child" "child_kernel_ok child ce" "fj_on_complete j" "fj_on_error j" using i FileTransfer by simp_all
  have "file_queues w r1 u" by (rule file_queues_child[OF fi(1,2) hc])
  then have "calm w u" using b by (auto simp: file_queues_def intro: calm_quiet)
  moreover have "b \<noteq> NoCallback" using child_completion_step[OF fi(1,2), of w] hc b fi
    by (auto simp: file_step_def file_reports_def fj_tell_error_def fj_tell_complete_def)
  moreover have "response_callback app ka b c u = (s', w1)" using h hc b FileTransfer by (simp add: response_completion_def)
  ultimately show ?thesis using that[of b u w1] FileTransfer by simp
qed

lemma closes_talk:
  assumes "closes c1 None w s' w'" "same_recv c c1" "dialogue app R L"
  shows "talk_ok app R (L @ on_wire s') s' \<and> recv_frame c w s' w'"
  using assms closes_wire[OF assms(1), of c] by (auto simp: talk_ok_def closes_def intro: recv_frame_after)

lemma complete_talk:
  assumes t: "talk_ok app R L (Live c (Some r))" and c: "0 \<le> cn_client_fd c" "\<not> cn_read_cancel_pending c"
    and h: "onResponseComplete app (keeps_open (answer_of r)) c w = (s', w')"
  shows "talk_ok app R (L @ on_wire s') s' \<and> recv_frame c w s' w'"
proof -
  define c1 where "c1 = c\<lparr>cn_response_in_flight := False\<rparr>"
  have s: "same_recv c c1" by (simp add: same_recv_def c1_def)
  have c1: "\<not> cn_response_in_flight c1" "0 \<le> cn_client_fd c1" "\<not> cn_read_cancel_pending c1" using c by (simp_all add: c1_def)
  have d: "dialogue app R L" using t by (simp add: talk_ok_def)
  show ?thesis
  proof (cases "cn_close_pending c \<or> \<not> keeps_open (answer_of r) \<or> isStopping w")
    case True
    then have "closeConnection c1 None w = (s', w')" using h by (auto simp: onResponseComplete_def c1_def Let_def split: if_splits)
    then have "closes c1 None w s' w'" by (rule closeConnection_closes) (use c1 in simp_all)
    then show ?thesis by (rule closes_talk[OF _ s d])
  next
    case False
    then obtain chunks where R: "R = concat chunks @ cn_request_buffer c1" "list_all2 (answers app) L chunks" "list_all keeps_open L"
      using t by (auto simp: talk_ok_def converses_def c1_def)
    have "recv_frame c1 w s' w' \<and> serves app (cn_request_buffer c1) s'"
    proof (cases "cn_request_buffer c1 = []")
      case True
      obtain c2 where a: "armIdleTimeout c1 w = (c2, w')" "s' = Live c2 None"
        using h False True by (auto simp: onResponseComplete_def c1_def continueReading_def Let_def split: prod.splits)
      with calm_arm[OF a(1)] True show ?thesis
        by (auto simp: recv_frame_def same_recv_def serves_def parse_request_def)
    next
      case False
      then have "processHttpRequests app c1 None w = (s', w')"
        using h \<open>\<not> (_ \<or> _)\<close> by (simp add: onResponseComplete_def c1_def Let_def)
      then show ?thesis by (rule processHttpRequests_serves) (use c1 in simp_all)
    qed
    with serves_talk[OF R] recv_frame_after[OF _ s calm_refl] show ?thesis by blast
  qed
qed

lemma callback_talk:
  assumes t: "talk_ok app R L (Live c (Some r))" and c: "0 \<le> cn_client_fd c" "\<not> cn_read_cancel_pending c"
    and h: "response_callback app (keeps_open (answer_of r)) cb c w = (s', w')" and cb: "cb \<noteq> NoCallback"
  shows "talk_ok app R (L @ on_wire s') s' \<and> recv_frame c w s' w'"
proof (cases cb)
  case OnComplete
  then show ?thesis using complete_talk[OF t c] h by (simp add: response_callback_def)
next
  case OnError
  then have "closeConnection (c\<lparr>cn_response_in_flight := False\<rparr>) None w = (s', w')"
    using h by (simp add: response_callback_def response_failed_def)
  then have "closes (c\<lparr>cn_response_in_flight := False\<rparr>) None w s' w'"
    by (rule closeConnection_closes) (use c in simp_all)
  then show ?thesis by (rule closes_talk) (use t in \<open>simp_all add: same_recv_def talk_ok_def\<close>)
qed (use cb in simp)

lemma response_talk:
  assumes ok: "world_ok cid fd w0 W" and rs: "recv_state (cw_state W) (cw_kernel W)" and t: "talk_ok app R L (cw_state W)"
    and s: "cw_state W = Live c (Some r)" and ker: "resp_kernel_ok r ce"
    and h: "response_completion app c r ce (cw_ring W) = (s', w1)"
  shows "talk_ok app R (L @ (if response_over r ce (cw_ring W) then on_wire s' else [])) s' \<and>
    recv_state s' (cw_kernel (finish e False False s' w1 W))"
proof -
  let ?w = "cw_ring W"
  have i: "resp_inv r" "0 \<le> cn_client_fd c" using ok s by (auto simp: world_ok_def conn_inv_def conn_base_def)
  have rk: "recv_ok c (cw_kernel W - {# e #})" using rs s by (auto simp: recv_state_def intro: recv_ok_subset)
  then have c: "\<not> cn_read_cancel_pending c" using i(2) by (auto simp: recv_ok_def)
  have "talk_ok app R (L @ (if response_over r ce ?w then on_wire s' else [])) s' \<and> recv_frame c ?w s' w1"
  proof (cases "response_over r ce ?w")
    case True
    then obtain cb u v where cb: "response_callback app (keeps_open (answer_of r)) cb c u = (s', v)" "calm ?w u" "calm v w1" "cb \<noteq> NoCallback"
      using response_ends[OF i(1) ker h] by blast
    have "talk_ok app R (L @ on_wire s') s' \<and> recv_frame c u s' v" by (rule callback_talk[OF t[unfolded s] i(2) c cb(1,4)])
    with cb True show ?thesis by (auto simp: recv_frame_def intro: calm_trans)
  next
    case False
    from response_goes[OF i(1) ker h False] obtain r' where
      r': "calm ?w w1" "s' = Live c (Some r')" "keeps_open (answer_of r') = keeps_open (answer_of r)" by blast
    then have "shut s' = shut (cw_state W)" "converses app R L s' = converses app R L (cw_state W)"
      by (simp_all add: s converses_def)
    with t r' False show ?thesis by (simp add: talk_ok_def recv_frame_def same_recv_def)
  qed
  with recv_state_frame[OF rk] show ?thesis by simp
qed

lemma timer_talk:
  assumes ok: "world_ok cid fd w0 W" and rs: "recv_state (cw_state W) (cw_kernel W)" and t: "talk_ok app R L (cw_state W)"
    and h: "it_handleCompletion (IdleTimeoutJob_init i cid ms) ce (cw_state W) (cw_ring W) = (s', w1)"
  shows "talk_ok app R L s' \<and> recv_state s' (cw_kernel (finish e False True s' w1 W))"
proof (cases "cw_state W")
  case Freed
  with h t show ?thesis by (simp add: it_handleCompletion_def recv_state_def)
next
  case (Live c child)
  let ?c = "c\<lparr>cn_active_idle_timeout_job := None\<rparr>"
  have inv: "conn_inv c child (cw_kernel W)" "cn_id c = cid" using ok Live by (simp_all add: world_ok_def is_conn_def)
  have rk: "recv_ok c (cw_kernel W - {# e #})" using rs Live by (auto simp: recv_state_def intro: recv_ok_subset)
  have hi: "handleIdleTimeout i (cqe_res ce) c child (cw_ring W) = (s', w1)"
    using h Live inv by (simp add: it_handleCompletion_def IdleTimeoutJob_init_def)
  have fd: "\<not> (cn_client_fd c < 0 \<and> cn_deferred_close_fd c < 0)"
    using inv(1) by (auto simp: conn_inv_def conn_base_def conn_fd_def split: if_splits)
  consider (stay) c' where "s' = Live c' child" "w1 = cw_ring W" "c' = c \<or> c' = ?c" | (close) "closeConnection ?c child (cw_ring W) = (s', w1)"
    using hi fd by (auto simp: handleIdleTimeout_def Let_def split: if_splits)
  then have "talk_ok app R L s' \<and> recv_frame c (cw_ring W) s' w1"
  proof cases
    case stay
    then have "shut s' = shut (cw_state W)" "converses app R L s' = converses app R L (cw_state W)"
      by (cases child; auto simp: Live converses_def)+
    with t stay show ?thesis by (auto simp: talk_ok_def recv_frame_def same_recv_def)
  next
    case close
    have "closes ?c child (cw_ring W) s' w1"
      using close by (rule closeConnection_closes) (use inv(1) rk in \<open>simp_all add: conn_inv_def conn_base_def recv_ok_def\<close>)
    with t show ?thesis by (auto simp: talk_ok_def closes_def same_recv_def intro: recv_frame_after)
  qed
  with recv_state_frame[OF rk] show ?thesis by simp
qed

lemma exchange_step_inv:
  assumes st: "exchange_step app cid X X'" and inv: "exchange_inv app cid fd w0 X"
  shows "exchange_inv app cid fd w0 X'"
proof -
  have ok: "world_ok cid fd w0 (ex_world X)" and t: "talk_ok app (ex_received X) (ex_answers X) (cw_state (ex_world X))"
    and rs: "recv_state (cw_state (ex_world X)) (cw_kernel (ex_world X))" using inv by (simp_all add: exchange_inv_def)
  have ok': "world_ok cid fd w0 (ex_world X')" using conn_step_ok[OF exchange_is_step[OF st] ok] .
  from st have "talk_ok app (ex_received X') (ex_answers X') (cw_state (ex_world X')) \<and>
    recv_state (cw_state (ex_world X')) (cw_kernel (ex_world X'))"
  proof cases
    case (XRecv W j f ce buffer clean s' w1)
    with recv_talk[OF ok rs t, of j f ce buffer clean s' w1] show ?thesis by simp
  next
    case (XResponse W j op c r ce s' w1)
    with response_talk[OF ok rs t, of c r ce s' w1 "(j, op)"] show ?thesis by simp
  next
    case (XTimer W i ms ce s' w1)
    with timer_talk[OF ok rs t, of i ms ce s' w1 "(i, OpTimeout ms)"] show ?thesis by simp
  next
    case (XCancel W i u)
    with t recv_state_subset[OF rs] show ?thesis by (simp add: queued_same)
  next
    case (XSweep W i op w1)
    obtain b where "submit_cancel i (cw_ring W) = (b, w1)"
      using XSweep(4) by (cases "submit_cancel i (cw_ring W)")
        (auto simp: mr_requestShutdownCancel_def it_requestShutdownCancel_def IdleTimeoutJob_init_def)
    then have "calm (cw_ring W) w1" by (rule calm_cancel)
    then have "recv_frame c (cw_ring W) (Live c child) w1" for c child by (simp add: recv_frame_def same_recv_def)
    with rs XSweep t show ?thesis by (auto simp: recv_state_def intro: recv_frame_ok)
  next
    case (XStop W st)
    with t rs show ?thesis by simp
  qed
  with ok' show ?thesis by (simp add: exchange_inv_def)
qed

interpretation talk: step_invariant "exchange_step app cid" "exchange_inv app cid fd w0" for app cid fd w0
  by unfold_locales (rule exchange_step_inv)

lemma opened_inv:
  assumes new: "createConnectionHandler idle_ms fd w0 = (Live c None, w1)" "0 \<le> fd" "cn_active_read_job c \<noteq> None"
  shows "exchange_inv app (cn_id c) fd w0 \<lparr>ex_received = [], ex_answers = [], ex_world = first_world w0 c w1\<rparr>"
proof -
  obtain i u r v c1 where o: "pool_alloc w0 = (Some i, u)" "alloc_submit (\<lambda>_. OpRecvMultishot fd) u = (Some r, v)"
      "c1 = (HttpConnectionJob_init i fd (1024 * 1024) idle_ms)\<lparr>cn_reading_active := True, cn_active_read_job := Some r\<rparr>"
      "armIdleTimeout c1 v = (c, w1)"
    by (rule accepted_cases[OF new])
  note a = calm_arm[OF o(4)]
  have v: "sq v = sq w0 @ [(r, OpRecvMultishot fd)]"
    using alloc_submit_aux[OF o(2)] o(1) pool_alloc_simps(2)[of w0] by (simp add: aux_step_def)
  obtain E where E: "sq w1 = sq v @ E" using a by (auto simp: calm_def)
  have "recv_ok c1 {# (r, OpRecvMultishot fd) #}" by (simp add: recv_ok_def o(3) HttpConnectionJob_init_def)
  moreover have "recv_frame c1 v (Live c None) w1" using a by (auto simp: recv_frame_def same_recv_def)
  ultimately have "recv_ok c (queued w0 w1)"
    using recv_frame_ok[of c1 "{# (r, OpRecvMultishot fd) #}" v c None w1] queued_trans[OF v E] queued_append[OF v] by simp
  moreover have "cn_request_buffer c = []" using a by (auto simp: o(3) HttpConnectionJob_init_def)
  then have "converses app [] [] (Live c None)" by (auto simp: converses_def parse_request_def)
  ultimately show ?thesis using first_world_ok[OF new] converses_dialogue
    by (simp add: exchange_inv_def recv_state_def first_world_def talk_ok_def)
qed

lemma exchange_run_inv: "exchange_run app idle_ms fd w0 cid X \<Longrightarrow> exchange_inv app cid fd w0 X"
  by (induction rule: exchange_run.induct) (auto intro: opened_inv talk.preserved)

text \<open>
  C2. Requests are answered in order. At every moment of every run of a connection, the bytes received are
  requests one after the other and something more, and the responses started so far are the
  application's answers to these requests, one each and in their order, or that and a final 400, 413 or 431; no
  response follows one that closes. When the connection is idle and not closing, it has answered
  every whole request it received: what remains is the beginning of one.
\<close>

theorem requests_answered_in_order:
  assumes "exchange_run app idle_ms fd w0 cid X"
  shows "dialogue app (ex_received X) (ex_answers X) \<and>
    (\<forall>c. cw_state (ex_world X) = Live c None \<and> \<not> cn_close_pending c \<longrightarrow>
      (\<exists>chunks rest out. ex_received X = concat chunks @ rest \<and> list_all2 (answers app) (ex_answers X) chunks \<and>
         list_all keeps_open (ex_answers X) \<and> parse_request rest empty_request = (Incomplete, out, 0)))"
proof -
  have i: "exchange_inv app cid fd w0 X" by (rule exchange_run_inv[OF assms])
  moreover have "converses app (ex_received X) (ex_answers X) (Live c None)"
    if "cw_state (ex_world X) = Live c None" "\<not> cn_close_pending c" for c
    using i that by (auto simp: exchange_inv_def talk_ok_def world_ok_def conn_inv_def)
  ultimately show ?thesis by (fastforce simp: exchange_inv_def talk_ok_def converses_def)
qed

definition demo_exchange :: exchange where
  "demo_exchange = \<lparr>ex_received = CHR ''X'' # CRLF @ CRLF, ex_answers = on_wire (cw_state demo_world), ex_world = demo_world\<rparr>"

lemma demo_exchange_run: "exchange_run demo_app 5000 7 calm_ring 1 demo_exchange"
proof -
  let ?ce = "\<lparr>cqe_job = Some 2, cqe_res = 5, cqe_more = True, cqe_buf = 0\<rparr>" and ?buf = "Some (CHR ''X'' # CRLF @ CRLF)"
  let ?X = "\<lparr>ex_received = [], ex_answers = [], ex_world = demo_start\<rparr>"
  have start: "exchange_run demo_app 5000 7 calm_ring 1 ?X"
    using exchange_run.Opened[OF demo_accepted, of demo_app]
    by (simp add: demo_start_def first_world_def demo_conn_def HttpConnectionJob_init_def)
  have "fst demo_recv = False" using demo_response by (metis fst_conv)
  then have "demo_recv = (False, fst (snd demo_recv), snd (snd demo_recv))" by (simp add: prod_eq_iff)
  note recv = trans[OF demo_recv_def[symmetric] this]
  have s: "cw_state demo_start = Live demo_conn None" by (simp add: demo_start_def first_world_def)
  have d: "delivered ?ce ?buf = CHR ''X'' # CRLF @ CRLF" by (simp add: delivered_def)
  have "exchange_step demo_app 1 ?X demo_exchange"
    using exchange_step.XRecv[of demo_start ?X 2 7 ?ce ?buf demo_app 1 False "fst (snd demo_recv)" "snd (snd demo_recv)"] recv s d
    by (simp add: demo_kernel demo_exchange_def demo_world_def)
  with start show ?thesis by (rule exchange_run.Moved)
qed

theorem requests_answered_in_order_witness:
  "exchange_run demo_app 5000 7 calm_ring 1 demo_exchange \<and> length (ex_answers demo_exchange) = 1 \<and>
   dialogue demo_app (CHR ''X'' # CRLF @ CRLF) (ex_answers demo_exchange)"
proof -
  obtain c wj w where "demo_recv = (False, Live c (Some (BodyWrite wj False)), w)" using demo_response by blast
  then have "fst (snd demo_recv) = Live c (Some (BodyWrite wj False))" by (metis fst_conv snd_conv)
  then have "length (ex_answers demo_exchange) = 1" by (simp add: demo_exchange_def demo_world_def)
  then show ?thesis
    using requests_answered_in_order[OF demo_exchange_run] demo_exchange_run by (simp add: demo_exchange_def)
qed

end
