(* ===== verification/Site_Exchange.thy ===== *)
theory Site_Exchange
  imports Static_Site Http_Exchange
begin

text \<open>
  The static file server on the wire. The answers of a connection, as Http\_Exchange records them, are traced to the requests and from there through the router to the handlers of Static\_Site, with a run
  of one connection that sends a file as an example.
\<close>

section \<open>Where a file answer comes from\<close>

lemma answer_to_file:
  assumes "answer_to app stopping request = FileAnswer path spec keep"
  shows "path \<noteq> [] \<and> path = file_path (respond app request)"
  using assms by (simp add: answer_to_def Let_def split: if_splits)

lemma dialogue_file:
  assumes d: "dialogue app R L" and a: "FileAnswer path spec keep \<in> set L"
  shows "\<exists>request. path \<noteq> [] \<and> path = file_path (respond app request)"
proof -
  have "\<exists>chunk. answers app (FileAnswer path spec keep) chunk"
  proof -
    from d obtain chunks M where m: "list_all2 (answers app) M chunks" "L = M \<or> (\<exists>e. L = M @ [error_answer e])"
      by (auto simp: dialogue_def)
    have "FileAnswer path spec keep \<in> set M" using a m(2) by (auto simp: error_answer_def)
    with m(1) show ?thesis by (metis in_set_conv_nth list_all2_conv_all_nth)
  qed
  then obtain request stopping where "FileAnswer path spec keep = answer_to app stopping request" by (auto simp: answers_def)
  then show ?thesis using answer_to_file by metis
qed

section \<open>A kernel that refuses nothing\<close>

text \<open>With it every response is started; the example below runs on it.\<close>

definition willing :: "ring \<Rightarrow> bool" where
  "willing w \<longleftrightarrow> ora w = (\<lambda>_. 0)"

lemma willing_write:
  assumes "willing w"
  obtains wj w1 w2 where "createFromPoolWithOwnedData fd str n True True w = (Some wj, w1)" "wj_start wj w1 = (Pending wj, w2)"
  using assms by (fastforce simp: willing_def createFromPoolWithOwnedData_def wj_start_def submitWrite_def pool_alloc_def registerJob_def submit_def ask_def Let_def)

lemma willing_close [simp]: "willing (close_fd f w) = willing w"
  by (simp add: willing_def close_fd_def)

lemma willing_error:
  assumes "willing w"
  shows "\<exists>j' child w'. sendError j code m w = (FileRunning j' child, w')"
proof -
  define u where "u = (if fj_file_fd j \<ge> 0 then close_fd (fj_file_fd j) w else w)"
  have "willing u" using assms by (simp add: u_def)
  define str where "str = error_page (fj_range_not_satisfiable_size j) (fst (normalizeHeaders (fj_response j))) code m"
  obtain wj w1 w2 where "createFromPoolWithOwnedData (fj_client_fd j) str (length str) True True u = (Some wj, w1)" "wj_start wj w1 = (Pending wj, w2)"
    by (rule willing_write[OF \<open>willing u\<close>])
  then show ?thesis by (simp add: sendError_def Let_def u_def[symmetric] str_def[symmetric])
qed

lemma willing_headers:
  assumes "willing w"
  shows "\<exists>j' child w'. startSendingHeaders gm j w = (FileRunning j' child, w')"
proof -
  obtain res ok where n: "normalizeHeaders (fj_response j) = (res, ok)" by fastforce
  show ?thesis
  proof (cases ok)
    case True
    define j2 where "j2 = j\<lparr>fj_state := SendingHeaders, fj_response := file_response gm (j\<lparr>fj_state := SendingHeaders, fj_response := res\<rparr>) res\<rparr>"
    show ?thesis
    proof (cases "build_response_head (fj_response j2) (fj_length j2)")
      case None
      then show ?thesis using n True willing_error[OF assms] by (simp add: startSendingHeaders_def Let_def j2_def)
    next
      case (Some header_str)
      obtain wj w1 w2 where "createFromPoolWithOwnedData (fj_client_fd j) header_str (length header_str) True True w = (Some wj, w1)" "wj_start wj w1 = (Pending wj, w2)"
        by (rule willing_write[OF assms])
      with Some n True show ?thesis by (simp add: startSendingHeaders_def Let_def j2_def)
    qed
  qed (use n willing_error[OF assms] in \<open>simp add: startSendingHeaders_def Let_def\<close>)
qed

lemma willing_open: "willing w \<Longrightarrow> willing (snd (openFile j w))"
  by (auto simp: openFile_def resolve_file_range_def fj_refuse_def ask_def open_fd_def close_fd_def willing_def Let_def split: option.splits)

lemma willing_start:
  assumes "willing w"
  shows "\<exists>j' child w'. fj_start gm j w = (FileRunning j' child, w')"
  using willing_open[OF assms, of j] willing_error willing_headers by (auto simp: fj_start_def Let_def split_beta)

lemma willing_create:
  assumes "willing w"
  obtains j w1 where "fj_createFromPool fd path response True True w = (Some j, w1)" "willing w1"
  using assms by (fastforce simp: willing_def fj_createFromPool_def fj_createFromPool_range_def pool_alloc_def ask_def Let_def)

lemma willing_file_response:
  assumes "willing w"
  shows "responding (fst (sendFileResponse app c response w))"
proof -
  obtain j w1 where j: "fj_createFromPool (cn_client_fd c) (file_path response) response True True w = (Some j, w1)" "willing w1"
    by (rule willing_create[OF assms])
  obtain j' child w' where "fj_start (gmtime app) (case cn_pending_range c of None \<Rightarrow> j | Some spec \<Rightarrow> requestRange spec j) w1 = (FileRunning j' child, w')"
    using willing_start[OF j(2)] by blast
  with j(1) show ?thesis by (simp add: sendFileResponse_def Let_def)
qed

lemma willing_response:
  assumes "willing w" "file_path response \<noteq> []" and cp: "cn_read_cancel_pending c \<longrightarrow> cn_client_fd c < 0"
  shows "on_wire (fst (sendResponse app c response w)) = [sent_answer c response w]"
proof -
  obtain s' w' where se: "sendResponse app c response w = (s', w')" by fastforce
  obtain c1 r where d: "state_disposition c response w = (c1, r)" by fastforce
  have "sendFileResponse app c1 r w = (s', w')"
    using se d disposition_file_path[of c response w] assms(2) by (simp add: sendResponse_def)
  then have "responding s'" using willing_file_response[OF assms(1)] by (metis fst_conv)
  with sendResponse_sends[OF se cp] se show ?thesis by (cases s' rule: responding.cases) (auto simp: sends_def)
qed

section \<open>A run that sends the index\<close>

definition site_disk :: fsys where
  "site_disk = \<lparr>fs_node = \<lambda>p. if p = ''/www'' then Some Directory else if p = ''/www/index.html'' then Some (RegularFile ''hi'') else None,
     fs_canonical = \<lambda>p. Some p, fs_order = \<lambda>_. None, fs_mtime = \<lambda>_. Some 0, fs_may_read = \<lambda>_. True, fs_may_write = \<lambda>_. True,
     fs_may_remove = \<lambda>_. True, fs_what = \<lambda>p. p\<rparr>"

definition site_text :: string where
  "site_text = ''GET / HTTP/1.0'' @ CRLF @ CRLF"

definition site_request :: HttpRequest where
  "site_request = \<lparr>req_method = ''GET'', req_path = ''/'', req_version = ''HTTP/1.0'', req_headers = [], req_body = []\<rparr>"

definition site_app :: app where
  "site_app = router_app (\<lambda>_. None) static_match (static_routes ''/www'' site_disk)"

definition site_recv :: "bool \<times> conn_state \<times> ring" where
  "site_recv = http_recv_completion site_app \<lparr>mr_id = 2, mr_fd = 7, mr_handler = \<lparr>rh_connection = 1\<rparr>\<rparr>
     \<lparr>cqe_job = Some 2, cqe_res = 18, cqe_more = True, cqe_buf = 0\<rparr> (Some site_text) (cw_state demo_start) (cw_ring demo_start)"

definition site_exchange :: exchange where
  "site_exchange = \<lparr>ex_received = site_text, ex_answers = on_wire (fst (snd site_recv)),
     ex_world = finish (2, OpRecvMultishot 7) True False (fst (snd site_recv)) (snd (snd site_recv)) demo_start\<rparr>"

lemma site_parsed: "parse_request site_text empty_request = (Success, site_request, 18)"
  by code_simp

lemma site_answered: "file_path (respond site_app site_request) = ''/www/index.html''"
  by code_simp

lemma site_sends: "fst site_recv = False \<and> on_wire (fst (snd site_recv)) = [answer_to site_app False site_request]"
proof -
  have w: "cw_state demo_start = Live demo_conn None" "ora (cw_ring demo_start) = (\<lambda>_. 0)" "srv_state (cw_ring demo_start) = Running"
    by (simp_all add: demo_start_def first_world_def accept_eval)
  define c where "c = demo_conn\<lparr>cn_idle_cancel_pending := True, cn_request_buffer := site_text\<rparr>"
  define w1 where "w1 = snd (submit_cancel 3 (cw_ring demo_start))"
  have w1: "submit_cancel 3 (cw_ring demo_start) = (True, w1)" "willing w1" "\<not> isStopping w1"
    using w by (simp_all add: w1_def submit_cancel_def cancel_prepareSqe_def pool_alloc_def registerJob_def submit_def ask_def willing_def isStopping_def Let_def)
  have len: "length site_text = 18" "site_text \<noteq> []" by (simp_all add: site_text_def)
  define c1 where "c1 = c\<lparr>cn_request_buffer := [], cn_keep_alive := shouldKeepAlive site_request,
       cn_advertise_keep_alive := (req_version site_request \<noteq> ''HTTP/1.1''),
       cn_pending_range := (if req_method site_request = ''GET'' then parse_range (req_getHeader site_request ''range'') else None)\<rparr>"
  have "rh_onDataToken site_app \<lparr>rh_connection = 1\<rparr> site_text (Live demo_conn None) (cw_ring demo_start) = processHttpRequests site_app c None w1"
    using w1(1) len by (simp add: rh_onDataToken_def handleDataReceived_def submitIdleTimeoutCancel_def demo_conn_def HttpConnectionJob_init_def c_def)
  also have "\<dots> = sendResponse site_app c1 (respond site_app site_request) w1"
    using site_parsed len by (simp add: processHttpRequests_def handleHttpRequest_def c_def c1_def demo_conn_def HttpConnectionJob_init_def Let_def)
  finally have "site_recv = (False, sendResponse site_app c1 (respond site_app site_request) w1)"
    using len by (simp add: site_recv_def http_recv_completion_def mr_handleCompletion_def w(1) split_beta)
  moreover have "on_wire (fst (sendResponse site_app c1 (respond site_app site_request) w1)) = [answer_to site_app False site_request]"
    using willing_response[OF w1(2), of "respond site_app site_request" c1 site_app] site_answered w1(3)
      sent_answer_request[where c = "c\<lparr>cn_request_buffer := []\<rparr>" and request = site_request and app = site_app and w = w1]
    by (simp add: c1_def c_def demo_conn_def HttpConnectionJob_init_def)
  ultimately show ?thesis by (metis fst_conv snd_conv)
qed

lemma site_exchange_run: "exchange_run site_app 5000 7 Connection_Life.calm_ring 1 site_exchange"
proof -
  let ?ce = "\<lparr>cqe_job = Some 2, cqe_res = 18, cqe_more = True, cqe_buf = 0\<rparr>"
  let ?X = "\<lparr>ex_received = [], ex_answers = [], ex_world = demo_start\<rparr>"
  have start: "exchange_run site_app 5000 7 Connection_Life.calm_ring 1 ?X"
    using exchange_run.Opened[OF demo_accepted, of site_app]
    by (simp add: demo_start_def first_world_def demo_conn_def HttpConnectionJob_init_def)
  have "site_recv = (False, fst (snd site_recv), snd (snd site_recv))" using site_sends by (simp add: prod_eq_iff)
  note recv = trans[OF site_recv_def[symmetric] this]
  have s: "cw_state demo_start = Live demo_conn None" by (simp add: demo_start_def first_world_def)
  have d: "Connection_Life.delivered ?ce (Some site_text) = site_text" by (simp add: Connection_Life.delivered_def site_text_def)
  have "exchange_step site_app 1 ?X site_exchange"
    using exchange_step.XRecv[of demo_start ?X 2 7 ?ce "Some site_text" site_app 1 False "fst (snd site_recv)" "snd (snd site_recv)"] recv s d
    by (simp add: demo_kernel site_exchange_def)
  with start show ?thesis by (rule exchange_run.Moved)
qed

lemma site_index_sent: "\<exists>spec keep. FileAnswer ''/www/index.html'' spec keep \<in> set (ex_answers site_exchange)"
  using site_sends site_answered by (simp add: site_exchange_def answer_to_def Let_def)

end
