(* ===== verification/Rest_Api.thy ===== *)
theory Rest_Api
  imports Example_Main File_System
begin

text \<open>
  The file-management server, \<^verbatim>\<open>examples/rest_api_server/rest_api_server.cpp\<close>: the JSON helpers, the handlers of its seven routes over the file system, and \<^verbatim>\<open>main\<close>. A handler maps the request, the response and the disk to the response and the disk it leaves behind, with a flag that says whether it
  threw. The regular expressions are functions with the matches \<^verbatim>\<open>std::regex\<close> finds; the text of the documentation page is an argument.
\<close>

section \<open>JSON\<close>

definition QUOTE :: char where "QUOTE = CHR 0x22"
definition BACKSLASH :: char where "BACKSLASH = CHR 0x5C"

definition escape_json_char :: "char \<Rightarrow> string" where
  "escape_json_char c =
     (if c = QUOTE then [BACKSLASH, QUOTE] else if c = BACKSLASH then [BACKSLASH, BACKSLASH]
      else if c = LF then [BACKSLASH, CHR ''n''] else if c = CR then [BACKSLASH, CHR ''r'']
      else if c = HTAB then [BACKSLASH, CHR ''t''] else [c])"

definition escape_json_string :: "string \<Rightarrow> string" where
  "escape_json_string str = concat (map escape_json_char str)"

definition json_error :: "string \<Rightarrow> string" where
  "json_error message = ''{\"error\":\"'' @ escape_json_string message @ ''\"}''"

text \<open>
  \<^verbatim>\<open>parse_json_field\<close>: the leftmost match of the name in quotes, a colon between blanks, and a text up to the next quote. \<open>field_here\<close> is a match at the beginning.
\<close>

fun quoted_text :: "string \<Rightarrow> string option" where
  "quoted_text (c # s) = (if c = QUOTE \<and> QUOTE \<in> set s then Some (takeWhile (\<lambda>x. x \<noteq> QUOTE) s) else None)"
| "quoted_text [] = None"

definition field_here :: "string \<Rightarrow> string \<Rightarrow> string option" where
  "field_here field doc =
     (let name = QUOTE # field @ [QUOTE] in
      if \<not> prefix name doc then None
      else (case dropWhile is_space (drop (length name) doc) of
              [] \<Rightarrow> None
            | c # rest \<Rightarrow> if c = CHR '':'' then quoted_text (dropWhile is_space rest) else None))"

fun field_search :: "string \<Rightarrow> string \<Rightarrow> string option" where
  "field_search field [] = None"
| "field_search field (c # doc) =
     (case field_here field (c # doc) of Some v \<Rightarrow> Some v | None \<Rightarrow> field_search field doc)"

definition parse_json_field :: "string \<Rightarrow> string \<Rightarrow> string" where
  "parse_json_field doc field = (case field_search field doc of Some v \<Rightarrow> v | None \<Rightarrow> [])"

section \<open>The handlers\<close>

type_synonym rest_handler = "HttpRequest \<Rightarrow> HttpResponse \<Rightarrow> fsys \<Rightarrow> (HttpResponse \<times> bool) \<times> fsys"

definition add_cors_headers :: "HttpResponse \<Rightarrow> HttpResponse" where
  "add_cors_headers res =
     setHeader ''Access-Control-Allow-Headers'' ''Content-Type''
       (setHeader ''Access-Control-Allow-Methods'' ''GET, POST, PUT, DELETE, OPTIONS''
         (setHeader ''Access-Control-Allow-Origin'' ''*'' res))"

text \<open>\<^verbatim>\<open>res.setStatus(code); res.json(...)\<close>, and the answer without a status, which leaves 200.\<close>

definition json_status :: "int \<Rightarrow> string \<Rightarrow> HttpResponse \<Rightarrow> HttpResponse" where
  "json_status code text res = json text (setStatus code [] res)"

definition rest_options :: rest_handler where
  "rest_options req res s = ((setStatus 204 [] (add_cors_headers res), False), s)"

fun list_entries :: "fsys \<Rightarrow> string \<Rightarrow> bool \<Rightarrow> string list \<Rightarrow> string + string" where
  "list_entries s dir first_entry [] = Inr []"
| "list_entries s dir first_entry (n # ns) =
     (let p = path_append dir n in
      case fs_is_regular_file s p of
        Inl e \<Rightarrow> Inl e
      | Inr False \<Rightarrow> list_entries s dir first_entry ns
      | Inr True \<Rightarrow>
          (case fs_file_size s p of
             Inl e \<Rightarrow> Inl e
           | Inr sz \<Rightarrow>
               (case fs_mtime s p of
                  None \<Rightarrow> Inl (fs_what s p)
                | Some modified \<Rightarrow>
                    (case list_entries s dir False ns of
                       Inl e \<Rightarrow> Inl e
                     | Inr rest \<Rightarrow> Inr ((if first_entry then [] else '','') @ ''{\"name\":\"'' @ escape_json_string n @ ''\",\"size\":'' @
                    nat_to_string sz @ '',\"modified\":'' @ to_string modified @ ''}'' @ rest)))))"

definition rest_list :: "string \<Rightarrow> rest_handler" where
  "rest_list data_dir req res0 s =
     (let res = add_cors_headers res0 in
      (case (case fs_order s data_dir of None \<Rightarrow> Inl (fs_what s data_dir) | Some names \<Rightarrow> list_entries s data_dir True names) of
         Inl e \<Rightarrow> ((json_status 500 (json_error e) res, False), s)
       | Inr entries \<Rightarrow> ((json (''['' @ entries @ '']'') res, False), s)))"

text \<open>The regular expression of the handlers for one file, on the target of the request.\<close>

definition match_file_re :: "string \<Rightarrow> string option" where
  "match_file_re path =
     (let rest = drop 11 path in
      if take 11 path = ''/api/files/'' \<and> rest \<noteq> [] \<and> SLASH \<notin> set rest then Some rest else None)"

definition file_json :: "string \<Rightarrow> string \<Rightarrow> nat \<Rightarrow> string" where
  "file_json filename content sz =
     ''{\"filename\":\"'' @ escape_json_string filename @ ''\",\"content\":\"'' @ escape_json_string content @ ''\",\"size\":'' @ nat_to_string sz @ ''}''"

definition rest_get :: "string \<Rightarrow> rest_handler" where
  "rest_get data_dir req res0 s =
     (let res = add_cors_headers res0; denied = ((json_status 403 (json_error ''Access denied'') res, False), s) in
      case match_file_re (req_path req) of
        None \<Rightarrow> ((json_status 400 (json_error ''Invalid filename'') res, False), s)
      | Some filename \<Rightarrow>
          if find_str ''..'' filename \<noteq> None \<or> filename = [] \<or> find_char SLASH filename \<noteq> None then denied
          else (case weakly_canonical s (path_append data_dir filename) of
            Inl _ \<Rightarrow> ((res, True), s)
          | Inr norm \<Rightarrow>
              (case weakly_canonical s data_dir of
                 Inl _ \<Rightarrow> ((res, True), s)
               | Inr root \<Rightarrow>
                   let rel = lexically_relative norm root; not_found = ((json_status 404 (json_error ''File not found'') res, False), s) in
                   if rel = [] \<or> prefix ''..'' rel then denied
                   else (case fs_exists s norm of
                     Inl _ \<Rightarrow> ((res, True), s)
                   | Inr False \<Rightarrow> not_found
                   | Inr True \<Rightarrow>
                       (case fs_is_regular_file s norm of
                          Inl _ \<Rightarrow> ((res, True), s)
                        | Inr False \<Rightarrow> not_found
                        | Inr True \<Rightarrow>
                            (case fs_file_size s norm of
                               Inl e \<Rightarrow> ((json_status 500 (json_error e) res, False), s)
                             | Inr sz \<Rightarrow> ((json (file_json filename (ifstream_content s norm) sz) res, False), s)))))))"

definition change_json :: "string \<Rightarrow> nat option \<Rightarrow> string \<Rightarrow> string" where
  "change_json filename sz message =
     ''{\"filename\":\"'' @ escape_json_string filename @ ''\",'' @
     (case sz of None \<Rightarrow> [] | Some n \<Rightarrow> ''\"size\":'' @ nat_to_string n @ '','') @ ''\"message\":\"'' @ message @ ''\"}''"

definition rest_post :: "string \<Rightarrow> rest_handler" where
  "rest_post data_dir req res0 s =
     (let res = add_cors_headers res0;
          filename = parse_json_field (req_body req) ''filename''; content = parse_json_field (req_body req) ''content'' in
      if filename = [] then ((json_status 400 (json_error ''Missing filename'') res, False), s)
      else if find_str ''..'' filename \<noteq> None \<or> find_char SLASH filename \<noteq> None \<or> find_char BACKSLASH filename \<noteq> None
      then ((json_status 400 (json_error ''Invalid filename'') res, False), s)
      else let filepath = path_append data_dir filename in
        case fs_exists s filepath of
          Inl e \<Rightarrow> ((json_status 500 (json_error e) res, False), s)
        | Inr True \<Rightarrow> ((json_status 409 (json_error ''File already exists'') res, False), s)
        | Inr False \<Rightarrow>
            ((json_status 201 (change_json filename (Some (length content)) ''File created successfully'') res, False),
             ofstream_write filepath content s))"

definition rest_put :: "string \<Rightarrow> rest_handler" where
  "rest_put data_dir req res0 s =
     (let res = add_cors_headers res0 in
      case match_file_re (req_path req) of
        None \<Rightarrow> ((json_status 400 (json_error ''Invalid filename'') res, False), s)
      | Some filename \<Rightarrow>
          let content = parse_json_field (req_body req) ''content'';
              caught = (\<lambda>e. ((json_status 500 (json_error e) res, False), s)) in
          (case weakly_canonical s (path_append data_dir filename) of
             Inl e \<Rightarrow> caught e
           | Inr norm \<Rightarrow>
               (case weakly_canonical s data_dir of
                  Inl e \<Rightarrow> caught e
                | Inr root \<Rightarrow>
                    if \<not> prefix root norm then ((json_status 403 (json_error ''Access denied'') res, False), s)
                    else (case fs_exists s norm of
                      Inl e \<Rightarrow> caught e
                    | Inr False \<Rightarrow> ((json_status 404 (json_error ''File not found'') res, False), s)
                    | Inr True \<Rightarrow>
                        ((json (change_json filename (Some (length content)) ''File updated successfully'') res, False),
                         ofstream_write norm content s)))))"

definition rest_delete :: "string \<Rightarrow> rest_handler" where
  "rest_delete data_dir req res0 s =
     (let res = add_cors_headers res0 in
      case match_file_re (req_path req) of
        None \<Rightarrow> ((json_status 400 (json_error ''Invalid filename'') res, False), s)
      | Some filename \<Rightarrow>
          (case weakly_canonical s (path_append data_dir filename) of
             Inl _ \<Rightarrow> ((res, True), s)
           | Inr norm \<Rightarrow>
               (case weakly_canonical s data_dir of
                  Inl _ \<Rightarrow> ((res, True), s)
                | Inr root \<Rightarrow>
                    if \<not> prefix root norm then ((json_status 403 (json_error ''Access denied'') res, False), s)
                    else (case fs_exists s norm of
                      Inl _ \<Rightarrow> ((res, True), s)
                    | Inr False \<Rightarrow> ((json_status 404 (json_error ''File not found'') res, False), s)
                    | Inr True \<Rightarrow>
                        (case fs_remove norm s of
                           (Inl e, s1) \<Rightarrow> ((json_status 500 (json_error e) res, False), s1)
                         | (Inr _, s1) \<Rightarrow> ((json (change_json filename None ''File deleted successfully'') res, False), s1))))))"

definition rest_root :: "string \<Rightarrow> rest_handler" where
  "rest_root page req res s = ((html page (add_cors_headers res), False), s)"

section \<open>The routes\<close>

datatype rest_rx = AnyRx | ListRx | FileRx | RootRx

definition rest_regex :: "string \<Rightarrow> rest_rx option" where
  "rest_regex pattern =
     (if pattern = ''.*'' then Some AnyRx else if pattern = ''^/api/files$'' then Some ListRx
      else if pattern = ''^/api/files/([^/]+)$'' then Some FileRx else if pattern = ''^/$'' then Some RootRx else None)"

fun rest_match :: "rest_rx \<Rightarrow> string \<Rightarrow> smatch option" where
  "rest_match AnyRx path = (if list_all (\<lambda>c. c \<noteq> LF \<and> c \<noteq> CR) path then Some [path] else None)"
| "rest_match ListRx path = (if path = ''/api/files'' then Some [path] else None)"
| "rest_match FileRx path = (case match_file_re path of None \<Rightarrow> None | Some filename \<Rightarrow> Some [path, filename])"
| "rest_match RootRx path = (if path = ''/'' then Some [path] else None)"

definition rest_handlers :: "string \<Rightarrow> string \<Rightarrow> (string \<times> string \<times> rest_handler) list" where
  "rest_handlers data_dir page =
     [(''OPTIONS'', ''.*'', rest_options),
      (''GET'', ''^/api/files$'', rest_list data_dir),
      (''GET'', ''^/api/files/([^/]+)$'', rest_get data_dir),
      (''POST'', ''^/api/files$'', rest_post data_dir),
      (''PUT'', ''^/api/files/([^/]+)$'', rest_put data_dir),
      (''DELETE'', ''^/api/files/([^/]+)$'', rest_delete data_dir),
      (''GET'', ''^/$'', rest_root page)]"

text \<open>The registrations, with the handlers on a given disk.\<close>

fun add_handlers :: "fsys \<Rightarrow> (string \<times> string \<times> rest_handler) list \<Rightarrow> rest_rx HttpServer \<Rightarrow> rest_rx HttpServer option" where
  "add_handlers s [] server = Some server"
| "add_handlers s ((meth, pattern, h) # rest) server =
     (case ms_addRoute rest_regex meth pattern (Some (\<lambda>req res. fst (h req res s))) server of
        None \<Rightarrow> None | Some server1 \<Rightarrow> add_handlers s rest server1)"

text \<open>
  One request: the router's answer, and the disk as the handler it chose leaves it. The handler is chosen as \<^verbatim>\<open>dispatch\<close> chooses it.
\<close>

definition rest_routes :: "string \<Rightarrow> string \<Rightarrow> fsys \<Rightarrow> rest_rx Route list" where
  "rest_routes data_dir page s =
     map (\<lambda>(meth, pattern, h). \<lparr>route_method = meth, path_regex = the (rest_regex pattern), handler = Some (\<lambda>req res. fst (h req res s)),
            handler_with_captures = None, uses_captures = False\<rparr>) (rest_handlers data_dir page)"

definition handler_applies :: "string \<Rightarrow> HttpRequest \<Rightarrow> string \<times> string \<times> rest_handler \<Rightarrow> bool" where
  "handler_applies path req r \<longleftrightarrow> (case r of (meth, pattern, h) \<Rightarrow>
     (meth = ''ALL'' \<or> meth = req_method req) \<and> rest_match (the (rest_regex pattern)) path \<noteq> None)"

definition rest_effect :: "string \<Rightarrow> string \<Rightarrow> HttpRequest \<Rightarrow> fsys \<Rightarrow> fsys" where
  "rest_effect data_dir page req s =
     (if length (route_path req) > MAX_ROUTABLE_PATH then s
      else (case decodePath (route_path req) of
              None \<Rightarrow> s
            | Some path \<Rightarrow>
                (case find (handler_applies path req) (rest_handlers data_dir page) of
                   None \<Rightarrow> s
                 | Some (meth, pattern, h) \<Rightarrow> snd (h req HttpResponse_init s))))"

definition rest_serve :: "string \<Rightarrow> string \<Rightarrow> HttpRequest \<Rightarrow> fsys \<Rightarrow> HttpResponse \<times> fsys" where
  "rest_serve data_dir page req s =
     (dispatch rest_match (rest_routes data_dir page s) req HttpResponse_init, rest_effect data_dir page req s)"

section \<open>main\<close>

record rest_options_record =
  ro_data_dir :: string
  ro_port :: int

definition rest_parse_args :: "string list \<Rightarrow> string + rest_options_record" where
  "rest_parse_args argv =
     (case arg_int argv 2 8080 of
        Inl e \<Rightarrow> Inl e
      | Inr port \<Rightarrow> Inr \<lparr>ro_data_dir = arg_string argv 1 ''data'', ro_port = port\<rparr>)"

text \<open>\<open>made\<close> is the outcome of \<^verbatim>\<open>create_directories\<close>; None is the division by zero in \<^verbatim>\<open>listen\<close>.\<close>

definition rest_main ::
  "(int \<Rightarrow> string) \<Rightarrow> nat \<Rightarrow> string \<Rightarrow> (string + bool) \<Rightarrow> fsys \<Rightarrow> string list \<Rightarrow> host \<Rightarrow> ring \<Rightarrow> (int \<times> host \<times> ring) option" where
  "rest_main strerror hw page made s argv h w =
     (case rest_parse_args argv of
        Inl _ \<Rightarrow> Some (1, h, w)
      | Inr opt \<Rightarrow>
          (case made of
             Inl _ \<Rightarrow> Some (1, h, w)
           | Inr _ \<Rightarrow>
               (case HttpServer_new hw ServerConfig_default h of
                  (Inl _, h1) \<Rightarrow> Some (1, h1, w)
                | (Inr server, h1) \<Rightarrow>
                    (case add_handlers s (rest_handlers (ro_data_dir opt) page) server of
                       None \<Rightarrow> Some (1, HttpServer_destroy server h1 w)
                     | Some server1 \<Rightarrow>
                         serve_until_stopped (ms_listen strerror hw (ro_port opt) server1 h1 w)))))"

section \<open>The routes are registered in this order\<close>

lemma add_handlers_new:
  assumes "HttpServer_new hw cfg h = (Inr server, h1)"
  shows "add_handlers s (rest_handlers data_dir page) server = Some (server\<lparr>ms_router := rest_routes data_dir page s\<rparr>)"
  using new_server[OF assms]
  by (simp add: rest_handlers_def rest_routes_def ms_addRoute_def ms_routesStillAccepted_def addRoute_def rest_regex_def)

lemma find_map: "find P (map f xs) = map_option f (find (P \<circ> f) xs)"
  by (induction xs) auto

lemma rest_serve_chosen:
  assumes path: "decodePath (route_path req) = Some path" "length (route_path req) \<le> MAX_ROUTABLE_PATH"
    and chosen: "find (handler_applies path req) (rest_handlers data_dir page) = Some (meth, pattern, h)"
    and h: "h req HttpResponse_init s = ((res, False), s')"
  shows "rest_serve data_dir page req s = (finish_response res, s')"
proof -
  have eq: "route_applies rest_match path req \<circ> (\<lambda>(meth, pattern, h). \<lparr>route_method = meth, path_regex = the (rest_regex pattern),
      handler = Some (\<lambda>req res. fst (h req res s)), handler_with_captures = None, uses_captures = False\<rparr>) = handler_applies path req"
    by (auto simp: fun_eq_iff route_applies_def handler_applies_def)
  have "dispatch rest_match (rest_routes data_dir page s) req HttpResponse_init = finish_response res"
    using path chosen h
    by (simp add: dispatch_decoded match_routes_find rest_routes_def find_map eq run_handler_def)
  moreover have "rest_effect data_dir page req s = s'" using path chosen h by (simp add: rest_effect_def)
  ultimately show ?thesis by (simp add: rest_serve_def)
qed

section \<open>JSON answers pass the router unchanged\<close>

lemma normalize_loop_id:
  "distinct (map fst (acc @ h)) \<Longrightarrow> lower_keys h \<Longrightarrow> normalize_loop h acc True = (acc @ h, True)"
proof (induction h arbitrary: acc)
  case (Cons x h)
  obtain k v where x: "x = (k, v)" by fastforce
  have "map_of acc k = None" using Cons.prems(1) by (auto simp: x map_of_eq_None_iff)
  moreover have "lowercase k = k" "lower_keys h" using Cons.prems(2) by (auto simp: x lower_keys_def)
  ultimately show ?case using Cons.IH[of "acc @ [x]"] Cons.prems(1) by (simp add: x)
qed simp

lemma normalizeHeaders_id: "hdr_wf (res_headers r) \<Longrightarrow> lower_keys (res_headers r) \<Longrightarrow> normalizeHeaders r = (r, True)"
  using normalize_loop_id[of "[]" "res_headers r"] by (simp add: normalizeHeaders_def hdr_wf_def)

definition tidy_headers :: "HttpResponse \<Rightarrow> bool" where
  "tidy_headers r \<longleftrightarrow> hdr_wf (res_headers r) \<and> lower_keys (res_headers r)"

lemma tidy_simps [simp]:
  "tidy_headers HttpResponse_init" "tidy_headers r \<Longrightarrow> tidy_headers (setHeader n v r)"
  "tidy_headers (setStatus c t r) = tidy_headers r" "tidy_headers r \<Longrightarrow> tidy_headers (add_cors_headers r)"
  by (simp_all add: tidy_headers_def init_wf hdr_wf_setHeader lower_keys_setHeader add_cors_headers_def)

lemma finish_json:
  assumes "tidy_headers r"
  shows "finish_response (json text r) = json text r"
proof -
  have "tidy_headers (json text r)"
    using assms by (simp add: json_def setBody_def setContentType_def tidy_headers_def hdr_wf_setHeader lower_keys_setHeader)
  moreover have "res_getHeader (json text r) ''content-length'' \<noteq> []" "res_getHeader (json text r) ''content-type'' \<noteq> []"
    by (simp_all add: json_def setBody_def setContentType_def getHeader_setHeader) (simp add: res_getHeader_def read_header_def map_of_setHeader)
  ultimately show ?thesis
    by (simp add: finish_response_def normalizeHeaders_id tidy_headers_def fallback_to_default_headers_def)
qed

section \<open>Every exit is clean\<close>

lemma rest_main_clean:
  assumes "rest_main strerror hw page made s argv h w = Some (code, h', w')"
  shows "exits_clean h w h' w'"
proof (cases "rest_parse_args argv = Inl ''stoi'' \<or> (\<exists>e. made = Inl e)")
  case False
  then obtain opt b where opt: "rest_parse_args argv = Inr opt" "made = Inr b"
    by (cases made) (auto simp: rest_parse_args_def arg_int_def stoi_def Let_def split: sum.splits if_splits prod.splits)
  obtain r :: "exn + rest_rx HttpServer" and h1 where n: "HttpServer_new hw ServerConfig_default h = (r, h1)" by fastforce
  show ?thesis
  proof (cases r)
    case (Inl e)
    with assms opt n show ?thesis by (auto simp: rest_main_def nothing_clean dest: failed_new)
  next
    case (Inr server)
    note n = n[unfolded Inr]
    let ?listened = "ms_listen strerror hw (ro_port opt) (server\<lparr>ms_router := rest_routes (ro_data_dir opt) page s\<rparr>) h1 w"
    have "serve_until_stopped ?listened = Some (code, h', w')" using assms opt n add_handlers_new[OF n] by (simp add: rest_main_def)
    then show ?thesis by (rule serve_clean) (rule ms_step_inv[OF ms_step.Listen new_server_inv[OF n]])
  qed
qed (use assms in \<open>auto simp: rest_main_def nothing_clean split: sum.splits\<close>)

end
