(* ===== verification/Rest_Store.thy ===== *)
theory Rest_Store
  imports Rest_Api
begin

text \<open>
  What the file-management server promises its clients: a store that maps names to contents, with four calls on it. A locale states what it is for a server of requests to implement a
  specification of calls, one request after the other; it is interpreted on the handlers of \<open>Rest_Api\<close> behind the router. The other lemmas are about the JSON helpers and about the test the handlers make
  before they change a file.
\<close>

section \<open>Requests that implement calls\<close>

fun serve_all :: "('q \<Rightarrow> 's \<Rightarrow> 'r \<times> 's) \<Rightarrow> 'q list \<Rightarrow> 's \<Rightarrow> 'r list \<times> 's" where
  "serve_all serve [] s = ([], s)"
| "serve_all serve (q # qs) s =
     (let (r, s1) = serve q s; (rs, s2) = serve_all serve qs s1 in (r # rs, s2))"

locale served_calls =
  fixes serve :: "'q \<Rightarrow> 's \<Rightarrow> 'r \<times> 's" and spec :: "'c \<Rightarrow> 'a \<Rightarrow> 'o \<times> 'a"
    and asks :: "'q \<Rightarrow> 'c \<Rightarrow> bool" and view :: "'r \<Rightarrow> 'o" and inv :: "'s \<Rightarrow> bool" and abs :: "'s \<Rightarrow> 'a"
  assumes simulates: "inv s \<Longrightarrow> asks q c \<Longrightarrow> serve q s = (r, s') \<Longrightarrow> inv s' \<and> spec c (abs s) = (view r, abs s')"
begin

lemma serve_all_refines:
  assumes "list_all2 asks qs cs" "inv s" "serve_all serve qs s = (rs, s')"
  shows "inv s' \<and> serve_all spec cs (abs s) = (map view rs, abs s')"
  using assms
proof (induction arbitrary: s rs rule: list_all2_induct)
  case (Cons q qs c cs)
  obtain r s1 where r: "serve q s = (r, s1)" by fastforce
  obtain rs1 where rs: "serve_all serve qs s1 = (rs1, s')" "rs = r # rs1"
    using Cons.prems(2) r by (auto split: prod.splits)
  from simulates[OF Cons.prems(1) Cons.hyps(1) r] Cons.IH[OF _ rs(1)] rs(2) show ?case by simp
qed simp

end

section \<open>The store\<close>

type_synonym store = "string \<Rightarrow> string option"

datatype api_call = Read string | Create string string | Update string string | Delete string

definition not_found :: "int \<times> string" where "not_found = (404, json_error ''File not found'')"

fun api_spec :: "api_call \<Rightarrow> store \<Rightarrow> (int \<times> string) \<times> store" where
  "api_spec (Read n) st = (case st n of None \<Rightarrow> not_found | Some c \<Rightarrow> (200, file_json n c (length c)), st)"
| "api_spec (Create n c) st =
     (case st n of
        None \<Rightarrow> ((201, change_json n (Some (length c)) ''File created successfully''), st(n \<mapsto> c))
      | Some _ \<Rightarrow> ((409, json_error ''File already exists''), st))"
| "api_spec (Update n c) st =
     (case st n of
        None \<Rightarrow> (not_found, st)
      | Some _ \<Rightarrow> ((200, change_json n (Some (length c)) ''File updated successfully''), st(n \<mapsto> c)))"
| "api_spec (Delete n) st =
     (case st n of
        None \<Rightarrow> (not_found, st)
      | Some _ \<Rightarrow> ((200, change_json n None ''File deleted successfully''), st(n := None)))"

text \<open>
  Names the server takes as they are: one element of a path, nothing the router would decode or cut off, and short enough for it.
\<close>

definition plain_name :: "string \<Rightarrow> bool" where
  "plain_name n \<longleftrightarrow> n \<noteq> [] \<and> n \<noteq> ''.'' \<and> find_str ''..'' n = None \<and> length n \<le> 2000 \<and>
     SLASH \<notin> set n \<and> BACKSLASH \<notin> set n \<and> CHR ''?'' \<notin> set n \<and> CHR ''%'' \<notin> set n"

fun asks :: "HttpRequest \<Rightarrow> api_call \<Rightarrow> bool" where
  "asks req (Read n) = (req_method req = ''GET'' \<and> req_path req = ''/api/files/'' @ n \<and> plain_name n)"
| "asks req (Create n c) = (req_method req = ''POST'' \<and> req_path req = ''/api/files'' \<and> plain_name n \<and>
     parse_json_field (req_body req) ''filename'' = n \<and> parse_json_field (req_body req) ''content'' = c)"
| "asks req (Update n c) = (req_method req = ''PUT'' \<and> req_path req = ''/api/files/'' @ n \<and> plain_name n \<and>
     parse_json_field (req_body req) ''content'' = c)"
| "asks req (Delete n) = (req_method req = ''DELETE'' \<and> req_path req = ''/api/files/'' @ n \<and> plain_name n)"

definition answer_view :: "HttpResponse \<Rightarrow> int \<times> string" where
  "answer_view r = (status_code r, res_body r)"

text \<open>
  A data directory the server has to itself: it resolves to \<open>root\<close>, the names in it are no links, what is there are regular files, and the process may read, write and remove them.
\<close>

definition data_dir_ok :: "string \<Rightarrow> string \<Rightarrow> fsys \<Rightarrow> bool" where
  "data_dir_ok data_dir root s \<longleftrightarrow> fs_canonical s data_dir = Some root \<and> path_is_absolute root \<and> no_dots root \<and>
     (\<forall>n. plain_name n \<longrightarrow> (let p = path_append root n in
        fs_canonical s (path_append data_dir n) = Some p \<and> fs_canonical s p = Some p \<and>
        fs_may_read s p \<and> fs_may_write s p \<and> fs_may_remove s p \<and> (fs_node s p = None \<or> is_regular (fs_node s p))))"

definition stored_files :: "string \<Rightarrow> fsys \<Rightarrow> store" where
  "stored_files root s n =
     (if plain_name n then (case fs_node s (path_append root n) of Some (RegularFile c) \<Rightarrow> Some c | _ \<Rightarrow> None) else None)"

section \<open>The handlers on such a directory\<close>

lemma data_dir_root: "data_dir_ok data_dir root s \<Longrightarrow> fs_canonical s data_dir = Some root \<and> path_is_absolute root \<and> no_dots root"
  by (simp add: data_dir_ok_def)

lemma data_dir_name:
  assumes "data_dir_ok data_dir root s" "plain_name n"
  shows "fs_canonical s (path_append data_dir n) = Some (path_append root n)" "fs_canonical s (path_append root n) = Some (path_append root n)"
    "fs_may_read s (path_append root n)" "fs_may_write s (path_append root n)" "fs_may_remove s (path_append root n)"
    "fs_node s (path_append root n) = None \<or> is_regular (fs_node s (path_append root n))"
  using assms unfolding data_dir_ok_def Let_def by blast+

lemma plain_name_element: "plain_name n \<Longrightarrow> n \<noteq> [] \<and> SLASH \<notin> set n \<and> \<not> path_is_absolute n"
  by (cases n) (auto simp: plain_name_def path_is_absolute_def)

lemma stored_node:
  assumes "data_dir_ok data_dir root s" "plain_name n"
  shows "fs_node s (path_append root n) = map_option RegularFile (stored_files root s n)"
  using data_dir_name(6)[OF assms] assms(2) by (auto simp: stored_files_def is_regular_def split: option.splits node.splits)

lemma data_dir_child:
  assumes "data_dir_ok data_dir root s" "plain_name n"
  shows "weakly_canonical s data_dir = Inr root" "weakly_canonical s (path_append data_dir n) = Inr (path_append root n)"
    "weakly_canonical s (path_append root n) = Inr (path_append root n)"
    "lexically_relative (path_append root n) root = n" "prefix root (path_append root n)"
  using data_dir_root[OF assms(1)] data_dir_name[OF assms] plain_name_element[OF assms(2)]
    relative_child[of root n] path_append_prefix[of root n]
  by (auto simp: weakly_canonical_def path_is_absolute_def)

lemma change_node:
  assumes ok: "data_dir_ok data_dir root s" and n: "plain_name n" and v: "v = None \<or> is_regular v"
    and s': "s' = s\<lparr>fs_node := (fs_node s)(path_append root n := v)\<rparr>"
  shows "data_dir_ok data_dir root s'" (is ?A)
    and "stored_files root s' = (stored_files root s)(n := (case v of Some (RegularFile c) \<Rightarrow> Some c | _ \<Rightarrow> None))" (is ?B)
proof -
  show ?A unfolding data_dir_ok_def Let_def
  proof (intro conjI allI impI)
    fix m assume "plain_name m"
    from data_dir_name[OF ok this] v show
      "fs_canonical s' (path_append data_dir m) = Some (path_append root m)" "fs_canonical s' (path_append root m) = Some (path_append root m)"
      "fs_may_read s' (path_append root m)" "fs_may_write s' (path_append root m)" "fs_may_remove s' (path_append root m)"
      "fs_node s' (path_append root m) = None \<or> is_regular (fs_node s' (path_append root m))"
      by (simp_all add: s')
  qed (use data_dir_root[OF ok] in \<open>simp_all add: s'\<close>)
  have "m = n" if "plain_name m" "path_append root m = path_append root n" for m
    using that data_dir_root[OF ok] plain_name_element n by (blast intro: path_append_inj)
  then show ?B using n by (auto simp: s' stored_files_def fun_eq_iff)
qed

text \<open>What the calls of the file system see of a stored file.\<close>

lemma stored_status:
  assumes "data_dir_ok data_dir root s" "plain_name n"
  shows "fs_status s (path_append root n) = Inr (map_option RegularFile (stored_files root s n))"
    "fs_status s (path_append data_dir n) = Inr (map_option RegularFile (stored_files root s n))"
  using data_dir_child[OF assms] stored_node[OF assms] by (simp_all add: fs_status_def)

lemma write_stored:
  assumes ok: "data_dir_ok data_dir root s" and n: "plain_name n" and p: "p = path_append root n \<or> p = path_append data_dir n"
  shows "data_dir_ok data_dir root (ofstream_write p c s) \<and> stored_files root (ofstream_write p c s) = (stored_files root s)(n \<mapsto> c)"
proof -
  have "ofstream_write p c s = s\<lparr>fs_node := (fs_node s)(path_append root n := Some (RegularFile c))\<rparr>"
    using p data_dir_child[OF ok n] data_dir_name(4,6)[OF ok n] by (auto simp: ofstream_write_def)
  then show ?thesis using change_node[OF ok n, of "Some (RegularFile c)"] by (auto simp: is_regular_def)
qed

lemma remove_stored:
  assumes ok: "data_dir_ok data_dir root s" and n: "plain_name n" and st: "stored_files root s n = Some c"
  shows "\<exists>s'. fs_remove (path_append root n) s = (Inr True, s') \<and> data_dir_ok data_dir root s' \<and>
    stored_files root s' = (stored_files root s)(n := None)"
proof -
  have "fs_remove (path_append root n) s = (Inr True, s\<lparr>fs_node := (fs_node s)(path_append root n := None)\<rparr>)"
    using stored_status(1)[OF ok n] data_dir_child(3)[OF ok n] data_dir_name(5)[OF ok n] st by (simp add: fs_remove_def)
  then show ?thesis using change_node[OF ok n, of None] by auto
qed

text \<open>A handler's answer as the client sees it.\<close>

lemma json_view:
  "answer_view (finish_response (json_status code t (add_cors_headers HttpResponse_init))) = (code, t)"
  "answer_view (finish_response (json t (add_cors_headers HttpResponse_init))) = (200, t)"
  by (simp_all add: json_status_def finish_json) (simp_all add: answer_view_def json_def setContentType_def add_cors_headers_def HttpResponse_init_def)

lemma match_file_plain: "plain_name n \<Longrightarrow> match_file_re (''/api/files/'' @ n) = Some n"
  by (simp add: match_file_re_def plain_name_def)

definition handler_refines :: "string \<Rightarrow> string \<Rightarrow> api_call \<Rightarrow> fsys \<Rightarrow> (HttpResponse \<times> bool) \<times> fsys \<Rightarrow> bool" where
  "handler_refines data_dir root call s r \<longleftrightarrow> (case r of ((res, threw), s') \<Rightarrow>
     \<not> threw \<and> data_dir_ok data_dir root s' \<and>
     api_spec call (stored_files root s) = (answer_view (finish_response res), stored_files root s'))"

lemmas file_ops = fs_exists_def fs_is_regular_file_def is_regular_def fs_file_size_def

lemma rest_get_refines:
  assumes ok: "data_dir_ok data_dir root s" and a: "asks req (Read n)"
  shows "handler_refines data_dir root (Read n) s (rest_get data_dir req HttpResponse_init s)"
proof -
  have n: "plain_name n" and p: "req_path req = ''/api/files/'' @ n" using a by simp_all
  have "SLASH \<notin> set n" "find_str ''..'' n = None" "n \<noteq> []" using n by (simp_all add: plain_name_def)
  moreover from this have "\<not> prefix ''..'' n" by (cases n) (auto split: if_splits)
  ultimately have pass: "rest_get data_dir req HttpResponse_init s =
      (case stored_files root s n of
         None \<Rightarrow> ((json_status 404 (json_error ''File not found'') (add_cors_headers HttpResponse_init), False), s)
       | Some c \<Rightarrow> ((json (file_json n c (length c)) (add_cors_headers HttpResponse_init), False), s))"
    using data_dir_child[OF ok n] stored_status[OF ok n] stored_node[OF ok n] data_dir_name(3)[OF ok n] match_file_plain[OF n]
    by (cases "stored_files root s n")
       (simp_all add: rest_get_def p find_char_None file_ops ifstream_content_def Let_def)
  show ?thesis unfolding pass
    by (cases "stored_files root s n") (simp_all add: handler_refines_def ok json_view not_found_def)
qed

lemma rest_post_refines:
  assumes ok: "data_dir_ok data_dir root s" and a: "asks req (Create n c)"
  shows "handler_refines data_dir root (Create n c) s (rest_post data_dir req HttpResponse_init s)"
proof -
  have n: "plain_name n" and b: "parse_json_field (req_body req) ''filename'' = n" "parse_json_field (req_body req) ''content'' = c" using a by simp_all
  have "rest_post data_dir req HttpResponse_init s =
      (case stored_files root s n of
         None \<Rightarrow> ((json_status 201 (change_json n (Some (length c)) ''File created successfully'') (add_cors_headers HttpResponse_init), False),
                  ofstream_write (path_append data_dir n) c s)
       | Some _ \<Rightarrow> ((json_status 409 (json_error ''File already exists'') (add_cors_headers HttpResponse_init), False), s))"
    using n stored_status[OF ok n]
    by (cases "stored_files root s n") (simp_all add: rest_post_def b plain_name_def find_char_None file_ops Let_def)
  then show ?thesis
    using write_stored[OF ok n, of "path_append data_dir n" c]
    by (cases "stored_files root s n") (simp_all add: handler_refines_def ok json_view)
qed

lemma rest_put_refines:
  assumes ok: "data_dir_ok data_dir root s" and a: "asks req (Update n c)"
  shows "handler_refines data_dir root (Update n c) s (rest_put data_dir req HttpResponse_init s)"
proof -
  have n: "plain_name n" and p: "req_path req = ''/api/files/'' @ n" "parse_json_field (req_body req) ''content'' = c" using a by simp_all
  have "rest_put data_dir req HttpResponse_init s =
      (case stored_files root s n of
         None \<Rightarrow> ((json_status 404 (json_error ''File not found'') (add_cors_headers HttpResponse_init), False), s)
       | Some _ \<Rightarrow> ((json (change_json n (Some (length c)) ''File updated successfully'') (add_cors_headers HttpResponse_init), False),
                  ofstream_write (path_append root n) c s))"
    using data_dir_child[OF ok n] stored_status[OF ok n] match_file_plain[OF n]
    by (cases "stored_files root s n") (simp_all add: rest_put_def p file_ops Let_def)
  then show ?thesis
    using write_stored[OF ok n, of "path_append root n" c]
    by (cases "stored_files root s n") (simp_all add: handler_refines_def ok json_view not_found_def)
qed

lemma rest_delete_refines:
  assumes ok: "data_dir_ok data_dir root s" and a: "asks req (Delete n)"
  shows "handler_refines data_dir root (Delete n) s (rest_delete data_dir req HttpResponse_init s)"
proof (cases "stored_files root s n")
  have n: "plain_name n" and p: "req_path req = ''/api/files/'' @ n" using a by simp_all
  note facts = data_dir_child[OF ok n] stored_status[OF ok n] match_file_plain[OF n]
  {
    case None
    then show ?thesis using facts by (simp add: rest_delete_def p file_ops Let_def handler_refines_def ok json_view not_found_def)
  next
    case (Some c)
    obtain s' where "fs_remove (path_append root n) s = (Inr True, s')" "data_dir_ok data_dir root s'"
        "stored_files root s' = (stored_files root s)(n := None)"
      using remove_stored[OF ok n Some] by blast
    with Some facts show ?thesis by (simp add: rest_delete_def p file_ops Let_def handler_refines_def json_view)
  }
qed

section \<open>Behind the router\<close>

fun call_handler :: "string \<Rightarrow> api_call \<Rightarrow> rest_handler" where
  "call_handler data_dir (Read n) = rest_get data_dir"
| "call_handler data_dir (Create n c) = rest_post data_dir"
| "call_handler data_dir (Update n c) = rest_put data_dir"
| "call_handler data_dir (Delete n) = rest_delete data_dir"

lemma call_refines:
  "data_dir_ok data_dir root s \<Longrightarrow> asks req call \<Longrightarrow>
   handler_refines data_dir root call s (call_handler data_dir call req HttpResponse_init s)"
  by (cases call) (simp_all add: rest_get_refines rest_post_refines rest_put_refines rest_delete_refines del: asks.simps)

lemma asks_path:
  assumes "asks req call"
  shows "route_path req = req_path req \<and> decodePath (req_path req) = Some (req_path req) \<and> length (req_path req) \<le> MAX_ROUTABLE_PATH"
proof -
  have "CHR ''?'' \<notin> set (req_path req)" "CHR ''%'' \<notin> set (req_path req)" "length (req_path req) \<le> MAX_ROUTABLE_PATH"
    using assms by (cases call; auto simp: plain_name_def MAX_ROUTABLE_PATH_def)+
  moreover from this(1) have "route_path req = req_path req"
    unfolding route_path_def by (subst takeWhile_eq_all_conv) auto
  ultimately show ?thesis by (simp add: decodePath_plain)
qed

lemma asks_chosen:
  assumes "asks req call"
  shows "\<exists>meth pattern. find (handler_applies (req_path req) req) (rest_handlers data_dir page) = Some (meth, pattern, call_handler data_dir call)"
  using assms by (cases call) (auto simp: rest_handlers_def handler_applies_def rest_regex_def match_file_plain[simplified])

interpretation files: served_calls "rest_serve data_dir page" api_spec asks answer_view "data_dir_ok data_dir root" "stored_files root"
  for data_dir page root
proof
  fix s q c r s'
  assume ok: "data_dir_ok data_dir root s" and a: "asks q c" and sv: "rest_serve data_dir page q s = (r, s')"
  obtain res threw s1 where h: "call_handler data_dir c q HttpResponse_init s = ((res, threw), s1)" by (metis prod.exhaust)
  from call_refines[OF ok a] h have ref: "\<not> threw" "data_dir_ok data_dir root s1"
      "api_spec c (stored_files root s) = (answer_view (finish_response res), stored_files root s1)"
    by (simp_all add: handler_refines_def)
  obtain meth pattern where ch: "find (handler_applies (req_path q) q) (rest_handlers data_dir page) = Some (meth, pattern, call_handler data_dir c)"
    using asks_chosen[OF a] by blast
  have "rest_serve data_dir page q s = (finish_response res, s1)"
    using asks_path[OF a] h ref(1) by (intro rest_serve_chosen[OF _ _ ch]) simp_all
  with sv ref show "data_dir_ok data_dir root s' \<and> api_spec c (stored_files root s) = (answer_view r, stored_files root s')" by simp
qed

section \<open>Fields of a JSON text\<close>

text \<open>The bodies the server documents for its clients.\<close>

definition create_body :: "string \<Rightarrow> string \<Rightarrow> string" where
  "create_body n c = ''{\"filename\":\"'' @ n @ ''\",\"content\":\"'' @ c @ ''\"}''"

definition update_body :: "string \<Rightarrow> string" where
  "update_body c = ''{\"content\":\"'' @ c @ ''\"}''"

lemma field_search_skip: "QUOTE \<notin> set a \<Longrightarrow> field_search field (a @ b) = field_search field b"
proof (induction a)
  case (Cons x a)
  then have "field_here field (x # a @ b) = None" by (simp add: field_here_def)
  with Cons show ?case by simp
qed simp

lemma quoted_text_here: "quoted_text (QUOTE # c @ QUOTE # r) = Some (takeWhile (\<lambda>x. x \<noteq> QUOTE) c)"
proof -
  have "takeWhile (\<lambda>x. x \<noteq> QUOTE) (c @ QUOTE # r) = takeWhile (\<lambda>x. x \<noteq> QUOTE) c" by (induction c) simp_all
  then show ?thesis by simp
qed

lemma quoted_prefix:
  assumes "QUOTE \<notin> set f" "QUOTE \<notin> set g"
  shows "prefix (f @ [QUOTE]) (g @ QUOTE # r) \<longleftrightarrow> f = g"
proof
  assume "prefix (f @ [QUOTE]) (g @ QUOTE # r)"
  then obtain t where "g @ QUOTE # r = f @ QUOTE # t" by (auto simp: prefix_def)
  moreover have "takeWhile (\<lambda>x. x \<noteq> QUOTE) (h @ QUOTE # u) = h" if "QUOTE \<notin> set h" for h u
    using that by (induction h) auto
  ultimately show "f = g" using assms by metis
qed simp

lemma field_here_hit: "field_here f (QUOTE # f @ QUOTE # CHR '':'' # QUOTE # c @ QUOTE # r) = Some (takeWhile (\<lambda>x. x \<noteq> QUOTE) c)"
proof -
  have "\<not> is_space (CHR '':'')" "\<not> is_space QUOTE" by (simp_all add: is_space_def byte_def QUOTE_def)
  then show ?thesis by (simp add: field_here_def Let_def quoted_text_here del: quoted_text.simps)
qed

lemma field_search_hit: "field_search f (QUOTE # f @ QUOTE # CHR '':'' # QUOTE # c @ QUOTE # r) = Some (takeWhile (\<lambda>x. x \<noteq> QUOTE) c)"
  by (simp only: field_search.simps field_here_hit option.case)

lemma field_search_other:
  assumes "QUOTE \<notin> set f" "QUOTE \<notin> set g" "f \<noteq> g \<or> (\<exists>d r'. r = d # r' \<and> d \<noteq> CHR '':'' \<and> \<not> is_space d)"
  shows "field_search f (QUOTE # g @ QUOTE # r) = field_search f (QUOTE # r)"
proof -
  have "field_here f (QUOTE # g @ QUOTE # r) = None"
    using assms quoted_prefix[OF assms(1,2), of r] by (auto simp: field_here_def Let_def)
  then show ?thesis using field_search_skip[OF assms(2)] by (simp only: field_search.simps option.case)
qed

lemma update_body_content: "parse_json_field (update_body c) ''content'' = takeWhile (\<lambda>x. x \<noteq> QUOTE) c"
proof -
  have "update_body c = ''{'' @ QUOTE # ''content'' @ QUOTE # CHR '':'' # QUOTE # c @ QUOTE # ''}''" by (simp add: update_body_def QUOTE_def)
  moreover have "QUOTE \<notin> set ''{''" by (simp add: QUOTE_def)
  from field_search_skip[OF this] have "field_search f (''{'' @ b) = field_search f b" for f b .
  ultimately show ?thesis by (simp only: parse_json_field_def field_search_hit option.case)
qed

lemma create_body_fields:
  assumes "QUOTE \<notin> set n"
  shows "parse_json_field (create_body n c) ''filename'' = n" "parse_json_field (create_body n c) ''content'' = takeWhile (\<lambda>x. x \<noteq> QUOTE) c"
proof -
  define rest where "rest = QUOTE # ''content'' @ QUOTE # CHR '':'' # QUOTE # c @ QUOTE # ''}''"
  have body: "create_body n c = ''{'' @ QUOTE # ''filename'' @ QUOTE # CHR '':'' # QUOTE # n @ QUOTE # CHR '','' # rest"
    by (simp add: create_body_def QUOTE_def rest_def)
  have q: "QUOTE \<notin> set ''{''" "QUOTE \<notin> set ''filename''" "QUOTE \<notin> set ''content''" "QUOTE \<notin> set [CHR '':'']" "QUOTE \<notin> set [CHR '','']"
    "\<not> is_space (CHR '','')"
    by (simp_all add: QUOTE_def is_space_def byte_def)
  have "takeWhile (\<lambda>x. x \<noteq> QUOTE) n = n" using assms by (subst takeWhile_eq_all_conv) auto
  then show "parse_json_field (create_body n c) ''filename'' = n"
    by (simp only: body parse_json_field_def field_search_skip[OF q(1)] field_search_hit option.case)
  have "field_search ''content'' (create_body n c) = field_search ''content'' (QUOTE # CHR '':'' # QUOTE # n @ QUOTE # CHR '','' # rest)"
    using field_search_other[OF q(3,2), of "CHR '':'' # QUOTE # n @ QUOTE # CHR '','' # rest"] field_search_skip[OF q(1)]
    by (simp add: body del: field_search.simps)
  also have "\<dots> = field_search ''content'' (QUOTE # n @ QUOTE # CHR '','' # rest)"
    using field_search_other[OF q(3,4), of "n @ QUOTE # CHR '','' # rest"] by (simp del: field_search.simps)
  also have "\<dots> = field_search ''content'' (QUOTE # CHR '','' # rest)"
    using field_search_other[OF q(3) assms, of "CHR '','' # rest"] q(6) by (simp del: field_search.simps)
  also have "\<dots> = field_search ''content'' rest"
    using field_search_other[OF q(3,5), of "tl rest"] by (simp add: rest_def del: field_search.simps)
  finally show "parse_json_field (create_body n c) ''content'' = takeWhile (\<lambda>x. x \<noteq> QUOTE) c"
    by (simp only: parse_json_field_def rest_def field_search_hit option.case)
qed

text \<open>
  What comes back from the server as a JSON string, read as RFC 8259 has it: a quote ends the string and is not part of it, and a control character must be escaped.
\<close>

definition escape_value :: "char \<Rightarrow> char option" where
  "escape_value d =
     (if d = QUOTE then Some QUOTE else if d = BACKSLASH then Some BACKSLASH else if d = CHR ''n'' then Some LF
      else if d = CHR ''r'' then Some CR else if d = CHR ''t'' then Some HTAB else None)"

fun unescape_json :: "string \<Rightarrow> string option" where
  "unescape_json [] = Some []"
| "unescape_json [c] = (if c = QUOTE \<or> c = BACKSLASH \<or> byte c < 32 then None else Some [c])"
| "unescape_json (c # d # s) =
     (if c = BACKSLASH
      then (case (escape_value d, unescape_json s) of (Some x, Some t) \<Rightarrow> Some (x # t) | _ \<Rightarrow> None)
      else if c = QUOTE \<or> byte c < 32 then None
      else map_option (Cons c) (unescape_json (d # s)))"

definition json_printable :: "char \<Rightarrow> bool" where
  "json_printable c \<longleftrightarrow> 32 \<le> byte c \<or> c = LF \<or> c = CR \<or> c = HTAB"

lemma unescape_plain:
  "c \<noteq> BACKSLASH \<Longrightarrow> unescape_json (c # s) = (if c = QUOTE \<or> byte c < 32 then None else map_option (Cons c) (unescape_json s))"
  by (cases s) auto

lemma unescape_escaped:
  "unescape_json (escape_json_char c @ s) = (if json_printable c then map_option (Cons c) (unescape_json s) else None)"
proof (cases "escape_json_char c = [c]")
  case True
  then have "c \<noteq> QUOTE" "c \<noteq> BACKSLASH" "c \<noteq> LF" "c \<noteq> CR" "c \<noteq> HTAB"
    by (auto simp: escape_json_char_def QUOTE_def BACKSLASH_def split: if_splits)
  with True show ?thesis by (simp add: unescape_plain json_printable_def)
next
  case False
  then have "c = QUOTE \<or> c = BACKSLASH \<or> c = LF \<or> c = CR \<or> c = HTAB" by (auto simp: escape_json_char_def split: if_splits)
  then show ?thesis
    by (auto simp: escape_json_char_def escape_value_def json_printable_def QUOTE_def BACKSLASH_def byte_def split: option.splits)
qed

text \<open>The text that reaches a file is what the client wrote between the quotes, up to the first quote, escapes and all.\<close>

lemma backslashes_grow: "replicate (Suc k) BACKSLASH @ takeWhile (\<lambda>x. x \<noteq> QUOTE) (escape_json_string c) \<noteq> c"
proof (induction c arbitrary: k)
  case (Cons x c)
  show ?case
  proof
    assume eq: "replicate (Suc k) BACKSLASH @ takeWhile (\<lambda>x. x \<noteq> QUOTE) (escape_json_string (x # c)) = x # c"
    then have x: "x = BACKSLASH" by simp
    then have "escape_json_string (x # c) = BACKSLASH # BACKSLASH # escape_json_string c"
      by (simp add: escape_json_string_def escape_json_char_def QUOTE_def BACKSLASH_def)
    with eq have "replicate k BACKSLASH @ BACKSLASH # BACKSLASH # takeWhile (\<lambda>x. x \<noteq> QUOTE) (escape_json_string c) = c"
      by (auto simp: QUOTE_def BACKSLASH_def)
    then have "replicate (Suc (Suc k)) BACKSLASH @ takeWhile (\<lambda>x. x \<noteq> QUOTE) (escape_json_string c) = c"
      by (simp add: replicate_app_Cons_same)
    with Cons.IH show False by blast
  qed
qed simp

lemma content_kept_iff_plain:
  "parse_json_field (update_body (escape_json_string c)) ''content'' = c \<longleftrightarrow> list_all (\<lambda>x. escape_json_char x = [x]) c"
proof -
  have "takeWhile (\<lambda>x. x \<noteq> QUOTE) (escape_json_string c) = c \<longleftrightarrow> list_all (\<lambda>x. escape_json_char x = [x]) c"
  proof (induction c)
    case (Cons x c)
    show ?case
    proof (cases "escape_json_char x = [x]")
      case True
      then have "x \<noteq> QUOTE" by (auto simp: escape_json_char_def)
      with True Cons show ?thesis by (simp add: escape_json_string_def)
    next
      case False
      then have "\<exists>y. escape_json_char x = [BACKSLASH, y]" "x = BACKSLASH \<Longrightarrow> escape_json_char x = [BACKSLASH, BACKSLASH]"
        by (auto simp: escape_json_char_def QUOTE_def BACKSLASH_def split: if_splits)
      then have "takeWhile (\<lambda>x. x \<noteq> QUOTE) (escape_json_string (x # c)) \<noteq> x # c"
        using backslashes_grow[of 0 c] by (auto simp: escape_json_string_def QUOTE_def BACKSLASH_def)
      with False show ?thesis by simp
    qed
  qed (simp add: escape_json_string_def)
  then show ?thesis by (simp add: update_body_content)
qed

section \<open>Properties\<close>


text \<open>An empty data directory, reached by a relative name.\<close>

definition demo_disk :: fsys where
  "demo_disk = \<lparr>fs_node = \<lambda>p. if p = ''/srv/data'' then Some Directory else None,
     fs_canonical = \<lambda>p. if take 4 p = ''data'' then Some (''/srv/'' @ p) else Some p,
     fs_order = \<lambda>_. None, fs_mtime = \<lambda>_. Some 0, fs_may_read = \<lambda>_. True, fs_may_write = \<lambda>_. True, fs_may_remove = \<lambda>_. True, fs_what = \<lambda>p. p\<rparr>"

definition api_request :: "string \<Rightarrow> string \<Rightarrow> string \<Rightarrow> HttpRequest" where
  "api_request meth path body = \<lparr>req_method = meth, req_path = path, req_version = ''HTTP/1.1'', req_headers = [], req_body = body\<rparr>"

definition demo_requests :: "HttpRequest list" where
  "demo_requests =
     [api_request ''POST'' ''/api/files'' (create_body ''a.txt'' ''hi''), api_request ''GET'' ''/api/files/a.txt'' [],
      api_request ''POST'' ''/api/files'' (create_body ''a.txt'' ''ho''), api_request ''PUT'' ''/api/files/a.txt'' (update_body ''bye''),
      api_request ''GET'' ''/api/files/a.txt'' [], api_request ''DELETE'' ''/api/files/a.txt'' [], api_request ''GET'' ''/api/files/a.txt'' []]"

definition demo_calls :: "api_call list" where
  "demo_calls = [Create ''a.txt'' ''hi'', Read ''a.txt'', Create ''a.txt'' ''ho'', Update ''a.txt'' ''bye'', Read ''a.txt'', Delete ''a.txt'', Read ''a.txt'']"

lemma demo_disk_ok: "data_dir_ok ''data'' ''/srv/data'' demo_disk"
proof -
  have "path_is_absolute ''/srv/data''" "no_dots ''/srv/data''" by code_simp+
  moreover have p: "path_append ''/srv/data'' n = ''/srv/data/'' @ n \<and> path_append ''data'' n = ''data/'' @ n" if "plain_name n" for n
    using plain_name_element[OF that] by (simp add: path_append_def SLASH_def)
  ultimately show ?thesis by (simp add: data_dir_ok_def demo_disk_def Let_def)
qed

lemma demo_asks: "list_all2 asks demo_requests demo_calls"
proof -
  have "plain_name ''a.txt''" "QUOTE \<notin> set ''a.txt''" by code_simp+
  then show ?thesis
    by (simp add: demo_requests_def demo_calls_def api_request_def create_body_fields update_body_content) (simp add: QUOTE_def)
qed


text \<open>
  A JSON reader gets back from an escaped string the string that was escaped, except when it has a control character other than newline, carriage return and tab in it: those are left as they are, and then
  what the server sends is no JSON.
\<close>

lemma escape_json_roundtrip:
  "unescape_json (escape_json_string str) = (if list_all json_printable str then Some str else None)"
  by (induction str) (simp_all add: escape_json_string_def unescape_escaped)

section \<open>Whatever the request\<close>

text \<open>
  A request changes at most one file, and it is the one that a name of one element in the data directory resolves to; only creations, updates and deletions change anything. Names are resolved as in Static\_Site.
\<close>

definition touches :: "fsys \<Rightarrow> fsys \<Rightarrow> string \<Rightarrow> bool" where
  "touches s s' p \<longleftrightarrow> (\<exists>v. s' = s\<lparr>fs_node := (fs_node s)(p := v)\<rparr>)"

definition resolves_in :: "string \<Rightarrow> fsys \<Rightarrow> string \<Rightarrow> bool" where
  "resolves_in data_dir s p \<longleftrightarrow> (\<exists>n. n \<noteq> [] \<and> SLASH \<notin> set n \<and> fs_canonical s (path_append data_dir n) = Some p)"

lemma write_touches: "ofstream_write p c s = s \<or> (\<exists>q. fs_canonical s p = Some q \<and> touches s (ofstream_write p c s) q)"
  by (auto simp: ofstream_write_def weakly_canonical_def touches_def split: option.splits)

lemma remove_touches: "snd (fs_remove p s) = s \<or> (\<exists>q. fs_canonical s p = Some q \<and> touches s (snd (fs_remove p s)) q)"
  by (auto simp: fs_remove_def fs_status_def weakly_canonical_def touches_def split: option.splits)

lemma match_file_name: "match_file_re path = Some n \<Longrightarrow> n \<noteq> [] \<and> SLASH \<notin> set n"
  by (auto simp: match_file_re_def Let_def split: if_splits)

lemma reading_keeps: "snd (rest_options req res s) = s" "snd (rest_list d req res s) = s" "snd (rest_get d req res s) = s" "snd (rest_root page req res s) = s"
  by (simp_all add: rest_options_def rest_list_def rest_get_def rest_root_def Let_def split: sum.splits option.splits bool.splits)

lemma rest_post_touches: "snd (rest_post d req res s) = s \<or> (\<exists>p. resolves_in d s p \<and> touches s (snd (rest_post d req res s)) p)"
proof -
  define n c where "n = parse_json_field (req_body req) ''filename''" and "c = parse_json_field (req_body req) ''content''"
  show ?thesis
  proof (cases "snd (rest_post d req res s) = s")
    case False
    then have "n \<noteq> []" "SLASH \<notin> set n" "snd (rest_post d req res s) = ofstream_write (path_append d n) c s"
      by (auto simp: rest_post_def Let_def n_def c_def find_char_None split: if_splits sum.splits bool.splits)
    with write_touches[of "path_append d n" c s] False show ?thesis by (auto simp: resolves_in_def)
  qed simp
qed

text \<open>An update or a deletion goes to a resolved name, which resolves to itself.\<close>

definition stable_names :: "fsys \<Rightarrow> bool" where
  "stable_names s \<longleftrightarrow> (\<forall>p q. fs_canonical s p = Some q \<longrightarrow> fs_canonical s q = Some q)"

lemma rest_put_touches:
  assumes "stable_names s"
  shows "snd (rest_put d req res s) = s \<or> (\<exists>p. resolves_in d s p \<and> touches s (snd (rest_put d req res s)) p)"
proof (cases "snd (rest_put d req res s) = s")
  case False
  then obtain n norm where n: "match_file_re (req_path req) = Some n" "fs_canonical s (path_append d n) = Some norm"
      "snd (rest_put d req res s) = ofstream_write norm (parse_json_field (req_body req) ''content'') s"
    by (auto simp: rest_put_def Let_def weakly_canonical_def split: option.splits if_splits sum.splits bool.splits)
  with write_touches[of norm "parse_json_field (req_body req) ''content''" s] False assms match_file_name[OF n(1)]
  show ?thesis by (auto simp: resolves_in_def stable_names_def)
qed simp

lemma rest_delete_touches:
  assumes "stable_names s"
  shows "snd (rest_delete d req res s) = s \<or> (\<exists>p. resolves_in d s p \<and> touches s (snd (rest_delete d req res s)) p)"
proof (cases "snd (rest_delete d req res s) = s")
  case False
  then obtain n norm where n: "match_file_re (req_path req) = Some n" "fs_canonical s (path_append d n) = Some norm"
      "snd (rest_delete d req res s) = snd (fs_remove norm s)"
    by (auto simp: rest_delete_def Let_def weakly_canonical_def split: option.splits if_splits sum.splits bool.splits prod.splits)
  with remove_touches[of norm s] False assms match_file_name[OF n(1)]
  show ?thesis by (auto simp: resolves_in_def stable_names_def)
qed simp

lemma rest_serve_touches:
  assumes "stable_names s" "rest_serve data_dir page req s = (res, s')"
  shows "s' = s \<or> req_method req \<in> {''POST'', ''PUT'', ''DELETE''} \<and> (\<exists>p. resolves_in data_dir s p \<and> touches s s' p)"
proof (cases "s' = s")
  case False
  then obtain meth pattern h path where h: "find (handler_applies path req) (rest_handlers data_dir page) = Some (meth, pattern, h)"
      "s' = snd (h req HttpResponse_init s)"
    using assms(2) by (auto simp: rest_serve_def rest_effect_def split: option.splits if_splits)
  from h(1) have "(meth, pattern, h) \<in> set (rest_handlers data_dir page)" "handler_applies path req (meth, pattern, h)"
    by (auto simp: find_Some_iff)
  with h(2) False show ?thesis
    using rest_post_touches[of data_dir req HttpResponse_init s] rest_put_touches[OF assms(1), of data_dir req HttpResponse_init]
      rest_delete_touches[OF assms(1), of data_dir req HttpResponse_init]
    by (auto simp: rest_handlers_def handler_applies_def reading_keeps)
qed simp

text \<open>A file is only disclosed when its resolved name lies inside the resolved data directory.\<close>

lemma rest_get_discloses_inside:
  assumes "fs_canonical s data_dir = Some root" "no_dots root"
    and g: "rest_get data_dir req HttpResponse_init s = ((res, False), s')" and ok: "status_code res = 200"
  shows "\<exists>n p c. fs_canonical s (path_append data_dir n) = Some p \<and> inside root p \<and> fs_is_regular_file s p = Inr True \<and>
    res_body res = file_json n (ifstream_content s p) c"
proof -
  have code: "status_code (json_status k t r) = k" for k t r by (simp add: json_status_def json_def setContentType_def)
  from g ok obtain n p c where "fs_canonical s (path_append data_dir n) = Some p" "lexically_relative p root \<noteq> []"
      "\<not> prefix ''..'' (lexically_relative p root)" "fs_is_regular_file s p = Inr True" "res_body res = file_json n (ifstream_content s p) c"
    using assms(1) by (auto simp: rest_get_def Let_def weakly_canonical_def code json_def setContentType_def
        split: option.splits if_splits sum.splits bool.splits)
  with relative_inside[OF assms(2)] show ?thesis by blast
qed

text \<open>The list: an entry for each regular file, in the order of the directory.\<close>

definition entry_json :: "fsys \<Rightarrow> string \<Rightarrow> string \<Rightarrow> string" where
  "entry_json s dir n = (let p = path_append dir n in
     ''{\"name\":\"'' @ escape_json_string n @ ''\",\"size\":'' @ nat_to_string (case fs_file_size s p of Inr sz \<Rightarrow> sz | Inl _ \<Rightarrow> 0) @
     '',\"modified\":'' @ to_string (the (fs_mtime s p)) @ ''}'')"

lemma regular_has_size: "fs_is_regular_file s p = Inr True \<Longrightarrow> \<exists>sz. fs_file_size s p = Inr sz"
  by (auto simp: file_ops split: sum.splits option.splits node.splits)

lemma list_entries_regular:
  assumes "\<forall>n \<in> set names. (\<exists>b. fs_is_regular_file s (path_append dir n) = Inr b) \<and> fs_mtime s (path_append dir n) \<noteq> None"
  defines "files \<equiv> filter (\<lambda>n. fs_is_regular_file s (path_append dir n) = Inr True) names"
  shows "list_entries s dir first_entry names = Inr (if files = [] then []
    else (if first_entry then [] else '','') @ join_on (CHR '','') (map (entry_json s dir) files))"
  using assms(1) unfolding files_def
proof (induction names arbitrary: first_entry)
  case (Cons n names)
  then obtain b t where b: "fs_is_regular_file s (path_append dir n) = Inr b" "fs_mtime s (path_append dir n) = Some t" by auto
  show ?case
  proof (cases b)
    case True
    then obtain sz where "fs_file_size s (path_append dir n) = Inr sz" using regular_has_size b by auto
    with True b Cons show ?thesis
      by (cases "filter (\<lambda>n. fs_is_regular_file s (path_append dir n) = Inr True) names") (simp_all add: entry_json_def Let_def)
  qed (use b Cons in \<open>simp add: Let_def\<close>)
qed simp

section \<open>Where the checks are too weak\<close>

text \<open>
  A link in the data directory to a place whose name begins like the directory's: the update follows it and overwrites the file there, while the read is refused. The check of the update compares strings, the one of the read
  compares elements.
\<close>

definition link_disk :: fsys where
  "link_disk = demo_disk\<lparr>
     fs_node := \<lambda>p. if p = ''/srv/data'' then Some Directory else if p = ''/srv/data-old/x'' then Some (RegularFile ''keep'') else None,
     fs_canonical := \<lambda>p. if p = ''/srv/data/x'' then Some ''/srv/data-old/x'' else if p = ''/srv/data/.'' then Some ''/srv/data'' else Some p\<rparr>"

definition link_update :: HttpRequest where
  "link_update = api_request ''PUT'' ''/api/files/x'' (update_body ''gone'')"

lemma link_update_result:
  "rest_put ''/srv/data'' link_update HttpResponse_init (link_disk\<lparr>fs_may_write := w\<rparr>) =
     ((json (change_json ''x'' (Some (length ''gone'')) ''File updated successfully'') (add_cors_headers HttpResponse_init), False),
      ofstream_write ''/srv/data-old/x'' ''gone'' (link_disk\<lparr>fs_may_write := w\<rparr>))"
proof -
  have "match_file_re ''/api/files/x'' = Some ''x''" "parse_json_field (update_body ''gone'') ''content'' = ''gone''"
    "path_append ''/srv/data'' ''x'' = ''/srv/data/x''" "prefix ''/srv/data'' ''/srv/data-old/x''"
    by (code_simp, simp add: update_body_content QUOTE_def, code_simp, code_simp)
  then show ?thesis
    by (simp add: rest_put_def link_update_def api_request_def Let_def weakly_canonical_def fs_exists_def fs_status_def link_disk_def demo_disk_def)
qed

lemma update_escapes_data_dir:
  "(let ((res, threw), s') = rest_put ''/srv/data'' link_update HttpResponse_init link_disk in
      answer_view (finish_response res) = (200, change_json ''x'' (Some 4) ''File updated successfully'') \<and> \<not> threw \<and>
      fs_node s' ''/srv/data-old/x'' = Some (RegularFile ''gone'')) \<and>
   status_code (fst (fst (rest_get ''/srv/data'' (api_request ''GET'' ''/api/files/x'' []) HttpResponse_init link_disk))) = 403 \<and>
   \<not> inside ''/srv/data'' ''/srv/data-old/x''"
proof -
  have w: "link_disk\<lparr>fs_may_write := \<lambda>_. True\<rparr> = link_disk" by (simp add: link_disk_def demo_disk_def)
  have "fs_node (ofstream_write ''/srv/data-old/x'' ''gone'' link_disk) ''/srv/data-old/x'' = Some (RegularFile ''gone'')" by code_simp
  moreover have "status_code (fst (fst (rest_get ''/srv/data'' (api_request ''GET'' ''/api/files/x'' []) HttpResponse_init link_disk))) = 403" by code_simp
  moreover have "\<not> inside ''/srv/data'' ''/srv/data-old/x''" by code_simp
  ultimately show ?thesis using link_update_result[of "\<lambda>_. True"] by (simp add: w json_view eval_nat_numeral)
qed

text \<open>An update of a file that may not be written is reported as done.\<close>

lemma update_unwritable_reported:
  "(let ((res, threw), s') = rest_put ''/srv/data'' link_update HttpResponse_init (link_disk\<lparr>fs_may_write := \<lambda>_. False\<rparr>) in
      answer_view (finish_response res) = (200, change_json ''x'' (Some 4) ''File updated successfully'') \<and> \<not> threw \<and>
      s' = link_disk\<lparr>fs_may_write := \<lambda>_. False\<rparr>)"
  using link_update_result[of "\<lambda>_. False"]
  by (simp add: json_view eval_nat_numeral ofstream_write_def weakly_canonical_def split: option.splits)

text \<open>A deletion of the name of one dot removes the data directory itself, if it is empty.\<close>

lemma delete_removes_data_dir:
  "(let ((res, threw), s') = rest_delete ''/srv/data'' (api_request ''DELETE'' ''/api/files/.'' []) HttpResponse_init link_disk in
      answer_view (finish_response res) = (200, change_json ''.'' None ''File deleted successfully'') \<and> \<not> threw \<and> fs_node s' ''/srv/data'' = None)"
proof -
  have "match_file_re ''/api/files/.'' = Some ''.''" "path_append ''/srv/data'' ''.'' = ''/srv/data/.''" by code_simp+
  then show ?thesis
    by (simp add: rest_delete_def api_request_def Let_def weakly_canonical_def fs_exists_def fs_status_def fs_remove_def json_view link_disk_def demo_disk_def)
qed

end
